(* ===== verification/Prelude.thy ===== *)
theory Prelude
  imports Main "HOL-Library.Word" "HOL-Library.Multiset"
begin

text \<open>
  Shared vocabulary of the development: the C integer types of the 32-bit target
  (\<^verbatim>\<open>include/kernel/kint.h\<close>), the result type in which every panic, failed assertion,
  endless loop and out-of-range access of the code is a value, the C helpers \<open>MIN\<close>,
  \<open>PAD\<close>, \<open>IDIV_CEIL\<close>, checked array access, and the generic list and word lemmas the
  component theories use.
\<close>

unbundle bit_operations_syntax

section \<open>C integer types\<close>

text \<open>\<open>uchar\<close>, \<open>ushort\<close>, \<open>uint\<close> (and \<open>size_t\<close>, which is 32 bits on the target).\<close>

type_synonym u8 = "8 word"
type_synonym u16 = "16 word"
type_synonym u32 = "32 word"

section \<open>Faults\<close>

text \<open>
  What can go wrong in a call: \<open>kpanic\<close> and a failed \<open>kassert\<close> stop the kernel with a
  message; reading or writing an array outside its bounds and following a null pointer are
  undefined in C; a division by zero traps; \<open>Hang\<close> is a loop that never ends.
\<close>

datatype fault = Panic string | OutOfBounds | NullDeref | DivByZero | Hang

type_synonym 'a res = "fault + 'a"

definition kassert :: "bool \<Rightarrow> string \<Rightarrow> unit res" where
  "kassert c msg = (if c then Inr () else Inl (Panic msg))"

definition res_bind :: "'a res \<Rightarrow> ('a \<Rightarrow> 'b res) \<Rightarrow> 'b res" where
  "res_bind m f = (case m of Inl e \<Rightarrow> Inl e | Inr x \<Rightarrow> f x)"

lemma res_bind_simps [simp]:
  "res_bind (Inl e) f = Inl e"
  "res_bind (Inr x) f = f x"
  by (simp_all add: res_bind_def)

lemma res_bind_eq_Inr: "res_bind m f = Inr y \<longleftrightarrow> (\<exists>x. m = Inr x \<and> f x = Inr y)"
  by (cases m) auto

lemma res_bind_cong [fundef_cong]:
  assumes "m = m'" and "\<And>x. m' = Inr x \<Longrightarrow> f x = g x"
  shows "res_bind m f = res_bind m' g"
  using assms by (cases m') auto

lemma res_bind_assoc: "res_bind (res_bind m f) g = res_bind m (\<lambda>x. res_bind (f x) g)"
  by (cases m) auto

lemma kassert_simps [simp]:
  "kassert True msg = Inr ()"
  "kassert False msg = Inl (Panic msg)"
  by (simp_all add: kassert_def)

section \<open>Checked array access\<close>

text \<open>An index outside the array is the fault \<open>OutOfBounds\<close>, never a made-up value.\<close>

definition arr_get :: "'a list \<Rightarrow> int \<Rightarrow> 'a res" where
  "arr_get xs i = (if 0 \<le> i \<and> i < int (length xs) then Inr (xs ! nat i) else Inl OutOfBounds)"

definition arr_set :: "'a list \<Rightarrow> int \<Rightarrow> 'a \<Rightarrow> 'a list res" where
  "arr_set xs i x = (if 0 \<le> i \<and> i < int (length xs) then Inr (xs[nat i := x]) else Inl OutOfBounds)"

lemma arr_get_nat [simp]:
  "i < length xs \<Longrightarrow> arr_get xs (int i) = Inr (xs ! i)"
  "\<not> i < length xs \<Longrightarrow> arr_get xs (int i) = Inl OutOfBounds"
  by (simp_all add: arr_get_def)

lemma arr_set_nat [simp]:
  "i < length xs \<Longrightarrow> arr_set xs (int i) x = Inr (xs[i := x])"
  "\<not> i < length xs \<Longrightarrow> arr_set xs (int i) x = Inl OutOfBounds"
  by (simp_all add: arr_set_def)

lemma arr_get_in: "0 \<le> i \<Longrightarrow> i < int (length xs) \<Longrightarrow> arr_get xs i = Inr (xs ! nat i)"
  by (simp add: arr_get_def)

text \<open>An unsigned word as the index.\<close>

lemma arr_get_uint:
  "arr_get xs (uint (w :: 'a::len word)) = (if unat w < length xs then Inr (xs ! unat w) else Inl OutOfBounds)"
  by (metis arr_get_nat of_nat_unat)

lemma arr_set_uint:
  "arr_set xs (uint (w :: 'a::len word)) x = (if unat w < length xs then Inr (xs[unat w := x]) else Inl OutOfBounds)"
  by (metis arr_set_nat of_nat_unat)

section \<open>The macros of kint.h\<close>

definition PAD :: "u32 \<Rightarrow> u32" where
  "PAD num = (num + 3) AND NOT 3"

definition IDIV_CEIL :: "u32 \<Rightarrow> u32 \<Rightarrow> u32" where
  "IDIV_CEIL num den = (num + (den - 1)) div den"

section \<open>Lists\<close>

lemma mset_take_update:
  assumes "i < n" and "n \<le> length xs"
  shows "mset (take n (xs[i := x])) = mset (take n xs) - {#xs ! i#} + {#x#}"
proof -
  have "mset ((take n xs)[i := x]) = add_mset x (mset (take n xs) - {#take n xs ! i#})"
    using assms by (intro mset_update) simp
  then show ?thesis using assms by (simp add: take_update_swap)
qed

lemma mset_take_swap:
  assumes "i < n" and "j < n" and "n \<le> length xs"
  shows "mset (take n (xs[i := xs ! j, j := xs ! i])) = mset (take n xs)"
proof -
  have "mset ((take n xs)[i := take n xs ! j, j := take n xs ! i]) = mset (take n xs)"
    using assms by (intro mset_swap) simp_all
  then show ?thesis using assms by (simp add: take_update_swap)
qed

section \<open>Words\<close>

lemma sint_eq_unat: 
  assumes "unat (w :: u32) < 2 ^ 31"
  shows "sint w = int (unat w)"
proof -
  have u: "uint w < 2^31" using assms by (metis of_nat_less_iff of_nat_numeral of_nat_power of_nat_unat)
  have "0 \<le> uint w" by simp
  then have "- (2^31) \<le> uint w" by (rule order.trans[rotated]) simp
  then have "signed_take_bit 31 (uint w) = uint w"
    using u by (rule signed_take_bit_int_eq_self)
  then have "sint w = uint w" by (simp add: sint_uint)
  also have "uint w = int (unat w)" by (rule of_nat_unat[symmetric])
  finally show ?thesis .
qed
lemma unat_plus_one: "unat (w :: 'a::len word) + 1 < 2 ^ LENGTH('a) \<Longrightarrow> unat (w + 1) = Suc (unat w)"
  by (simp add: unat_word_ariths)

lemma unat_minus_one_pos: "0 < unat (w :: 'a::len word) \<Longrightarrow> unat (w - 1) = unat w - 1"
  by (rule unat_minus_one) auto

text \<open>C's signed \<open>char\<close>.\<close>

lemma sint_u8: "sint (c :: u8) = (if unat c < 128 then int (unat c) else int (unat c) - 256)"
proof -
  obtain k where k: "unat c = k" "uint c = int k" by (metis of_nat_unat)
  have "uint c < 2 ^ 8" using uint_lt2p[of c] by simp
  then have lt: "k < 256" using k by simp
  have s: "sint c = (int k + 128) mod 256 - 128"
    by (simp add: sint_uint signed_take_bit_eq_take_bit_shift take_bit_eq_mod k)
  show ?thesis
  proof (cases "k < 128")
    case True
    then show ?thesis unfolding s k by simp
  next
    case False
    have "(int k - 128) mod 256 = int k - 128" using False lt by (intro mod_pos_pos_trivial) auto
    moreover have "(int k + 128) mod 256 = (int k - 128) mod 256"
      using mod_add_self2[of "int k - 128" 256] by (simp add: add.commute)
    ultimately show ?thesis using False unfolding s k by simp
  qed
qed

lemma scast_u8_low: 
  assumes "unat (c::u8) < 128"
  shows "(scast c :: u32) = of_nat (unat c)"
  using assms by (simp only: scast_eq sint_u8 if_True of_int_of_nat_eq)

lemma u8_bit7: "bit (c :: u8) 7 \<longleftrightarrow> 128 \<le> unat c"
proof -
  have "unat c < 2 ^ LENGTH(8)" by (rule unsigned_less)
  then have u: "unat c < 256" by simp
  have "bit c 7 \<longleftrightarrow> odd (unat c div 2 ^ 7)"
    using bit_unsigned_iff[of c 7] by (metis bit_iff_odd bit_unsigned_iff possible_bit_nat)
  also have "\<dots> \<longleftrightarrow> 128 \<le> unat c"
  proof (cases "128 \<le> unat c")
    case True
    then have "unat c div 2 ^ 7 = 1" using u by (simp add: div_nat_eqI)
    then show ?thesis using True by simp
  next
    case False
    then show ?thesis by simp
  qed
  finally show ?thesis .
qed

end
