(* ===== verification/Kheap.thy ===== *)
theory Kheap
  imports Prelude
begin

text \<open>
  The binary min-heap of free gaps behind the kernel's \<open>malloc\<close>
  (\<^verbatim>\<open>src/kernel/x86_32/kheap.c\<close>, \<^verbatim>\<open>kheap.h\<close>): its state, one definition per C function,
  the heap order as an invariant, and the contract of a priority queue that insertion and
  deletion of the root implement. Array accesses are checked, so a theorem that an
  operation returns also says that it stays inside \<open>elements\<close>.
\<close>

section \<open>State\<close>

definition HEAP_SIZE :: nat where
  "HEAP_SIZE = 4096"

record heap_entry =
  key :: u32
  address :: u32

record min_heap =
  elements :: "heap_entry list"
  size_of :: u32

text \<open>\<open>heap->size\<close> read as the C \<open>int\<close> that \<open>heap_sort\<close> copies it into.\<close>

definition int_size :: "min_heap \<Rightarrow> int" where
  "int_size heap = sint (size_of heap)"

section \<open>Operations\<close>

definition swap_entries :: "heap_entry list \<Rightarrow> int \<Rightarrow> int \<Rightarrow> heap_entry list res" where
  "swap_entries e a b =
     res_bind (arr_get e a) (\<lambda>tmp.
     res_bind (arr_get e b) (\<lambda>eb.
     res_bind (arr_set e a eb) (\<lambda>e1.
     arr_set e1 b tmp)))"

text \<open>Division of the C \<open>int\<close> \<open>i - 1\<close> truncates: the parent of 0 is 0.\<close>

definition heap_parent :: "nat \<Rightarrow> nat" where
  "heap_parent i = (i - 1) div 2"

definition heap_left :: "nat \<Rightarrow> nat" where
  "heap_left i = 2 * i + 1"

definition heap_right :: "nat \<Rightarrow> nat" where
  "heap_right i = 2 * i + 2"

text \<open>One comparison of \<open>heap_sort\<close>: \<open>if (c < size && e[c].key < e[s].key) s = c\<close>.\<close>

definition pick_smaller :: "heap_entry list \<Rightarrow> int \<Rightarrow> nat \<Rightarrow> nat \<Rightarrow> nat res" where
  "pick_smaller e sz s c =
     (if int c < sz then
        res_bind (arr_get e (int c)) (\<lambda>ec.
        res_bind (arr_get e (int s)) (\<lambda>es.
        Inr (if key ec < key es then c else s)))
      else Inr s)"

lemma pick_smaller_cases: "pick_smaller e sz s c = Inr m \<Longrightarrow> m = s \<or> m = c \<and> int c < sz"
  by (auto simp: pick_smaller_def res_bind_eq_Inr split: if_splits)

function heap_sort_elems :: "heap_entry list \<Rightarrow> int \<Rightarrow> nat \<Rightarrow> heap_entry list res" where
  "heap_sort_elems e sz i =
     (let l = heap_left i; r = heap_right i in
      res_bind (pick_smaller e sz i l) (\<lambda>s1.
      res_bind (pick_smaller e sz s1 r) (\<lambda>smallest.
      if smallest \<noteq> i
      then res_bind (swap_entries e (int i) (int smallest)) (\<lambda>e'.
           heap_sort_elems e' sz smallest)
      else Inr e)))"
  by pat_completeness auto
termination
  by (relation "measure (\<lambda>(e, sz, i). nat (sz - int i))")
    (auto dest!: pick_smaller_cases simp: heap_left_def heap_right_def)

declare heap_sort_elems.simps [simp del]

definition heap_sort :: "min_heap \<Rightarrow> nat \<Rightarrow> min_heap res" where
  "heap_sort heap i =
     res_bind (heap_sort_elems (elements heap) (int_size heap) i) (\<lambda>e.
     Inr (heap\<lparr>elements := e\<rparr>))"

text \<open>
  A heap of size 1 is not finished by the second test: its size becomes 0, and then
  \<open>--heap->size\<close> wraps around.
\<close>

definition heap_delete_root :: "min_heap \<Rightarrow> min_heap res" where
  "heap_delete_root heap =
     (if size_of heap \<le> 0 then Inr heap
      else
        let h1 = (if size_of heap = 1 then heap\<lparr>size_of := size_of heap - 1\<rparr> else heap);
            h2 = h1\<lparr>size_of := size_of h1 - 1\<rparr> in
        res_bind (arr_get (elements h2) (uint (size_of h2))) (\<lambda>last.
        res_bind (arr_set (elements h2) 0 last) (\<lambda>e.
        heap_sort (h2\<lparr>elements := e\<rparr>) 0)))"

text \<open>
  The loop of \<open>heap_decrease\<close> and of \<open>heap_insert\<close>: while the parent's key is greater
  than \<open>k\<close>, swap with the parent. \<open>heap_decrease\<close> keeps \<open>k\<close> in an \<open>int\<close>, but C
  compares it with the unsigned key after converting it back.
\<close>

function sift_up :: "heap_entry list \<Rightarrow> nat \<Rightarrow> u32 \<Rightarrow> heap_entry list res" where
  "sift_up e i k =
     (if i = 0 then Inr e
      else res_bind (arr_get e (int (heap_parent i))) (\<lambda>p.
        if key p > k
        then res_bind (swap_entries e (int i) (int (heap_parent i))) (\<lambda>e'.
             sift_up e' (heap_parent i) k)
        else Inr e))"
  by pat_completeness auto
termination
  by (relation "measure (\<lambda>(e, i, k). i)") (auto simp: heap_parent_def)

declare sift_up.simps [simp del]

text \<open>The index is a C \<open>int\<close>: \<open>heap_entry_index\<close> returns -1 for an absent entry.\<close>

definition heap_decrease :: "min_heap \<Rightarrow> int \<Rightarrow> heap_entry \<Rightarrow> min_heap res" where
  "heap_decrease heap i to =
     res_bind (arr_set (elements heap) i to) (\<lambda>e.
     res_bind (sift_up e (nat i) (key to)) (\<lambda>e'.
     Inr (heap\<lparr>elements := e'\<rparr>)))"

definition heap_delete :: "min_heap \<Rightarrow> int \<Rightarrow> min_heap res" where
  "heap_delete heap i =
     res_bind (heap_decrease heap i \<lparr>key = - 1, address = 0\<rparr>) heap_delete_root"

definition heap_insert :: "min_heap \<Rightarrow> heap_entry \<Rightarrow> min_heap res" where
  "heap_insert heap e =
     res_bind (kassert (unat (size_of heap) < HEAP_SIZE) ''Heap overflow!'') (\<lambda>_.
     let i = unat (size_of heap) in
     res_bind (arr_set (elements heap) (int i) e) (\<lambda>es.
     res_bind (sift_up es i (key e)) (\<lambda>es'.
     Inr (heap\<lparr>elements := es', size_of := size_of heap + 1\<rparr>))))"

text \<open>
  The descent shared by \<open>heap_lookup_min\<close> and \<open>heap_entry_index\<close>: from \<open>j\<close>, while
  \<open>j < heap->size\<close> and \<open>go\<close> holds of the key at \<open>j\<close>, step to the smaller child.
\<close>

definition next_child :: "heap_entry list \<Rightarrow> nat \<Rightarrow> nat \<Rightarrow> nat res" where
  "next_child e sz j =
     (let left = heap_left j; right = heap_right j in
      if left \<ge> sz then Inr right
      else if right \<ge> sz then Inr left
      else res_bind (arr_get e (int left)) (\<lambda>el.
           res_bind (arr_get e (int right)) (\<lambda>er.
           Inr (if key el < key er then left else right))))"

lemma next_child_greater: "next_child e sz j = Inr m \<Longrightarrow> j < m"
  by (auto simp: next_child_def heap_left_def heap_right_def Let_def res_bind_eq_Inr
      split: if_splits)

function descend :: "(u32 \<Rightarrow> bool) \<Rightarrow> heap_entry list \<Rightarrow> nat \<Rightarrow> nat \<Rightarrow> nat res" where
  "descend go e sz j =
     (if j < sz then
        res_bind (arr_get e (int j)) (\<lambda>ej.
        if go (key ej) then res_bind (next_child e sz j) (\<lambda>m. descend go e sz m)
        else Inr j)
      else Inr j)"
  by pat_completeness auto
termination
  by (relation "measure (\<lambda>(go, e, sz, j). sz - j)") (auto dest!: next_child_greater)

declare descend.simps [simp del]

text \<open>\<open>*ok\<close> and the returned entry are one option; \<open>*i\<close> is the index beside it.\<close>

definition heap_lookup_min ::
    "min_heap \<Rightarrow> u32 \<Rightarrow> bool \<Rightarrow> ((heap_entry \<times> nat) option \<times> min_heap) res" where
  "heap_lookup_min heap min_key del =
     res_bind (descend (\<lambda>k. k < min_key) (elements heap) (unat (size_of heap)) 0) (\<lambda>j.
     if j < unat (size_of heap) then
       res_bind (arr_get (elements heap) (int j)) (\<lambda>val.
       if del then res_bind (heap_delete heap (int j)) (\<lambda>h'. Inr (Some (val, j), h'))
       else Inr (Some (val, j), heap))
     else Inr (None, heap))"

definition heap_entry_index :: "min_heap \<Rightarrow> heap_entry \<Rightarrow> int res" where
  "heap_entry_index heap e =
     res_bind (descend (\<lambda>k. k \<noteq> key e) (elements heap) (unat (size_of heap)) 0) (\<lambda>i.
     Inr (if i \<ge> unat (size_of heap) then - 1 else int i))"

definition heap_decrease_entry :: "min_heap \<Rightarrow> heap_entry \<Rightarrow> heap_entry \<Rightarrow> min_heap res" where
  "heap_decrease_entry heap from_e to_e =
     res_bind (heap_entry_index heap from_e) (\<lambda>i. heap_decrease heap i to_e)"

definition heap_delete_entry :: "min_heap \<Rightarrow> heap_entry \<Rightarrow> min_heap res" where
  "heap_delete_entry heap e =
     res_bind (heap_entry_index heap e) (\<lambda>i. heap_delete heap i)"

section \<open>Heap order\<close>

text \<open>
  \<open>ordered e n\<close>: among the first \<open>n\<close> entries no key is smaller than its parent's.
  \<open>ordered_up\<close> and \<open>ordered_down\<close> allow one exception at \<open>i\<close>, which the two loops move
  towards the root and towards the leaves.
\<close>

definition heap_len :: "min_heap \<Rightarrow> nat" where
  "heap_len heap = unat (size_of heap)"

definition heap_wf :: "min_heap \<Rightarrow> bool" where
  "heap_wf heap \<longleftrightarrow> length (elements heap) = HEAP_SIZE \<and> heap_len heap \<le> HEAP_SIZE"

definition ordered :: "heap_entry list \<Rightarrow> nat \<Rightarrow> bool" where
  "ordered e n \<longleftrightarrow> (\<forall>c\<in>{0<..<n}. key (e ! heap_parent c) \<le> key (e ! c))"

definition ordered_up :: "heap_entry list \<Rightarrow> nat \<Rightarrow> nat \<Rightarrow> bool" where
  "ordered_up e n i \<longleftrightarrow>
     (\<forall>c. 0 < c \<and> c < n \<and> c \<noteq> i \<longrightarrow> key (e ! heap_parent c) \<le> key (e ! c)) \<and>
     (\<forall>c. 0 < c \<and> c < n \<and> heap_parent c = i \<and> 0 < i \<longrightarrow>
        key (e ! heap_parent i) \<le> key (e ! c))"

definition ordered_down :: "heap_entry list \<Rightarrow> nat \<Rightarrow> nat \<Rightarrow> bool" where
  "ordered_down e n i \<longleftrightarrow>
     (\<forall>c. 0 < c \<and> c < n \<and> heap_parent c \<noteq> i \<longrightarrow> key (e ! heap_parent c) \<le> key (e ! c)) \<and>
     (\<forall>c. 0 < c \<and> c < n \<and> heap_parent c = i \<and> 0 < i \<longrightarrow>
        key (e ! heap_parent i) \<le> key (e ! c))"

lemma heap_parent_less: "0 < i \<Longrightarrow> heap_parent i < i"
  by (simp add: heap_parent_def)

lemma heap_children:
  "0 < c \<Longrightarrow> heap_parent c = i \<longleftrightarrow> c = heap_left i \<or> c = heap_right i"
  by (auto simp: heap_parent_def heap_left_def heap_right_def)

lemma swap_entries_Inr:
  assumes "a < length e" and "b < length e"
  shows "swap_entries e (int a) (int b) = Inr (e[a := e ! b, b := e ! a])"
  using assms by (simp add: swap_entries_def)

lemma swap_nth:
  assumes "a < length e" "b < length e"
  shows "e[a := e ! b, b := e ! a] ! c = (if c = b then e ! a else if c = a then e ! b else e ! c)"
  using assms by (auto simp: nth_list_update)

lemma ordered_up_swap:
  assumes up: "ordered_up e n i" and i: "0 < i" "i < n" "n \<le> length e"
    and gt: "key (e ! i) < key (e ! heap_parent i)"
  shows "ordered_up (e[i := e ! heap_parent i, heap_parent i := e ! i]) n (heap_parent i)"
proof -
  define p where "p = heap_parent i"
  define e' where "e' = e[i := e ! p, p := e ! i]"
  have pi: "p < i" using i by (simp add: p_def heap_parent_less)
  have nth: "e' ! c = (if c = p then e ! i else if c = i then e ! p else e ! c)" for c
    unfolding e'_def using i pi by (intro swap_nth) auto
  have o: "key (e ! heap_parent c) \<le> key (e ! c)" if "0 < c" "c < n" "c \<noteq> i" for c
    using that up by (auto simp: ordered_up_def)
  have g: "key (e ! p) \<le> key (e ! c)" if "0 < c" "c < n" "heap_parent c = i" for c
    using that up i by (auto simp: ordered_up_def p_def)
  have "ordered_up e' n p"
    unfolding ordered_up_def
  proof (intro conjI allI impI; elim conjE)
    fix c assume c: "0 < c" "c < n" "c \<noteq> p"
    show "key (e' ! heap_parent c) \<le> key (e' ! c)"
      using c o[of c] g[of c] gt pi heap_parent_less[of c]
      by (cases "c = i") (auto simp: nth p_def[symmetric] intro: less_imp_le order.trans)
  next
    fix c assume c: "0 < c" "c < n" "heap_parent c = p" "0 < p"
    have "heap_parent p \<noteq> i" and "heap_parent p \<noteq> p" using pi heap_parent_less[of p] c by auto
    then show "key (e' ! heap_parent p) \<le> key (e' ! c)"
      using c o[of c] o[of p] gt pi i
      by (cases "c = i") (auto simp: nth intro: order.trans)
  qed
  then show ?thesis by (simp add: e'_def p_def)
qed

lemma ordered_up_done:
  assumes "ordered_up e n i" and "0 < i \<Longrightarrow> key (e ! heap_parent i) \<le> key (e ! i)"
  shows "ordered e n"
  using assms by (auto simp: ordered_up_def ordered_def)

lemma sift_up_ordered:
  assumes "i < n" "n \<le> length e" "key (e ! i) = k" "ordered_up e n i"
  shows "\<exists>e'. sift_up e i k = Inr e' \<and> ordered e' n \<and> length e' = length e \<and>
    mset (take n e') = mset (take n e) \<and> drop n e' = drop n e"
  using assms
proof (induction e i k rule: sift_up.induct)
  case (1 e i k)
  let ?p = "heap_parent i"
  show ?case
  proof (cases "0 < i \<and> key (e ! ?p) > k")
    case False
    then show ?thesis
      using 1 ordered_up_done[of e n i]
      by (subst (1) sift_up.simps) (auto simp: heap_parent_def)
  next
    case True
    then have pi: "?p < i" by (simp add: heap_parent_less)
    let ?e = "e[i := e ! ?p, ?p := e ! i]"
    have sw: "swap_entries e (int i) (int ?p) = Inr ?e"
      using 1 pi by (intro swap_entries_Inr) auto
    have "ordered_up ?e n ?p"
      using 1 True by (intro ordered_up_swap) auto
    then have "\<exists>e'. sift_up ?e ?p k = Inr e' \<and> ordered e' n \<and> length e' = length ?e \<and>
        mset (take n e') = mset (take n ?e) \<and> drop n e' = drop n ?e"
      using 1 True sw pi by (intro "1.IH"[of "e ! ?p"]) auto
    moreover have "mset (take n ?e) = mset (take n e)"
      using 1 pi by (intro mset_take_swap) auto
    moreover have "drop n ?e = drop n e"
      using 1 pi by simp
    moreover have "sift_up e i k = sift_up ?e ?p k"
      using 1 True pi sw by (subst sift_up.simps) auto
    ultimately show ?thesis by simp
  qed
qed

lemma ordered_down_done:
  assumes "ordered_down e n i"
    and "\<And>c. 0 < c \<Longrightarrow> c < n \<Longrightarrow> heap_parent c = i \<Longrightarrow> key (e ! i) \<le> key (e ! c)"
  shows "ordered e n"
  using assms unfolding ordered_down_def ordered_def by (metis greaterThanLessThan_iff)

lemma ordered_down_swap:
  assumes down: "ordered_down e n i" and m: "0 < m" "heap_parent m = i" "m < n" "n \<le> length e"
    and least: "\<And>c. 0 < c \<Longrightarrow> c < n \<Longrightarrow> heap_parent c = i \<Longrightarrow> key (e ! m) \<le> key (e ! c)"
    and less: "key (e ! m) < key (e ! i)"
  shows "ordered_down (e[i := e ! m, m := e ! i]) n m"
proof -
  define e' where "e' = e[i := e ! m, m := e ! i]"
  have im: "i < m" using m heap_parent_less by blast
  have nth: "e' ! c = (if c = m then e ! i else if c = i then e ! m else e ! c)" for c
    unfolding e'_def using m im by (intro swap_nth) auto
  have o: "key (e ! heap_parent c) \<le> key (e ! c)" if "0 < c" "c < n" "heap_parent c \<noteq> i" for c
    using that down by (auto simp: ordered_down_def)
  have g: "key (e ! heap_parent i) \<le> key (e ! c)"
    if "0 < c" "c < n" "heap_parent c = i" "0 < i" for c
    using that down by (auto simp: ordered_down_def)
  have "ordered_down e' n m"
    unfolding ordered_down_def
  proof (intro conjI allI impI; elim conjE)
    fix c assume c: "0 < c" "c < n" "heap_parent c \<noteq> m"
    show "key (e' ! heap_parent c) \<le> key (e' ! c)"
      using c o[of c] g[of m] least[of c] less m im heap_parent_less[of c] heap_parent_less[of i]
      by (cases "heap_parent c = i"; cases "c = i") (auto simp: nth intro: less_imp_le)
  next
    fix c assume c: "0 < c" "c < n" "heap_parent c = m" "0 < m"
    then show "key (e' ! heap_parent m) \<le> key (e' ! c)"
      using o[of c] m im heap_parent_less[of c] by (auto simp: nth)
  qed
  then show ?thesis by (simp add: e'_def)
qed

lemma pick_smaller_Inr:
  assumes "n \<le> length e" "s < length e"
  shows "pick_smaller e (int n) s c =
    Inr (if c < n \<and> key (e ! c) < key (e ! s) then c else s)"
  using assms by (auto simp: pick_smaller_def)

lemma sift_down_Inr:
  assumes "sz = int n" "i < length e" "n \<le> length e"
  shows "\<exists>e'. heap_sort_elems e sz i = Inr e' \<and> (ordered_down e n i \<longrightarrow> ordered e' n) \<and> length e' = length e \<and>
    mset (take n e') = mset (take n e)"
  using assms
proof (induction e sz i rule: heap_sort_elems.induct)
  case (1 e sz i)
  define s1 where "s1 = (if heap_left i < n \<and> key (e ! heap_left i) < key (e ! i) then heap_left i else i)"
  define m where "m = (if heap_right i < n \<and> key (e ! heap_right i) < key (e ! s1) then heap_right i else s1)"
  have p1: "pick_smaller e sz i (heap_left i) = Inr s1"
    using 1 by (simp add: pick_smaller_Inr s1_def)
  have s1: "s1 < length e" using 1 by (auto simp: s1_def)
  have p2: "pick_smaller e sz s1 (heap_right i) = Inr m"
    using 1 s1 by (simp add: pick_smaller_Inr m_def)
  show ?case
  proof (cases "m = i")
    case True
    have "ordered e n" if "ordered_down e n i"
      using that
    proof (rule ordered_down_done)
      fix c assume "0 < c" "c < n" "heap_parent c = i"
      then show "key (e ! i) \<le> key (e ! c)"
        using True heap_children[of c i]
        by (auto simp: m_def s1_def heap_left_def heap_right_def split: if_splits)
    qed
    with True p1 p2 show ?thesis by (subst heap_sort_elems.simps) (simp add: Let_def)
  next
    case False
    have m: "0 < m" "heap_parent m = i" "m < n" "key (e ! m) < key (e ! i)" "i < m"
      using False by (auto simp: m_def s1_def heap_left_def heap_right_def heap_parent_def
          split: if_splits)
    have least: "key (e ! m) \<le> key (e ! c)" if "0 < c" "c < n" "heap_parent c = i" for c
      using that heap_children[of c i] by (auto simp: m_def s1_def split: if_splits)
    let ?e = "e[i := e ! m, m := e ! i]"
    have sw: "swap_entries e (int i) (int m) = Inr ?e"
      using 1 m by (intro swap_entries_Inr) auto
    have down: "ordered_down ?e n m" if "ordered_down e n i"
      using that 1 m least by (intro ordered_down_swap) auto
    have "\<exists>e'. heap_sort_elems ?e sz m = Inr e' \<and> (ordered_down ?e n m \<longrightarrow> ordered e' n) \<and> length e' = length ?e \<and>
        mset (take n e') = mset (take n ?e)"
      using 1 m False p1 p2 sw by (intro "1.IH"[OF refl refl p1 p2]) auto
    moreover have "mset (take n ?e) = mset (take n e)"
      using 1 m by (intro mset_take_swap) auto
    moreover have "heap_sort_elems e sz i = heap_sort_elems ?e sz m"
      using False p1 p2 sw by (subst heap_sort_elems.simps) (simp add: Let_def)
    ultimately show ?thesis using down by auto
  qed
qed

lemma ordered_down_root: "ordered e n \<Longrightarrow> 0 < n \<Longrightarrow> ordered_down (e[0 := x]) n 0"
  by (auto simp: ordered_def ordered_down_def heap_parent_def nth_list_update)

lemma ordered_mono: "ordered e n \<Longrightarrow> m \<le> n \<Longrightarrow> ordered e m"
  by (auto simp: ordered_def)

lemma ordered_root_least:
  assumes "ordered e n" "i < n"
  shows "key (e ! 0) \<le> key (e ! i)"
  using assms(2)
proof (induction i rule: less_induct)
  case (less i)
  show ?case
  proof (cases "i = 0")
    case False
    then have "key (e ! heap_parent i) \<le> key (e ! i)" and "heap_parent i < i"
      using assms(1) less.prems by (auto simp: ordered_def heap_parent_less)
    with less show ?thesis by (meson order.trans order.strict_trans)
  qed simp
qed

section \<open>Invariant and abstraction\<close>

definition heap_inv :: "min_heap \<Rightarrow> bool" where
  "heap_inv heap \<longleftrightarrow> heap_wf heap \<and> ordered (elements heap) (heap_len heap)"

definition heap_mset :: "min_heap \<Rightarrow> heap_entry multiset" where
  "heap_mset heap = mset (take (heap_len heap) (elements heap))"

lemma heap_len_less: "heap_wf heap \<Longrightarrow> heap_len heap \<le> 4096"
  by (simp add: heap_wf_def HEAP_SIZE_def)

lemma int_size_wf: "heap_wf heap \<Longrightarrow> int_size heap = int (heap_len heap)"
  using sint_eq_unat[of "size_of heap"] by (simp add: int_size_def heap_wf_def heap_len_def HEAP_SIZE_def)

lemma heap_len_Suc: "heap_wf heap \<Longrightarrow> unat (size_of heap + 1) = Suc (heap_len heap)"
  using unat_plus_one[of "size_of heap"] by (simp add: heap_wf_def heap_len_def HEAP_SIZE_def)

lemma heap_len_pred: "0 < heap_len heap \<Longrightarrow> unat (size_of heap - 1) = heap_len heap - 1"
  using unat_minus_one_pos[of "size_of heap"] by (simp add: heap_len_def)

lemma heap_inv_root: 
  assumes "heap_inv heap" "e \<in># heap_mset heap"
  shows "key (elements heap ! 0) \<le> key e"
  using assms ordered_root_least[of "elements heap" "heap_len heap"]
  by (auto simp: heap_inv_def heap_mset_def in_set_conv_nth)

lemma heap_insert_Inr:
  assumes inv: "heap_inv heap" and room: "heap_len heap < HEAP_SIZE"
  shows "\<exists>heap'. heap_insert heap e = Inr heap' \<and> heap_inv heap' \<and>
    heap_mset heap' = heap_mset heap + {#e#} \<and> heap_len heap' = Suc (heap_len heap)"
proof -
  let ?n = "heap_len heap" and ?e = "(elements heap)[heap_len heap := e]"
  have wf: "heap_wf heap" and len: "length (elements heap) = HEAP_SIZE" and ord: "ordered (elements heap) ?n"
    using inv by (auto simp: heap_inv_def heap_wf_def)
  have up: "ordered_up ?e (Suc ?n) ?n"
    using ord len room
    by (auto simp: ordered_def ordered_up_def heap_parent_def nth_list_update less_Suc_eq)
  obtain es where es: "sift_up ?e ?n (key e) = Inr es" "ordered es (Suc ?n)"
      "length es = length ?e" "mset (take (Suc ?n) es) = mset (take (Suc ?n) ?e)"
    using sift_up_ordered[OF _ _ _ up] len room by auto
  have "heap_insert heap e = Inr (heap\<lparr>elements := es, size_of := size_of heap + 1\<rparr>)"
    using room len es(1) by (simp add: heap_insert_def heap_len_def[symmetric])
  moreover have "heap_len (heap\<lparr>elements := es, size_of := size_of heap + 1\<rparr>) = Suc ?n"
    using heap_len_Suc[OF wf] by (simp add: heap_len_def)
  moreover have "mset (take (Suc ?n) ?e) = mset (take ?n (elements heap)) + {#e#}"
    using len room by (simp add: take_Suc_conv_app_nth)
  ultimately show ?thesis
    using es len room by (simp add: heap_inv_def heap_wf_def heap_mset_def)
qed

lemma heap_decrease_Inr:
  assumes inv: "heap_inv heap" and i: "i < heap_len heap" and le: "key to \<le> key (elements heap ! i)"
  shows "\<exists>heap'. heap_decrease heap (int i) to = Inr heap' \<and> heap_inv heap' \<and>
    heap_mset heap' = heap_mset heap - {#elements heap ! i#} + {#to#} \<and>
    size_of heap' = size_of heap"
proof -
  let ?n = "heap_len heap" and ?e = "(elements heap)[i := to]"
  have len: "length (elements heap) = HEAP_SIZE" "?n \<le> HEAP_SIZE" and ord: "ordered (elements heap) ?n"
    using inv by (auto simp: heap_inv_def heap_wf_def)
  have up: "ordered_up ?e ?n i"
    unfolding ordered_up_def
  proof (intro conjI allI impI; elim conjE)
    fix c assume c: "0 < c" "c < ?n" "c \<noteq> i"
    then have "key (elements heap ! heap_parent c) \<le> key (elements heap ! c)"
      using ord by (auto simp: ordered_def)
    then show "key (?e ! heap_parent c) \<le> key (?e ! c)"
      using c i len le by (auto simp: nth_list_update intro: order.trans)
  next
    fix c assume c: "0 < c" "c < ?n" "heap_parent c = i" "0 < i"
    then have "key (elements heap ! heap_parent c) \<le> key (elements heap ! c)"
      "key (elements heap ! heap_parent i) \<le> key (elements heap ! i)"
      using ord i by (auto simp: ordered_def)
    then show "key (?e ! heap_parent i) \<le> key (?e ! c)"
      using c i len heap_parent_less[of c] heap_parent_less[of i]
      by (auto simp: nth_list_update intro: order.trans)
  qed
  obtain es where es: "sift_up ?e i (key to) = Inr es" "ordered es ?n"
      "length es = length ?e" "mset (take ?n es) = mset (take ?n ?e)"
    using sift_up_ordered[OF i _ _ up] len i by auto
  moreover have "mset (take ?n ?e) = mset (take ?n (elements heap)) - {#elements heap ! i#} + {#to#}"
    using i len by (intro mset_take_update) auto
  ultimately show ?thesis
    using len i by (simp add: heap_decrease_def heap_inv_def heap_wf_def heap_mset_def heap_len_def)
qed

lemma mset_take_butlast:
  assumes "1 < n" "n \<le> length xs"
  shows "mset (take (n - 1) (xs[0 := xs ! (n - 1)])) = mset (take n xs) - {#xs ! 0#}"
proof -
  obtain m where n: "n = Suc m" "0 < m" using assms by (cases n) auto
  have "mset (take m (xs[0 := xs ! m])) = mset (take m xs) - {#xs ! 0#} + {#xs ! m#}"
    using n assms by (intro mset_take_update) auto
  moreover have "xs ! 0 \<in># mset (take m xs)"
    using n assms by (auto simp: in_set_conv_nth)
  ultimately show ?thesis
    using n assms by (simp add: take_Suc_conv_app_nth)
qed

text \<open>
  Deleting the root needs the heap order at the two subtrees only: \<open>heap_delete\<close> calls it
  after it has overwritten one entry.
\<close>

lemma heap_delete_root_Inr:
  assumes wf: "heap_wf heap" and n: "1 < heap_len heap"
    and x: "x = elements heap ! (heap_len heap - 1)"
  shows "\<exists>heap'. heap_delete_root heap = Inr heap' \<and>
    (ordered_down ((elements heap)[0 := x]) (heap_len heap - 1) 0 \<longrightarrow> heap_inv heap') \<and>
    heap_mset heap' = heap_mset heap - {#elements heap ! 0#} \<and>
    heap_len heap' = heap_len heap - 1"
proof -
  let ?n = "heap_len heap" and ?e = "(elements heap)[0 := x]"
  let ?h = "heap\<lparr>size_of := size_of heap - 1, elements := ?e\<rparr>"
  have len: "length (elements heap) = HEAP_SIZE" "?n \<le> HEAP_SIZE"
    using wf by (auto simp: heap_wf_def)
  have sz: "unat (size_of heap - 1) = ?n - 1" using n by (intro heap_len_pred) auto
  have hl: "heap_len ?h = ?n - 1" using sz by (simp add: heap_len_def)
  have wf': "heap_wf ?h" using len hl by (simp add: heap_wf_def)
  have isz: "int_size ?h = int (?n - 1)" using int_size_wf[OF wf'] hl by simp
  have "\<exists>es. heap_sort_elems ?e (int (?n - 1)) 0 = Inr es \<and>
      (ordered_down ?e (?n - 1) 0 \<longrightarrow> ordered es (?n - 1)) \<and>
      length es = length ?e \<and> mset (take (?n - 1) es) = mset (take (?n - 1) ?e)"
    using len n by (intro sift_down_Inr[OF refl]) auto
  then obtain es where es: "heap_sort_elems ?e (int (?n - 1)) 0 = Inr es"
      "ordered_down ?e (?n - 1) 0 \<longrightarrow> ordered es (?n - 1)"
      "length es = length ?e" "mset (take (?n - 1) es) = mset (take (?n - 1) ?e)"
    by blast
  have ne: "\<not> size_of heap \<le> 0" "size_of heap \<noteq> 1"
    using n by (auto simp: heap_len_def)
  have ui: "uint (size_of heap - 1) = int (?n - 1)"
    using sz by (metis of_nat_unat)
  have get: "arr_get (elements heap) (uint (size_of heap - 1)) = Inr x"
    unfolding ui using len n x by (subst arr_get_nat) auto
  have set0: "arr_set (elements heap) 0 x = Inr ?e"
    using len n by (auto simp: arr_set_def)
  have "heap_delete_root heap = Inr (heap\<lparr>size_of := size_of heap - 1, elements := es\<rparr>)"
    using ne get set0 es(1) isz by (simp add: heap_delete_root_def heap_sort_def Let_def)
  moreover have "heap_len (heap\<lparr>size_of := size_of heap - 1, elements := es\<rparr>) = ?n - 1"
    using sz by (simp add: heap_len_def)
  ultimately show ?thesis
    using es len n mset_take_butlast[of ?n "elements heap"] x
    by (auto simp: heap_inv_def heap_wf_def heap_mset_def)
qed

lemma heap_delete_root_ordered:
  assumes inv: "heap_inv heap" and n: "1 < heap_len heap"
  shows "\<exists>heap'. heap_delete_root heap = Inr heap' \<and> heap_inv heap' \<and>
    heap_mset heap' = heap_mset heap - {#elements heap ! 0#} \<and>
    heap_len heap' = heap_len heap - 1"
proof -
  have wf: "heap_wf heap" using inv by (simp add: heap_inv_def)
  have "ordered (elements heap) (heap_len heap - 1)"
    using inv ordered_mono by (auto simp: heap_inv_def)
  then have "ordered_down ((elements heap)[0 := elements heap ! (heap_len heap - 1)])
      (heap_len heap - 1) 0"
    using n by (intro ordered_down_root) auto
  with heap_delete_root_Inr[OF wf n refl] show ?thesis by auto
qed

text \<open>A heap of one entry: the size wraps around and the access runs out of the array.\<close>

lemma heap_delete_root_single:
  assumes "length (elements heap) = HEAP_SIZE" "size_of heap = 1"
  shows "heap_delete_root heap = Inl OutOfBounds"
  using assms by (simp add: heap_delete_root_def Let_def arr_get_def HEAP_SIZE_def unsigned_minus_1_eq_mask
      mask_eq_exp_minus_1)

text \<open>
  \<open>heap_delete\<close> writes the sentinel with the greatest key at \<open>i\<close>. No parent's key exceeds
  it, so the loop of \<open>heap_decrease\<close> stops at once, and what \<open>heap_delete_root\<close> removes is
  the root.
\<close>

abbreviation sentinel :: heap_entry where
  "sentinel \<equiv> \<lparr>key = - 1, address = 0\<rparr>"

lemma not_greater_max_word: "\<not> (- 1 :: 'a::len word) < x"
  by (simp add: not_less)

lemma sift_up_max:
  assumes "i < length e"
  shows "sift_up e i (- 1) = Inr e"
  using assms by (subst sift_up.simps) (auto simp: heap_parent_def not_greater_max_word)

lemma heap_decrease_sentinel:
  assumes "i < length (elements heap)"
  shows "heap_decrease heap (int i) sentinel = Inr (heap\<lparr>elements := (elements heap)[i := sentinel]\<rparr>)"
  using assms by (simp add: heap_decrease_def sift_up_max)

lemma heap_delete_root_entry:
  assumes inv: "heap_inv heap" and n: "1 < heap_len heap"
  shows "\<exists>heap'. heap_delete heap 0 = Inr heap' \<and> heap_inv heap' \<and>
    heap_mset heap' = heap_mset heap - {#elements heap ! 0#} \<and>
    heap_len heap' = heap_len heap - 1"
proof -
  let ?h = "heap\<lparr>elements := (elements heap)[0 := sentinel]\<rparr>"
  have len: "length (elements heap) = HEAP_SIZE" "heap_len heap \<le> HEAP_SIZE"
    and ord: "ordered (elements heap) (heap_len heap - 1)"
    using inv ordered_mono by (auto simp: heap_inv_def heap_wf_def)
  have "heap_delete heap 0 = heap_delete_root ?h"
    using heap_decrease_sentinel[of 0 heap] len n by (simp add: heap_delete_def)
  moreover have "\<exists>heap'. heap_delete_root ?h = Inr heap' \<and> heap_inv heap' \<and>
    heap_mset heap' = heap_mset ?h - {#elements ?h ! 0#} \<and> heap_len heap' = heap_len ?h - 1"
  proof -
    have "heap_wf ?h" and "1 < heap_len ?h" using n len by (simp_all add: heap_wf_def heap_len_def)
    moreover have "ordered_down ((elements ?h)[0 := elements ?h ! (heap_len ?h - 1)]) (heap_len ?h - 1) 0"
      using ordered_down_root[OF ord] n len by (simp add: heap_len_def)
    ultimately show ?thesis using heap_delete_root_Inr[of ?h, OF _ _ refl] by auto
  qed
  moreover have "heap_mset ?h = heap_mset heap - {#elements heap ! 0#} + {#sentinel#}"
    using len n mset_take_update[of 0 "heap_len heap" "elements heap"]
    by (simp add: heap_mset_def heap_len_def)
  ultimately show ?thesis using len n by (auto simp: heap_len_def)
qed

lemma heap_delete_inner_entry:
  assumes inv: "heap_inv heap" and i: "0 < i" "i < heap_len heap"
  shows "\<exists>heap'. heap_delete heap (int i) = Inr heap' \<and>
    heap_mset heap' =
      heap_mset heap - {#elements heap ! i#} + {#sentinel#} - {#elements heap ! 0#}"
proof -
  let ?h = "heap\<lparr>elements := (elements heap)[i := sentinel]\<rparr>"
  have len: "length (elements heap) = HEAP_SIZE" "heap_len heap \<le> HEAP_SIZE"
    using inv by (auto simp: heap_inv_def heap_wf_def)
  have "heap_delete heap (int i) = heap_delete_root ?h"
    using heap_decrease_sentinel[of i heap] len i by (simp add: heap_delete_def)
  moreover have "heap_wf ?h" and "1 < heap_len ?h" using i len by (simp_all add: heap_wf_def heap_len_def)
  then have "\<exists>heap'. heap_delete_root ?h = Inr heap' \<and>
    heap_mset heap' = heap_mset ?h - {#elements ?h ! 0#}"
    using heap_delete_root_Inr[of ?h, OF _ _ refl] by auto
  moreover have "heap_mset ?h = heap_mset heap - {#elements heap ! i#} + {#sentinel#}"
    using len i mset_take_update[of i "heap_len heap" "elements heap"]
    by (simp add: heap_mset_def heap_len_def)
  ultimately show ?thesis using i by simp
qed

section \<open>Lookup\<close>

lemma next_child_Inr: "n \<le> length e \<Longrightarrow> \<exists>m. next_child e n j = Inr m"
  by (auto simp: next_child_def Let_def)

lemma descend_Inr:
  assumes "n \<le> length e"
  shows "\<exists>j. descend go e n i = Inr j \<and> (j < n \<longrightarrow> \<not> go (key (e ! j)))"
  using assms
proof (induction go e n i rule: descend.induct)
  case (1 go e n i)
  show ?case
  proof (cases "i < n \<and> go (key (e ! i))")
    case True
    obtain m where m: "next_child e n i = Inr m"
      using next_child_Inr 1 by blast
    have "\<exists>j. descend go e n m = Inr j \<and> (j < n \<longrightarrow> \<not> go (key (e ! j)))"
      using True 1 m by (intro "1.IH"[of "e ! i"]) auto
    with True 1 m show ?thesis by (subst descend.simps) auto
  next
    case False
    with 1 show ?thesis by (subst (1) descend.simps) auto
  qed
qed

lemma heap_lookup_min_Inr:
  assumes "heap_wf heap"
  shows "\<exists>r. heap_lookup_min heap m False = Inr (r, heap) \<and>
    (\<forall>e j. r = Some (e, j) \<longrightarrow>
      j < heap_len heap \<and> e = elements heap ! j \<and> m \<le> key e \<and> e \<in># heap_mset heap)"
proof -
  have len: "heap_len heap \<le> length (elements heap)" using assms by (simp add: heap_wf_def)
  obtain j where "descend (\<lambda>k. k < m) (elements heap) (heap_len heap) 0 = Inr j"
    "j < heap_len heap \<longrightarrow> \<not> key (elements heap ! j) < m"
    using descend_Inr[OF len] by blast
  then show ?thesis
    using len by (auto simp: heap_lookup_min_def heap_len_def[symmetric] heap_mset_def
        in_set_conv_nth not_less)
qed

lemma heap_entry_index_Inr:
  assumes "heap_wf heap"
  shows "\<exists>i. heap_entry_index heap e = Inr i \<and>
    (i = - 1 \<or> 0 \<le> i \<and> nat i < heap_len heap \<and> key (elements heap ! nat i) = key e)"
proof -
  have len: "heap_len heap \<le> length (elements heap)" using assms by (simp add: heap_wf_def)
  obtain j where "descend (\<lambda>k. k \<noteq> key e) (elements heap) (heap_len heap) 0 = Inr j"
    "j < heap_len heap \<longrightarrow> key (elements heap ! j) = key e"
    using descend_Inr[OF len, of "\<lambda>k. k \<noteq> key e" 0] by blast
  then show ?thesis
    by (cases "j < heap_len heap") (simp_all add: heap_entry_index_def heap_len_def[symmetric])
qed

section \<open>The contract that the allocator relies on\<close>

text \<open>
  \<open>free\<close> inserts a gap, \<open>malloc\<close> shrinks one or takes the root away. \<open>gaps\<close> is the
  multiset of free gaps that a store holds.
\<close>

locale gap_store =
  fixes inv :: "'q \<Rightarrow> bool"
    and gaps :: "'q \<Rightarrow> heap_entry multiset"
    and nth_gap :: "'q \<Rightarrow> nat \<Rightarrow> heap_entry"
    and count_gaps :: "'q \<Rightarrow> nat"
    and insert_gap :: "'q \<Rightarrow> heap_entry \<Rightarrow> 'q res"
    and shrink_gap :: "'q \<Rightarrow> int \<Rightarrow> heap_entry \<Rightarrow> 'q res"
    and delete_first :: "'q \<Rightarrow> 'q res"
  assumes insert_gap_ok: "inv q \<Longrightarrow> count_gaps q < HEAP_SIZE \<Longrightarrow>
      \<exists>q'. insert_gap q e = Inr q' \<and> inv q' \<and> gaps q' = gaps q + {#e#}"
    and shrink_gap_ok: "inv q \<Longrightarrow> i < count_gaps q \<Longrightarrow> key to \<le> key (nth_gap q i) \<Longrightarrow>
      \<exists>q'. shrink_gap q (int i) to = Inr q' \<and> inv q' \<and> gaps q' = gaps q - {#nth_gap q i#} + {#to#}"
    and delete_first_ok: "inv q \<Longrightarrow> 1 < count_gaps q \<Longrightarrow>
      \<exists>q'. delete_first q = Inr q' \<and> inv q' \<and> gaps q' = gaps q - {#nth_gap q 0#}"
    and first_least: "inv q \<Longrightarrow> e \<in># gaps q \<Longrightarrow> key (nth_gap q 0) \<le> key e"
    and nth_gap_mem: "inv q \<Longrightarrow> i < count_gaps q \<Longrightarrow> nth_gap q i \<in># gaps q"
begin

definition gap_bytes :: "'q \<Rightarrow> nat" where
  "gap_bytes q = (\<Sum>e\<in>#gaps q. unat (key e))"

lemma gap_bytes_insert:
  assumes "inv q" "count_gaps q < HEAP_SIZE"
  shows "\<exists>q'. insert_gap q e = Inr q' \<and> inv q' \<and> gap_bytes q' = gap_bytes q + unat (key e)"
  using insert_gap_ok[OF assms, of e] by (auto simp: gap_bytes_def)

lemma gap_bytes_remove:
  assumes "e \<in># gaps q"
  shows "(\<Sum>x\<in>#gaps q - {#e#}. unat (key x)) = gap_bytes q - unat (key e)"
    and "unat (key e) \<le> gap_bytes q"
proof -
  have "gaps q = add_mset e (gaps q - {#e#})" using assms by simp
  then have "gap_bytes q = unat (key e) + (\<Sum>x\<in>#gaps q - {#e#}. unat (key x))"
    unfolding gap_bytes_def by (metis image_mset_add_mset sum_mset.add_mset)
  then show "(\<Sum>x\<in>#gaps q - {#e#}. unat (key x)) = gap_bytes q - unat (key e)"
    and "unat (key e) \<le> gap_bytes q" by simp_all
qed

lemma gap_bytes_shrink:
  assumes "inv q" "i < count_gaps q" "key to \<le> key (nth_gap q i)"
  shows "\<exists>q'. shrink_gap q (int i) to = Inr q' \<and> inv q' \<and>
    gap_bytes q' = gap_bytes q - (unat (key (nth_gap q i)) - unat (key to))"
proof -
  obtain q' where "shrink_gap q (int i) to = Inr q'" "inv q'"
    and g: "gaps q' = gaps q - {#nth_gap q i#} + {#to#}"
    using shrink_gap_ok[OF assms] by blast
  moreover have "gap_bytes q' = gap_bytes q - (unat (key (nth_gap q i)) - unat (key to))"
    using gap_bytes_remove[OF nth_gap_mem[OF assms(1,2)]] assms(3)
    by (simp add: gap_bytes_def[of q'] g word_le_nat_alt)
  ultimately show ?thesis by blast
qed

lemma gap_bytes_delete:
  assumes "inv q" "1 < count_gaps q"
  shows "\<exists>q'. delete_first q = Inr q' \<and> inv q' \<and>
    gap_bytes q' + unat (key (nth_gap q 0)) = gap_bytes q"
proof -
  obtain q' where "delete_first q = Inr q'" "inv q'" and g: "gaps q' = gaps q - {#nth_gap q 0#}"
    using delete_first_ok[OF assms] by blast
  then show ?thesis
    using gap_bytes_remove[OF nth_gap_mem[OF assms(1), of 0]] assms(2)
    by (auto simp: gap_bytes_def[of q'])
qed

end

interpretation kheap: gap_store heap_inv heap_mset "\<lambda>h i. elements h ! i" heap_len
  heap_insert heap_decrease heap_delete_root
proof (unfold_locales, goal_cases)
  case (1 q e)
  then show ?case using heap_insert_Inr by blast
next
  case (2 q i to)
  then show ?case using heap_decrease_Inr by blast
next
  case (3 q)
  then show ?case using heap_delete_root_ordered by blast
next
  case (4 q e)
  then show ?case by (rule heap_inv_root)
next
  case (5 q i)
  then show ?case
    by (auto simp: heap_inv_def heap_wf_def heap_mset_def in_set_conv_nth)
qed

section \<open>Properties\<close>

text \<open>The heap that \<open>static struct min_heap heap = {0}\<close> and the given first entries describe.\<close>

definition heap_of :: "heap_entry list \<Rightarrow> min_heap" where
  "heap_of es = \<lparr>elements = es @ replicate (HEAP_SIZE - length es) \<lparr>key = 0, address = 0\<rparr>,
     size_of = of_nat (length es)\<rparr>"

lemma heap_of_len: "length es \<le> HEAP_SIZE \<Longrightarrow> heap_len (heap_of es) = length es"
  by (simp add: heap_len_def heap_of_def HEAP_SIZE_def unat_of_nat)

lemma heap_of_nth: "i < length es \<Longrightarrow> elements (heap_of es) ! i = es ! i"
  by (simp add: heap_of_def nth_append)

lemma heap_of_inv:
  assumes "length es \<le> HEAP_SIZE" "ordered es (length es)"
  shows "heap_inv (heap_of es)"
proof -
  have "length (elements (heap_of es)) = HEAP_SIZE" using assms by (simp add: heap_of_def)
  moreover have "ordered (elements (heap_of es)) (length es)"
    using assms by (auto simp: ordered_def heap_of_nth heap_parent_def)
  ultimately show ?thesis using assms by (simp add: heap_inv_def heap_wf_def heap_of_len)
qed

lemma heap_of_mset: "length es \<le> HEAP_SIZE \<Longrightarrow> heap_mset (heap_of es) = mset es"
  by (simp add: heap_mset_def heap_of_len) (simp add: heap_of_def)

lemma heap_of_ordered_pair:
  "key a \<le> key b \<Longrightarrow> heap_inv (heap_of [a, b])"
  by (intro heap_of_inv) (auto simp: ordered_def HEAP_SIZE_def heap_parent_def less_Suc_eq)

lemma heap_of_pair_len: "heap_len (heap_of [a, b]) = 2"
  by (simp add: heap_of_len HEAP_SIZE_def)

lemma heap_of_pair_mset: "heap_mset (heap_of [a, b]) = {#a, b#}"
  by (simp add: heap_of_mset HEAP_SIZE_def)

lemmas heap_of_pair = heap_of_ordered_pair heap_of_pair_len heap_of_pair_mset heap_of_nth

text \<open>
  C19. Insertion into a heap that is not full returns; it keeps the heap order and adds
  exactly the new entry. A full heap stops the kernel with the overflow message.
\<close>

theorem heap_insert_correct:
  assumes "heap_inv heap"
  shows "if heap_len heap < HEAP_SIZE
    then \<exists>heap'. heap_insert heap e = Inr heap' \<and> heap_inv heap' \<and>
      heap_mset heap' = heap_mset heap + {#e#}
    else heap_insert heap e = Inl (Panic ''Heap overflow!'')"
  using assms kheap.insert_gap_ok[of heap e]
  by (simp add: heap_insert_def heap_len_def[symmetric])

theorem heap_insert_correct_witness:
  "\<exists>heap'. heap_insert (heap_of []) \<lparr>key = 5, address = 64\<rparr> = Inr heap' \<and> heap_inv heap' \<and>
    heap_mset heap' = {#\<lparr>key = 5, address = 64\<rparr>#}"
  using heap_insert_correct[OF heap_of_inv, of "[]" "\<lparr>key = 5, address = 64\<rparr>"]
  by (simp add: heap_of_len heap_of_mset ordered_def HEAP_SIZE_def)

text \<open>
  C20. Deleting the root of a heap of at least two entries returns, keeps the heap order and
  removes exactly the first entry, whose key is least.
\<close>

theorem heap_delete_root_correct:
  assumes "heap_inv heap" and "1 < heap_len heap"
  shows "\<exists>heap'. heap_delete_root heap = Inr heap' \<and> heap_inv heap' \<and>
    heap_mset heap = heap_mset heap' + {#elements heap ! 0#} \<and>
    (\<forall>e. e \<in># heap_mset heap \<longrightarrow> key (elements heap ! 0) \<le> key e)"
proof -
  obtain heap' where h: "heap_delete_root heap = Inr heap'" "heap_inv heap'"
    "heap_mset heap' = heap_mset heap - {#elements heap ! 0#}"
    using kheap.delete_first_ok[OF assms] by blast
  then show ?thesis
    using kheap.nth_gap_mem[OF assms(1), of 0] kheap.first_least[OF assms(1)] assms(2) by auto
qed

theorem heap_delete_root_correct_witness:
  "\<exists>heap'. heap_delete_root (heap_of [\<lparr>key = 1, address = 8\<rparr>, \<lparr>key = 2, address = 16\<rparr>]) = Inr heap' \<and>
    heap_mset heap' = {#\<lparr>key = 2, address = 16\<rparr>#}"
  using heap_delete_root_correct[of "heap_of [\<lparr>key = 1, address = 8\<rparr>, \<lparr>key = 2, address = 16\<rparr>]"]
  by (auto simp: heap_of_pair)

text \<open>
  Lowering the key of the entry at \<open>i\<close> keeps the heap order and replaces exactly that
  entry.
\<close>

theorem heap_decrease_correct:
  assumes "heap_inv heap" and "i < heap_len heap" and "key to \<le> key (elements heap ! i)"
  shows "\<exists>heap'. heap_decrease heap (int i) to = Inr heap' \<and> heap_inv heap' \<and>
    heap_mset heap' = heap_mset heap - {#elements heap ! i#} + {#to#}"
  by (rule kheap.shrink_gap_ok[OF assms])

theorem heap_decrease_correct_witness:
  "\<exists>heap'. heap_decrease (heap_of [\<lparr>key = 3, address = 8\<rparr>, \<lparr>key = 7, address = 16\<rparr>]) (int 1)
      \<lparr>key = 2, address = 16\<rparr> = Inr heap' \<and> heap_inv heap' \<and>
    heap_mset heap' = {#\<lparr>key = 3, address = 8\<rparr>, \<lparr>key = 2, address = 16\<rparr>#}"
  using heap_decrease_correct[of "heap_of [\<lparr>key = 3, address = 8\<rparr>, \<lparr>key = 7, address = 16\<rparr>]" 1
      "\<lparr>key = 2, address = 16\<rparr>"]
  by (simp add: heap_of_pair add_mset_commute)

text \<open>
  C21. Looking a gap up never leaves the array and never changes the heap; an entry it
  returns is in the heap, at the index it returns, and is large enough.
\<close>

theorem heap_lookup_min_sound:
  assumes "heap_wf heap"
  shows "\<exists>r. heap_lookup_min heap m False = Inr (r, heap) \<and>
    (case r of None \<Rightarrow> True
     | Some (e, j) \<Rightarrow> j < heap_len heap \<and> elements heap ! j = e \<and> m \<le> key e \<and> e \<in># heap_mset heap)"
  using heap_lookup_min_Inr[OF assms, of m] by (auto split: option.splits)

theorem heap_lookup_min_sound_witness:
  "\<exists>r. heap_lookup_min (heap_of [\<lparr>key = 9, address = 8\<rparr>]) 4 False = Inr (r, heap_of [\<lparr>key = 9, address = 8\<rparr>])"
proof -
  have "heap_wf (heap_of [\<lparr>key = 9, address = 8\<rparr>])"
    by (simp add: heap_wf_def heap_of_len HEAP_SIZE_def) (simp add: heap_of_def HEAP_SIZE_def)
  from heap_lookup_min_sound[OF this, of 4] show ?thesis by blast
qed

text \<open>
  The lookup is incomplete: it descends to the smaller child only, so it can report that
  no gap is large enough while the heap holds one.
\<close>

theorem heap_lookup_min_incomplete:
  "\<exists>heap m e. heap_inv heap \<and> e \<in># heap_mset heap \<and> m \<le> key e \<and>
    heap_lookup_min heap m False = Inr (None, heap)"
proof -
  let ?es = "[\<lparr>key = 1, address = 8\<rparr>, \<lparr>key = 2, address = 16\<rparr>, \<lparr>key = 10, address = 24\<rparr>]"
  have "heap_inv (heap_of ?es)"
    by (rule heap_of_inv) (auto simp: HEAP_SIZE_def ordered_def heap_parent_def less_Suc_eq)
  moreover have "heap_mset (heap_of ?es) = mset ?es"
    by (rule heap_of_mset) (simp add: HEAP_SIZE_def)
  moreover have "heap_lookup_min (heap_of ?es) 5 False = Inr (None, heap_of ?es)"
    by (simp add: heap_lookup_min_def heap_of_def descend.simps next_child_def arr_get_def
        heap_left_def heap_right_def HEAP_SIZE_def Let_def)
  ultimately show ?thesis
    by (intro exI[of _ "heap_of ?es"] exI[of _ 5] exI[of _ "\<lparr>key = 10, address = 24\<rparr>"]) simp
qed

text \<open>
  \<open>heap_delete heap i\<close> with \<open>0 < i\<close> does not delete entry \<open>i\<close> alone: the root is
  lost, and a sentinel with the greatest key stays in the heap in place of entry \<open>i\<close>.
\<close>

theorem heap_delete_loses_root:
  assumes "heap_inv heap" and "0 < i" and "i < heap_len heap"
  shows "\<exists>heap'. heap_delete heap (int i) = Inr heap' \<and>
    heap_mset heap' =
      heap_mset heap - {#elements heap ! i#} + {#\<lparr>key = - 1, address = 0\<rparr>#} - {#elements heap ! 0#}"
  by (rule heap_delete_inner_entry[OF assms])

theorem heap_delete_loses_root_witness:
  "\<exists>heap'. heap_delete (heap_of [\<lparr>key = 3, address = 8\<rparr>, \<lparr>key = 7, address = 16\<rparr>]) (int 1) = Inr heap' \<and>
    heap_mset heap' = {#\<lparr>key = - 1, address = 0\<rparr>#}"
  using heap_delete_loses_root[of "heap_of [\<lparr>key = 3, address = 8\<rparr>, \<lparr>key = 7, address = 16\<rparr>]" 1]
  by (simp add: heap_of_pair)

text \<open>
  Deleting from a heap of exactly one entry runs out of the array: the size is
  decremented twice and wraps around.
\<close>

theorem heap_delete_last_faults:
  assumes "heap_wf heap" and "heap_len heap = 1"
  shows "heap_delete_root heap = Inl OutOfBounds \<and> heap_delete heap 0 = Inl OutOfBounds"
proof -
  have one: "length (elements heap) = HEAP_SIZE" "size_of heap = 1"
    using assms by (simp_all add: heap_wf_def heap_len_def word_unat_eq_iff)
  then have "heap_decrease heap 0 sentinel = Inr (heap\<lparr>elements := (elements heap)[0 := sentinel]\<rparr>)"
    using heap_decrease_sentinel[of 0 heap] by (simp add: HEAP_SIZE_def)
  then show ?thesis
    using one heap_delete_root_single[of heap]
      heap_delete_root_single[of "heap\<lparr>elements := (elements heap)[0 := sentinel]\<rparr>"]
    by (simp add: heap_delete_def)
qed

theorem heap_delete_last_faults_witness:
  "heap_delete_root (heap_of [\<lparr>key = 3, address = 8\<rparr>]) = Inl OutOfBounds"
proof -
  have "heap_wf (heap_of [\<lparr>key = 3, address = 8\<rparr>])" "heap_len (heap_of [\<lparr>key = 3, address = 8\<rparr>]) = 1"
    by (simp_all add: heap_wf_def heap_of_len HEAP_SIZE_def) (simp add: heap_of_def HEAP_SIZE_def)
  from heap_delete_last_faults[OF this] show ?thesis by blast
qed

end
