(* ===== verification/Kstring.thy ===== *)
theory Kstring
  imports Prelude
begin

text \<open>
  The kernel's own string routines (\<^verbatim>\<open>src/kernel/x86_32/io.c\<close>). A \<open>char *\<close> is the list of
  the bytes from the pointer to the end of the array it points into, so a routine that runs
  past the end of the array is the fault \<open>OutOfBounds\<close>. Lengths are natural numbers: an
  array of the target has fewer than \<open>2 ^ 32\<close> bytes.
\<close>

section \<open>Operations\<close>

text \<open>The loops of \<open>memset\<close> and \<open>memcpy\<close>, for arrays that do not overlap.\<close>

fun memset :: "u8 list \<Rightarrow> u8 \<Rightarrow> nat \<Rightarrow> u8 list res" where
  "memset s c 0 = Inr s"
| "memset [] c (Suc n) = Inl OutOfBounds"
| "memset (x # s) c (Suc n) = res_bind (memset s c n) (\<lambda>r. Inr (c # r))"

fun memcpy :: "u8 list \<Rightarrow> u8 list \<Rightarrow> nat \<Rightarrow> u8 list res" where
  "memcpy dest src 0 = Inr dest"
| "memcpy (d # dest) (s # src) (Suc n) = res_bind (memcpy dest src n) (\<lambda>r. Inr (s # r))"
| "memcpy dest src (Suc n) = Inl OutOfBounds"

fun strlen :: "u8 list \<Rightarrow> nat res" where
  "strlen [] = Inl OutOfBounds"
| "strlen (c # a) = (if c = 0 then Inr 0 else res_bind (strlen a) (\<lambda>i. Inr (Suc i)))"

definition strcpy :: "u8 list \<Rightarrow> u8 list \<Rightarrow> u8 list res" where
  "strcpy dest src = res_bind (strlen src) (\<lambda>n. memcpy dest src (n + 1))"

text \<open>The condition \<open>s[i] && i < len\<close> reads the byte before it tests the bound.\<close>

fun strnlen :: "u8 list \<Rightarrow> nat \<Rightarrow> nat res" where
  "strnlen [] len = Inl OutOfBounds"
| "strnlen (c # s) len =
     (if c \<noteq> 0 \<and> 0 < len then res_bind (strnlen s (len - 1)) (\<lambda>i. Inr (Suc i)) else Inr 0)"

text \<open>The common tail of \<open>strncmp\<close> and \<open>strcmp\<close>: compare the first \<open>al\<close> bytes.\<close>

fun bytes_differ :: "u8 list \<Rightarrow> u8 list \<Rightarrow> nat \<Rightarrow> int res" where
  "bytes_differ a b 0 = Inr 0"
| "bytes_differ (x # a) (y # b) (Suc n) = (if x \<noteq> y then Inr (- 1) else bytes_differ a b n)"
| "bytes_differ a b (Suc n) = Inl OutOfBounds"

definition strncmp :: "u8 list \<Rightarrow> u8 list \<Rightarrow> nat \<Rightarrow> int res" where
  "strncmp a b len =
     res_bind (strnlen a len) (\<lambda>al.
     res_bind (strnlen b len) (\<lambda>bl.
     if al \<noteq> bl then Inr (int bl - int al) else bytes_differ a b al))"

definition strcmp :: "u8 list \<Rightarrow> u8 list \<Rightarrow> int res" where
  "strcmp a b =
     res_bind (strlen a) (\<lambda>al.
     res_bind (strlen b) (\<lambda>bl.
     if al \<noteq> bl then Inr (int bl - int al) else bytes_differ a b al))"

text \<open>\<open>char\<close> is signed on the target.\<close>

definition isdigit :: "u8 \<Rightarrow> bool" where
  "isdigit c \<longleftrightarrow> 48 \<le> sint c \<and> sint c \<le> 57"

fun parse_int_from :: "u8 list \<Rightarrow> u32 \<Rightarrow> u32 res" where
  "parse_int_from [] number = Inl OutOfBounds"
| "parse_int_from (c # s) number =
     (if isdigit c then parse_int_from s (number * 10 + (scast c - 48)) else Inr number)"

definition parse_int :: "u8 list \<Rightarrow> u32 res" where
  "parse_int s = parse_int_from s 0"

section \<open>C strings\<close>

text \<open>An array that holds a string: its characters, a zero byte, and whatever follows.\<close>

definition cstring :: "u8 list \<Rightarrow> u8 list \<Rightarrow> bool" where
  "cstring a s \<longleftrightarrow> 0 \<notin> set s \<and> (\<exists>rest. a = s @ 0 # rest)"

lemma cstringI: "0 \<notin> set s \<Longrightarrow> cstring (s @ 0 # rest) s"
  by (auto simp: cstring_def)

lemma strlen_append: "0 \<notin> set s \<Longrightarrow> strlen (s @ 0 # rest) = Inr (length s)"
  by (induction s) auto

lemma strlen_cstring: "cstring a s \<Longrightarrow> strlen a = Inr (length s)"
  by (auto simp: cstring_def strlen_append)

lemma strnlen_append: "0 \<notin> set s \<Longrightarrow> strnlen (s @ 0 # rest) n = Inr (min n (length s))"
  by (induction s arbitrary: n) (auto simp: min_def)

lemma strnlen_cstring: "cstring a s \<Longrightarrow> strnlen a n = Inr (min n (length s))"
  by (auto simp: cstring_def strnlen_append)

lemma bytes_differ_take:
  "n \<le> length a \<Longrightarrow> n \<le> length b \<Longrightarrow>
    bytes_differ a b n = Inr (if take n a = take n b then 0 else - 1)"
  by (induction a b n rule: bytes_differ.induct) auto

lemma cstring_take:
  assumes "cstring a s" "n \<le> length s"
  shows "take n a = take n s" and "n \<le> length a"
  using assms by (auto simp: cstring_def)

lemma strncmp_cstring:
  assumes "cstring a s" "cstring b t"
  shows "\<exists>r. strncmp a b n = Inr r \<and> (r = 0 \<longleftrightarrow> take n s = take n t)"
proof (cases "min n (length s) = min n (length t)")
  case True
  let ?m = "min n (length s)"
  have "strncmp a b n = Inr (if take ?m a = take ?m b then 0 else - 1)"
    using assms True cstring_take[OF assms(1), of ?m] cstring_take[OF assms(2), of ?m]
    by (simp add: strncmp_def strnlen_cstring bytes_differ_take)
  moreover have "take ?m a = take n s" and "take ?m b = take n t"
    using True cstring_take(1)[OF assms(1), of ?m] cstring_take(1)[OF assms(2), of ?m]
    by (auto simp: min_def split: if_splits)
  ultimately show ?thesis by simp
next
  case False
  then have "take n s \<noteq> take n t" by (metis length_take min.commute)
  with False assms show ?thesis by (auto simp: strncmp_def strnlen_cstring)
qed

lemma strcmp_cstring:
  assumes "cstring a s" "cstring b t"
  shows "\<exists>r. strcmp a b = Inr r \<and> (r = 0 \<longleftrightarrow> s = t)"
proof (cases "length s = length t")
  case True
  then show ?thesis
    using assms cstring_take[OF assms(1), of "length s"] cstring_take[OF assms(2), of "length t"]
    by (auto simp: strcmp_def strlen_cstring bytes_differ_take)
next
  case False
  with assms show ?thesis by (auto simp: strcmp_def strlen_cstring)
qed

lemma memcpy_append: "n \<le> length dest \<Longrightarrow> n \<le> length src \<Longrightarrow>
    memcpy dest src n = Inr (take n src @ drop n dest)"
  by (induction dest src n rule: memcpy.induct) auto

lemma memset_replicate: "n \<le> length s \<Longrightarrow> memset s c n = Inr (replicate n c @ drop n s)"
  by (induction s c n rule: memset.induct) auto

lemma strcpy_cstring:
  assumes "cstring src s" "length s < length dest"
  shows "\<exists>r. strcpy dest src = Inr r \<and> cstring r s \<and> length r = length dest"
proof -
  obtain rest where src: "src = s @ 0 # rest" "0 \<notin> set s" using assms by (auto simp: cstring_def)
  then have "strcpy dest src = Inr (s @ 0 # drop (Suc (length s)) dest)"
    using assms memcpy_append[of "Suc (length s)" dest src] by (simp add: strcpy_def strlen_append)
  then show ?thesis using src assms by (auto simp: cstringI)
qed

section \<open>Decimal numerals\<close>

definition digit_value :: "u8 \<Rightarrow> nat" where
  "digit_value c = unat c - 48"

definition decimal_value :: "u8 list \<Rightarrow> nat" where
  "decimal_value s = foldl (\<lambda>n c. 10 * n + digit_value c) 0 s"

lemma isdigit_unat: "isdigit c \<longleftrightarrow> 48 \<le> unat c \<and> unat c \<le> 57"
proof -
  have "unat c < 2 ^ LENGTH(8)" by (rule unsigned_less)
  then obtain k where k: "unat c = k" "k < 256" by simp
  show ?thesis unfolding isdigit_def sint_u8 k using k(2) by auto
qed

lemma isdigit_zero [simp]: "\<not> isdigit 0"
  by (simp add: isdigit_unat)

lemma scast_digit:
  assumes "isdigit c"
  shows "scast c - 48 = (of_nat (digit_value c) :: u32)"
proof -
  have "(of_nat (unat c - 48) :: u32) = of_nat (unat c) - of_nat 48"
    using assms by (intro of_nat_diff) (simp add: isdigit_unat)
  then show ?thesis
    using assms by (simp add: scast_u8_low isdigit_unat digit_value_def)
qed

lemma parse_int_from_digits:
  assumes "\<forall>c\<in>set s. isdigit c" "\<not> isdigit c"
  shows "parse_int_from (s @ c # rest) (of_nat n) =
    Inr (of_nat (foldl (\<lambda>n c. 10 * n + digit_value c) n s))"
  using assms
proof (induction s arbitrary: n)
  case (Cons d s)
  have "(of_nat n * 10 + (scast d - 48) :: u32) = of_nat (10 * n + digit_value d)"
    using Cons.prems by (simp add: scast_digit)
  then show ?case
    using Cons.IH[of "10 * n + digit_value d"] Cons.prems by (simp only: append_Cons
      parse_int_from.simps foldl_Cons) simp
qed simp

lemma parse_int_digits:
  assumes "\<forall>c\<in>set s. isdigit c" "\<not> isdigit c"
  shows "parse_int (s @ c # rest) = Inr (of_nat (decimal_value s))"
  using parse_int_from_digits[OF assms, of rest 0] by (simp add: parse_int_def decimal_value_def)

text \<open>An array of digits with nothing after them: the loop runs past its end.\<close>

lemma parse_int_from_overrun: "\<forall>c\<in>set s. isdigit c \<Longrightarrow> parse_int_from s n = Inl OutOfBounds"
  by (induction s arbitrary: n) auto

lemma parse_int_cases:
  "(\<exists>r. parse_int s = Inr r) \<or> (\<forall>c\<in>set s. isdigit c) \<and> parse_int s = Inl OutOfBounds"
proof -
  have "(\<exists>r. parse_int_from s n = Inr r) \<or> (\<forall>c\<in>set s. isdigit c)" for n
    by (induction s arbitrary: n) auto
  then show ?thesis using parse_int_from_overrun[of s 0] by (auto simp: parse_int_def)
qed

section \<open>Properties\<close>

text \<open>
  On two C strings \<open>strncmp\<close> stays inside both arrays and returns 0 exactly when their
  first \<open>n\<close> characters agree.
\<close>

theorem strncmp_correct:
  assumes "0 \<notin> set s" and "0 \<notin> set t"
  shows "\<exists>r. strncmp (s @ 0 # x) (t @ 0 # y) n = Inr r \<and> (r = 0 \<longleftrightarrow> take n s = take n t)"
  using assms by (intro strncmp_cstring cstringI)

theorem strncmp_correct_witness:
  "\<exists>r. strncmp ([100, 101, 118] @ 0 # []) ([100, 101, 98] @ 0 # []) 2 = Inr r \<and> r = 0"
  using strncmp_correct[of "[100, 101, 118]" "[100, 101, 98]" "[]" "[]" 2] by simp

text \<open>
  \<open>parse_int\<close> reads the longest run of digits and returns its decimal value modulo
  \<open>2 ^ 32\<close>; an array that ends inside the run is read past its end.
\<close>

theorem parse_int_correct:
  assumes "\<forall>c\<in>set s. isdigit c"
  shows "parse_int s = Inl OutOfBounds \<and>
    (\<not> isdigit c \<longrightarrow> parse_int (s @ c # rest) = Inr (of_nat (decimal_value s)))"
  using assms parse_int_from_overrun parse_int_digits by (simp add: parse_int_def)

theorem parse_int_correct_witness:
  "parse_int [52, 50, 109] = Inr 42 \<and> parse_int [52, 50] = Inl OutOfBounds"
  using parse_int_correct[of "[52, 50]" 109 "[]"]
  by (simp add: isdigit_unat decimal_value_def digit_value_def)

end
