(* ===== verification/Vga.thy ===== *)
theory Vga
  imports Kstring
begin

text \<open>
  The text console (\<^verbatim>\<open>src/kernel/x86_32/vga.c\<close>): cursor, colour, the 80 by 25 frame
  buffer, and the state machine that collects an ANSI escape sequence. Writes to the CRT
  controller's ports are recorded in a trace.
\<close>

section \<open>State\<close>

definition BUFFER_SIZE :: nat where
  "BUFFER_SIZE = 16"

record vga =
  cursor_x :: u32
  cursor_y :: u32
  color :: u8
  fb :: "u16 list"
  buffer :: "u8 list"
  buffer_index :: u32
  in_escape :: bool
  outs :: "(u16 \<times> u8) list"

text \<open>\<open>enum vga_colors\<close>.\<close>

definition BLACK :: u8 where "BLACK = 0"
definition BLUE :: u8 where "BLUE = 1"
definition GREEN :: u8 where "GREEN = 2"
definition CYAN :: u8 where "CYAN = 3"
definition RED :: u8 where "RED = 4"
definition MAGENTA :: u8 where "MAGENTA = 5"
definition LIGHT_GREY :: u8 where "LIGHT_GREY = 7"
definition LIGHT_BLUE :: u8 where "LIGHT_BLUE = 9"
definition LIGHT_GREEN :: u8 where "LIGHT_GREEN = 10"
definition LIGHT_CYAN :: u8 where "LIGHT_CYAN = 11"
definition LIGHT_RED :: u8 where "LIGHT_RED = 12"
definition LIGHT_MAGENTA :: u8 where "LIGHT_MAGENTA = 13"
definition LIGHT_BROWN :: u8 where "LIGHT_BROWN = 14"
definition WHITE :: u8 where "WHITE = 15"

section \<open>Operations\<close>

definition outb :: "u16 \<Rightarrow> u8 \<Rightarrow> vga \<Rightarrow> vga" where
  "outb port v s = s\<lparr>outs := outs s @ [(port, v)]\<rparr>"

definition move_cursor :: "vga \<Rightarrow> vga" where
  "move_cursor s =
     (let pos = ucast (cursor_y s * 80 + cursor_x s) :: u16 in
      outb 0x3d5 (ucast (pos AND 0xff)) (outb 0x3d4 0x0f
        (outb 0x3d5 (ucast (drop_bit 8 pos)) (outb 0x3d4 0x0e s))))"

text \<open>A cell: the character in the low byte, the colour in the high one.\<close>

definition blank :: "u8 \<Rightarrow> u16" where
  "blank col = 32 OR push_bit 8 (ucast col)"

text \<open>\<open>c | (color << 8)\<close>: the \<open>char\<close> \<open>c\<close> is promoted with its sign.\<close>

definition cell :: "u8 \<Rightarrow> u8 \<Rightarrow> u16" where
  "cell c col = scast c OR push_bit 8 (ucast col)"

text \<open>One round of \<open>scroll\<close>'s loop: move every row up and blank the last one.\<close>

definition scroll_once :: "u8 \<Rightarrow> u16 list \<Rightarrow> u16 list" where
  "scroll_once col f = take (24 * 80) (drop 80 f) @ replicate 80 (blank col) @ drop (25 * 80) f"

function scroll_fb :: "u8 \<Rightarrow> u32 \<Rightarrow> u16 list \<Rightarrow> u32 \<times> u16 list" where
  "scroll_fb col y f =
     (if 25 \<le> y then scroll_fb col (y - 1) (scroll_once col f) else (y, f))"
  by pat_completeness auto
termination
  by (relation "measure (\<lambda>(col, y, f). unat y)") (auto simp: word_le_nat_alt intro!: measure_unat)

declare scroll_fb.simps [simp del]

definition scroll :: "vga \<Rightarrow> vga" where
  "scroll s = (case scroll_fb (color s) (cursor_y s) (fb s) of (y, f) \<Rightarrow> s\<lparr>cursor_y := y, fb := f\<rparr>)"

definition vga_set_color :: "u8 \<Rightarrow> u8 \<Rightarrow> vga \<Rightarrow> vga" where
  "vga_set_color fg bg s = s\<lparr>color := push_bit 4 bg OR (fg AND 0xf)\<rparr>"

text \<open>The array has 98 cells; those no initialiser names are 0.\<close>

definition ansi_to_vga_colors :: "u8 list" where
  "ansi_to_vga_colors = replicate 30 0 @
     [BLACK, RED, GREEN, LIGHT_BROWN, BLUE, MAGENTA, CYAN, WHITE] @ replicate 52 0 @
     [LIGHT_GREY, LIGHT_RED, LIGHT_GREEN, LIGHT_BROWN, LIGHT_BLUE, LIGHT_MAGENTA, LIGHT_CYAN, WHITE]"

definition got_escape :: "vga \<Rightarrow> vga res" where
  "got_escape s =
     res_bind (arr_get (buffer s) 0) (\<lambda>b0.
     if b0 \<noteq> 91 then Inr s
     else res_bind (parse_int (tl (buffer s))) (\<lambda>n.
       let c = sint n in
       if c = 0 then Inr (s\<lparr>color := WHITE\<rparr>)
       else if 30 \<le> c \<and> c \<le> 37 \<or> 90 \<le> c \<and> c \<le> 97 then
         res_bind (arr_get ansi_to_vga_colors c) (\<lambda>a.
         Inr (s\<lparr>color := (color s AND 0xf0) OR a\<rparr>))
       else if 40 \<le> c \<and> c \<le> 47 \<or> 100 \<le> c \<and> c \<le> 107 then
         res_bind (arr_get ansi_to_vga_colors (c - 10)) (\<lambda>a.
         Inr (s\<lparr>color := (color s AND 0x0f) OR push_bit 4 a\<rparr>))
       else Inr s))"

definition put_escaped :: "vga \<Rightarrow> u8 \<Rightarrow> vga res" where
  "put_escaped s c =
     (if unat (buffer_index s) \<ge> BUFFER_SIZE \<or> c = 109 then
        res_bind (if c = 109 then got_escape s else Inr s) (\<lambda>s1.
        Inr (s1\<lparr>in_escape := False, buffer_index := 0, buffer := replicate BUFFER_SIZE 0\<rparr>))
      else
        res_bind (arr_set (buffer s) (uint (buffer_index s)) c) (\<lambda>b.
        Inr (s\<lparr>buffer := b, buffer_index := buffer_index s + 1\<rparr>)))"

definition put_cell :: "vga \<Rightarrow> u16 \<Rightarrow> vga res" where
  "put_cell s v =
     res_bind (arr_set (fb s) (uint (cursor_y s * 80 + cursor_x s)) v) (\<lambda>f. Inr (s\<lparr>fb := f\<rparr>))"

definition put_plain :: "vga \<Rightarrow> u8 \<Rightarrow> vga res" where
  "put_plain s c =
     (if c = 8 then
        let s1 = (if 0 < cursor_x s then s\<lparr>cursor_x := cursor_x s - 1\<rparr> else s) in
        put_cell s1 (blank (color s1))
      else if c = 9 then Inr (s\<lparr>cursor_x := (cursor_x s + 8) AND NOT 7\<rparr>)
      else if c = 10 then Inr (s\<lparr>cursor_y := cursor_y s + 1, cursor_x := 0\<rparr>)
      else if c = 13 then Inr (s\<lparr>cursor_x := 0\<rparr>)
      else if c = 27 then Inr (s\<lparr>in_escape := True\<rparr>)
      else res_bind (put_cell s (cell c (color s))) (\<lambda>s1. Inr (s1\<lparr>cursor_x := cursor_x s1 + 1\<rparr>)))"

definition wrap_line :: "vga \<Rightarrow> vga" where
  "wrap_line s = (if 80 \<le> cursor_x s then s\<lparr>cursor_x := 0, cursor_y := cursor_y s + 1\<rparr> else s)"

definition vga_put :: "vga \<Rightarrow> u8 \<Rightarrow> vga res" where
  "vga_put s c =
     (if in_escape s then put_escaped s c
      else res_bind (put_plain s c) (\<lambda>s1. Inr (move_cursor (scroll (wrap_line s1)))))"

definition vga_clear :: "vga \<Rightarrow> vga" where
  "vga_clear s =
     move_cursor (s\<lparr>fb := replicate (25 * 80) (blank WHITE) @ drop (25 * 80) (fb s),
       cursor_x := 0, cursor_y := 0\<rparr>)"

text \<open>\<open>vga_write\<close> on a C string: every character up to the zero byte.\<close>

fun vga_write :: "vga \<Rightarrow> u8 list \<Rightarrow> vga res" where
  "vga_write s [] = Inl OutOfBounds"
| "vga_write s (c # cs) =
     (if c = 0 then Inr s else res_bind (vga_put s c) (\<lambda>s1. vga_write s1 cs))"

text \<open>The output loop of \<open>vga_putd\<close> and of the digits below: one character after another.\<close>

fun put_all :: "vga \<Rightarrow> u8 list \<Rightarrow> vga res" where
  "put_all s [] = Inr s"
| "put_all s (c # cs) = res_bind (vga_put s c) (\<lambda>s1. put_all s1 cs)"

text \<open>The digits that \<open>vga_putd\<close> stores in \<open>str\<close>, least significant first.\<close>

function putd_digits :: "u32 \<Rightarrow> u8 list" where
  "putd_digits d = (ucast (d mod 10) + 48) # (if 0 < d div 10 then putd_digits (d div 10) else [])"
  by pat_completeness auto
termination
  by (relation "measure unat") (auto simp: unat_div word_gt_0_no word_less_nat_alt intro!: div_less_dividend)

declare putd_digits.simps [simp del]

definition vga_putd :: "vga \<Rightarrow> u32 \<Rightarrow> vga res" where
  "vga_putd s d = put_all s (rev (putd_digits d))"

definition vga_put_nibble :: "vga \<Rightarrow> u8 \<Rightarrow> bool \<Rightarrow> (vga \<times> bool) res" where
  "vga_put_nibble s n first =
     (if first \<and> n = 0 then Inr (s, True)
      else if n \<le> 9 then res_bind (vga_put s (48 + n)) (\<lambda>s1. Inr (s1, False))
      else res_bind (vga_put s (65 + n - 10)) (\<lambda>s1. Inr (s1, False)))"

fun putx_bytes :: "vga \<Rightarrow> u8 list \<Rightarrow> bool \<Rightarrow> vga res" where
  "putx_bytes s [] first = Inr s"
| "putx_bytes s (byte # bs) first =
     res_bind (vga_put_nibble s (drop_bit 4 (byte AND 0xf0)) first) (\<lambda>(s1, f1).
     res_bind (vga_put_nibble s1 (byte AND 0x0f) f1) (\<lambda>(s2, f2). putx_bytes s2 bs f2))"

definition vga_putx :: "vga \<Rightarrow> u32 \<Rightarrow> vga res" where
  "vga_putx s x = putx_bytes s (map (\<lambda>shift. ucast (drop_bit shift x)) [24, 16, 8, 0]) True"

definition init_vga :: "vga \<Rightarrow> vga" where
  "init_vga s = outb 0x3D5 14 (outb 0x3D4 0x0A (outb 0x3D5 15 (outb 0x3D4 0x0B
     (outb 0x3D5 15 (outb 0x3D4 0x09 s)))))"

section \<open>Invariant\<close>

text \<open>
  The cursor is on the screen, the arrays have their sizes, and the escape buffer is zero
  from \<open>buffer_index\<close> on; outside an escape sequence it is empty.
\<close>

definition vga_inv :: "vga \<Rightarrow> bool" where
  "vga_inv s \<longleftrightarrow> unat (cursor_x s) < 80 \<and> unat (cursor_y s) < 25 \<and> length (fb s) = 2000 \<and>
     length (buffer s) = BUFFER_SIZE \<and> unat (buffer_index s) \<le> BUFFER_SIZE \<and>
     (\<forall>i\<in>{unat (buffer_index s)..<BUFFER_SIZE}. buffer s ! i = 0) \<and>
     (\<not> in_escape s \<longrightarrow> buffer_index s = 0)"

lemma scroll_once_length: "length f = 2000 \<Longrightarrow> length (scroll_once col f) = 2000"
  by (simp add: scroll_once_def)

lemma scroll_fb_on_screen: "unat y < 25 \<Longrightarrow> scroll_fb col y f = (y, f)"
  by (subst scroll_fb.simps) (simp add: word_le_nat_alt)

lemma scroll_fb_last: "unat y = 25 \<Longrightarrow> scroll_fb col y f = (y - 1, scroll_once col f)"
  by (subst scroll_fb.simps) (simp add: word_le_nat_alt scroll_fb_on_screen unat_minus_one_pos)

text \<open>The state before \<open>scroll\<close>: the cursor may be one row below the screen.\<close>

lemma scroll_wrap_inv:
  assumes "unat (cursor_x s) < 88" "unat (cursor_y s) < 25 \<or> unat (cursor_y s) = 25 \<and> cursor_x s = 0"
    and "length (fb s) = 2000"
  shows "unat (cursor_x (scroll (wrap_line s))) < 80" (is ?x)
    and "unat (cursor_y (scroll (wrap_line s))) < 25" (is ?y)
    and "length (fb (scroll (wrap_line s))) = 2000" (is ?f)
proof -
  let ?w = "wrap_line s"
  have wx: "unat (cursor_x ?w) < 80" by (simp add: wrap_line_def word_le_nat_alt)
  have wy: "unat (cursor_y ?w) < 25 \<or> unat (cursor_y ?w) = 25"
    using assms(2) unat_plus_one[of "cursor_y s"] by (auto simp: wrap_line_def word_le_nat_alt)
  have wf: "length (fb ?w) = 2000" using assms(3) by (simp add: wrap_line_def)
  have "?x \<and> ?y \<and> ?f"
    using wy
  proof
    assume "unat (cursor_y ?w) < 25"
    then show ?thesis using wx wf by (simp add: scroll_def scroll_fb_on_screen)
  next
    assume y: "unat (cursor_y ?w) = 25"
    then have "unat (cursor_y ?w - 1) = 24" by (simp add: unat_minus_one_pos)
    then show ?thesis using wx wf y by (simp add: scroll_def scroll_fb_last scroll_once_length)
  qed
  then show ?x ?y ?f by simp_all
qed

lemma screen_index:
  assumes "unat x < 80" "unat y < 25"
  shows "unat (y * 80 + x :: u32) = unat y * 80 + unat x"
  using assms by (simp add: unat_word_ariths)

lemma put_cell_Inr:
  assumes "unat (cursor_x s) < 80" "unat (cursor_y s) < 25" "length (fb s) = 2000"
  shows "put_cell s v = Inr (s\<lparr>fb := (fb s)[unat (cursor_y s) * 80 + unat (cursor_x s) := v]\<rparr>)"
  using assms by (simp add: put_cell_def arr_set_uint screen_index)

lemma scroll_frame [simp]:
  "in_escape (scroll s) = in_escape s" "buffer (scroll s) = buffer s"
  "buffer_index (scroll s) = buffer_index s" "color (scroll s) = color s"
  by (simp_all add: scroll_def split: prod.split)

lemma wrap_line_frame [simp]:
  "in_escape (wrap_line s) = in_escape s" "buffer (wrap_line s) = buffer s"
  "buffer_index (wrap_line s) = buffer_index s" "color (wrap_line s) = color s"
  by (simp_all add: wrap_line_def)

lemma move_cursor_frame [simp]:
  "in_escape (move_cursor s) = in_escape s" "buffer (move_cursor s) = buffer s"
  "buffer_index (move_cursor s) = buffer_index s" "color (move_cursor s) = color s"
  "cursor_x (move_cursor s) = cursor_x s" "cursor_y (move_cursor s) = cursor_y s"
  "fb (move_cursor s) = fb s"
  by (simp_all add: move_cursor_def outb_def Let_def)

lemma tab_stop: "unat x < 80 \<Longrightarrow> unat ((x + 8) AND NOT 7 :: u32) < 88"
proof -
  assume "unat x < 80"
  moreover have "unat (x + 8) < 88" using calculation by (simp add: unat_word_ariths)
  moreover have "(x + 8) AND NOT 7 \<le> x + 8" by (rule word_and_le2)
  ultimately show ?thesis by (simp add: word_le_nat_alt)
qed

lemma put_plain_Inr:
  assumes "vga_inv s" "\<not> in_escape s"
  shows "\<exists>s'. put_plain s c = Inr s' \<and> unat (cursor_x s') < 88 \<and>
    (unat (cursor_y s') < 25 \<or> unat (cursor_y s') = 25 \<and> cursor_x s' = 0) \<and>
    length (fb s') = 2000 \<and> buffer s' = buffer s \<and> buffer_index s' = 0 \<and> 
    (in_escape s' \<longrightarrow> c = 27)"
proof -
  have i: "unat (cursor_x s) < 80" "unat (cursor_y s) < 25" "length (fb s) = 2000" "buffer_index s = 0"
    using assms by (auto simp: vga_inv_def)
  have y1: "unat (cursor_y s + 1) = Suc (unat (cursor_y s))"
    and x1: "unat (cursor_x s + 1) = Suc (unat (cursor_x s))"
    using i by (simp_all add: unat_plus_one)
  have xm: "unat (cursor_x s - 1) < 80" if "0 < cursor_x s"
    using that i by (subst unat_minus_one_pos) (auto simp: word_less_nat_alt)
  show ?thesis
    using i y1 x1 xm tab_stop[of "cursor_x s"] assms(2)
    by (auto simp: put_plain_def put_cell_Inr Let_def)
qed

text \<open>The attribute byte that \<open>ESC [ n m\<close> asks for.\<close>

definition sgr_color :: "int \<Rightarrow> u8 \<Rightarrow> u8" where
  "sgr_color n col =
     (if n = 0 then WHITE
      else if 30 \<le> n \<and> n \<le> 37 \<or> 90 \<le> n \<and> n \<le> 97 then
        (col AND 0xf0) OR ansi_to_vga_colors ! nat n
      else if 40 \<le> n \<and> n \<le> 47 \<or> 100 \<le> n \<and> n \<le> 107 then
        (col AND 0x0f) OR push_bit 4 (ansi_to_vga_colors ! nat (n - 10))
      else col)"

definition escape_overrun :: "u8 list \<Rightarrow> bool" where
  "escape_overrun b \<longleftrightarrow> hd b = 91 \<and> (\<forall>d\<in>set (tl b). isdigit d)"

lemma ansi_to_vga_colors_length [simp]: "length ansi_to_vga_colors = 98"
  by (simp add: ansi_to_vga_colors_def)

lemma got_escape_eq:
  assumes "buffer s \<noteq> []"
  shows "got_escape s =
    (if escape_overrun (buffer s) then Inl OutOfBounds
     else if hd (buffer s) = 91
     then res_bind (parse_int (tl (buffer s))) (\<lambda>n. Inr (s\<lparr>color := sgr_color (sint n) (color s)\<rparr>))
     else Inr s)"
proof -
  have g: "arr_get (buffer s) 0 = Inr (hd (buffer s))"
    using assms by (simp add: arr_get_def hd_conv_nth)
  show ?thesis
  proof (cases "hd (buffer s) = 91")
    case True
    show ?thesis
    proof (cases "escape_overrun (buffer s)")
      case True
      then have "parse_int (tl (buffer s)) = Inl OutOfBounds"
        by (simp add: escape_overrun_def parse_int_def parse_int_from_overrun)
      then show ?thesis using True g by (simp add: got_escape_def escape_overrun_def)
    next
      case False
      then obtain n where "parse_int (tl (buffer s)) = Inr n"
        using \<open>hd (buffer s) = 91\<close> parse_int_cases[of "tl (buffer s)"] by (auto simp: escape_overrun_def)
      then show ?thesis using True False g
        by (simp add: got_escape_def sgr_color_def Let_def arr_get_in)
    qed
  qed (simp add: got_escape_def g escape_overrun_def)
qed

lemma got_escape_frame:
  assumes "buffer s \<noteq> []" "\<not> escape_overrun (buffer s)"
  shows "\<exists>col. got_escape s = Inr (s\<lparr>color := col\<rparr>)"
proof (cases "hd (buffer s) = 91")
  case True
  then show ?thesis
    using assms parse_int_cases[of "tl (buffer s)"]
    by (auto simp: got_escape_eq escape_overrun_def)
next
  case False
  then have "got_escape s = Inr (s\<lparr>color := color s\<rparr>)" using assms by (simp add: got_escape_eq)
  then show ?thesis ..
qed

lemma put_escaped_inv:
  assumes inv: "vga_inv s" and esc: "in_escape s"
  shows "(if c = 109 \<and> escape_overrun (buffer s) then put_escaped s c = Inl OutOfBounds
          else \<exists>s'. put_escaped s c = Inr s' \<and> vga_inv s')"
proof -
  have b: "length (buffer s) = 16" "buffer s \<noteq> []" "unat (buffer_index s) \<le> 16"
    using inv by (auto simp: vga_inv_def BUFFER_SIZE_def)
  consider (m) "c = 109" | (full) "c \<noteq> 109" "unat (buffer_index s) = 16"
    | (store) "c \<noteq> 109" "unat (buffer_index s) < 16"
    using b(3) by linarith
  then show ?thesis
  proof cases
    case m
    show ?thesis
    proof (cases "escape_overrun (buffer s)")
      case True
      then show ?thesis using m b by (simp add: put_escaped_def got_escape_eq)
    next
      case False
      then obtain col where "got_escape s = Inr (s\<lparr>color := col\<rparr>)"
        using got_escape_frame b by blast
      then show ?thesis using m False inv
        by (simp add: put_escaped_def vga_inv_def BUFFER_SIZE_def)
    qed
  next
    case full
    then show ?thesis using inv by (simp add: put_escaped_def vga_inv_def BUFFER_SIZE_def)
  next
    case store
    then have n: "unat (buffer_index s + 1) = Suc (unat (buffer_index s))"
      by (simp add: unat_plus_one)
    show ?thesis using store n inv esc b
      by (simp add: put_escaped_def vga_inv_def BUFFER_SIZE_def arr_set_uint)
  qed
qed

lemma vga_put_inv:
  assumes inv: "vga_inv s"
  shows "(if in_escape s \<and> c = 109 \<and> escape_overrun (buffer s) then vga_put s c = Inl OutOfBounds
          else \<exists>s'. vga_put s c = Inr s' \<and> vga_inv s')"
proof (cases "in_escape s")
  case True
  then show ?thesis using put_escaped_inv[OF inv True, of c] by (auto simp: vga_put_def)
next
  case False
  obtain t where t: "put_plain s c = Inr t" "unat (cursor_x t) < 88"
      "unat (cursor_y t) < 25 \<or> unat (cursor_y t) = 25 \<and> cursor_x t = 0"
      "length (fb t) = 2000" "buffer t = buffer s" "buffer_index t = 0"
    using put_plain_Inr[OF inv False, of c] by blast
  then have "vga_inv (move_cursor (scroll (wrap_line t)))"
    using inv False scroll_wrap_inv[OF t(2-4)] by (auto simp: vga_inv_def)
  then show ?thesis using False t by (simp add: vga_put_def)
qed

section \<open>Decimal output\<close>

lemma putd_digits_value:
  "(\<forall>c\<in>set (putd_digits d). isdigit c) \<and>
   decimal_value (rev (putd_digits d)) = unat d"
proof (induction d rule: putd_digits.induct)
  case (1 d)
  have m: "unat (d mod 10) < 10" by (simp add: unat_mod)
  have c: "unat (ucast (d mod 10) + 48 :: u8) = unat (d mod 10) + 48"
    using m by (simp add: unat_word_ariths unsigned_ucast_eq unat_mod take_bit_eq_mod)
  have dig: "isdigit (ucast (d mod 10) + 48)" using m by (simp add: isdigit_unat c)
  have dv: "digit_value (ucast (d mod 10) + 48) = unat d mod 10"
    by (simp add: digit_value_def c unat_mod)
  show ?case
  proof (cases "0 < d div 10")
    case True
    then show ?thesis using 1 dig dv
      by (subst (1 2) putd_digits.simps) (simp add: decimal_value_def unat_div)
  next
    case False
    then have "unat d div 10 = 0" by (simp add: word_gt_0_no word_less_nat_alt unat_div)
    then have "unat d mod 10 = unat d" by simp
    then show ?thesis using False dig dv
      by (subst (1 2) putd_digits.simps) (simp add: decimal_value_def)
  qed
qed

lemma putd_digits_le: "0 < k \<Longrightarrow> unat d < 10 ^ k \<Longrightarrow> length (putd_digits d) \<le> k"
proof (induction k arbitrary: d)
  case (Suc k)
  show ?case
  proof (cases "0 < d div 10")
    case True
    then have n: "0 < unat d div 10" by (simp add: word_less_nat_alt unat_div)
    have lt: "unat (d div 10) < 10 ^ k" using Suc.prems by (simp add: unat_div less_mult_imp_div_less mult.commute)
    have "0 < k" using n lt by (cases k) (auto simp: unat_div)
    then show ?thesis using Suc.IH[OF _ lt] True by (subst putd_digits.simps) simp
  next
    case False
    then show ?thesis by (subst putd_digits.simps) simp
  qed
qed simp

lemma putd_parse: "parse_int (rev (putd_digits d) @ 0 # rest) = Inr d"
  using parse_int_digits[of "rev (putd_digits d)" 0 rest] putd_digits_value[of d] by simp

section \<open>Strings\<close>

lemma vga_put_text:
  assumes "vga_inv s" "\<not> in_escape s" "c \<noteq> 27"
  shows "\<exists>s'. vga_put s c = Inr s' \<and> vga_inv s' \<and> \<not> in_escape s'"
proof -
  obtain t where t: "put_plain s c = Inr t" "in_escape t \<longrightarrow> c = 27"
    using put_plain_Inr[OF assms(1,2), of c] by blast
  obtain s' where "vga_put s c = Inr s'" "vga_inv s'" using vga_put_inv[OF assms(1), of c] assms(2) by auto
  moreover have "\<not> in_escape s'" using calculation t assms by (auto simp: vga_put_def)
  ultimately show ?thesis by blast
qed

lemma put_all_text:
  "vga_inv s \<Longrightarrow> \<not> in_escape s \<Longrightarrow> 27 \<notin> set cs \<Longrightarrow>
    \<exists>s'. put_all s cs = Inr s' \<and> vga_inv s' \<and> \<not> in_escape s'"
proof (induction cs arbitrary: s)
  case (Cons c cs)
  then obtain t where "vga_put s c = Inr t" "vga_inv t" "\<not> in_escape t"
    using vga_put_text[of s c] by auto
  then show ?case using Cons by simp
qed simp

lemma vga_write_put_all: "0 \<notin> set cs \<Longrightarrow> vga_write s (cs @ 0 # rest) = put_all s cs"
proof (induction cs arbitrary: s)
  case (Cons c cs)
  then show ?case by (cases "vga_put s c") auto
qed simp

section \<open>Escape sequences\<close>

lemma put_escaped_store:
  assumes "c \<noteq> 109" "in_escape s" "unat (buffer_index s) < 16" "length (buffer s) = 16"
  shows "vga_put s c = Inr (s\<lparr>buffer := (buffer s)[unat (buffer_index s) := c], buffer_index := buffer_index s + 1\<rparr>)"
  using assms by (simp add: vga_put_def put_escaped_def BUFFER_SIZE_def arr_set_uint)

lemma put_all_escape:
  assumes "in_escape s" "buffer_index s = of_nat (length done)"
    "buffer s = done @ replicate (16 - length done) 0" "length done + length cs \<le> 16" "109 \<notin> set cs"
  shows "put_all s cs = Inr (s\<lparr>buffer := (done @ cs) @ replicate (16 - length (done @ cs)) 0,
     buffer_index := of_nat (length (done @ cs))\<rparr>)"
  using assms
proof (induction cs arbitrary: s "done")
  case (Cons c cs)
  let ?t = "s\<lparr>buffer := (done @ [c]) @ replicate (16 - length (done @ [c])) 0,
     buffer_index := of_nat (length (done @ [c]))\<rparr>"
  have n: "unat (buffer_index s) = length done" using Cons.prems by (simp add: unat_of_nat)
  have r: "(done @ replicate (16 - length done) 0)[length done := c] = (done @ [c]) @ replicate (16 - length (done @ [c])) 0"
    using Cons.prems(4) by (cases "16 - length done") (auto simp: list_update_append)
  have p: "vga_put s c = Inr ?t"
    using Cons.prems n by (subst put_escaped_store) (auto simp: r)
  have "put_all ?t cs = Inr (?t\<lparr>buffer := ((done @ [c]) @ cs) @ replicate (16 - length ((done @ [c]) @ cs)) 0,
     buffer_index := of_nat (length ((done @ [c]) @ cs))\<rparr>)"
    using Cons.prems by (intro Cons.IH) auto
  then show ?case using p by simp
qed simp

lemma put_all_append: "put_all s (a @ b) = res_bind (put_all s a) (\<lambda>t. put_all t b)"
proof (induction a arbitrary: s)
  case (Cons c cs)
  then show ?case by (cases "vga_put s c") auto
qed simp

lemma vga_inv_empty_buffer: "vga_inv s \<Longrightarrow> \<not> in_escape s \<Longrightarrow> buffer s = replicate 16 0 \<and> buffer_index s = 0"
  by (auto simp: vga_inv_def BUFFER_SIZE_def list_eq_iff_nth_eq)

lemma put_esc:
  assumes "vga_inv s" "\<not> in_escape s"
  shows "\<exists>os. vga_put s 27 = Inr (s\<lparr>in_escape := True, outs := os\<rparr>)"
proof -
  have "scroll (wrap_line (s\<lparr>in_escape := True\<rparr>)) = s\<lparr>in_escape := True\<rparr>"
    using assms by (simp add: wrap_line_def scroll_def scroll_fb_on_screen vga_inv_def word_le_nat_alt)
  then show ?thesis using assms
    by (simp add: vga_put_def put_plain_def move_cursor_def outb_def Let_def) (metis)
qed

lemma put_escaped_m:
  assumes "in_escape s" "got_escape s = Inr t"
  shows "vga_put s 109 = Inr (t\<lparr>in_escape := False, buffer_index := 0, buffer := replicate 16 0\<rparr>)"
  using assms by (simp add: vga_put_def put_escaped_def BUFFER_SIZE_def)

lemma sgr_sequence:
  assumes inv: "vga_inv s" "\<not> in_escape s" and ds: "\<forall>d\<in>set ds. isdigit d" "length ds \<le> 14"
  shows "\<exists>os. put_all s (27 # 91 # ds @ [109]) =
    Inr (s\<lparr>color := sgr_color (sint (of_nat (decimal_value ds) :: u32)) (color s), outs := os\<rparr>)"
proof -
  obtain os where e: "vga_put s 27 = Inr (s\<lparr>in_escape := True, outs := os\<rparr>)"
    using put_esc[OF inv] by blast
  let ?t = "s\<lparr>in_escape := True, outs := os\<rparr>"
  let ?b = "(91 # ds) @ replicate (15 - length ds) 0"
  let ?u = "?t\<lparr>buffer := ?b, buffer_index := of_nat (Suc (length ds))\<rparr>"
  have b: "buffer s = replicate 16 0" "buffer_index s = 0" using vga_inv_empty_buffer[OF inv] by auto
  have m: "109 \<notin> set ds" using ds(1) by (auto simp: isdigit_unat)
  have 1: "put_all ?t (91 # ds) = Inr ?u"
    using put_all_escape[of ?t "[]" "91 # ds"] b m ds(2) by simp
  obtain k where k: "15 - length ds = Suc k" using ds(2) by (cases "15 - length ds") auto
  have 2: "got_escape ?u = Inr (?u\<lparr>color := sgr_color (sint (of_nat (decimal_value ds) :: u32)) (color s)\<rparr>)"
    using parse_int_digits[OF ds(1) isdigit_zero, of "replicate k 0"]
    by (simp add: got_escape_eq escape_overrun_def k)
  have e3: "in_escape ?u" by simp
  have 3: "vga_put ?u 109 = Inr (s\<lparr>color := sgr_color (sint (of_nat (decimal_value ds) :: u32)) (color s), outs := os\<rparr>)"
    using inv b by (simp only: put_escaped_m[OF e3 2]) (cases s, simp)
  have "put_all s (27 # 91 # ds @ [109]) = put_all ?t ((91 # ds) @ [109])" using e by simp
  also have "\<dots> = put_all ?u [109]" by (simp only: put_all_append 1 res_bind_simps)
  finally show ?thesis using 3 by auto
qed

lemma cell_high_byte: "drop_bit 8 (cell c col) = (if unat c < 128 then ucast col else mask 8)"
proof (rule bit_word_eqI)
  fix n assume "n < LENGTH(16)"
  have "\<not> bit col n" if "8 \<le> n" using that bit_imp_le_length[of col n] by auto
  then show "bit (drop_bit 8 (cell c col)) n \<longleftrightarrow> bit (if unat c < 128 then ucast col else mask 8 :: u16) n"
    using u8_bit7[of c] \<open>n < LENGTH(16)\<close>
    by (cases "8 \<le> n") (auto simp: cell_def bit_simps min_def)
qed

lemma cell_low_byte: "take_bit 8 (cell c col) = ucast c"
proof (rule bit_word_eqI)
  fix n assume "n < LENGTH(16)"
  have "\<not> bit c n" if "8 \<le> n" using that bit_imp_le_length[of c n] by auto
  then show "bit (take_bit 8 (cell c col)) n \<longleftrightarrow> bit (ucast c :: u16) n"
    using \<open>n < LENGTH(16)\<close> 
    unfolding cell_def bit_take_bit_iff bit_or_iff bit_push_bit_iff bit_ucast_iff bit_signed_iff
    by (cases "n = 7") (auto simp: min_def)
qed

definition blank_screen :: vga where
  "blank_screen = \<lparr>cursor_x = 0, cursor_y = 24, color = WHITE, fb = replicate 2000 (blank WHITE),
     buffer = replicate 16 0, buffer_index = 0, in_escape = False, outs = []\<rparr>"

lemma blank_screen_inv: "vga_inv blank_screen" "\<not> in_escape blank_screen"
  by (simp_all add: blank_screen_def vga_inv_def BUFFER_SIZE_def)

lemma vga_put_cell:
  assumes "vga_inv s" "\<not> in_escape s" "c \<notin> {8, 9, 10, 13, 27}"
    and "unat (cursor_y s) * 80 + unat (cursor_x s) < 1999"
  shows "\<exists>s'. vga_put s c = Inr s' \<and>
    fb s' = (fb s)[unat (cursor_y s) * 80 + unat (cursor_x s) := cell c (color s)] \<and>
    unat (cursor_y s') * 80 + unat (cursor_x s') = unat (cursor_y s) * 80 + unat (cursor_x s) + 1"
proof -
  have i: "unat (cursor_x s) < 80" "unat (cursor_y s) < 25" "length (fb s) = 2000"
    using assms by (auto simp: vga_inv_def)
  let ?t = "s\<lparr>fb := (fb s)[unat (cursor_y s) * 80 + unat (cursor_x s) := cell c (color s)], cursor_x := cursor_x s + 1\<rparr>"
  have p: "put_plain s c = Inr ?t"
    using assms i by (simp add: put_plain_def put_cell_Inr)
  have x1: "unat (cursor_x s + 1) = unat (cursor_x s) + 1"
    and y1: "unat (cursor_y s + 1) = unat (cursor_y s) + 1" using i by (simp_all add: unat_plus_one)
  have w: "unat (cursor_y (wrap_line ?t)) < 25" "unat (cursor_y (wrap_line ?t)) * 80 + unat (cursor_x (wrap_line ?t))
      = unat (cursor_y s) * 80 + unat (cursor_x s) + 1"
    using i x1 y1 assms(4) by (auto simp: wrap_line_def word_le_nat_alt)
  have "scroll (wrap_line ?t) = wrap_line ?t"
    using w(1) by (simp add: scroll_def scroll_fb_on_screen)
  moreover have "fb (wrap_line ?t) = fb ?t" by (simp add: wrap_line_def)
  ultimately show ?thesis using assms(2) p w by (simp add: vga_put_def)
qed

lemma vga_put_newline:
  assumes "vga_inv s" "\<not> in_escape s" "cursor_y s = 24"
  shows "\<exists>os. vga_put s 10 = Inr (s\<lparr>cursor_x := 0, cursor_y := 24,
    fb := drop 80 (fb s) @ replicate 80 (blank (color s)), outs := os\<rparr>)"
proof -
  have "length (fb s) = 2000" using assms by (simp add: vga_inv_def)
  then have "scroll_once (color s) (fb s) = drop 80 (fb s) @ replicate 80 (blank (color s))"
    by (simp add: scroll_once_def)
  then show ?thesis using assms
    by (auto simp: vga_put_def put_plain_def wrap_line_def scroll_def scroll_fb_last move_cursor_def outb_def Let_def)
qed

section \<open>Properties\<close>

text \<open>
  C32. \<open>vga_put\<close> keeps the console's invariant for every character, and the only way it can
  leave its arrays is one: the character \<open>m\<close> when the 16 cells of the escape buffer hold
  \<open>[\<close> and fifteen digits, for then \<open>parse_int\<close> reads past the buffer.
\<close>

theorem vga_put_safe:
  assumes "vga_inv s"
  shows "(if in_escape s \<and> c = 109 \<and> hd (buffer s) = 91 \<and> (\<forall>d\<in>set (tl (buffer s)). isdigit d)
          then vga_put s c = Inl OutOfBounds else \<exists>s'. vga_put s c = Inr s' \<and> vga_inv s')"
  using vga_put_inv[OF assms, of c] by (simp add: escape_overrun_def)

theorem vga_put_safe_witness:
  "(\<exists>s'. vga_put blank_screen 10 = Inr s' \<and> vga_inv s') \<and>
   vga_put (blank_screen\<lparr>in_escape := True, buffer := 91 # replicate 15 48, buffer_index := 16\<rparr>) 109
     = Inl OutOfBounds"
  using vga_put_safe[of blank_screen 10]
    vga_put_safe[of "blank_screen\<lparr>in_escape := True, buffer := 91 # replicate 15 48, buffer_index := 16\<rparr>" 109]
  by (simp add: blank_screen_def vga_inv_def BUFFER_SIZE_def isdigit_unat)

text \<open>
  A string with no escape character is written in full, whatever its bytes, and leaves
  the console in its invariant, outside an escape sequence.
\<close>

theorem vga_write_total:
  assumes "vga_inv s" and "\<not> in_escape s" and "0 \<notin> set cs" and "27 \<notin> set cs"
  shows "\<exists>s'. vga_write s (cs @ 0 # rest) = Inr s' \<and> vga_inv s' \<and> \<not> in_escape s'"
  using put_all_text[of s cs] assms by (simp add: vga_write_put_all)

theorem vga_write_total_witness:
  "\<exists>s'. vga_write blank_screen ([72, 105, 10, 200] @ 0 # [1]) = Inr s' \<and> vga_inv s' \<and> \<not> in_escape s'"
  using vga_write_total[of blank_screen "[72, 105, 10, 200]" "[1]"] blank_screen_inv by simp

text \<open>
  A printable character changes the cell under the cursor and no other, and moves the
  cursor one position on in reading order (here anywhere but on the screen's last cell).
\<close>

theorem vga_put_writes_cell:
  assumes "vga_inv s" and "\<not> in_escape s" and "c \<notin> {8, 9, 10, 13, 27}"
    and "unat (cursor_y s) * 80 + unat (cursor_x s) < 1999"
  shows "\<exists>s'. vga_put s c = Inr s' \<and>
    fb s' = (fb s)[unat (cursor_y s) * 80 + unat (cursor_x s) := cell c (color s)] \<and>
    unat (cursor_y s') * 80 + unat (cursor_x s') = unat (cursor_y s) * 80 + unat (cursor_x s) + 1"
  using assms by (rule vga_put_cell)

theorem vga_put_writes_cell_witness:
  "\<exists>s'. vga_put blank_screen 65 = Inr s' \<and> fb s' = (replicate 2000 (blank WHITE))[1920 := cell 65 WHITE] \<and>
    unat (cursor_y s') * 80 + unat (cursor_x s') = 1921"
  using vga_put_writes_cell[of blank_screen 65] blank_screen_inv by (simp add: blank_screen_def)

text \<open>
  A newline on the last row scrolls: rows 1 to 24 move up by one, the last row is blank
  in the current colour, the cursor stands at its start, and nothing else but the port trace
  changes.
\<close>

theorem vga_newline_scrolls:
  assumes "vga_inv s" and "\<not> in_escape s" and "cursor_y s = 24"
  shows "\<exists>os. vga_put s 10 = Inr (s\<lparr>cursor_x := 0, cursor_y := 24,
    fb := drop 80 (fb s) @ replicate 80 (blank (color s)), outs := os\<rparr>)"
  using assms by (rule vga_put_newline)

theorem vga_newline_scrolls_witness:
  "\<exists>os. vga_put blank_screen 10 = Inr (blank_screen\<lparr>cursor_x := 0, cursor_y := 24,
    fb := drop 80 (fb blank_screen) @ replicate 80 (blank WHITE), outs := os\<rparr>)"
  using vga_newline_scrolls[OF blank_screen_inv] by (simp add: blank_screen_def)

text \<open>
  Writing \<open>ESC [ n m\<close> with up to fourteen digits sets the colour as the ANSI code \<open>n\<close>
  says (0 resets to white, 30 to 37 and 90 to 97 the foreground, 40 to 47 and 100 to 107 the
  background, anything else nothing) and changes nothing else but the port trace.
\<close>

theorem vga_write_sgr:
  assumes "vga_inv s" and "\<not> in_escape s" and "\<forall>d\<in>set ds. isdigit d" and "length ds \<le> 14"
  shows "\<exists>os. vga_write s ((27 # 91 # ds @ [109]) @ 0 # rest) =
    Inr (s\<lparr>color := sgr_color (sint (of_nat (decimal_value ds) :: u32)) (color s), outs := os\<rparr>)"
proof -
  have z: "0 \<notin> set (27 # 91 # ds @ [109])" using assms(3) by auto
  show ?thesis unfolding vga_write_put_all[OF z] by (rule sgr_sequence[OF assms])
qed

theorem vga_write_sgr_witness:
  "\<exists>os. vga_write blank_screen ((27 # 91 # [51, 49] @ [109]) @ 0 # []) =
    Inr (blank_screen\<lparr>color := 4, outs := os\<rparr>)"
proof -
  have "sgr_color (sint (of_nat (decimal_value [51, 49]) :: u32)) WHITE = 4"
    by (simp add: decimal_value_def digit_value_def sgr_color_def ansi_to_vga_colors_def WHITE_def RED_def nth_append)
  then show ?thesis
    using vga_write_sgr[of blank_screen "[51, 49]" "[]"] blank_screen_inv
    by (simp add: isdigit_unat blank_screen_def)
qed

text \<open>
  The digits \<open>vga_putd\<close> prints are the decimal numeral of its argument: \<open>parse_int\<close> reads
  the printed text back as the same 32-bit number, and the text has at most ten digits, so it
  fits the 48 bytes of \<open>str\<close>.
\<close>

theorem vga_putd_roundtrip:
  "parse_int (rev (putd_digits d) @ 0 # rest) = Inr d \<and> length (putd_digits d) \<le> 10 \<and>
   vga_putd s d = put_all s (rev (putd_digits d))"
proof -
  have "unat d < 2 ^ LENGTH(32)" by (rule unsigned_less)
  then have "unat d < 10 ^ 10" by simp
  then show ?thesis using putd_digits_le[of 10 d] putd_parse by (simp add: vga_putd_def)
qed

text \<open>
  A cell holds the character in its low byte; its high byte is the colour only for a
  7-bit character. A byte from 0x80 on is a negative \<open>char\<close>, whose sign extension sets every
  attribute bit whatever the colour.
\<close>

theorem cell_bytes:
  "take_bit 8 (cell c col) = ucast c \<and>
   drop_bit 8 (cell c col) = (if unat c < 128 then ucast col else mask 8)"
  by (simp add: cell_low_byte cell_high_byte)

end
