(* ===== verification/Klog.thy ===== *)
theory Klog
  imports Vga
begin

text \<open>
  Formatted output (\<^verbatim>\<open>src/kernel/x86_32/log.c\<close>): \<open>kprintf\<close> over the console and the
  reporting half of \<open>kassert\<close>. The variable arguments are a list of tagged values; reading
  one that is missing or of another kind is undefined in C and a fault here.
\<close>

section \<open>Operations\<close>

datatype karg = KInt u32 | KStr "u8 list"

fun next_uint :: "karg list \<Rightarrow> (u32 \<times> karg list) res" where
  "next_uint (KInt x # as) = Inr (x, as)"
| "next_uint _ = Inl OutOfBounds"

fun next_str :: "karg list \<Rightarrow> (u8 list \<times> karg list) res" where
  "next_str (KStr x # as) = Inr (x, as)"
| "next_str _ = Inl OutOfBounds"

definition print_hex :: "vga \<Rightarrow> karg list \<Rightarrow> (vga \<times> karg list) res" where
  "print_hex s as = res_bind (next_uint as) (\<lambda>(x, as1).
     res_bind (if x \<noteq> 0 then vga_putx s x else vga_put s 48) (\<lambda>s1. Inr (s1, as1)))"

text \<open>The \<open>switch\<close> on the character after a percent sign; \<open>p\<close> falls through to \<open>x\<close>.\<close>

definition kprintf_arg :: "vga \<Rightarrow> u8 \<Rightarrow> karg list \<Rightarrow> (vga \<times> karg list) res" where
  "kprintf_arg s c as =
     (if c = 100 then
        res_bind (next_uint as) (\<lambda>(x, as1). res_bind (vga_putd s x) (\<lambda>s1. Inr (s1, as1)))
      else if c = 112 then
        res_bind (vga_put s 48) (\<lambda>s1. res_bind (vga_put s1 120) (\<lambda>s2. print_hex s2 as))
      else if c = 120 then print_hex s as
      else if c = 115 then
        res_bind (next_str as) (\<lambda>(x, as1). res_bind (vga_write s x) (\<lambda>s1. Inr (s1, as1)))
      else if c = 99 then
        res_bind (next_uint as) (\<lambda>(x, as1). res_bind (vga_put s (ucast x)) (\<lambda>s1. Inr (s1, as1)))
      else if c = 98 then
        res_bind (next_uint as) (\<lambda>(x, as1).
        res_bind (vga_write s (if x \<noteq> 0 then [116, 114, 117, 101, 0] else [102, 97, 108, 115, 101, 0]))
          (\<lambda>s1. Inr (s1, as1)))
      else Inr (s, as))"

fun kprintf :: "vga \<Rightarrow> u8 list \<Rightarrow> karg list \<Rightarrow> vga res" where
  "kprintf s [] as = Inl OutOfBounds"
| "kprintf s (c # cs) as =
     (if c = 0 then Inr s
      else if c = 37 then
        (case cs of
           [] \<Rightarrow> Inl OutOfBounds
         | d # ds \<Rightarrow> res_bind (kprintf_arg s d as) (\<lambda>(s1, as1). kprintf s1 ds as1))
      else res_bind (vga_put s c) (\<lambda>s1. kprintf s1 cs as))"

text \<open>\<open>ERROR "ASSERTION FAILED: %s:%d\n%s\n"\<close>.\<close>

definition ASSERT_FORMAT :: "u8 list" where
  "ASSERT_FORMAT = map of_char (''['' @ CHR 0x1B # ''[91m ERROR '' @ CHR 0x1B # ''[0m] ASSERTION FAILED: %s:%d'' @
     CHR 0x0A # ''%s'' @ [CHR 0x0A]) @ [0]"

definition kassert_int :: "vga \<Rightarrow> bool \<Rightarrow> u8 list \<Rightarrow> u8 list \<Rightarrow> u32 \<Rightarrow> vga res" where
  "kassert_int s condition message file line =
     (if condition then Inr s
      else res_bind (kprintf s ASSERT_FORMAT [KStr file, KInt line, KStr message]) (\<lambda>s1. Inl Hang))"

section \<open>Well-typed formats\<close>

text \<open>
  The argument is the one the directive asks for, and no escape character is printed.
\<close>

definition arg_ok :: "u8 \<Rightarrow> karg list \<Rightarrow> bool" where
  "arg_ok d as \<longleftrightarrow> d \<noteq> 0 \<and>
     (if d \<in> {100, 112, 120, 98, 99} then
        (case as of KInt x # _ \<Rightarrow> d = 99 \<longrightarrow> (ucast x :: u8) \<noteq> 27 | _ \<Rightarrow> False)
      else if d = 115 then (case as of KStr x # _ \<Rightarrow> 0 \<in> set x \<and> 27 \<notin> set x | _ \<Rightarrow> False)
      else True)"

definition arg_rest :: "u8 \<Rightarrow> karg list \<Rightarrow> karg list" where
  "arg_rest d as = (if d \<in> {100, 112, 120, 98, 99, 115} then tl as else as)"

fun format_ok :: "u8 list \<Rightarrow> karg list \<Rightarrow> bool" where
  "format_ok [] as = True"
| "format_ok (c # cs) as =
     (if c = 37 then (case cs of [] \<Rightarrow> False | d # ds \<Rightarrow> arg_ok d as \<and> format_ok ds (arg_rest d as))
      else c \<noteq> 0 \<and> c \<noteq> 27 \<and> format_ok cs as)"

definition console_ok :: "vga \<Rightarrow> bool" where
  "console_ok s \<longleftrightarrow> vga_inv s \<and> \<not> in_escape s"

lemma vga_put_ok: "console_ok s \<Longrightarrow> c \<noteq> 27 \<Longrightarrow> \<exists>s'. vga_put s c = Inr s' \<and> console_ok s'"
  using vga_put_text[of s c] by (auto simp: console_ok_def)

lemma put_all_ok: "console_ok s \<Longrightarrow> 27 \<notin> set cs \<Longrightarrow> \<exists>s'. put_all s cs = Inr s' \<and> console_ok s'"
  using put_all_text[of s cs] by (auto simp: console_ok_def)

lemma vga_write_ok:
  assumes "console_ok s" "0 \<in> set cs" "27 \<notin> set cs"
  shows "\<exists>s'. vga_write s cs = Inr s' \<and> console_ok s'"
proof -
  obtain a b where "cs = a @ 0 # b" "0 \<notin> set a" using split_list_first[OF assms(2)] by blast
  then show ?thesis using put_all_ok[of s a] assms by (simp add: vga_write_put_all)
qed

lemma vga_putd_ok: "console_ok s \<Longrightarrow> \<exists>s'. vga_putd s x = Inr s' \<and> console_ok s'"
proof -
  assume s: "console_ok s"
  have "27 \<notin> set (rev (putd_digits x))"
    using putd_digits_value[of x] by (auto simp: isdigit_unat)
  then show ?thesis using put_all_ok[OF s] by (simp add: vga_putd_def)
qed

lemma nibble_not_esc: "unat (n :: u8) < 16 \<Longrightarrow> 48 + n \<noteq> 27 \<and> 65 + n - 10 \<noteq> 27"
proof -
  assume n: "unat n < 16"
  then have "unat (48 + n) = 48 + unat n" "unat (55 + n) = 55 + unat n" by (simp_all add: unat_word_ariths)
  then have "unat (48 + n) \<noteq> unat (27 :: u8)" "unat (55 + n) \<noteq> unat (27 :: u8)" by simp_all
  moreover have "65 + n - 10 = 55 + n" by simp
  ultimately show ?thesis by metis
qed

lemma put_nibble_ok:
  assumes "console_ok s" "unat n < 16"
  shows "\<exists>s' f'. vga_put_nibble s n f = Inr (s', f') \<and> console_ok s'"
  using vga_put_ok[OF assms(1), of "48 + n"] vga_put_ok[OF assms(1), of "65 + n - 10"]
    nibble_not_esc[OF assms(2)] assms(1)
  by (auto simp: vga_put_nibble_def)

lemma nibble_bounds: "unat (drop_bit 4 (b AND 0xf0 :: u8)) < 16" "unat (b AND 0x0f :: u8) < 16"
proof -
  have "b AND 0x0f \<le> 0x0f" by (rule word_and_le1)
  then show "unat (b AND 0x0f) < 16" by (simp add: word_le_nat_alt)
  have "b AND 0xf0 \<le> 0xf0" by (rule word_and_le1)
  then have "unat (b AND 0xf0) < 16 * 16" by (simp add: word_le_nat_alt)
  then show "unat (drop_bit 4 (b AND 0xf0)) < 16"
    by (simp add: drop_bit_eq_div unat_div less_mult_imp_div_less)
qed

lemma putx_bytes_ok: "console_ok s \<Longrightarrow> \<exists>s'. putx_bytes s bs f = Inr s' \<and> console_ok s'"
proof (induction bs arbitrary: s f)
  case (Cons b bs)
  obtain s1 f1 where 1: "vga_put_nibble s (drop_bit 4 (b AND 0xf0)) f = Inr (s1, f1)" "console_ok s1"
    using put_nibble_ok[OF Cons.prems nibble_bounds(1)] by blast
  obtain s2 f2 where 2: "vga_put_nibble s1 (b AND 0x0f) f1 = Inr (s2, f2)" "console_ok s2"
    using put_nibble_ok[OF 1(2) nibble_bounds(2)] by blast
  show ?case using 1 2 Cons.IH[OF 2(2)] by simp
qed simp

lemma print_hex_ok:
  "console_ok s \<Longrightarrow> \<exists>s'. print_hex s (KInt x # as) = Inr (s', as) \<and> console_ok s'"
  using putx_bytes_ok[of s "map (\<lambda>shift. ucast (drop_bit shift x)) [24, 16, 8, 0]" True]
    vga_put_ok[of s 48]
  by (auto simp: print_hex_def vga_putx_def simp del: putx_bytes.simps list.map)

lemma print_bool_ok:
  "console_ok s \<Longrightarrow> \<exists>s'. vga_write s (if x \<noteq> (0 :: u32) then [116, 114, 117, 101, 0] else [102, 97, 108, 115, 101, 0])
     = Inr s' \<and> console_ok s'"
  by (rule vga_write_ok) auto

lemma kprintf_arg_ok:
  assumes "arg_ok d as" and s: "console_ok s"
  shows "\<exists>s1. kprintf_arg s d as = Inr (s1, arg_rest d as) \<and> console_ok s1"
proof -
  consider (i) "d \<in> {100, 112, 120, 98, 99}" | (s) "d = 115" | (o) "d \<notin> {100, 112, 120, 98, 99, 115}"
    by blast
  then show ?thesis
  proof cases
    case i
    then obtain x as1 where as: "as = KInt x # as1" "d = 99 \<longrightarrow> (ucast x :: u8) \<noteq> 27"
      using assms(1) by (cases as rule: next_uint.cases) (auto simp: arg_ok_def)
    obtain p1 where p1: "vga_put s 48 = Inr p1" "console_ok p1" using vga_put_ok[OF s, of 48] by auto
    obtain p2 where p2: "vga_put p1 120 = Inr p2" "console_ok p2" using vga_put_ok[OF p1(2), of 120] by auto
    show ?thesis
      using i p1 p2 print_bool_ok[OF s, of x] vga_putd_ok[OF s, of x] print_hex_ok[OF s, of x as1]
        print_hex_ok[OF p2(2), of x as1] vga_put_ok[OF s, of "ucast x"] as(2)
      unfolding kprintf_arg_def arg_rest_def as(1) by (auto simp del: vga_write.simps)
  next
    case s
    then obtain x as1 where "as = KStr x # as1" "0 \<in> set x" "27 \<notin> set x"
      using assms(1) by (cases as rule: next_str.cases) (auto simp: arg_ok_def)
    then show ?thesis using vga_write_ok[OF assms(2), of x] s by (auto simp: kprintf_arg_def arg_rest_def)
  next
    case o
    then show ?thesis using s by (simp add: kprintf_arg_def arg_rest_def)
  qed
qed

lemma kprintf_ok:
  "format_ok fmt as \<Longrightarrow> console_ok s \<Longrightarrow> \<exists>s'. kprintf s (fmt @ 0 # rest) as = Inr s' \<and> console_ok s'"
proof (induction fmt as arbitrary: s rule: format_ok.induct)
  case (2 c cs as)
  show ?case
  proof (cases "c = 37")
    case False
    then obtain s1 where "vga_put s c = Inr s1" "console_ok s1"
      using 2 vga_put_ok[of s c] by auto
    then show ?thesis using 2 False by auto
  next
    case c: True
    then obtain d ds where cs: "cs = d # ds" "arg_ok d as" "format_ok ds (arg_rest d as)"
      using "2.prems" by (cases cs) auto
    then obtain s1 where "kprintf_arg s d as = Inr (s1, arg_rest d as)" "console_ok s1"
      using kprintf_arg_ok "2.prems"(2) by blast
    then show ?thesis using c cs "2.IH"(1)[OF c cs(1) cs(3)] by simp
  qed
qed simp

section \<open>Properties\<close>

text \<open>
  \<open>kprintf\<close> on a format whose directives find arguments of their kind, with no escape
  character in what is printed, never faults: it returns with the console's invariant
  kept, outside an escape sequence.
\<close>

theorem kprintf_safe:
  assumes "format_ok fmt as" and "vga_inv s" and "\<not> in_escape s"
  shows "\<exists>s'. kprintf s (fmt @ 0 # rest) as = Inr s' \<and> vga_inv s' \<and> \<not> in_escape s'"
  using kprintf_ok[OF assms(1), of s rest] assms(2,3) by (simp add: console_ok_def)

theorem kprintf_safe_witness:
  "\<exists>s'. kprintf blank_screen ([97, 37, 100, 37, 115, 10] @ 0 # []) [KInt 42, KStr [111, 107, 0]] = Inr s' \<and>
    vga_inv s' \<and> \<not> in_escape s'"
  using kprintf_safe[of "[97, 37, 100, 37, 115, 10]" "[KInt 42, KStr [111, 107, 0]]" blank_screen "[]"]
    blank_screen_inv
  by (simp add: arg_ok_def arg_rest_def)

section \<open>The levels of log.h\<close>

text \<open>A bracketed word in a colour of its own, with an escape sequence before and behind it.\<close>

definition str :: "string \<Rightarrow> u8 list" where
  "str cs = map of_char cs"

lemma str_eval: "str [] = []" "str (c # cs) = of_char c # str cs"
  by (simp_all add: str_def)

definition RESET :: "u8 list" where
  "RESET = 27 # 91 # str ''0'' @ [109]"

definition log_level :: "string \<Rightarrow> string \<Rightarrow> u8 list" where
  "log_level code word = str ''['' @ (27 # 91 # str code @ [109]) @ str word @ RESET @ str ''] ''"

definition INFO :: "u8 list" where "INFO = log_level ''96'' '' INFO  ''"
definition OKAY :: "u8 list" where "OKAY = log_level ''92'' ''  OK   ''"
definition WARN :: "u8 list" where "WARN = log_level ''93'' '' WARN  ''"
definition ERROR :: "u8 list" where "ERROR = log_level ''91'' '' ERROR ''"
definition DEBUG :: "u8 list" where "DEBUG = log_level ''93'' '' DEBUG ''"

lemma assert_format_error: "ASSERT_FORMAT = ERROR @ str (''ASSERTION FAILED: %s:%d'' @ CHR 0x0A # ''%s'' @ [CHR 0x0A]) @ [0]"
  by (simp add: ASSERT_FORMAT_def ERROR_def log_level_def RESET_def str_def of_char_def)

lemma kprintf_text: "0 \<notin> set cs \<Longrightarrow> 37 \<notin> set cs \<Longrightarrow> kprintf s (cs @ rest) as = res_bind (put_all s cs) (\<lambda>t. kprintf t rest as)"
proof (induction cs arbitrary: s)
  case (Cons c cs)
  then show ?case by (cases "vga_put s c") auto
qed simp

definition level_ok :: "u8 list \<Rightarrow> bool" where
  "level_ok l \<longleftrightarrow> 0 \<notin> set l \<and> 37 \<notin> set l \<and> (\<forall>s. console_ok s \<longrightarrow> (\<exists>s'. put_all s l = Inr s' \<and> console_ok s'))"

lemma sgr_ok:
  assumes "console_ok s" "\<forall>d\<in>set ds. isdigit d" "length ds \<le> 14"
  shows "\<exists>s'. put_all s (27 # 91 # ds @ [109]) = Inr s' \<and> console_ok s'"
  using sgr_sequence[of s ds] assms by (fastforce simp: console_ok_def vga_inv_def)

lemma put_all_append_ok:
  assumes "console_ok s" "\<And>s. console_ok s \<Longrightarrow> \<exists>s'. put_all s a = Inr s' \<and> console_ok s'"
    "\<And>s. console_ok s \<Longrightarrow> \<exists>s'. put_all s b = Inr s' \<and> console_ok s'"
  shows "\<exists>s'. put_all s (a @ b) = Inr s' \<and> console_ok s'"
  using assms by (fastforce simp: put_all_append)

lemma log_level_ok:
  assumes "\<forall>d\<in>set (str code). isdigit d" "length code \<le> 14" "{0, 27, 37} \<inter> set (str word) = {}"
  shows "level_ok (log_level code word)"
proof -
  have d: "c \<noteq> 0 \<and> c \<noteq> 37" if "isdigit c" for c using that by (auto simp: isdigit_unat)
  have g: "isdigit c" if "c \<in> set (str ''0'')" for c using that by (simp add: str_def of_char_def isdigit_unat)
  have esc: "27 \<notin> set (str ''['')" "27 \<notin> set (str ''] '')" by (simp_all add: str_eval of_char_def)
  have esc': "27 \<notin> set (str word)" using assms(3) by auto
  have sgr1: "\<exists>s'. put_all s (27 # 91 # str code @ [109]) = Inr s' \<and> console_ok s'" if "console_ok s" for s
    using that assms(1,2) by (intro sgr_ok) (simp_all add: str_def)
  have sgr0: "\<exists>s'. put_all s RESET = Inr s' \<and> console_ok s'" if "console_ok s" for s
    unfolding RESET_def using that g by (intro sgr_ok) (simp_all add: str_def)
  have "\<exists>s'. put_all s (log_level code word) = Inr s' \<and> console_ok s'" if "console_ok s" for s
    unfolding log_level_def
    by (rule put_all_append_ok[OF that put_all_ok[OF _ esc(1)] put_all_append_ok[OF _ sgr1
        put_all_append_ok[OF _ put_all_ok[OF _ esc'] put_all_append_ok[OF _ sgr0 put_all_ok[OF _ esc(2)]]]]])
  moreover have "0 \<notin> set (str code)" "37 \<notin> set (str code)" using assms(1) d by blast+
  moreover have "str ''['' = [91]" "str ''] '' = [93, 32]" "str ''0'' = [48]" by (simp_all add: str_def of_char_def)
  moreover have "0 \<notin> set (str word)" "37 \<notin> set (str word)" using assms(3) by auto
  ultimately show ?thesis by (simp add: level_ok_def log_level_def RESET_def)
qed

lemma levels_ok: "level_ok INFO" "level_ok OKAY" "level_ok WARN" "level_ok ERROR" "level_ok DEBUG"
  unfolding INFO_def OKAY_def WARN_def ERROR_def DEBUG_def
  by (rule log_level_ok; code_simp)+

lemma kprintf_level_ok:
  assumes "level_ok l" "format_ok fmt as" "console_ok s"
  shows "\<exists>s'. kprintf s (l @ fmt @ 0 # rest) as = Inr s' \<and> console_ok s'"
proof -
  obtain s1 where "put_all s l = Inr s1" "console_ok s1" using assms(1,3) by (auto simp: level_ok_def)
  then show ?thesis using kprintf_ok[OF assms(2), of s1 rest] assms(1) kprintf_text[of l s "fmt @ 0 # rest" as]
    by (simp add: level_ok_def)
qed

end
