(* ===== verification/Keyboard.thy ===== *)
theory Keyboard
  imports Klog
begin

text \<open>
  The keyboard (\<^verbatim>\<open>src/kernel/kbd.h\<close>, \<^verbatim>\<open>src/kernel/scan_codes.c\<close> and the second half of
  \<^verbatim>\<open>src/kernel/x86_32/io.c\<close>): the two scan code tables as data and the interrupt handler
  that turns a scan code into console output and the table of pressed keys.
\<close>

section \<open>Scan codes\<close>

text \<open>\<open>enum kbd_keys\<close>: the keys that are no character.\<close>

abbreviation KBD_BACKSPACE :: int where "KBD_BACKSPACE \<equiv> 129"
abbreviation KBD_TAB :: int where "KBD_TAB \<equiv> 130"
abbreviation KBD_CAPS_LOCK :: int where "KBD_CAPS_LOCK \<equiv> 131"
abbreviation KBD_ENTER :: int where "KBD_ENTER \<equiv> 132"
abbreviation KBD_LEFT_SHIFT :: int where "KBD_LEFT_SHIFT \<equiv> 133"
abbreviation KBD_RIGHT_SHIFT :: int where "KBD_RIGHT_SHIFT \<equiv> 134"
abbreviation KBD_LEFT_CTRL :: int where "KBD_LEFT_CTRL \<equiv> 135"
abbreviation KBD_LEFT_ALT :: int where "KBD_LEFT_ALT \<equiv> 136"
abbreviation KBD_SPACEBAR :: int where "KBD_SPACEBAR \<equiv> 137"
abbreviation KBD_RIGHT_ALT :: int where "KBD_RIGHT_ALT \<equiv> 138"
abbreviation KBD_RIGHT_CTRL :: int where "KBD_RIGHT_CTRL \<equiv> 139"
abbreviation KBD_INSERT :: int where "KBD_INSERT \<equiv> 140"
abbreviation KBD_DELETE :: int where "KBD_DELETE \<equiv> 141"
abbreviation KBD_LEFT_ARROW :: int where "KBD_LEFT_ARROW \<equiv> 142"
abbreviation KBD_HOME :: int where "KBD_HOME \<equiv> 143"
abbreviation KBD_END :: int where "KBD_END \<equiv> 144"
abbreviation KBD_UP_ARROW :: int where "KBD_UP_ARROW \<equiv> 145"
abbreviation KBD_DOWN_ARROW :: int where "KBD_DOWN_ARROW \<equiv> 146"
abbreviation KBD_RIGHT_ARROW :: int where "KBD_RIGHT_ARROW \<equiv> 147"
abbreviation KBD_NUM_LOCK :: int where "KBD_NUM_LOCK \<equiv> 148"
abbreviation KBD_KEYPAD_0 :: int where "KBD_KEYPAD_0 \<equiv> 149"
abbreviation KBD_KEYPAD_1 :: int where "KBD_KEYPAD_1 \<equiv> 150"
abbreviation KBD_KEYPAD_2 :: int where "KBD_KEYPAD_2 \<equiv> 151"
abbreviation KBD_KEYPAD_3 :: int where "KBD_KEYPAD_3 \<equiv> 152"
abbreviation KBD_KEYPAD_4 :: int where "KBD_KEYPAD_4 \<equiv> 153"
abbreviation KBD_KEYPAD_5 :: int where "KBD_KEYPAD_5 \<equiv> 154"
abbreviation KBD_KEYPAD_6 :: int where "KBD_KEYPAD_6 \<equiv> 155"
abbreviation KBD_KEYPAD_7 :: int where "KBD_KEYPAD_7 \<equiv> 156"
abbreviation KBD_KEYPAD_8 :: int where "KBD_KEYPAD_8 \<equiv> 157"
abbreviation KBD_KEYPAD_9 :: int where "KBD_KEYPAD_9 \<equiv> 158"
abbreviation KBD_KEYPAD_DOT :: int where "KBD_KEYPAD_DOT \<equiv> 159"
abbreviation KBD_KEYPAD_PLUS :: int where "KBD_KEYPAD_PLUS \<equiv> 160"
abbreviation KBD_KEYPAD_MINUS :: int where "KBD_KEYPAD_MINUS \<equiv> 161"
abbreviation KBD_KEYPAD_TIMES :: int where "KBD_KEYPAD_TIMES \<equiv> 162"
abbreviation KBD_KEYPAD_DIV :: int where "KBD_KEYPAD_DIV \<equiv> 163"
abbreviation KBD_KEYPAD_ENTER :: int where "KBD_KEYPAD_ENTER \<equiv> 164"
abbreviation KBD_ESC :: int where "KBD_ESC \<equiv> 165"
abbreviation KBD_F1 :: int where "KBD_F1 \<equiv> 166"
abbreviation KBD_F2 :: int where "KBD_F2 \<equiv> 167"
abbreviation KBD_F3 :: int where "KBD_F3 \<equiv> 168"
abbreviation KBD_F4 :: int where "KBD_F4 \<equiv> 169"
abbreviation KBD_F5 :: int where "KBD_F5 \<equiv> 170"
abbreviation KBD_F6 :: int where "KBD_F6 \<equiv> 171"
abbreviation KBD_F7 :: int where "KBD_F7 \<equiv> 172"
abbreviation KBD_F8 :: int where "KBD_F8 \<equiv> 173"
abbreviation KBD_F9 :: int where "KBD_F9 \<equiv> 174"
abbreviation KBD_F10 :: int where "KBD_F10 \<equiv> 175"
abbreviation KBD_F11 :: int where "KBD_F11 \<equiv> 176"
abbreviation KBD_F12 :: int where "KBD_F12 \<equiv> 177"
abbreviation KBD_PRINT_SCREEN :: int where "KBD_PRINT_SCREEN \<equiv> 178"
abbreviation KBD_SCROLL_LOCK :: int where "KBD_SCROLL_LOCK \<equiv> 179"
abbreviation KBD_PAUSE_BREAK :: int where "KBD_PAUSE_BREAK \<equiv> 180"
abbreviation KBD_PAGE_UP :: int where "KBD_PAGE_UP \<equiv> 181"
abbreviation KBD_PAGE_DOWN :: int where "KBD_PAGE_DOWN \<equiv> 182"

definition FIRST_KBD_KEY :: int where "FIRST_KBD_KEY = 129"
definition LAST_KBD_KEY :: int where "LAST_KBD_KEY = 183"

record kbd_scan_codes =
  ascii :: bool
  symbol :: int
  up_symbol :: int
  pfx :: u8
  brk :: bool

text \<open>One designated initialiser of a table; a character is its code.\<close>

definition key_code :: "nat \<Rightarrow> bool \<Rightarrow> int \<Rightarrow> int \<Rightarrow> u8 \<Rightarrow> bool \<Rightarrow> nat \<times> kbd_scan_codes" where
  "key_code i a s u p b = (i, \<lparr>ascii = a, symbol = s, up_symbol = u, pfx = p, brk = b\<rparr>)"

definition no_key :: kbd_scan_codes where
  "no_key = \<lparr>ascii = False, symbol = 0, up_symbol = 0, pfx = 0, brk = False\<rparr>"

definition scan_code_set_1_part1 :: "(nat \<times> kbd_scan_codes) list" where
  "scan_code_set_1_part1 = [
    key_code 41 True 96 126 169 False,
    key_code 169 True 96 126 169 True,
    key_code 2 True 49 33 130 False,
    key_code 130 True 49 33 130 True,
    key_code 3 True 50 64 131 False,
    key_code 131 True 50 64 131 True,
    key_code 4 True 51 35 132 False,
    key_code 132 True 51 35 132 True,
    key_code 5 True 52 36 133 False,
    key_code 133 True 52 36 133 True,
    key_code 6 True 53 37 134 False,
    key_code 134 True 53 37 134 True,
    key_code 7 True 54 94 135 False,
    key_code 135 True 54 94 135 True,
    key_code 8 True 55 38 136 False,
    key_code 136 True 55 38 136 True,
    key_code 9 True 56 42 137 False,
    key_code 137 True 56 42 137 True,
    key_code 10 True 57 40 138 False,
    key_code 138 True 57 40 138 True,
    key_code 11 True 48 41 139 False,
    key_code 139 True 48 41 139 True,
    key_code 12 True 45 95 140 False,
    key_code 140 True 45 95 140 True,
    key_code 13 True 61 43 141 False,
    key_code 141 True 61 43 141 True,
    key_code 14 False KBD_BACKSPACE 0 142 False,
    key_code 142 False KBD_BACKSPACE 0 142 True,
    key_code 15 False KBD_TAB 0 143 False,
    key_code 143 False KBD_TAB 0 143 True,
    key_code 16 True 113 81 144 False,
    key_code 144 True 113 81 144 True,
    key_code 17 True 119 87 145 False,
    key_code 145 True 119 87 145 True,
    key_code 18 True 101 69 146 False,
    key_code 146 True 101 69 146 True,
    key_code 19 True 114 82 147 False,
    key_code 147 True 114 82 147 True,
    key_code 20 True 116 84 148 False,
    key_code 148 True 116 84 148 True,
    key_code 21 True 121 89 149 False,
    key_code 149 True 121 89 149 True,
    key_code 22 True 117 85 150 False,
    key_code 150 True 117 85 150 True,
    key_code 23 True 105 73 151 False,
    key_code 151 True 105 73 151 True,
    key_code 24 True 111 79 152 False,
    key_code 152 True 111 79 152 True,
    key_code 25 True 112 80 153 False,
    key_code 153 True 112 80 153 True,
    key_code 26 True 91 123 154 False,
    key_code 154 True 91 123 154 True,
    key_code 27 True 93 125 155 False,
    key_code 155 True 93 125 155 True,
    key_code 58 False KBD_CAPS_LOCK 0 186 False,
    key_code 186 False KBD_CAPS_LOCK 0 186 True,
    key_code 30 True 97 65 158 False,
    key_code 158 True 97 65 158 True,
    key_code 31 True 115 83 159 False,
    key_code 159 True 115 83 159 True,
    key_code 32 True 100 68 160 False,
    key_code 160 True 100 68 160 True,
    key_code 33 True 102 70 161 False,
    key_code 161 True 102 70 161 True,
    key_code 34 True 103 71 162 False,
    key_code 162 True 103 71 162 True,
    key_code 35 True 104 72 163 False,
    key_code 163 True 104 72 163 True,
    key_code 36 True 106 74 164 False,
    key_code 164 True 106 74 164 True]"

definition scan_code_set_1_part2 :: "(nat \<times> kbd_scan_codes) list" where
  "scan_code_set_1_part2 = [
    key_code 37 True 107 75 165 False,
    key_code 165 True 107 75 165 True,
    key_code 38 True 108 76 166 False,
    key_code 166 True 108 76 166 True,
    key_code 39 True 59 58 167 False,
    key_code 167 True 59 58 167 True,
    key_code 40 True 39 34 168 False,
    key_code 168 True 39 34 168 True,
    key_code 28 False KBD_ENTER 0 156 False,
    key_code 156 False KBD_ENTER 0 156 True,
    key_code 42 False KBD_LEFT_SHIFT 0 170 False,
    key_code 170 False KBD_LEFT_SHIFT 0 170 True,
    key_code 44 True 122 90 172 False,
    key_code 172 True 122 90 172 True,
    key_code 45 True 120 88 173 False,
    key_code 173 True 120 88 173 True,
    key_code 46 True 99 67 174 False,
    key_code 174 True 99 67 174 True,
    key_code 47 True 118 86 175 False,
    key_code 175 True 118 86 175 True,
    key_code 48 True 98 66 176 False,
    key_code 176 True 98 66 176 True,
    key_code 49 True 110 78 177 False,
    key_code 177 True 110 78 177 True,
    key_code 50 True 109 77 178 False,
    key_code 178 True 109 77 178 True,
    key_code 51 True 44 60 179 False,
    key_code 179 True 44 60 179 True,
    key_code 52 True 46 62 180 False,
    key_code 180 True 46 62 180 True,
    key_code 53 True 47 63 181 False,
    key_code 181 True 47 63 181 True,
    key_code 54 False KBD_RIGHT_SHIFT 0 182 False,
    key_code 182 False KBD_RIGHT_SHIFT 0 182 True,
    key_code 29 False KBD_LEFT_CTRL 0 157 False,
    key_code 157 False KBD_LEFT_CTRL 0 157 True,
    key_code 56 False KBD_LEFT_ALT 0 184 False,
    key_code 184 False KBD_LEFT_ALT 0 184 True,
    key_code 57 False KBD_SPACEBAR 0 185 False,
    key_code 185 False KBD_SPACEBAR 0 185 True,
    key_code 69 False KBD_NUM_LOCK 0 197 False,
    key_code 197 False KBD_NUM_LOCK 0 197 True,
    key_code 71 False KBD_KEYPAD_7 0 199 False,
    key_code 199 False KBD_KEYPAD_7 0 199 True,
    key_code 75 False KBD_KEYPAD_4 0 203 False,
    key_code 203 False KBD_KEYPAD_4 0 203 True,
    key_code 79 False KBD_KEYPAD_1 0 207 False,
    key_code 207 False KBD_KEYPAD_1 0 207 True,
    key_code 72 False KBD_KEYPAD_8 0 200 False,
    key_code 200 False KBD_KEYPAD_8 0 200 True,
    key_code 76 False KBD_KEYPAD_5 0 204 False,
    key_code 204 False KBD_KEYPAD_5 0 204 True,
    key_code 80 False KBD_KEYPAD_2 0 208 False,
    key_code 208 False KBD_KEYPAD_2 0 208 True,
    key_code 82 False KBD_KEYPAD_0 0 210 False,
    key_code 210 False KBD_KEYPAD_0 0 210 True,
    key_code 55 False KBD_KEYPAD_TIMES 0 183 False,
    key_code 183 False KBD_KEYPAD_TIMES 0 183 True,
    key_code 73 False KBD_KEYPAD_9 0 201 False,
    key_code 201 False KBD_KEYPAD_9 0 201 True,
    key_code 77 False KBD_KEYPAD_6 0 205 False,
    key_code 205 False KBD_KEYPAD_6 0 205 True,
    key_code 81 False KBD_KEYPAD_3 0 209 False,
    key_code 209 False KBD_KEYPAD_3 0 209 True,
    key_code 83 False KBD_KEYPAD_DOT 0 211 False,
    key_code 211 False KBD_KEYPAD_DOT 0 211 True,
    key_code 74 False KBD_KEYPAD_MINUS 0 202 False,
    key_code 202 False KBD_KEYPAD_MINUS 0 202 True,
    key_code 78 False KBD_KEYPAD_PLUS 0 206 False,
    key_code 206 False KBD_KEYPAD_PLUS 0 206 True]"

definition scan_code_set_1_part3 :: "(nat \<times> kbd_scan_codes) list" where
  "scan_code_set_1_part3 = [
    key_code 1 False KBD_ESC 0 129 False,
    key_code 129 False KBD_ESC 0 129 True,
    key_code 59 False KBD_F1 0 187 False,
    key_code 187 False KBD_F1 0 187 True,
    key_code 60 False KBD_F2 0 188 False,
    key_code 188 False KBD_F2 0 188 True,
    key_code 61 False KBD_F3 0 189 False,
    key_code 189 False KBD_F3 0 189 True,
    key_code 62 False KBD_F4 0 190 False,
    key_code 190 False KBD_F4 0 190 True,
    key_code 63 False KBD_F5 0 191 False,
    key_code 191 False KBD_F5 0 191 True,
    key_code 64 False KBD_F6 0 192 False,
    key_code 192 False KBD_F6 0 192 True,
    key_code 65 False KBD_F7 0 193 False,
    key_code 193 False KBD_F7 0 193 True,
    key_code 66 False KBD_F8 0 194 False,
    key_code 194 False KBD_F8 0 194 True,
    key_code 67 False KBD_F9 0 195 False,
    key_code 195 False KBD_F9 0 195 True,
    key_code 68 False KBD_F10 0 196 False,
    key_code 196 False KBD_F10 0 196 True,
    key_code 87 False KBD_F11 0 215 False,
    key_code 215 False KBD_F11 0 215 True,
    key_code 88 False KBD_F12 0 216 False,
    key_code 216 False KBD_F12 0 216 True,
    key_code 70 False KBD_SCROLL_LOCK 0 198 False,
    key_code 198 False KBD_SCROLL_LOCK 0 198 True,
    key_code 43 True 92 124 171 False,
    key_code 171 True 92 124 171 True]"

definition scan_code_set_3_part1 :: "(nat \<times> kbd_scan_codes) list" where
  "scan_code_set_3_part1 = [
    key_code 14 True 96 126 240 False,
    key_code 22 True 49 33 240 False,
    key_code 30 True 50 64 240 False,
    key_code 38 True 51 35 240 False,
    key_code 37 True 52 36 240 False,
    key_code 46 True 53 37 240 False,
    key_code 54 True 54 94 240 False,
    key_code 61 True 55 38 240 False,
    key_code 62 True 56 42 240 False,
    key_code 70 True 57 40 240 False,
    key_code 69 True 48 41 240 False,
    key_code 78 True 45 95 240 False,
    key_code 85 True 61 43 240 False,
    key_code 102 False KBD_BACKSPACE 0 240 False,
    key_code 13 False KBD_TAB 0 240 False,
    key_code 21 True 113 81 240 False,
    key_code 29 True 119 87 240 False,
    key_code 36 True 101 69 240 False,
    key_code 45 True 114 82 240 False,
    key_code 44 True 116 84 240 False,
    key_code 53 True 121 89 240 False,
    key_code 60 True 117 85 240 False,
    key_code 67 True 105 73 240 False,
    key_code 68 True 111 79 240 False,
    key_code 77 True 112 80 240 False,
    key_code 84 True 91 123 240 False,
    key_code 91 True 93 125 240 False,
    key_code 88 False KBD_CAPS_LOCK 0 240 False,
    key_code 28 True 97 65 240 False,
    key_code 27 True 115 83 240 False,
    key_code 35 True 100 68 240 False,
    key_code 43 True 102 70 240 False,
    key_code 52 True 103 71 240 False,
    key_code 51 True 104 72 240 False,
    key_code 59 True 106 74 240 False,
    key_code 66 True 107 75 240 False,
    key_code 75 True 108 76 240 False,
    key_code 76 True 59 58 240 False,
    key_code 82 True 39 34 240 False,
    key_code 90 False KBD_ENTER 0 240 False,
    key_code 18 False KBD_LEFT_SHIFT 0 240 False,
    key_code 26 True 122 90 240 False,
    key_code 34 True 120 88 240 False,
    key_code 33 True 99 67 240 False,
    key_code 42 True 118 86 240 False,
    key_code 50 True 98 66 240 False,
    key_code 49 True 110 78 240 False,
    key_code 58 True 109 77 240 False,
    key_code 65 True 44 60 240 False,
    key_code 73 True 46 62 240 False,
    key_code 74 True 47 63 240 False,
    key_code 89 False KBD_RIGHT_SHIFT 0 240 False,
    key_code 17 False KBD_LEFT_CTRL 0 240 False,
    key_code 25 False KBD_LEFT_ALT 0 240 False,
    key_code 41 False KBD_SPACEBAR 0 240 False,
    key_code 57 False KBD_RIGHT_ALT 0 240 False,
    key_code 88 False KBD_RIGHT_CTRL 0 240 False,
    key_code 103 False KBD_INSERT 0 240 False,
    key_code 100 False KBD_DELETE 0 240 False,
    key_code 97 False KBD_LEFT_ARROW 0 240 False,
    key_code 110 False KBD_HOME 0 240 False,
    key_code 101 False KBD_END 0 240 False,
    key_code 99 False KBD_UP_ARROW 0 240 False,
    key_code 96 False KBD_DOWN_ARROW 0 240 False,
    key_code 111 False KBD_PAGE_UP 0 240 False,
    key_code 109 False KBD_PAGE_DOWN 0 240 False,
    key_code 106 False KBD_RIGHT_ARROW 0 240 False,
    key_code 118 False KBD_NUM_LOCK 0 240 False,
    key_code 108 False KBD_KEYPAD_7 0 240 False,
    key_code 107 False KBD_KEYPAD_4 0 240 False]"

definition scan_code_set_3_part2 :: "(nat \<times> kbd_scan_codes) list" where
  "scan_code_set_3_part2 = [
    key_code 105 False KBD_KEYPAD_1 0 240 False,
    key_code 119 False KBD_KEYPAD_DIV 0 240 False,
    key_code 117 False KBD_KEYPAD_8 0 240 False,
    key_code 115 False KBD_KEYPAD_5 0 240 False,
    key_code 114 False KBD_KEYPAD_2 0 240 False,
    key_code 112 False KBD_KEYPAD_0 0 240 False,
    key_code 126 False KBD_KEYPAD_TIMES 0 240 False,
    key_code 125 False KBD_KEYPAD_9 0 240 False,
    key_code 116 False KBD_KEYPAD_6 0 240 False,
    key_code 122 False KBD_KEYPAD_3 0 240 False,
    key_code 113 False KBD_KEYPAD_DOT 0 240 False,
    key_code 132 False KBD_KEYPAD_MINUS 0 240 False,
    key_code 124 False KBD_KEYPAD_PLUS 0 240 False,
    key_code 121 False KBD_KEYPAD_ENTER 0 240 False,
    key_code 8 False KBD_ESC 0 240 False,
    key_code 7 False KBD_F1 0 240 False,
    key_code 15 False KBD_F2 0 240 False,
    key_code 23 False KBD_F3 0 240 False,
    key_code 31 False KBD_F4 0 240 False,
    key_code 39 False KBD_F5 0 240 False,
    key_code 47 False KBD_F6 0 240 False,
    key_code 55 False KBD_F7 0 240 False,
    key_code 63 False KBD_F8 0 240 False,
    key_code 71 False KBD_F9 0 240 False,
    key_code 79 False KBD_F10 0 240 False,
    key_code 86 False KBD_F11 0 240 False,
    key_code 94 False KBD_F12 0 240 False,
    key_code 87 False KBD_PRINT_SCREEN 0 240 False,
    key_code 95 False KBD_SCROLL_LOCK 0 240 False,
    key_code 98 False KBD_PAUSE_BREAK 0 240 False,
    key_code 92 True 92 124 240 False]"

text \<open>
  An array of 0xff entries from its initialisers: an entry none names is all zero, and a
  later initialiser of the same entry overrides an earlier one.
\<close>

definition table_of :: "(nat \<times> kbd_scan_codes) list \<Rightarrow> kbd_scan_codes list" where
  "table_of es = fold (\<lambda>(i, e) t. t[i := e]) es (replicate 255 no_key)"

definition scan_code_set_1 :: "kbd_scan_codes list" where
  "scan_code_set_1 = table_of (scan_code_set_1_part1 @ scan_code_set_1_part2 @ scan_code_set_1_part3)"

definition scan_code_set_3 :: "kbd_scan_codes list" where
  "scan_code_set_3 = table_of (scan_code_set_3_part1 @ scan_code_set_3_part2)"

section \<open>Interrupt handler\<close>

record keyboard =
  pressed_keys :: "bool list"
  console :: vga

text \<open>What the handler prints for a key that is no character; 0 is nothing.\<close>

definition special_key_mappings :: "u8 list" where
  "special_key_mappings = (replicate (nat (LAST_KBD_KEY - FIRST_KBD_KEY)) 0)
     [nat (KBD_ENTER - FIRST_KBD_KEY) := 10, nat (KBD_SPACEBAR - FIRST_KBD_KEY) := 32,
      nat (KBD_TAB - FIRST_KBD_KEY) := 9, nat (KBD_BACKSPACE - FIRST_KBD_KEY) := 8]"

definition kbd_shift_pressed :: "keyboard \<Rightarrow> bool res" where
  "kbd_shift_pressed k =
     res_bind (arr_get (pressed_keys k) KBD_LEFT_SHIFT) (\<lambda>l.
     res_bind (arr_get (pressed_keys k) KBD_RIGHT_SHIFT) (\<lambda>r.
     res_bind (arr_get (pressed_keys k) KBD_CAPS_LOCK) (\<lambda>c. Inr (l \<or> r \<or> c))))"

definition kprintf_char :: "keyboard \<Rightarrow> int \<Rightarrow> keyboard res" where
  "kprintf_char k c =
     res_bind (kprintf (console k) [37, 99, 0] [KInt (of_int c)]) (\<lambda>v. Inr (k\<lparr>console := v\<rparr>))"

text \<open>\<open>kbd_handle_input\<close> after \<open>kbd_scan_code\<close> has read \<open>byte\<close> from port 0x60.\<close>

definition kbd_handle_input :: "u8 \<Rightarrow> keyboard \<Rightarrow> keyboard res" where
  "kbd_handle_input byte k =
     res_bind (arr_get scan_code_set_1 (uint byte)) (\<lambda>code.
     res_bind
       (if ascii code \<and> \<not> brk code then
          res_bind (kbd_shift_pressed k) (\<lambda>shift.
          kprintf_char k (if shift \<and> up_symbol code \<noteq> 0 then up_symbol code else symbol code))
        else if \<not> brk code then
          res_bind (arr_get special_key_mappings (symbol code - FIRST_KBD_KEY)) (\<lambda>c.
          if c \<noteq> 0 then kprintf_char k (sint c) else Inr k)
        else Inr k) (\<lambda>k1.
     res_bind (arr_set (pressed_keys k1) (symbol code) (\<not> brk code)) (\<lambda>p.
     Inr (k1\<lparr>pressed_keys := p\<rparr>))))"

definition init_kbd :: "keyboard \<Rightarrow> keyboard" where
  "init_kbd k = k\<lparr>pressed_keys := replicate (nat LAST_KBD_KEY) False\<rparr>"

section \<open>The tables\<close>

lemma fold_update_length: "length (fold (\<lambda>(i, e) t. t[i := e]) es t) = length t"
  by (induction es arbitrary: t) auto

lemma table_of_length [simp]: "length (table_of es) = 255"
  by (simp add: table_of_def fold_update_length)

definition entry_ok :: "kbd_scan_codes \<Rightarrow> bool" where
  "entry_ok e \<longleftrightarrow> symbol e = 0 \<and> e = no_key \<or>
     (if ascii e then 32 \<le> symbol e \<and> symbol e < 127 \<and> 32 \<le> up_symbol e \<and> up_symbol e < 127
      else FIRST_KBD_KEY \<le> symbol e \<and> symbol e < LAST_KBD_KEY)"

lemma set_1_ok: "list_all entry_ok scan_code_set_1"
  by code_simp

definition mirrors :: "kbd_scan_codes \<Rightarrow> kbd_scan_codes \<Rightarrow> bool" where
  "mirrors m b \<longleftrightarrow> \<not> brk m \<and> b = (if symbol m = 0 then no_key else m\<lparr>brk := True\<rparr>)"

lemma set_1_mirror: "list_all2 mirrors (take 127 scan_code_set_1) (drop 128 scan_code_set_1)"
  by code_simp

lemma special_ok: "list_all (\<lambda>c. c \<noteq> 27) special_key_mappings \<and> length special_key_mappings = 54"
  by code_simp

lemma set_3_caps: "list_all (\<lambda>e. symbol e \<noteq> KBD_CAPS_LOCK) scan_code_set_3"
  by code_simp

section \<open>The handler\<close>

definition kbd_inv :: "keyboard \<Rightarrow> bool" where
  "kbd_inv k \<longleftrightarrow> int (length (pressed_keys k)) = LAST_KBD_KEY \<and> console_ok (console k)"

lemma ucast_of_int: "(ucast (of_int c :: u32) :: u8) = of_int c"
  by (rule bit_word_eqI) (auto simp: bit_simps)

lemma of_int_sint_u8: "(of_int (sint (c :: u8)) :: u8) = c"
  by simp

lemma kprintf_char_ok:
  assumes "kbd_inv k" "(of_int c :: u8) \<noteq> 27"
  shows "\<exists>v. kprintf_char k c = Inr (k\<lparr>console := v\<rparr>) \<and> console_ok v"
proof -
  have f: "format_ok [37, 99] [KInt (of_int c)]"
    using assms(2) by (simp add: arg_ok_def ucast_of_int)
  obtain v where v: "kprintf (console k) ([37, 99] @ 0 # []) [KInt (of_int c)] = Inr v" "console_ok v"
    using kprintf_ok[OF f, of "console k" "[]"] assms(1) unfolding kbd_inv_def by blast
  then have "kprintf_char k c = Inr (k\<lparr>console := v\<rparr>)"
    unfolding kprintf_char_def by (simp del: kprintf.simps)
  then show ?thesis using v(2) by blast
qed

lemma ascii_not_esc: "32 \<le> c \<Longrightarrow> c < 127 \<Longrightarrow> (of_int c :: u8) \<noteq> 27"
proof
  assume c: "32 \<le> c" "c < 127" and "(of_int c :: u8) = 27"
  then have "uint (of_int c :: u8) = 27" by simp
  then have "c mod 256 = 27" by (simp add: uint_word_of_int)
  then show False using c by simp
qed

lemma shift_Inr: "kbd_inv k \<Longrightarrow> \<exists>b. kbd_shift_pressed k = Inr b"
  by (simp add: kbd_shift_pressed_def kbd_inv_def LAST_KBD_KEY_def arr_get_in)

definition set_1_code :: "u8 \<Rightarrow> kbd_scan_codes" where
  "set_1_code byte = scan_code_set_1 ! unat byte"

definition known_code :: "u8 \<Rightarrow> bool" where
  "known_code byte \<longleftrightarrow> unat byte < 255 \<and> symbol (set_1_code byte) \<noteq> 0"

lemma set_1_length: "length scan_code_set_1 = 255"
  by (simp add: scan_code_set_1_def)

lemma code_ok: "unat byte < 255 \<Longrightarrow> entry_ok (set_1_code byte)"
  using set_1_ok by (simp add: list_all_length set_1_length set_1_code_def)

lemma handle_known:
  assumes k: "kbd_inv k" and b: "known_code byte"
  shows "\<exists>v. kbd_handle_input byte k = Inr (k\<lparr>console := v, 
      pressed_keys := (pressed_keys k)[nat (symbol (set_1_code byte)) := \<not> brk (set_1_code byte)]\<rparr>) \<and> console_ok v"
proof -
  let ?e = "set_1_code byte"
  have e: "entry_ok ?e" "symbol ?e \<noteq> 0" "arr_get scan_code_set_1 (uint byte) = Inr ?e"
    using b code_ok by (auto simp: known_code_def arr_get_uint set_1_length set_1_code_def)
  then have sym: "0 \<le> symbol ?e" "symbol ?e < int (length (pressed_keys k))"
    using k by (auto simp: entry_ok_def kbd_inv_def FIRST_KBD_KEY_def LAST_KBD_KEY_def split: if_splits)
  let ?print = "if ascii ?e \<and> \<not> brk ?e then
          res_bind (kbd_shift_pressed k) (\<lambda>shift.
          kprintf_char k (if shift \<and> up_symbol ?e \<noteq> 0 then up_symbol ?e else symbol ?e))
        else if \<not> brk ?e then
          res_bind (arr_get special_key_mappings (symbol ?e - FIRST_KBD_KEY)) (\<lambda>c.
          if c \<noteq> 0 then kprintf_char k (sint c) else Inr k)
        else Inr k"
  have "\<exists>v. ?print = Inr (k\<lparr>console := v\<rparr>) \<and> console_ok v"
  proof -
    consider (brk) "brk ?e" | (asc) "ascii ?e" "\<not> brk ?e" | (spec) "\<not> ascii ?e" "\<not> brk ?e" by blast
    then show ?thesis
    proof cases
      case brk
      then show ?thesis using k by (auto simp: kbd_inv_def intro!: exI[of _ "console k"])
    next
      case asc
      then have "32 \<le> symbol ?e" "symbol ?e < 127" "32 \<le> up_symbol ?e" "up_symbol ?e < 127"
        using e by (auto simp: entry_ok_def)
      then show ?thesis
        using asc shift_Inr[OF k] kprintf_char_ok[OF k ascii_not_esc] by auto
    next
      case spec
      then have i: "0 \<le> symbol ?e - FIRST_KBD_KEY" "symbol ?e - FIRST_KBD_KEY < int (length special_key_mappings)"
        using e special_ok by (auto simp: entry_ok_def FIRST_KBD_KEY_def LAST_KBD_KEY_def)
      let ?c = "special_key_mappings ! nat (symbol ?e - FIRST_KBD_KEY)"
      have "?c \<noteq> 27" using special_ok i by (simp add: list_all_length)
      then have "\<exists>v. kprintf_char k (sint ?c) = Inr (k\<lparr>console := v\<rparr>) \<and> console_ok v"
        by (intro kprintf_char_ok[OF k]) (simp add: of_int_sint_u8)
      moreover have "\<exists>v. Inr k = Inr (k\<lparr>console := v\<rparr>) \<and> console_ok v"
        using k by (auto simp: kbd_inv_def intro!: exI[of _ "console k"])
      ultimately show ?thesis using spec i by (simp add: arr_get_in)
    qed
  qed
  then obtain v where "?print = Inr (k\<lparr>console := v\<rparr>)" "console_ok v" by blast
  then show ?thesis using e(3) sym by (auto simp: kbd_handle_input_def arr_set_def)
qed

lemma handle_unknown:
  assumes "\<not> known_code byte"
  shows "kbd_handle_input byte k = Inl OutOfBounds"
proof (cases "unat byte < 255")
  case True
  then have "set_1_code byte = no_key"
    using assms code_ok[OF True] by (auto simp: known_code_def entry_ok_def FIRST_KBD_KEY_def split: if_splits)
  then have "arr_get scan_code_set_1 (uint byte) = Inr no_key"
    using True by (simp add: arr_get_uint set_1_length set_1_code_def)
  then show ?thesis by (simp add: kbd_handle_input_def no_key_def FIRST_KBD_KEY_def arr_get_def)
qed (simp add: kbd_handle_input_def arr_get_uint set_1_length)

definition kbd_start :: keyboard where
  "kbd_start = init_kbd \<lparr>pressed_keys = [], console = blank_screen\<rparr>"

lemma kbd_start_inv: "kbd_inv kbd_start"
  using blank_screen_inv by (simp add: kbd_start_def init_kbd_def kbd_inv_def console_ok_def LAST_KBD_KEY_def)

lemma known_1e: "known_code 0x1e"
  by code_simp

lemma mirror_code:
  assumes "unat byte < 127"
  shows "set_1_code (byte + 128) = (if known_code byte then (set_1_code byte)\<lparr>brk := True\<rparr> else no_key) \<and>
    \<not> brk (set_1_code byte)"
proof -
  have "unat (byte + 128) = 128 + unat byte" using assms by (simp add: unat_word_ariths)
  moreover have "mirrors (take 127 scan_code_set_1 ! unat byte) (drop 128 scan_code_set_1 ! unat byte)"
    using set_1_mirror assms by (simp add: list_all2_conv_all_nth set_1_length)
  ultimately show ?thesis using assms
    by (auto simp: mirrors_def set_1_code_def known_code_def set_1_length)
qed

section \<open>Properties\<close>



text \<open>
  A key's break code is its make code plus 128: the two entries differ only in \<open>brk\<close>,
  so pressing and releasing a known key in turn leaves it recorded as released and every
  other key as it was.
\<close>

theorem kbd_press_release:
  assumes "kbd_inv k" and "unat byte < 127" and "known_code byte"
  shows "\<exists>v. res_bind (kbd_handle_input byte k) (kbd_handle_input (byte + 128)) =
    Inr (k\<lparr>console := v, pressed_keys := (pressed_keys k)[nat (symbol (set_1_code byte)) := False]\<rparr>)"
proof -
  let ?s = "nat (symbol (set_1_code byte))"
  have m: "set_1_code (byte + 128) = (set_1_code byte)\<lparr>brk := True\<rparr>" "\<not> brk (set_1_code byte)"
    using mirror_code[OF assms(2)] assms(3) by auto
  have "unat (byte + 128) = 128 + unat byte" using assms(2) by (simp add: unat_word_ariths)
  then have k2: "known_code (byte + 128)" using m assms(2,3) by (simp add: known_code_def)
  obtain v where v: "kbd_handle_input byte k = Inr (k\<lparr>console := v, pressed_keys := (pressed_keys k)[?s := True]\<rparr>)"
      "console_ok v" using handle_known[OF assms(1,3)] m(2) by auto
  let ?k = "k\<lparr>console := v, pressed_keys := (pressed_keys k)[?s := True]\<rparr>"
  have "kbd_inv ?k" using v(2) assms(1) by (simp add: kbd_inv_def)
  from handle_known[OF this k2] show ?thesis using v m by auto
qed

theorem kbd_press_release_witness:
  "\<exists>v. res_bind (kbd_handle_input 0x1e kbd_start) (kbd_handle_input 0x9e) =
    Inr (kbd_start\<lparr>console := v, pressed_keys := (pressed_keys kbd_start)[97 := False]\<rparr>)"
proof -
  have "symbol (set_1_code 0x1e) = 97" by code_simp
  then show ?thesis using kbd_press_release[OF kbd_start_inv, of "0x1e"] known_1e by simp
qed

text \<open>
  No scan code of set 3 is the caps lock key: its entry, number 88, is overridden by
  the later initialiser for the right control key.
\<close>

theorem set_3_without_caps_lock:
  "list_all (\<lambda>e. symbol e \<noteq> KBD_CAPS_LOCK) scan_code_set_3 \<and>
   symbol (scan_code_set_3 ! 88) = KBD_RIGHT_CTRL"
  by (rule conjI, rule set_3_caps, code_simp)

end
