(* ===== verification/Memory.thy ===== *)
theory Memory
  imports Prelude
begin

text \<open>
  Byte-addressed memory of the 32-bit target: \<open>memory\<close> maps the mapped addresses to their
  bytes, addresses wrap around at \<open>2 ^ 32\<close>, a 32-bit access is little-endian and need not be
  aligned, and an access to an unmapped byte is a fault.
\<close>

section \<open>Accesses\<close>

type_synonym memory = "u32 \<rightharpoonup> u8"

definition load8 :: "memory \<Rightarrow> u32 \<Rightarrow> u8 res" where
  "load8 m a = (case m a of None \<Rightarrow> Inl OutOfBounds | Some b \<Rightarrow> Inr b)"

definition store8 :: "memory \<Rightarrow> u32 \<Rightarrow> u8 \<Rightarrow> memory res" where
  "store8 m a v = (case m a of None \<Rightarrow> Inl OutOfBounds | Some _ \<Rightarrow> Inr (m(a \<mapsto> v)))"

definition join32 :: "u8 \<Rightarrow> u8 \<Rightarrow> u8 \<Rightarrow> u8 \<Rightarrow> u32" where
  "join32 b0 b1 b2 b3 =
     ucast b0 OR push_bit 8 (ucast b1) OR push_bit 16 (ucast b2) OR push_bit 24 (ucast b3)"

definition byte_of :: "u32 \<Rightarrow> nat \<Rightarrow> u8" where
  "byte_of v i = ucast (drop_bit (8 * i) v)"

definition load32 :: "memory \<Rightarrow> u32 \<Rightarrow> u32 res" where
  "load32 m a =
     res_bind (load8 m a) (\<lambda>b0. res_bind (load8 m (a + 1)) (\<lambda>b1.
     res_bind (load8 m (a + 2)) (\<lambda>b2. res_bind (load8 m (a + 3)) (\<lambda>b3.
     Inr (join32 b0 b1 b2 b3)))))"

definition store32 :: "memory \<Rightarrow> u32 \<Rightarrow> u32 \<Rightarrow> memory res" where
  "store32 m a v =
     res_bind (store8 m a (byte_of v 0)) (\<lambda>m. res_bind (store8 m (a + 1) (byte_of v 1)) (\<lambda>m.
     res_bind (store8 m (a + 2) (byte_of v 2)) (\<lambda>m. store8 m (a + 3) (byte_of v 3))))"

text \<open>\<open>memset\<close> and \<open>memcpy\<close> on memory, one byte after another.\<close>

fun mem_set :: "memory \<Rightarrow> u32 \<Rightarrow> u8 \<Rightarrow> nat \<Rightarrow> memory res" where
  "mem_set m a v 0 = Inr m"
| "mem_set m a v (Suc n) = res_bind (store8 m a v) (\<lambda>m1. mem_set m1 (a + 1) v n)"

fun mem_copy :: "memory \<Rightarrow> u32 \<Rightarrow> u32 \<Rightarrow> nat \<Rightarrow> memory res" where
  "mem_copy m d s 0 = Inr m"
| "mem_copy m d s (Suc n) =
     res_bind (load8 m s) (\<lambda>b. res_bind (store8 m d b) (\<lambda>m1. mem_copy m1 (d + 1) (s + 1) n))"

section \<open>Laws\<close>

lemma byte_of_join32 [simp]:
  "join32 (byte_of v 0) (byte_of v 1) (byte_of v 2) (byte_of v 3) = v"
proof (rule bit_word_eqI)
  fix n assume n: "n < LENGTH(32)"
  then consider "n < 8" | "8 \<le> n \<and> n < 16" | "16 \<le> n \<and> n < 24" | "24 \<le> n \<and> n < 32" by force
  then show "bit (join32 (byte_of v 0) (byte_of v 1) (byte_of v 2) (byte_of v 3)) n \<longleftrightarrow> bit v n"
    unfolding join32_def byte_of_def bit_or_iff bit_push_bit_iff bit_ucast_iff bit_drop_bit_eq
    by cases (auto simp: bit_ucast_iff bit_drop_bit_eq bit_imp_le_length)
qed

lemmas join32_bytes [simp] = byte_of_join32 [unfolded One_nat_def]

text \<open>The four bytes of a 32-bit access, and the bytes of a range.\<close>

definition word_at :: "u32 \<Rightarrow> u32 set" where
  "word_at a = {a, a + 1, a + 2, a + 3}"

definition span :: "u32 \<Rightarrow> nat \<Rightarrow> u32 set" where
  "span a n = {x. unat (x - a) < n}"

lemma span_0 [simp]: "span a 0 = {}"
  by (simp add: span_def)

lemma word_at_span: "word_at a = span a 4"
proof -
  have "x \<in> word_at a \<longleftrightarrow> unat (x - a) < 4" for x
  proof -
    have "x \<in> word_at a \<longleftrightarrow> x - a \<in> {0, 1, 2, 3}"
      by (auto simp: word_at_def algebra_simps)
    also have "\<dots> \<longleftrightarrow> unat (x - a) \<in> {0, 1, 2, 3}"
      by (auto simp: word_unat_eq_iff)
    also have "\<dots> \<longleftrightarrow> unat (x - a) < 4" by auto
    finally show ?thesis .
  qed
  then show ?thesis by (auto simp: span_def)
qed

lemma offsets_distinct [simp]: "(a :: u32) + 1 \<noteq> a" "a + 2 \<noteq> a" "a + 3 \<noteq> a"
  "a + 1 \<noteq> a + 2" "a + 1 \<noteq> a + 3" "a + 2 \<noteq> a + 3"
  "a + 2 \<noteq> a + 1" "a + 3 \<noteq> a + 1" "a + 3 \<noteq> a + 2"
  by simp_all

lemma store8_Inr: "a \<in> dom m \<Longrightarrow> store8 m a v = Inr (m(a \<mapsto> v))"
  by (auto simp: store8_def)

lemma load8_Inr: "m a = Some b \<Longrightarrow> load8 m a = Inr b"
  by (simp add: load8_def)

definition put32 :: "memory \<Rightarrow> u32 \<Rightarrow> u32 \<Rightarrow> memory" where
  "put32 m a v = m(a \<mapsto> byte_of v 0, a + 1 \<mapsto> byte_of v 1, a + 2 \<mapsto> byte_of v 2, a + 3 \<mapsto> byte_of v 3)"

lemma store32_Inr: "word_at a \<subseteq> dom m \<Longrightarrow> store32 m a v = Inr (put32 m a v)"
  by (simp add: store32_def put32_def word_at_def store8_Inr)

lemma dom_put32: "word_at a \<subseteq> dom m \<Longrightarrow> dom (put32 m a v) = dom m"
  by (auto simp: put32_def word_at_def)

lemma put32_other: "x \<notin> word_at a \<Longrightarrow> put32 m a v x = m x"
  by (simp add: put32_def word_at_def)

lemma load32_cong: "(\<And>x. x \<in> word_at a \<Longrightarrow> m x = m' x) \<Longrightarrow> load32 m a = load32 m' a"
  by (simp add: load32_def load8_def word_at_def)

lemma load32_put32_same: "load32 (put32 m a v) a = Inr v"
  by (simp add: load32_def put32_def load8_def)

lemma load32_put32_other: "word_at a \<inter> word_at b = {} \<Longrightarrow> load32 (put32 m b v) a = load32 m a"
  by (rule load32_cong) (rule put32_other, blast)

lemma load8_put32_other: "a \<notin> word_at b \<Longrightarrow> load8 (put32 m b v) a = load8 m a"
  by (simp add: load8_def put32_other)

lemma load32_dom: "word_at a \<subseteq> dom m \<Longrightarrow> \<exists>v. load32 m a = Inr v"
  by (auto simp: load32_def load8_def word_at_def)

lemma load8_dom: "a \<in> dom m \<Longrightarrow> \<exists>v. load8 m a = Inr v"
  by (auto simp: load8_def)

lemma span_Suc: "Suc n \<le> 2 ^ 32 \<Longrightarrow> span a (Suc n) = insert a (span (a + 1) n)"
proof -
  assume n: "Suc n \<le> 2 ^ 32"
  have "unat (x - a) < Suc n \<longleftrightarrow> x = a \<or> unat (x - (a + 1)) < n" for x
  proof (cases "x = a")
    case False
    then have "0 < unat (x - a)" by (simp add: unat_gt_0)
    then have "unat (x - a - 1) = unat (x - a) - 1" by (rule unat_minus_one_pos)
    then show ?thesis using False \<open>0 < unat (x - a)\<close> by (auto simp: diff_diff_eq)
  qed simp
  then show ?thesis by (auto simp: span_def)
qed

lemma mem_set_Inr:
  "n \<le> 2 ^ 32 \<Longrightarrow> span a n \<subseteq> dom m \<Longrightarrow> 
    mem_set m a v n = Inr (\<lambda>x. if x \<in> span a n then Some v else m x)"
proof (induction n arbitrary: m a)
  case (Suc n)
  have s: "span a (Suc n) = insert a (span (a + 1) n)" using Suc.prems by (intro span_Suc)
  have "span (a + 1) n \<subseteq> dom (m(a \<mapsto> v))" using Suc.prems s by auto
  then show ?case using Suc s by (auto simp: store8_Inr)
qed simp

end
