(* ===== verification/Bytes.thy ===== *)
theory Bytes
  imports Memory
begin

text \<open>
  Buffers of bytes: how the 16- and 32-bit fields of a packed structure are read from and
  laid out in a buffer (least significant byte first), copying out of and into a buffer with
  its bounds checked, and buffers seen as the 16-bit words that a disk transfers.
\<close>

section \<open>Fields\<close>

definition le16 :: "u16 \<Rightarrow> u8 list" where
  "le16 v = [ucast v, ucast (drop_bit 8 v)]"

definition le32 :: "u32 \<Rightarrow> u8 list" where
  "le32 v = [byte_of v 0, byte_of v 1, byte_of v 2, byte_of v 3]"

definition join16 :: "u8 \<Rightarrow> u8 \<Rightarrow> u16" where
  "join16 b0 b1 = ucast b0 OR push_bit 8 (ucast b1)"

text \<open>The field at offset \<open>i\<close> of a structure that is known to be complete.\<close>

definition d16 :: "u8 list \<Rightarrow> nat \<Rightarrow> u16" where
  "d16 bs i = join16 (bs ! i) (bs ! (i + 1))"

definition d32 :: "u8 list \<Rightarrow> nat \<Rightarrow> u32" where
  "d32 bs i = join32 (bs ! i) (bs ! (i + 1)) (bs ! (i + 2)) (bs ! (i + 3))"

text \<open>A read that may run over the end of the buffer.\<close>

definition word_from :: "u8 list \<Rightarrow> nat \<Rightarrow> u32 res" where
  "word_from d i =
     res_bind (arr_get d (int i)) (\<lambda>b0. res_bind (arr_get d (int (i + 1))) (\<lambda>b1.
     res_bind (arr_get d (int (i + 2))) (\<lambda>b2. res_bind (arr_get d (int (i + 3))) (\<lambda>b3.
     Inr (join32 b0 b1 b2 b3)))))"

definition half_from :: "u8 list \<Rightarrow> nat \<Rightarrow> u16 res" where
  "half_from d i =
     res_bind (arr_get d (int i)) (\<lambda>b0. res_bind (arr_get d (int (i + 1))) (\<lambda>b1. Inr (join16 b0 b1)))"

lemma arr_get_append: "arr_get (a @ b) (int (length a + k)) = arr_get b (int k)"
proof (cases "k < length b")
  case True
  then have "length a + k < length (a @ b)" by simp
  then show ?thesis using True by (simp only: arr_get_nat nth_append_length_plus)
next
  case False
  then have "\<not> length a + k < length (a @ b)" by simp
  then show ?thesis using False by (simp only: arr_get_def) simp
qed

lemma word_from_append:
  "word_from (a @ le32 v @ b) (length a) = Inr v"
proof -
  have "arr_get (a @ le32 v @ b) (int (length a + k)) = Inr (byte_of v k)" if "k < 4" for k
  proof -
    have k: "k = 0 \<or> k = 1 \<or> k = 2 \<or> k = 3" using that by arith
    then show ?thesis by (subst arr_get_append) (auto simp: le32_def arr_get_def)
  qed
  from this[of 0] this[of 1] this[of 2] this[of 3] show ?thesis by (simp add: word_from_def)
qed

lemma word_from_at: "i = length a \<Longrightarrow> word_from (a @ le32 v @ b) i = Inr v"
  by (simp add: word_from_append)

lemma le32_length [simp]: "length (le32 v) = 4"
  by (simp add: le32_def)

lemma le16_length [simp]: "length (le16 v) = 2"
  by (simp add: le16_def)

lemma le_not_Nil [simp]: "le16 v \<noteq> []" "le32 w \<noteq> []"
  by (simp_all add: le16_def le32_def)

lemma word_from_in: "i + 4 \<le> length bs \<Longrightarrow> word_from bs i = Inr (d32 bs i)"
  by (simp add: word_from_def d32_def arr_get_in nat_add_distrib)

lemma half_from_in: "i + 2 \<le> length bs \<Longrightarrow> half_from bs i = Inr (d16 bs i)"
  by (simp add: half_from_def d16_def arr_get_in nat_add_distrib)

lemma join16_bytes [simp]: "join16 (ucast v) (ucast (drop_bit 8 v)) = (v :: u16)"
proof (rule bit_word_eqI)
  fix n assume n: "n < LENGTH(16)"
  then consider "n < 8" | "8 \<le> n \<and> n < 16" by force
  then show "bit (join16 (ucast v) (ucast (drop_bit 8 v))) n \<longleftrightarrow> bit v n"
    unfolding join16_def bit_or_iff bit_push_bit_iff bit_ucast_iff bit_drop_bit_eq
    by cases (auto simp: bit_ucast_iff bit_drop_bit_eq bit_imp_le_length)
qed

lemma le16_join16 [simp]: "le16 (join16 a b) = [a, b]"
proof -
  have "ucast (join16 a b) = a"
    by (rule bit_word_eqI) (auto simp: join16_def bit_simps)
  moreover have "ucast (drop_bit 8 (join16 a b)) = b"
    by (rule bit_word_eqI) (auto simp: join16_def bit_simps dest: bit_imp_le_length)
  ultimately show ?thesis by (simp add: le16_def)
qed

lemma d16_head [simp]: "d16 (le16 v @ b) 0 = v"
  by (simp add: d16_def le16_def)

lemma d32_head [simp]: "d32 (le32 v @ b) 0 = v"
  by (simp add: d32_def le32_def)

lemma d16_skip [simp]: "length a \<le> i \<Longrightarrow> d16 (a @ b) i = d16 b (i - length a)"
  by (simp add: d16_def nth_append Suc_diff_le)

lemma d32_skip [simp]: "length a \<le> i \<Longrightarrow> d32 (a @ b) i = d32 b (i - length a)"
  by (simp add: d32_def nth_append Suc_diff_le add_diff_assoc2[symmetric] del: add_diff_assoc2)

lemma d32_words: "k < length ws \<Longrightarrow> d32 (concat (map le32 ws) @ b) (4 * k) = ws ! k"
proof (induction ws arbitrary: k)
  case (Cons w ws)
  then show ?case by (cases k) simp_all
qed simp

lemma length_words [simp]: "length (concat (map le32 ws)) = 4 * length ws"
  by (induction ws) simp_all

section \<open>Copying\<close>

definition slice :: "'a list \<Rightarrow> nat \<Rightarrow> nat \<Rightarrow> 'a list res" where
  "slice buf off n = (if off + n \<le> length buf then Inr (take n (drop off buf)) else Inl OutOfBounds)"

definition splice :: "'a list \<Rightarrow> nat \<Rightarrow> 'a list \<Rightarrow> 'a list res" where
  "splice buf off xs =
     (if off + length xs \<le> length buf then Inr (take off buf @ xs @ drop (off + length xs) buf) else Inl OutOfBounds)"

lemma slice_splice_same: "splice buf off xs = Inr buf' \<Longrightarrow> slice buf' off (length xs) = Inr xs"
  by (auto simp: slice_def splice_def split: if_splits)

lemma slice_splice_other:
  assumes "splice buf off xs = Inr buf'" "o2 + n \<le> off \<or> off + length xs \<le> o2"
  shows "slice buf' o2 n = slice buf o2 n"
proof -
  have b: "buf' = take off buf @ xs @ drop (off + length xs) buf" "off + length xs \<le> length buf"
    using assms(1) by (auto simp: splice_def split: if_splits)
  then have len: "length buf' = length buf" by simp
  have "take n (drop o2 buf') = take n (drop o2 buf)" if "o2 + n \<le> length buf"
  proof (rule nth_equalityI)
    show "length (take n (drop o2 buf')) = length (take n (drop o2 buf))" using len by simp
    fix i assume "i < length (take n (drop o2 buf'))"
    then have i: "i < n" "o2 + i < length buf" using len that by simp_all
    then show "take n (drop o2 buf') ! i = take n (drop o2 buf) ! i"
      using assms(2) b len by (auto simp: nth_append)
  qed
  then show ?thesis using len by (auto simp: slice_def)
qed

lemma splice_length: "splice buf off xs = Inr buf' \<Longrightarrow> length buf' = length buf"
  by (auto simp: splice_def split: if_splits)

section \<open>Words of a transfer\<close>

definition bytes_of :: "u16 list \<Rightarrow> u8 list" where
  "bytes_of ws = concat (map le16 ws)"

text \<open>A byte left over at the end is no word.\<close>

fun words_of :: "u8 list \<Rightarrow> u16 list" where
  "words_of (a # b # bs) = join16 a b # words_of bs"
| "words_of bs = []"

lemma words_of_bytes_of [simp]: "words_of (bytes_of ws) = ws"
  by (induction ws) (simp_all add: bytes_of_def le16_def)

lemma bytes_of_words_of: "even (length bs) \<Longrightarrow> bytes_of (words_of bs) = bs"
  by (induction bs rule: words_of.induct) (simp_all add: bytes_of_def)

lemma length_words_of [simp]: "length (words_of bs) = length bs div 2"
  by (induction bs rule: words_of.induct) simp_all

lemma length_bytes_of [simp]: "length (bytes_of ws) = 2 * length ws"
  by (induction ws) (simp_all add: bytes_of_def)

lemma bytes_of_append: "bytes_of (a @ b) = bytes_of a @ bytes_of b"
  by (simp add: bytes_of_def)

end
