(* ===== verification/Kalloc.thy ===== *)
theory Kalloc
  imports Kheap Memory
begin

text \<open>
  The kernel's allocators (\<^verbatim>\<open>src/kernel/x86_32/alloc.c\<close>): the placeholder \<open>kmalloc\<close> that
  only moves a base address, and \<open>malloc\<close>, \<open>free\<close> and \<open>realloc\<close>, whose blocks lie in
  memory between a header and a footer and whose gaps are kept in the heap of \<open>Kheap\<close>.
\<close>

section \<open>State\<close>

text \<open>\<open>struct heap_alloc_header\<close>: magic at 0, the \<open>bool\<close> at 4, size at 8; the footer is a size.\<close>

definition HEADER_SIZE :: u32 where "HEADER_SIZE = 12"
definition FOOTER_SIZE :: u32 where "FOOTER_SIZE = 4"
definition HEAP_MAGIC :: u32 where "HEAP_MAGIC = 0xCAFEBABE"

record kalloc =
  palloc_base :: u32
  malloc_base :: u32
  heap :: min_heap
  mem :: memory

definition get_magic :: "kalloc \<Rightarrow> u32 \<Rightarrow> u32 res" where
  "get_magic s h = load32 (mem s) h"

definition get_allocated :: "kalloc \<Rightarrow> u32 \<Rightarrow> bool res" where
  "get_allocated s h = res_bind (load8 (mem s) (h + 4)) (\<lambda>b. Inr (b \<noteq> 0))"

definition get_size :: "kalloc \<Rightarrow> u32 \<Rightarrow> u32 res" where
  "get_size s h = load32 (mem s) (h + 8)"

definition put_word :: "kalloc \<Rightarrow> u32 \<Rightarrow> u32 \<Rightarrow> kalloc res" where
  "put_word s a v = res_bind (store32 (mem s) a v) (\<lambda>m. Inr (s\<lparr>mem := m\<rparr>))"

definition set_magic :: "kalloc \<Rightarrow> u32 \<Rightarrow> u32 \<Rightarrow> kalloc res" where
  "set_magic s h v = put_word s h v"

definition set_allocated :: "kalloc \<Rightarrow> u32 \<Rightarrow> bool \<Rightarrow> kalloc res" where
  "set_allocated s h b =
     res_bind (store8 (mem s) (h + 4) (if b then 1 else 0)) (\<lambda>m. Inr (s\<lparr>mem := m\<rparr>))"

definition set_size :: "kalloc \<Rightarrow> u32 \<Rightarrow> u32 \<Rightarrow> kalloc res" where
  "set_size s h v = put_word s (h + 8) v"

definition lift_heap :: "kalloc \<Rightarrow> min_heap res \<Rightarrow> kalloc res" where
  "lift_heap s r = res_bind r (\<lambda>h. Inr (s\<lparr>heap := h\<rparr>))"

section \<open>The placeholder allocator\<close>

definition VIRT_TO_PHYS :: "u32 \<Rightarrow> u32" where "VIRT_TO_PHYS virt = virt - 0xC0000000"
definition PHYS_TO_VIRT :: "u32 \<Rightarrow> u32" where "PHYS_TO_VIRT phys = phys + 0xC0000000"

text \<open>The address, and what \<open>*phys\<close> is set to where the caller passes it.\<close>

definition kmalloc_int :: "kalloc \<Rightarrow> u32 \<Rightarrow> bool \<Rightarrow> ((u32 \<times> u32) \<times> kalloc) res" where
  "kmalloc_int s size_req align =
     (let base = (if align \<and> palloc_base s AND 0xfff \<noteq> 0
                  then (palloc_base s AND NOT 0xfff) + 0x1000 else palloc_base s);
          s1 = s\<lparr>palloc_base := base + size_req\<rparr>
      in if malloc_base s \<le> base + size_req
         then Inl (Panic ''fatal error: placeholder kmalloc has overrun malloc() memory'')
         else Inr ((base, VIRT_TO_PHYS base), s1))"

definition kmalloc :: "kalloc \<Rightarrow> u32 \<Rightarrow> (u32 \<times> kalloc) res" where
  "kmalloc s n = res_bind (kmalloc_int s n False) (\<lambda>((a, p), s1). Inr (a, s1))"

definition kmalloc_a :: "kalloc \<Rightarrow> u32 \<Rightarrow> (u32 \<times> kalloc) res" where
  "kmalloc_a s n = res_bind (kmalloc_int s n True) (\<lambda>((a, p), s1). Inr (a, s1))"

definition kmalloc_ap :: "kalloc \<Rightarrow> u32 \<Rightarrow> ((u32 \<times> u32) \<times> kalloc) res" where
  "kmalloc_ap s n = kmalloc_int s n True"

section \<open>malloc\<close>

definition init_allocator :: "kalloc \<Rightarrow> kalloc res" where
  "init_allocator s =
     (let sz = 0xC0400000 - malloc_base s in
      res_bind (arr_set (elements (heap s)) 0 \<lparr>key = sz, address = malloc_base s\<rparr>) (\<lambda>es.
      res_bind (mem_set (mem s) (malloc_base s) 0 (unat sz)) (\<lambda>m.
      let s1 = s\<lparr>heap := (heap s)\<lparr>elements := es, size_of := 1\<rparr>, mem := m\<rparr> in
      res_bind (set_magic s1 (malloc_base s) HEAP_MAGIC) (\<lambda>s2.
      res_bind (set_size s2 (malloc_base s) sz) (\<lambda>s3.
      set_allocated s3 (malloc_base s) False)))))"

text \<open>The four stores that end a split or a nearly exact fit.\<close>

definition mark_block :: "kalloc \<Rightarrow> u32 \<Rightarrow> u32 \<Rightarrow> kalloc res" where
  "mark_block s h full_size =
     res_bind (set_allocated s h True) (\<lambda>s1.
     res_bind (set_magic s1 h HEAP_MAGIC) (\<lambda>s2.
     res_bind (set_size s2 h full_size) (\<lambda>s3.
     put_word s3 (h + full_size - FOOTER_SIZE) full_size)))"

text \<open>The branch that leaves a gap behind the block.\<close>

definition split_gap :: "kalloc \<Rightarrow> nat \<Rightarrow> u32 \<Rightarrow> u32 \<Rightarrow> u32 \<Rightarrow> kalloc res" where
  "split_gap s i h full_size old_size =
     (let new_size = old_size - full_size; new_h = h + full_size in
      res_bind (set_size s new_h new_size) (\<lambda>s1.
      res_bind (put_word s1 (h + old_size - FOOTER_SIZE) new_size) (\<lambda>s2.
      lift_heap s2 (heap_decrease (heap s2) (int i) \<lparr>key = new_size, address = new_h\<rparr>))))"

definition malloc :: "kalloc \<Rightarrow> u32 \<Rightarrow> (u32 \<times> kalloc) res" where
  "malloc s n =
     (let full_size = n + HEADER_SIZE + FOOTER_SIZE in
      res_bind (heap_lookup_min (heap s) full_size False) (\<lambda>(found, hp).
      case found of
        None \<Rightarrow> Inl (Panic ''Whoops, malloc ran out of memory'')
      | Some (e, i) \<Rightarrow>
          let h = address e in
          res_bind (get_allocated s h) (\<lambda>al.
          res_bind (kassert (\<not> al) ''Gap already allocated (this should never happen)'') (\<lambda>_.
          res_bind (get_size s h) (\<lambda>old_size.
          res_bind
            (if full_size = old_size then lift_heap s (heap_delete (heap s) (int i))
             else if old_size - full_size \<le> HEADER_SIZE + FOOTER_SIZE + 8 then
               res_bind (lift_heap s (heap_delete (heap s) (int i))) (\<lambda>s1. mark_block s1 h old_size)
             else
               res_bind (split_gap s i h full_size old_size) (\<lambda>s1. mark_block s1 h full_size)) (\<lambda>s1.
          Inr (h + HEADER_SIZE, s1)))))))"

section \<open>free and realloc\<close>

text \<open>Whether a neighbour is a gap: \<open>magic == HEAP_MAGIC && !allocated\<close>.\<close>

definition is_gap :: "kalloc \<Rightarrow> u32 \<Rightarrow> bool res" where
  "is_gap s h =
     res_bind (get_magic s h) (\<lambda>m.
     if m = HEAP_MAGIC then res_bind (get_allocated s h) (\<lambda>a. Inr (\<not> a)) else Inr False)"

definition free :: "kalloc \<Rightarrow> u32 \<Rightarrow> kalloc res" where
  "free s p =
     (if p = 0 then Inr s
      else
        let base = p - HEADER_SIZE in
        res_bind (get_magic s base) (\<lambda>m.
        if m \<noteq> HEAP_MAGIC then Inl (Panic ''Freeing memory not allocated with malloc()'')
        else
          let prev_f = p - HEADER_SIZE - FOOTER_SIZE in
          res_bind (load32 (mem s) prev_f) (\<lambda>prev_size.
          let prev_h = prev_f - prev_size + FOOTER_SIZE in
          res_bind (get_size s base) (\<lambda>base_size.
          let next_h = base + base_size in
          res_bind (is_gap s prev_h) (\<lambda>prev_gap.
          res_bind (if prev_gap then res_bind (get_size s prev_h) (\<lambda>z. Inr (base_size + z, prev_h))
                    else Inr (base_size, base)) (\<lambda>(size1, start).
          res_bind (is_gap s next_h) (\<lambda>next_gap.
          res_bind (if next_gap then res_bind (get_size s next_h) (\<lambda>z. Inr (size1 + z))
                    else Inr size1) (\<lambda>size2.
          res_bind (set_allocated s start False) (\<lambda>s1.
          res_bind (set_magic s1 start HEAP_MAGIC) (\<lambda>s2.
          res_bind (set_size s2 start size2) (\<lambda>s3.
          lift_heap s3 (heap_insert (heap s3) \<lparr>key = size2, address = start\<rparr>))))))))))))"

text \<open>
  Growing a block into the gap behind it. Pointer arithmetic on \<open>next\<close> and \<open>new_h\<close> counts
  in headers of 12 bytes and on \<open>f\<close> in footers of 4, which the source overlooks.
\<close>

definition grow_block :: "kalloc \<Rightarrow> u32 \<Rightarrow> u32 \<Rightarrow> u32 \<Rightarrow> (u32 \<times> kalloc) res" where
  "grow_block s p base n =
     res_bind (get_size s base) (\<lambda>base_size.
     let next_h = base + base_size in
     res_bind (get_size s next_h) (\<lambda>next_size.
     let remaining = base_size + next_size - n - HEADER_SIZE - FOOTER_SIZE;
         old_entry = \<lparr>key = next_size, address = next_h\<rparr> in
     res_bind
       (if remaining \<le> HEADER_SIZE + FOOTER_SIZE + 8 then
          res_bind (lift_heap s (heap_delete_entry (heap s) old_entry)) (\<lambda>s1.
          Inr (next_h + 12 * next_size - 12 * FOOTER_SIZE, s1))
        else
          let f = p + n; new_h = f + 4 * FOOTER_SIZE;
              new_f = new_h + 12 * remaining - 12 * FOOTER_SIZE in
          res_bind (set_allocated s new_h False) (\<lambda>s1.
          res_bind (put_word s1 new_f remaining) (\<lambda>s2.
          res_bind (set_size s2 new_h remaining) (\<lambda>s3.
          res_bind (set_magic s3 new_h HEAP_MAGIC) (\<lambda>s4.
          res_bind (lift_heap s4 (heap_decrease_entry (heap s4) old_entry \<lparr>key = remaining, address = new_h\<rparr>)) (\<lambda>s5.
          Inr (f, s5))))))) (\<lambda>(f, s6).
     let full_size = f - base + FOOTER_SIZE in
     res_bind (put_word s6 f full_size) (\<lambda>s7.
     res_bind (set_size s7 base full_size) (\<lambda>s8.
     res_bind (set_magic s8 base HEAP_MAGIC) (\<lambda>s9.
     res_bind (set_allocated s9 base True) (\<lambda>s10. Inr (p, s10))))))))"

definition realloc :: "kalloc \<Rightarrow> u32 \<Rightarrow> u32 \<Rightarrow> (u32 \<times> kalloc) res" where
  "realloc s p n =
     (if p = 0 then Inr (0, s)
      else
        let base = p - HEADER_SIZE in
        res_bind (get_size s base) (\<lambda>base_size.
        let next_h = base + base_size in
        res_bind (get_allocated s next_h) (\<lambda>al.
        res_bind (if al then Inr False
                  else res_bind (get_size s next_h) (\<lambda>next_size.
                    Inr (n \<le> next_size + base_size - HEADER_SIZE - FOOTER_SIZE))) (\<lambda>fits.
        if fits then grow_block s p base n
        else
          res_bind (malloc s n) (\<lambda>(new, s1).
          if new = 0 then Inr (new, s1)
          else
            res_bind (get_size s1 base) (\<lambda>sz.
            res_bind (mem_copy (mem s1) new p (unat (sz - HEADER_SIZE - FOOTER_SIZE))) (\<lambda>m.
            res_bind (free (s1\<lparr>mem := m\<rparr>) p) (\<lambda>s2. Inr (new, s2)))))))))"

section \<open>Offsets in a block\<close>

lemma word_at_offset:
  assumes "unat i + 4 \<le> 2 ^ 32"
  shows "word_at (a + i) = {x. unat i \<le> unat (x - a) \<and> unat (x - a) < unat i + 4}"
proof -
  have "unat (x - (a + i)) < 4 \<longleftrightarrow> unat i \<le> unat (x - a) \<and> unat (x - a) < unat i + 4" for x
  proof -
    have d: "x - (a + i) = (x - a) - i" by (simp add: diff_diff_eq)
    have "unat (x - a) < 2 ^ LENGTH(32)" by (rule unsigned_less)
    then have lt: "unat (x - a) < 2 ^ 32" by simp
    show ?thesis
    proof (cases "i \<le> x - a")
      case True
      then show ?thesis unfolding d by (simp add: unat_sub word_le_nat_alt) linarith
    next
      case False
      then have "unat ((x - a) - i) = 2 ^ 32 + unat (x - a) - unat i"
        using unat_sub_if'[of "x - a" i] by (simp add: word_le_nat_alt)
      then show ?thesis unfolding d using False assms by (simp add: word_le_nat_alt)
    qed
  qed
  then show ?thesis unfolding word_at_span span_def by blast
qed

lemma word_at_in_span:
  assumes "unat i + 4 \<le> n" "n \<le> 2 ^ 32"
  shows "word_at (a + i) \<subseteq> span a n"
  using assms by (subst word_at_offset) (auto simp: span_def)

lemma words_disjoint:
  assumes "unat i + 4 \<le> unat j" "unat j + 4 \<le> 2 ^ 32"
  shows "word_at (a + i) \<inter> word_at (a + j) = {}" and "word_at (a + j) \<inter> word_at (a + i) = {}"
  using assms by (subst (1 2) word_at_offset; force)+

lemma byte_disjoint:
  assumes "unat k < unat i \<or> unat i + 4 \<le> unat k" "unat i + 4 \<le> 2 ^ 32"
  shows "a + k \<notin> word_at (a + i)"
  using assms by (subst word_at_offset) auto

lemma put_word_Inr:
  "word_at a \<subseteq> dom (mem s) \<Longrightarrow> put_word s a v = Inr (s\<lparr>mem := put32 (mem s) a v\<rparr>)"
  by (simp add: put_word_def store32_Inr)

lemma set_allocated_Inr:
  "h + 4 \<in> dom (mem s) \<Longrightarrow> set_allocated s h b = Inr (s\<lparr>mem := (mem s)(h + 4 \<mapsto> (if b then 1 else 0))\<rparr>)"
  by (simp add: set_allocated_def store8_Inr)

lemma dom_put32_offset:
  "word_at a \<subseteq> dom m \<Longrightarrow> x \<in> dom (put32 m a v) \<longleftrightarrow> x \<in> dom m"
  by (simp add: dom_put32)

lemma load32_upd_other: "a \<notin> word_at b \<Longrightarrow> load32 (m(a \<mapsto> v)) b = load32 m b"
  by (rule load32_cong) auto

definition block_mem :: "memory \<Rightarrow> u32 \<Rightarrow> u32 \<Rightarrow> memory" where
  "block_mem m h full =
     put32 (put32 (put32 (m(h + 4 \<mapsto> 1)) h HEAP_MAGIC) (h + 8) full) (h + (full - 4)) full"

text \<open>The memory between the header and the footer that \<open>mark_block\<close> leaves.\<close>

definition is_block :: "memory \<Rightarrow> u32 \<Rightarrow> u32 \<Rightarrow> bool" where
  "is_block m h full \<longleftrightarrow> load32 m h = Inr HEAP_MAGIC \<and> load8 m (h + 4) = Inr 1 \<and>
     load32 m (h + 8) = Inr full \<and> load32 m (h + full - 4) = Inr full"

lemma block_words:
  assumes "16 \<le> unat full" "n \<le> 2 ^ 32" "unat full \<le> n" "span h n \<subseteq> dom m"
  shows "word_at h \<subseteq> dom m" "word_at (h + 8) \<subseteq> dom m" "word_at (h + (full - 4)) \<subseteq> dom m" "h + 4 \<in> dom m"
proof -
  have u: "unat (full - 4) = unat full - 4" using assms(1) by (subst unat_sub) (auto simp: word_le_nat_alt)
  show "word_at h \<subseteq> dom m" using word_at_in_span[of 0 n h] assms by simp
  show "word_at (h + 8) \<subseteq> dom m" using word_at_in_span[of 8 n h] assms by simp
  show "word_at (h + (full - 4)) \<subseteq> dom m" using word_at_in_span[of "full - 4" n h] assms u by simp
  have "h + 4 \<in> span h n" using assms by (simp add: span_def)
  then show "h + 4 \<in> dom m" using assms by blast
qed

lemma mark_block_Inr:
  assumes "16 \<le> unat full" "n \<le> 2 ^ 32" "unat full \<le> n" "span h n \<subseteq> dom (mem s)"
  shows "mark_block s h full = Inr (s\<lparr>mem := block_mem (mem s) h full\<rparr>)"
proof -
  note b = block_words[OF assms]
  have d1: "dom ((mem s)(h + 4 \<mapsto> 1)) = dom (mem s)" using b by auto
  have e: "h + full - FOOTER_SIZE = h + (full - 4)" by (simp add: FOOTER_SIZE_def)
  show ?thesis
    unfolding mark_block_def e set_magic_def set_size_def block_mem_def
    using b d1 by (simp add: set_allocated_Inr put_word_Inr dom_put32)
qed

lemma block_mem_is_block:
  assumes "16 \<le> unat full"
  shows "is_block (block_mem m h full) h full"
proof -
  have u: "unat (full - 4) = unat full - 4" using assms by (subst unat_sub) (auto simp: word_le_nat_alt)
  have f: "unat full < 2 ^ LENGTH(32)" by (rule unsigned_less)
  have e: "h + full - 4 = h + (full - 4)" by simp
  have d: "word_at h \<inter> word_at (h + 8) = {}" "word_at h \<inter> word_at (h + (full - 4)) = {}"
    "word_at (h + 8) \<inter> word_at (h + (full - 4)) = {}"
    using words_disjoint(1)[of 0 8 h] words_disjoint(1)[of 0 "full - 4" h] words_disjoint(1)[of 8 "full - 4" h]
      assms f by (auto simp: u)
  have k: "h + 4 \<notin> word_at h" "h + 4 \<notin> word_at (h + 8)" "h + 4 \<notin> word_at (h + (full - 4))"
    using byte_disjoint[of 4 0 h] byte_disjoint[of 4 8 h] byte_disjoint[of 4 "full - 4" h] assms f by (auto simp: u)
  show ?thesis
    unfolding is_block_def block_mem_def e
    using d k by (simp add: load32_put32_other load32_put32_same load8_put32_other load32_upd_other)
      (simp add: load8_def)
qed

lemma block_mem_outside:
  assumes "16 \<le> unat full" "\<not> unat (x - h) < unat full"
  shows "block_mem m h full x = m x"
proof -
  have u: "unat (full - 4) = unat full - 4" using assms by (subst unat_sub) (auto simp: word_le_nat_alt)
  have f: "unat full < 2 ^ LENGTH(32)" by (rule unsigned_less)
  have "x \<notin> word_at h" "x \<notin> word_at (h + 8)" "x \<notin> word_at (h + (full - 4))" "x \<noteq> h + 4"
    using word_at_in_span[of 0 "unat full" h] word_at_in_span[of 8 "unat full" h]
      word_at_in_span[of "full - 4" "unat full" h] assms f by (auto simp: span_def u)
  then show ?thesis by (simp add: block_mem_def put32_other)
qed

lemma load32_block_mem_after:
  assumes "16 \<le> unat full" "unat full \<le> unat j" "unat j + 4 \<le> 2 ^ 32"
  shows "load32 (block_mem m h full) (h + j) = load32 m (h + j)"
  using assms by (intro load32_cong block_mem_outside) (auto simp: word_at_offset)

lemma full_size_unat:
  assumes "unat n + 16 < 2 ^ 32"
  shows "unat (n + HEADER_SIZE + FOOTER_SIZE) = unat n + 16"
  using assms by (simp add: HEADER_SIZE_def FOOTER_SIZE_def unat_word_ariths)

text \<open>The gap \<open>e\<close>: mapped, not marked allocated, and of the size its entry says.\<close>

definition gap_ok :: "memory \<Rightarrow> heap_entry \<Rightarrow> bool" where
  "gap_ok m e \<longleftrightarrow> span (address e) (unat (key e)) \<subseteq> dom m \<and>
     load8 m (address e + 4) = Inr 0 \<and> load32 m (address e + 8) = Inr (key e)"

lemma gap_access:
  assumes "gap_ok (mem s) e"
  shows "get_allocated s (address e) = Inr False" "get_size s (address e) = Inr (key e)"
  using assms by (simp_all add: gap_ok_def get_allocated_def get_size_def)

definition split_mem :: "memory \<Rightarrow> u32 \<Rightarrow> u32 \<Rightarrow> u32 \<Rightarrow> memory" where
  "split_mem m h full old =
     put32 (put32 m (h + (full + 8)) (old - full)) (h + (old - 4)) (old - full)"

lemma split_gap_Inr:
  assumes "heap_decrease (heap s) (int i) \<lparr>key = old - full, address = h + full\<rparr> = Inr hp"
    and "unat full + 24 < unat old" "span h (unat old) \<subseteq> dom (mem s)"
  shows "split_gap s i h full old = Inr (s\<lparr>mem := split_mem (mem s) h full old, heap := hp\<rparr>)"
proof -
  have o: "unat old < 2 ^ LENGTH(32)" by (rule unsigned_less)
  have u: "unat (old - 4) = unat old - 4" using assms(2) by (subst unat_sub) (auto simp: word_le_nat_alt)
  have v: "unat (full + 8) = unat full + 8" using assms(2) o by (simp add: unat_word_ariths)
  have w: "word_at (h + (full + 8)) \<subseteq> dom (mem s)" "word_at (h + (old - 4)) \<subseteq> dom (mem s)"
    using word_at_in_span[of "full + 8" "unat old" h] word_at_in_span[of "old - 4" "unat old" h] assms o
    by (auto simp: u v)
  have e: "h + full + 8 = h + (full + 8)" "h + old - FOOTER_SIZE = h + (old - 4)"
    by (simp_all add: FOOTER_SIZE_def)
  show ?thesis
    unfolding split_gap_def set_size_def Let_def e using w assms(1)
    by (simp add: put_word_Inr dom_put32 lift_heap_def split_mem_def)
qed

lemma split_mem_words:
  assumes "unat full + 24 < unat old" "span h (unat old) \<subseteq> dom m"
  shows "load32 (split_mem m h full old) (h + (full + 8)) = Inr (old - full)"
    and "load32 (split_mem m h full old) (h + (old - 4)) = Inr (old - full)"
    and "dom (split_mem m h full old) = dom m"
    and "\<not> (unat full + 8 \<le> unat (x - h) \<and> unat (x - h) < unat old) \<Longrightarrow> split_mem m h full old x = m x"
proof -
  have o: "unat old < 2 ^ LENGTH(32)" by (rule unsigned_less)
  have u: "unat (old - 4) = unat old - 4" using assms(1) by (subst unat_sub) (auto simp: word_le_nat_alt)
  have v: "unat (full + 8) = unat full + 8" using assms(1) o by (simp add: unat_word_ariths)
  have w: "word_at (h + (full + 8)) \<subseteq> dom m" "word_at (h + (old - 4)) \<subseteq> dom m"
    using word_at_in_span[of "full + 8" "unat old" h] word_at_in_span[of "old - 4" "unat old" h] assms o
    by (auto simp: u v)
  have d: "word_at (h + (full + 8)) \<inter> word_at (h + (old - 4)) = {}"
    using assms(1) o by (intro words_disjoint(1)) (auto simp: u v)
  show "load32 (split_mem m h full old) (h + (full + 8)) = Inr (old - full)"
    unfolding split_mem_def using d by (simp only: load32_put32_other load32_put32_same)
  show "load32 (split_mem m h full old) (h + (old - 4)) = Inr (old - full)"
    unfolding split_mem_def by (simp only: load32_put32_same)
  show "dom (split_mem m h full old) = dom m"
    unfolding split_mem_def using w by (simp only: dom_put32)
  show "split_mem m h full old x = m x" if "\<not> (unat full + 8 \<le> unat (x - h) \<and> unat (x - h) < unat old)"
  proof -
    have "x \<notin> word_at (h + (full + 8))" "x \<notin> word_at (h + (old - 4))"
      using that assms o by (auto simp: word_at_offset u v)
    then show ?thesis by (simp add: split_mem_def put32_other)
  qed
qed

lemma malloc_split:
  fixes s :: kalloc and n :: u32
  defines "full \<equiv> n + 16"
  assumes inv: "heap_inv (heap s)" and n: "unat n + 16 < 2 ^ 32"
    and found: "heap_lookup_min (heap s) full False = Inr (Some (e, i), heap s)"
    and gap: "gap_ok (mem s) e" and room: "unat full + 24 < unat (key e)"
  shows "\<exists>hp. malloc s n = Inr (address e + 12,
      s\<lparr>mem := block_mem (split_mem (mem s) (address e) full (key e)) (address e) full, heap := hp\<rparr>) \<and>
    heap_inv hp \<and> heap_mset hp = heap_mset (heap s) - {#e#} + {#\<lparr>key = key e - full, address = address e + full\<rparr>#}"
proof -
  have F: "n + HEADER_SIZE + FOOTER_SIZE = full" by (simp add: full_def HEADER_SIZE_def FOOTER_SIZE_def)
  have f16: "16 \<le> unat full" using n by (simp add: full_def unat_word_ariths)
  have wf: "heap_wf (heap s)" using inv by (simp add: heap_inv_def)
  have e: "i < heap_len (heap s)" "e = elements (heap s) ! i"
    using heap_lookup_min_Inr[OF wf, of full] found by auto
  have sub: "unat (key e - full) = unat (key e) - unat full"
    using room by (subst unat_sub) (auto simp: word_le_nat_alt)
  have le: "key e - full \<le> key e" using sub by (simp add: word_le_nat_alt)
  obtain hp where hp: "heap_decrease (heap s) (int i) \<lparr>key = key e - full, address = address e + full\<rparr> = Inr hp"
    "heap_inv hp" "heap_mset hp = heap_mset (heap s) - {#e#} + {#\<lparr>key = key e - full, address = address e + full\<rparr>#}"
    using kheap.shrink_gap_ok[OF inv e(1), of "\<lparr>key = key e - full, address = address e + full\<rparr>"] le e(2) by auto
  let ?m = "split_mem (mem s) (address e) full (key e)"
  have sp: "span (address e) (unat (key e)) \<subseteq> dom (mem s)" using gap by (simp add: gap_ok_def)
  have K: "unat (key e) < 2 ^ LENGTH(32)" by (rule unsigned_less)
  have mb: "mark_block (s\<lparr>mem := ?m, heap := hp\<rparr>) (address e) full =
      Inr (s\<lparr>mem := block_mem ?m (address e) full, heap := hp\<rparr>)"
    using mark_block_Inr[of full "unat (key e)" "address e" "s\<lparr>mem := ?m, heap := hp\<rparr>"]
      f16 room K sp split_mem_words(3)[OF room sp] by simp
  have ne: "full \<noteq> key e" using room by auto
  have nle: "\<not> key e - full \<le> HEADER_SIZE + FOOTER_SIZE + 8"
    using room sub by (simp add: word_le_nat_alt HEADER_SIZE_def FOOTER_SIZE_def)
  have "malloc s n = Inr (address e + 12, s\<lparr>mem := block_mem ?m (address e) full, heap := hp\<rparr>)"
    unfolding malloc_def F Let_def
    using found gap_access[OF gap] ne nle split_gap_Inr[OF hp(1) room sp] mb
    by (simp add: HEADER_SIZE_def)
  then show ?thesis using hp by blast
qed

lemma malloc_split_memory:
  assumes "16 \<le> unat full" "unat full + 24 < unat old" "span h (unat old) \<subseteq> dom m"
  defines "m' \<equiv> block_mem (split_mem m h full old) h full"
  shows "is_block m' h full" and "load32 m' (h + full + 8) = Inr (old - full)"
    and "load32 m' (h + old - 4) = Inr (old - full)"
    and "\<And>x. x \<notin> span h (unat old) \<Longrightarrow> m' x = m x"
    and "load8 m' (h + full + 4) = load8 m (h + full + 4)"
proof -
  have o: "unat old < 2 ^ LENGTH(32)" by (rule unsigned_less)
  have u: "unat (old - 4) = unat old - 4" using assms(2) by (subst unat_sub) (auto simp: word_le_nat_alt)
  have v: "unat (full + 8) = unat full + 8" "unat (full + 4) = unat full + 4"
    using assms(2) o by (simp_all add: unat_word_ariths)
  show "is_block m' h full" unfolding m'_def using assms(1) by (rule block_mem_is_block)
  have "load32 m' (h + (full + 8)) = Inr (old - full)"
    unfolding m'_def using assms(1,2) o split_mem_words(1)[OF assms(2,3)]
    by (subst load32_block_mem_after) (auto simp: v)
  then show "load32 m' (h + full + 8) = Inr (old - full)" by (simp add: add.assoc)
  have "load32 m' (h + (old - 4)) = Inr (old - full)"
    unfolding m'_def using assms(1,2) o split_mem_words(2)[OF assms(2,3)]
    by (subst load32_block_mem_after) (auto simp: u)
  then show "load32 m' (h + old - 4) = Inr (old - full)" by (simp add: add_diff_eq)
  show "m' x = m x" if "x \<notin> span h (unat old)" for x
    using that assms(1,2) split_mem_words(4)[OF assms(2,3)]
    by (auto simp: m'_def span_def block_mem_outside)
  have "m' (h + (full + 4)) = m (h + (full + 4))"
    using assms(1,2) split_mem_words(4)[OF assms(2,3), of "h + (full + 4)"]
    by (simp add: m'_def block_mem_outside v)
  then show "load8 m' (h + full + 4) = load8 m (h + full + 4)" by (simp add: load8_def add.assoc)
qed

definition gap_header :: "memory \<Rightarrow> u32 \<Rightarrow> u32 \<Rightarrow> memory" where
  "gap_header m h z = put32 (put32 (m(h + 4 \<mapsto> 0)) h HEAP_MAGIC) (h + 8) z"

lemma gap_header_ok:
  assumes "span h (unat z) \<subseteq> dom m" "12 \<le> unat z"
  shows "gap_ok (gap_header m h z) \<lparr>key = z, address = h\<rparr>"
    and "load32 (gap_header m h z) h = Inr HEAP_MAGIC"
    and "x \<notin> span h 12 \<Longrightarrow> gap_header m h z x = m x"
proof -
  have zl: "unat z < 2 ^ LENGTH(32)" by (rule unsigned_less)
  have w: "word_at h \<subseteq> dom m" "word_at (h + 8) \<subseteq> dom m"
    using word_at_in_span[of 0 "unat z" h] word_at_in_span[of 8 "unat z" h] assms zl by auto
  have "h + 4 \<in> span h (unat z)" using assms(2) by (simp add: span_def)
  then have b: "h + 4 \<in> dom m" using assms(1) by blast
  then have d1: "dom (m(h + 4 \<mapsto> 0)) = dom m" by auto
  have d: "dom (gap_header m h z) = dom m"
    unfolding gap_header_def using w d1 by (simp only: dom_put32)
  have dis: "word_at h \<inter> word_at (h + 8) = {}" using words_disjoint(1)[of 0 8 h] by simp
  have k: "h + 4 \<notin> word_at h" "h + 4 \<notin> word_at (h + 8)"
    using byte_disjoint[of 4 0 h] byte_disjoint[of 4 8 h] by auto
  show m: "load32 (gap_header m h z) h = Inr HEAP_MAGIC"
    unfolding gap_header_def using dis by (simp only: load32_put32_other load32_put32_same)
  show "gap_ok (gap_header m h z) \<lparr>key = z, address = h\<rparr>"
    using assms(1) d k by (simp add: gap_ok_def) 
      (simp add: gap_header_def load32_put32_same load8_put32_other, simp add: load8_def)
  show "gap_header m h z x = m x" if "x \<notin> span h 12"
  proof -
    have "x \<notin> word_at h" "x \<notin> word_at (h + 8)" "x \<noteq> h + 4"
      using that word_at_in_span[of 0 12 h] word_at_in_span[of 8 12 h] by (auto simp: span_def)
    then show ?thesis by (simp add: gap_header_def put32_other)
  qed
qed

lemma free_tail:
  assumes "span h 12 \<subseteq> dom (mem s)" "heap_inv (heap s)" "heap_len (heap s) < HEAP_SIZE"
  shows "\<exists>hp. res_bind (set_allocated s h False) (\<lambda>s1. res_bind (set_magic s1 h HEAP_MAGIC) (\<lambda>s2.
      res_bind (set_size s2 h z) (\<lambda>s3. lift_heap s3 (heap_insert (heap s3) \<lparr>key = z, address = h\<rparr>)))) =
      Inr (s\<lparr>mem := gap_header (mem s) h z, heap := hp\<rparr>) \<and> heap_inv hp \<and>
      heap_mset hp = heap_mset (heap s) + {#\<lparr>key = z, address = h\<rparr>#}"
proof -
  have w: "word_at h \<subseteq> dom (mem s)" "word_at (h + 8) \<subseteq> dom (mem s)" "h + 4 \<in> dom (mem s)"
  proof -
    show "word_at h \<subseteq> dom (mem s)" using word_at_in_span[of 0 12 h] assms by auto
    show "word_at (h + 8) \<subseteq> dom (mem s)" using word_at_in_span[of 8 12 h] assms by auto
    have "h + 4 \<in> span h 12" by (simp add: span_def)
    then show "h + 4 \<in> dom (mem s)" using assms by blast
  qed
  then have d1: "dom ((mem s)(h + 4 \<mapsto> 0)) = dom (mem s)" by auto
  obtain hp where "heap_insert (heap s) \<lparr>key = z, address = h\<rparr> = Inr hp" "heap_inv hp"
    "heap_mset hp = heap_mset (heap s) + {#\<lparr>key = z, address = h\<rparr>#}"
    using kheap.insert_gap_ok[OF assms(2,3)] by blast
  then show ?thesis using w d1
    by (intro exI[of _ hp]) (simp add: set_allocated_Inr set_magic_def set_size_def put_word_Inr dom_put32 lift_heap_def gap_header_def)
qed

lemma free_general:
  assumes p: "p \<noteq> 0" and magic: "get_magic s (p - 12) = Inr HEAP_MAGIC"
    and prev: "load32 (mem s) (p - 16) = Inr pz" and size: "get_size s (p - 12) = Inr z"
    and pg: "is_gap s (p - pz - 12) = Inr pgap" "pgap \<Longrightarrow> get_size s (p - pz - 12) = Inr ps"
    and ng: "is_gap s (p - 12 + z) = Inr ngap" "ngap \<Longrightarrow> get_size s (p - 12 + z) = Inr ns"
    and h: "h = (if pgap then p - pz - 12 else p - 12)"
    and t: "t = z + (if pgap then ps else 0) + (if ngap then ns else 0)"
    and hdr: "span h 12 \<subseteq> dom (mem s)"
    and hp: "heap_inv (heap s)" "heap_len (heap s) < HEAP_SIZE"
  shows "\<exists>hp. free s p = Inr (s\<lparr>mem := gap_header (mem s) h t, heap := hp\<rparr>) \<and> heap_inv hp \<and>
    heap_mset hp = heap_mset (heap s) + {#\<lparr>key = t, address = h\<rparr>#}"
proof -
  have e: "p - 12 - 4 = p - 16" by simp
  obtain hp' where r: "res_bind (set_allocated s h False) (\<lambda>s1. res_bind (set_magic s1 h HEAP_MAGIC) (\<lambda>s2.
      res_bind (set_size s2 h t) (\<lambda>s3. lift_heap s3 (heap_insert (heap s3) \<lparr>key = t, address = h\<rparr>)))) =
      Inr (s\<lparr>mem := gap_header (mem s) h t, heap := hp'\<rparr>)" "heap_inv hp'"
      "heap_mset hp' = heap_mset (heap s) + {#\<lparr>key = t, address = h\<rparr>#}"
    using free_tail[OF hdr hp, of t] by blast
  have "free s p = Inr (s\<lparr>mem := gap_header (mem s) h t, heap := hp'\<rparr>)"
    unfolding free_def Let_def HEADER_SIZE_def FOOTER_SIZE_def e
    using p magic prev size pg ng h t r(1) by (cases pgap; cases ngap; simp)
  then show ?thesis using r(2,3) by blast
qed

lemma malloc_exact:
  fixes s :: kalloc and n :: u32
  defines "full \<equiv> n + 16"
  assumes inv: "heap_inv (heap s)" "1 < heap_len (heap s)"
    and found: "heap_lookup_min (heap s) full False = Inr (Some (e, 0), heap s)"
    and gap: "gap_ok (mem s) e" and fit: "key e = full"
  shows "\<exists>hp. malloc s n = Inr (address e + 12, s\<lparr>heap := hp\<rparr>) \<and> heap_inv hp \<and>
    heap_mset hp = heap_mset (heap s) - {#e#}"
proof -
  have F: "n + HEADER_SIZE + FOOTER_SIZE = full" by (simp add: full_def HEADER_SIZE_def FOOTER_SIZE_def)
  have wf: "heap_wf (heap s)" using inv by (simp add: heap_inv_def)
  have e: "e = elements (heap s) ! 0" using heap_lookup_min_Inr[OF wf, of full] found by auto
  obtain hp where hp: "heap_delete (heap s) (int 0) = Inr hp" "heap_inv hp" "heap_mset hp = heap_mset (heap s) - {#e#}"
    using heap_delete_root_entry[OF inv] e by auto
  have "malloc s n = Inr (address e + 12, s\<lparr>heap := hp\<rparr>)"
    unfolding malloc_def F Let_def
    using found gap_access[OF gap] fit hp(1) by (simp add: lift_heap_def HEADER_SIZE_def)
  then show ?thesis using hp by blast
qed

section \<open>Page alignment\<close>

lemma and_not_add: "(b AND m) + (b AND NOT m) = (b :: 'a::len word)"
  by (subst disjunctive_add) (auto simp: bit_simps intro!: bit_word_eqI)

lemma and_page_mask: "unat (b AND 0xfff :: u32) = unat b mod 4096"
proof -
  have "(b AND 0xfff) = b mod 4096" using take_bit_eq_mod[of 12 b] by (simp add: take_bit_eq_mask mask_eq_decr_exp)
  then show ?thesis by (simp add: unat_mod)
qed

lemma page_down: "unat (b AND NOT 0xfff :: u32) = unat b - unat b mod 4096"
proof -
  have "b AND NOT 0xfff = b - (b AND 0xfff)" using and_not_add[of b "0xfff"] by (metis add_diff_cancel_left')
  moreover have "b AND 0xfff \<le> b" by (simp add: word_le_nat_alt and_page_mask)
  ultimately show ?thesis by (simp add: unat_sub and_page_mask)
qed

lemma page_round_up:
  assumes "unat b + 0x1000 < 2 ^ 32"
  defines "a \<equiv> if b AND 0xfff \<noteq> 0 then (b AND NOT 0xfff) + 0x1000 else (b :: u32)"
  shows "unat b \<le> unat a" and "unat a < unat b + 0x1000" and "a AND 0xfff = 0"
proof -
  have z: "b AND 0xfff = 0 \<longleftrightarrow> unat b mod 4096 = 0" by (metis and_page_mask unat_eq_zero unsigned_0)
  have u: "unat ((b AND NOT 0xfff) + 0x1000) = unat b - unat b mod 4096 + 4096"
  proof -
    have "unat (x + 0x1000) = (unat x + 4096) mod 2 ^ 32" for x :: u32 by (simp add: unat_word_ariths)
    moreover have "unat b - unat b mod 4096 + 4096 < 2 ^ 32" using assms(1) by linarith
    ultimately show ?thesis by (simp only: page_down mod_less)
  qed
  have m: "unat b mod 4096 < 4096" by simp
  have l: "unat b mod 4096 \<le> unat b" by simp
  show "unat b \<le> unat a" using u m l unfolding a_def by (auto split: if_splits)
  show "unat a < unat b + 0x1000" using u m l z unfolding a_def by (auto split: if_splits)
  have "(unat b - unat b mod 4096 + 4096) mod 4096 = 0" by (simp add: minus_mod_eq_mult_div)
  then have "unat (a AND 0xfff) = 0"
    unfolding a_def using u z by (auto simp: and_page_mask split: if_splits)
  then show "a AND 0xfff = 0" by (simp add: unat_eq_zero)
qed

section \<open>Properties\<close>

text \<open>A heap of one gap of 1024 bytes in zeroed memory.\<close>

definition one_gap :: kalloc where
  "one_gap = \<lparr>palloc_base = 0xC0100010, malloc_base = 0xC0200000,
     heap = heap_of [\<lparr>key = 1024, address = 0xC0200000\<rparr>],
     mem = put32 (\<lambda>x. Some 0) (0xC0200000 + 8) 1024\<rparr>"

lemma one_gap_inv: "heap_inv (heap one_gap)"
  by (simp add: one_gap_def) (rule heap_of_inv, auto simp: HEAP_SIZE_def ordered_def)

lemma one_gap_lookup: "k \<le> 1024 \<Longrightarrow> heap_lookup_min (heap one_gap) k False =
    Inr (Some (\<lparr>key = 1024, address = 0xC0200000\<rparr>, 0), heap one_gap)"
  by (simp add: one_gap_def heap_lookup_min_def heap_of_def descend.simps arr_get_def HEAP_SIZE_def leD)

lemma one_gap_ok: "gap_ok (mem one_gap) \<lparr>key = 1024, address = 0xC0200000\<rparr>"
  using load32_put32_same[of "\<lambda>x. Some 0" "0xC0200000 + 8" 1024]
  by (simp add: gap_ok_def one_gap_def) (auto simp: put32_def load8_def)

text \<open>
  C22. \<open>malloc\<close> of \<open>n\<close> bytes that finds a gap \<open>e\<close> with more than 24 bytes to spare returns
  the address behind the gap's header. The block there has a complete header and footer,
  the heap holds the rest of the gap, exactly behind the block, in place of \<open>e\<close>, the rest
  is marked with its size, and no byte outside the gap changes.
\<close>

theorem malloc_splits_gap:
  assumes "heap_inv (heap s)" and "unat n + 16 < 2 ^ 32"
    and "heap_lookup_min (heap s) (n + 16) False = Inr (Some (e, i), heap s)"
    and "gap_ok (mem s) e" and "unat n + 40 < unat (key e)"
  shows "\<exists>s'. malloc s n = Inr (address e + 12, s') \<and> heap_inv (heap s') \<and>
    heap_mset (heap s') = heap_mset (heap s) - {#e#} +
      {#\<lparr>key = key e - (n + 16), address = address e + (n + 16)\<rparr>#} \<and>
    is_block (mem s') (address e) (n + 16) \<and>
    load32 (mem s') (address e + (n + 16) + 8) = Inr (key e - (n + 16)) \<and>
    load32 (mem s') (address e + key e - 4) = Inr (key e - (n + 16)) \<and>
    (\<forall>x. x \<notin> span (address e) (unat (key e)) \<longrightarrow> mem s' x = mem s x)"
proof -
  have u: "unat (n + 16) = unat n + 16" using assms(2) by (simp add: unat_word_ariths)
  then have room: "unat (n + 16) + 24 < unat (key e)" "16 \<le> unat (n + 16)" using assms(5) by simp_all
  have sp: "span (address e) (unat (key e)) \<subseteq> dom (mem s)" using assms(4) by (simp add: gap_ok_def)
  obtain hp where "malloc s n = Inr (address e + 12,
      s\<lparr>mem := block_mem (split_mem (mem s) (address e) (n + 16) (key e)) (address e) (n + 16), heap := hp\<rparr>)"
    "heap_inv hp" "heap_mset hp = heap_mset (heap s) - {#e#} + {#\<lparr>key = key e - (n + 16), address = address e + (n + 16)\<rparr>#}"
    using malloc_split[OF assms(1-4) room(1)] by blast
  then show ?thesis using malloc_split_memory[OF room(2,1) sp] by auto
qed

theorem malloc_splits_gap_witness:
  "\<exists>s'. malloc one_gap 64 = Inr (0xC020000C, s') \<and> is_block (mem s') 0xC0200000 80 \<and>
    heap_mset (heap s') = {#\<lparr>key = 944, address = 0xC0200050\<rparr>#}"
proof -
  have "heap_mset (heap one_gap) = {#\<lparr>key = 1024, address = 0xC0200000\<rparr>#}"
    by (simp add: one_gap_def heap_of_mset HEAP_SIZE_def)
  then show ?thesis
    using malloc_splits_gap[of one_gap 64 "\<lparr>key = 1024, address = 0xC0200000\<rparr>" 0]
      one_gap_inv one_gap_lookup[of 80] one_gap_ok by auto
qed

text \<open>
  \<open>malloc\<close> of a size that fits the first gap exactly takes the gap out of the heap but
  writes nothing to memory: the block it hands out still reads as not allocated, which is
  what \<open>free\<close> and \<open>realloc\<close> look for when they merge with a neighbour.
\<close>

theorem malloc_exact_fit_unmarked:
  assumes "heap_inv (heap s)" and "1 < heap_len (heap s)"
    and "heap_lookup_min (heap s) (n + 16) False = Inr (Some (e, 0), heap s)"
    and "gap_ok (mem s) e" and "key e = n + 16"
  shows "\<exists>s'. malloc s n = Inr (address e + 12, s') \<and>
    heap_mset (heap s') = heap_mset (heap s) - {#e#} \<and> mem s' = mem s \<and>
    get_allocated s' (address e) = Inr False"
proof -
  obtain hp where "malloc s n = Inr (address e + 12, s\<lparr>heap := hp\<rparr>)"
    "heap_mset hp = heap_mset (heap s) - {#e#}"
    using malloc_exact[OF assms] by blast
  then show ?thesis using gap_access(1)[OF assms(4)] by (auto simp: get_allocated_def)
qed

definition two_gaps :: kalloc where
  "two_gaps = \<lparr>palloc_base = 0xC0100010, malloc_base = 0xC0200000,
     heap = heap_of [\<lparr>key = 32, address = 0xC0200000\<rparr>, \<lparr>key = 64, address = 0xC0200040\<rparr>],
     mem = put32 (\<lambda>x. Some 0) (0xC0200000 + 8) 32\<rparr>"

theorem malloc_exact_fit_unmarked_witness:
  "\<exists>s'. malloc two_gaps 16 = Inr (0xC020000C, s') \<and> get_allocated s' 0xC0200000 = Inr False \<and>
    heap_mset (heap s') = {#\<lparr>key = 64, address = 0xC0200040\<rparr>#}"
proof -
  let ?e = "\<lparr>key = 32, address = 0xC0200000\<rparr> :: heap_entry"
  have h: "heap two_gaps = heap_of [?e, \<lparr>key = 64, address = 0xC0200040\<rparr>]" by (simp add: two_gaps_def)
  have "heap_inv (heap two_gaps)" "1 < heap_len (heap two_gaps)"
    "heap_mset (heap two_gaps) = {#?e, \<lparr>key = 64, address = 0xC0200040\<rparr>#}"
    by (simp_all add: h heap_of_pair)
  moreover have "heap_lookup_min (heap two_gaps) 32 False = Inr (Some (?e, 0), heap two_gaps)"
    by (simp add: h heap_lookup_min_def heap_of_def descend.simps arr_get_def HEAP_SIZE_def)
  moreover have "gap_ok (mem two_gaps) ?e"
    using load32_put32_same[of "\<lambda>x. Some 0" "0xC0200000 + 8" 32]
    by (simp add: gap_ok_def two_gaps_def) (auto simp: put32_def load8_def)
  ultimately show ?thesis
    using malloc_exact_fit_unmarked[of two_gaps 16 ?e] by auto
qed

text \<open>The block at \<open>h\<close> of \<open>z\<close> bytes, and neighbours that \<open>free\<close> does not take for gaps.\<close>

definition isolated :: "kalloc \<Rightarrow> u32 \<Rightarrow> u32 \<Rightarrow> bool" where
  "isolated s h z \<longleftrightarrow> is_gap s (h + z) = Inr False \<and>
     (case load32 (mem s) (h - 4) of Inl _ \<Rightarrow> False | Inr pz \<Rightarrow> is_gap s (h - pz) = Inr False)"

lemma is_block_access:
  assumes "is_block (mem s) h z"
  shows "get_magic s h = Inr HEAP_MAGIC" "get_size s h = Inr z"
  using assms by (simp_all add: is_block_def get_magic_def get_size_def)

lemma span_mono: "n \<le> k \<Longrightarrow> span h n \<subseteq> span h k"
  by (auto simp: span_def)

lemma free_block_ok:
  assumes "is_block (mem s) h z" and "isolated s h z" and "h + 12 \<noteq> 0" and "12 \<le> unat z"
    and "span h (unat z) \<subseteq> dom (mem s)"
    and "heap_inv (heap s)" and "heap_len (heap s) < HEAP_SIZE"
  shows "\<exists>s'. free s (h + 12) = Inr s' \<and> heap_inv (heap s') \<and>
    heap_mset (heap s') = heap_mset (heap s) + {#\<lparr>key = z, address = h\<rparr>#} \<and>
    gap_ok (mem s') \<lparr>key = z, address = h\<rparr> \<and> (\<forall>x. x \<notin> span h 12 \<longrightarrow> mem s' x = mem s x)"
proof -
  obtain pz where pz: "load32 (mem s) (h - 4) = Inr pz" "is_gap s (h - pz) = Inr False"
    and ng: "is_gap s (h + z) = Inr False"
    using assms(2) by (auto simp: isolated_def split: sum.splits)
  have sp: "span h 12 \<subseteq> dom (mem s)" using span_mono[OF assms(4)] assms(5) by blast
  have "\<exists>hp. free s (h + 12) = Inr (s\<lparr>mem := gap_header (mem s) h z, heap := hp\<rparr>) \<and> heap_inv hp \<and>
    heap_mset hp = heap_mset (heap s) + {#\<lparr>key = z, address = h\<rparr>#}"
    using is_block_access[OF assms(1)] pz ng sp assms(3,6,7)
    by (intro free_general[where pgap = False and ngap = False and pz = pz and z = z]) 
      (simp_all add: diff_diff_eq2 add.commute)
  then show ?thesis using gap_header_ok[OF assms(5,4)] by fastforce
qed

text \<open>
  C23. Freeing a block none of whose neighbours is a gap makes it a gap again: the heap gains
  exactly its entry, its header says what \<open>malloc\<close> needs to hand it out anew, and no byte
  outside the header changes.
\<close>

theorem free_isolated:
  assumes "is_block (mem s) h z" and "isolated s h z" and "h + 12 \<noteq> 0" and "12 \<le> unat z"
    and "span h (unat z) \<subseteq> dom (mem s)"
    and "heap_inv (heap s)" and "heap_len (heap s) < HEAP_SIZE"
  shows "\<exists>s'. free s (h + 12) = Inr s' \<and> heap_inv (heap s') \<and>
    heap_mset (heap s') = heap_mset (heap s) + {#\<lparr>key = z, address = h\<rparr>#} \<and>
    gap_ok (mem s') \<lparr>key = z, address = h\<rparr> \<and> (\<forall>x. x \<notin> span h 12 \<longrightarrow> mem s' x = mem s x)"
  by (rule free_block_ok[OF assms])

lemma load32_zero: "load32 (\<lambda>x. Some 0) a = Inr 0"
  by (simp add: load32_def load8_def join32_def)

lemma unat_numeral_4: "unat (4294967292 :: u32) = 4294967292"
  by simp

lemma unat_minus_one_u32: "unat (- 1 :: u32) = 4294967295"
proof -
  have "(- 1 :: u32) = 4294967295" by simp
  moreover have "unat (4294967295 :: u32) = 4294967295" by simp
  ultimately show ?thesis by metis
qed

lemma load32_block_mem_before:
  assumes "16 \<le> unat full" "unat full + 4 \<le> 2 ^ 32"
  shows "load32 (block_mem m h full) (h - 4) = load32 m (h - 4)"
proof -
  have "(- 4 :: u32) = 4294967292" by simp
  then have u: "unat (- 4 :: u32) = 4294967292" by (metis unat_numeral_4)
  have "word_at (h - 4) = {x. 4294967292 \<le> unat (x - h) \<and> unat (x - h) < 4294967296}"
    using word_at_offset[of "- 4" h] by (simp add: u)
  then show ?thesis using assms
    by (intro load32_cong block_mem_outside) auto
qed

definition one_block :: kalloc where
  "one_block = \<lparr>palloc_base = 0xC0100010, malloc_base = 0xC0200000,
     heap = heap_of [\<lparr>key = 64, address = 0xC0200120\<rparr>], mem = block_mem (\<lambda>x. Some 0) 0xC0200100 32\<rparr>"

lemma one_block_ok:
  "is_block (mem one_block) 0xC0200100 32" "load32 (mem one_block) (0xC0200100 - 4) = Inr 0"
  "load32 (mem one_block) (0xC0200100 + 32) = Inr 0" "heap_inv (heap one_block)"
  "heap_len (heap one_block) = 1" "heap_mset (heap one_block) = {#\<lparr>key = 64, address = 0xC0200120\<rparr>#}"
  "dom (mem one_block) = UNIV"
proof -
  show "is_block (mem one_block) 0xC0200100 32" unfolding one_block_def by (simp add: block_mem_is_block)
  show "load32 (mem one_block) (0xC0200100 - 4) = Inr 0"
    using load32_block_mem_before[of 32 "\<lambda>x. Some 0" "0xC0200100"]
    by (simp add: one_block_def load32_zero)
  show "load32 (mem one_block) (0xC0200100 + 32) = Inr 0"
    using load32_block_mem_after[of 32 32 "\<lambda>x. Some 0" "0xC0200100"]
    by (simp add: one_block_def load32_zero)
  show "heap_inv (heap one_block)"
    by (simp add: one_block_def) (rule heap_of_inv, auto simp: HEAP_SIZE_def ordered_def)
  show "heap_len (heap one_block) = 1" "heap_mset (heap one_block) = {#\<lparr>key = 64, address = 0xC0200120\<rparr>#}"
    by (simp_all add: one_block_def heap_of_len heap_of_mset HEAP_SIZE_def)
  show "dom (mem one_block) = UNIV" by (auto simp: one_block_def block_mem_def put32_def)
qed

lemma block_not_gap: "is_block (mem s) h z \<Longrightarrow> is_gap s h = Inr False"
  by (simp add: is_block_def is_gap_def get_magic_def get_allocated_def)

lemma not_magic_not_gap: "load32 (mem s) h = Inr v \<Longrightarrow> v \<noteq> HEAP_MAGIC \<Longrightarrow> is_gap s h = Inr False"
  by (simp add: is_gap_def get_magic_def)

theorem free_isolated_witness:
  "\<exists>s'. free one_block 0xC020010C = Inr s' \<and> gap_ok (mem s') \<lparr>key = 32, address = 0xC0200100\<rparr>"
proof -
  have "isolated one_block 0xC0200100 32"
    using one_block_ok(2,3) block_not_gap[OF one_block_ok(1)]
      not_magic_not_gap[OF one_block_ok(3)]
    by (simp add: isolated_def HEAP_MAGIC_def)
  then show ?thesis
    using free_isolated[of one_block "0xC0200100" 32] one_block_ok by (auto simp: HEAP_SIZE_def)
qed

text \<open>
  Freeing a block in front of a gap enters the merged gap in the heap without taking the
  old gap's entry out: the heap then holds two gaps, one inside the other, and \<open>malloc\<close>
  can hand out the same bytes twice.
\<close>

theorem free_merge_keeps_gap:
  assumes "is_block (mem s) h z" and "is_gap s (h + z) = Inr True" and "get_size s (h + z) = Inr ns"
    and "load32 (mem s) (h - 4) = Inr pz" and "is_gap s (h - pz) = Inr False"
    and "\<lparr>key = ns, address = h + z\<rparr> \<in># heap_mset (heap s)" and "unat z + unat ns < 2 ^ 32"
    and "h + 12 \<noteq> 0" and "span h 12 \<subseteq> dom (mem s)"
    and "heap_inv (heap s)" and "heap_len (heap s) < HEAP_SIZE"
  shows "\<exists>s'. free s (h + 12) = Inr s' \<and>
    \<lparr>key = z + ns, address = h\<rparr> \<in># heap_mset (heap s') \<and>
    \<lparr>key = ns, address = h + z\<rparr> \<in># heap_mset (heap s') \<and>
    span (h + z) (unat ns) \<subseteq> span h (unat (z + ns))"
proof -
  have "\<exists>hp. free s (h + 12) = Inr (s\<lparr>mem := gap_header (mem s) h (z + ns), heap := hp\<rparr>) \<and> heap_inv hp \<and>
    heap_mset hp = heap_mset (heap s) + {#\<lparr>key = z + ns, address = h\<rparr>#}"
    using is_block_access[OF assms(1)] assms(2-5,8-)
    by (intro free_general[where pgap = False and ngap = True and pz = pz and z = z and ns = ns])
      (simp_all add: diff_diff_eq2 add.commute)
  moreover have "span (h + z) (unat ns) \<subseteq> span h (unat (z + ns))"
  proof
    fix x assume "x \<in> span (h + z) (unat ns)"
    then have "unat (x - h - z) < unat ns" by (simp add: span_def diff_diff_eq)
    moreover have "unat (x - h) = (unat (x - h - z) + unat z) mod 2 ^ 32"
      using unat_word_ariths(1)[of "x - h - z" z] by simp
    ultimately show "x \<in> span h (unat (z + ns))" using assms(7) by (simp add: span_def unat_word_ariths)
  qed
  ultimately show ?thesis using assms(6) by (fastforce simp: add.commute)
qed

definition block_and_gap :: kalloc where
  "block_and_gap = one_block\<lparr>mem := gap_header (mem one_block) (0xC0200100 + 32) 64\<rparr>"

theorem free_merge_keeps_gap_witness:
  "\<exists>s'. free block_and_gap 0xC020010C = Inr s' \<and>
    \<lparr>key = 96, address = 0xC0200100\<rparr> \<in># heap_mset (heap s') \<and>
    \<lparr>key = 64, address = 0xC0200120\<rparr> \<in># heap_mset (heap s')"
proof -
  let ?h = "0xC0200100 :: u32"
  have sp: "span (?h + 32) (unat (64 :: u32)) \<subseteq> dom (mem one_block)" by (simp add: one_block_ok)
  note g = gap_header_ok[OF sp]
  have o: "mem block_and_gap x = mem one_block x" if "x \<notin> span (?h + 32) 12" for x
    unfolding block_and_gap_def using that g(3) by simp
  have b: "is_block (mem block_and_gap) ?h 32"
  proof -
    have d: "word_at ?h \<inter> span (?h + 32) 12 = {}" "word_at (?h + 8) \<inter> span (?h + 32) 12 = {}"
      "word_at (?h + 32 - 4) \<inter> span (?h + 32) 12 = {}" "?h + 4 \<notin> span (?h + 32) 12"
      by (simp_all add: word_at_def span_def unat_minus_one_u32)
    have "load32 (mem block_and_gap) a = load32 (mem one_block) a" if "word_at a \<inter> span (?h + 32) 12 = {}" for a
      using that by (intro load32_cong o) blast
    moreover have "load8 (mem block_and_gap) (?h + 4) = load8 (mem one_block) (?h + 4)"
      using d(4) o by (simp add: load8_def)
    ultimately show ?thesis using d one_block_ok(1) by (simp add: is_block_def)
  qed
  have p: "load32 (mem block_and_gap) (?h - 4) = Inr 0"
  proof -
    have "load32 (mem block_and_gap) (?h - 4) = load32 (mem one_block) (?h - 4)"
      by (intro load32_cong o) (auto simp: word_at_def span_def unat_minus_one_u32)
    then show ?thesis using one_block_ok(2) by simp
  qed
  have n: "is_gap block_and_gap (?h + 32) = Inr True" "get_size block_and_gap (?h + 32) = Inr 64"
    using g(1,2) by (simp_all add: is_gap_def get_magic_def get_allocated_def get_size_def gap_ok_def block_and_gap_def)
  have hp: "heap block_and_gap = heap one_block" by (simp add: block_and_gap_def)
  have dm: "span ?h 12 \<subseteq> dom (mem block_and_gap)"
    using one_block_ok(7) by (auto simp: block_and_gap_def gap_header_def put32_def)
  show ?thesis
    using free_merge_keeps_gap[OF b n p] block_not_gap[OF b] hp one_block_ok(4,5,6) dm
    by (auto simp: HEAP_SIZE_def)
qed

text \<open>
  \<open>kmalloc_a\<close> returns the first page-aligned address at or above the base and moves the
  base behind the block, or stops the kernel when the block would reach \<open>malloc\<close>'s memory.
\<close>

theorem kmalloc_a_correct:
  assumes "unat (palloc_base s) + 0x1000 < 2 ^ 32"
  shows "\<exists>a. unat (palloc_base s) \<le> unat a \<and> unat a < unat (palloc_base s) + 0x1000 \<and> a AND 0xfff = 0 \<and>
    kmalloc_a s n = (if a + n < malloc_base s then Inr (a, s\<lparr>palloc_base := a + n\<rparr>)
      else Inl (Panic ''fatal error: placeholder kmalloc has overrun malloc() memory''))"
  using page_round_up[OF assms]
  by (intro exI[of _ "if palloc_base s AND 0xfff \<noteq> 0 then (palloc_base s AND NOT 0xfff) + 0x1000 else palloc_base s"])
    (simp add: kmalloc_a_def kmalloc_int_def Let_def not_less)

theorem kmalloc_a_correct_witness:
  "\<exists>a. kmalloc_a one_gap 64 = Inr (a, one_gap\<lparr>palloc_base := a + 64\<rparr>) \<and> a AND 0xfff = 0"
proof -
  have b: "palloc_base one_gap = 0xC0100010" "malloc_base one_gap = 0xC0200000" by (simp_all add: one_gap_def)
  then obtain a where a: "unat a < 0xC0101010" "a AND 0xfff = 0"
    "kmalloc_a one_gap 64 = (if a + 64 < malloc_base one_gap then Inr (a, one_gap\<lparr>palloc_base := a + 64\<rparr>)
      else Inl (Panic ''fatal error: placeholder kmalloc has overrun malloc() memory''))"
    using kmalloc_a_correct[of one_gap 64] by auto
  then have "a + 64 < malloc_base one_gap"
    using b(2) by (simp add: word_less_nat_alt unat_word_ariths)
  then show ?thesis using a by auto
qed

end
