(* ===== verification/Bitmap.thy ===== *)
theory Bitmap
  imports Prelude
begin

text \<open>
  The interface of a bitmap allocator, which the kernel has twice: the physical frames of
  \<^verbatim>\<open>src/kernel/x86_32/paging.c\<close> and the block and inode bitmaps of
  \<^verbatim>\<open>src/kernel/dri/fs/ext2/ext2.c\<close>. \<open>used\<close> reads a bit, \<open>mark\<close> sets one, \<open>pick\<close> looks for
  the first clear one among the first \<open>cap\<close>.
\<close>

locale bit_store =
  fixes inv :: "'s \<Rightarrow> bool"
    and cap :: nat
    and used :: "'s \<Rightarrow> nat \<Rightarrow> bool"
    and mark :: "'s \<Rightarrow> nat \<Rightarrow> 's res"
  assumes mark_ok: "inv s \<Longrightarrow> i < cap \<Longrightarrow>
      \<exists>s'. mark s i = Inr s' \<and> inv s' \<and> (\<forall>j<cap. used s' j \<longleftrightarrow> j = i \<or> used s j)"
begin

definition free_set :: "'s \<Rightarrow> nat set" where
  "free_set s = {i. i < cap \<and> \<not> used s i}"

lemma finite_free_set: "finite (free_set s)"
  by (rule finite_subset[of _ "{..<cap}"]) (auto simp: free_set_def)

lemma mark_free_set:
  assumes "inv s" "i < cap"
  shows "\<exists>s'. mark s i = Inr s' \<and> inv s' \<and> free_set s' = free_set s - {i}"
  using mark_ok[OF assms] by (auto simp: free_set_def)

lemma mark_twice:
  assumes "inv s" "i < cap" "j < cap"
  shows "\<exists>s'. res_bind (mark s i) (\<lambda>t. mark t j) = Inr s' \<and> inv s' \<and> free_set s' = free_set s - {i, j}"
proof -
  obtain t where "mark s i = Inr t" "inv t" "free_set t = free_set s - {i}"
    using mark_free_set[OF assms(1,2)] by blast
  then show ?thesis using mark_free_set[of t j] assms(3) by auto
qed

end

text \<open>A store that also finds its first clear bit.\<close>

locale bit_picker = bit_store +
  fixes pick :: "'a \<Rightarrow> nat option"
  assumes pick_some: "inv s \<Longrightarrow> pick s = Some i \<Longrightarrow> i < cap \<and> \<not> used s i \<and> (\<forall>j<i. used s j)"
    and pick_none: "inv s \<Longrightarrow> pick s = None \<Longrightarrow> j < cap \<Longrightarrow> used s j"
begin

lemma pick_iff: "inv s \<Longrightarrow> pick s = None \<longleftrightarrow> free_set s = {}"
  using pick_none[of s] pick_some[of s] by (cases "pick s") (auto simp: free_set_def)

lemma pick_least:
  assumes "inv s" "pick s = Some i"
  shows "i \<in> free_set s" and "j \<in> free_set s \<Longrightarrow> i \<le> j"
  using pick_some[OF assms] by (auto simp: free_set_def not_less[symmetric])

lemma pick_mark:
  assumes "inv s" "free_set s \<noteq> {}"
  shows "\<exists>i s'. pick s = Some i \<and> mark s i = Inr s' \<and> inv s' \<and> i \<in> free_set s \<and>
    free_set s' = free_set s - {i} \<and> card (free_set s) = Suc (card (free_set s'))"
proof -
  obtain i where i: "pick s = Some i" using pick_iff[OF assms(1)] assms(2) by auto
  have m: "i \<in> free_set s" by (rule pick_least(1)[OF assms(1) i])
  then have "i < cap" by (simp add: free_set_def)
  then obtain s' where "mark s i = Inr s'" "inv s'" "free_set s' = free_set s - {i}"
    using mark_free_set[OF assms(1)] by blast
  then show ?thesis using i m card_Suc_Diff1[OF finite_free_set m] by auto
qed

end

text \<open>A store that can also clear a bit.\<close>

locale bit_clearer = bit_store +
  fixes clear :: "'a \<Rightarrow> nat \<Rightarrow> 'a res"
  assumes clear_ok: "inv s \<Longrightarrow> i < cap \<Longrightarrow>
      \<exists>s'. clear s i = Inr s' \<and> inv s' \<and> (\<forall>j<cap. used s' j \<longleftrightarrow> j \<noteq> i \<and> used s j)"
begin

lemma clear_mark:
  assumes "inv s" "i < cap" "\<not> used s i"
  shows "\<exists>s'. res_bind (mark s i) (\<lambda>t. clear t i) = Inr s' \<and> inv s' \<and> (\<forall>j<cap. used s' j \<longleftrightarrow> used s j)"
proof -
  obtain t where t: "mark s i = Inr t" "inv t" "\<forall>j<cap. used t j \<longleftrightarrow> j = i \<or> used s j"
    using mark_ok[OF assms(1,2)] by blast
  then show ?thesis using clear_ok[OF t(2) assms(2)] assms(3) by auto
qed

end

section \<open>The first clear bit of a word\<close>

lemma find_upt_Some:
  "find P [a..<b] = Some j \<Longrightarrow> a \<le> j \<and> j < b \<and> P j \<and> (\<forall>i\<in>{a..<j}. \<not> P i)"
proof -
  assume "find P [a..<b] = Some j"
  then obtain k where k: "k < length [a..<b]" "P ([a..<b] ! k)" "j = [a..<b] ! k"
    "\<forall>l<k. \<not> P ([a..<b] ! l)"
    by (auto simp: find_Some_iff)
  moreover have "\<not> P i" if "a \<le> i" "i < a + k" for i
  proof -
    have "i - a < k" "[a..<b] ! (i - a) = i" using that k(1) by auto
    then show ?thesis using k(4) by metis
  qed
  ultimately show ?thesis by auto
qed

lemma and_bit_zero: "(w AND push_bit j 1 = 0) \<longleftrightarrow> \<not> bit (w :: 'a::len word) j \<or> LENGTH('a) \<le> j"
proof
  assume "w AND push_bit j 1 = 0"
  then have "\<not> bit (w AND push_bit j 1) j" by simp
  then show "\<not> bit w j \<or> LENGTH('a) \<le> j" by (auto simp: bit_simps)
next
  assume "\<not> bit w j \<or> LENGTH('a) \<le> j"
  then show "w AND push_bit j 1 = 0" by (intro bit_word_eqI) (auto simp: bit_simps bit_1_iff)
qed

lemma bit_set_one: "bit (w OR push_bit i 1 :: 'a::len word) j \<longleftrightarrow> j < LENGTH('a) \<and> j = i \<or> bit w j"
  by (auto simp: bit_simps bit_1_iff bit_imp_le_length)

lemma bit_clear_one: "bit (w AND NOT (push_bit i 1) :: 'a::len word) j \<longleftrightarrow> bit w j \<and> j \<noteq> i"
  by (auto simp: bit_simps bit_1_iff bit_imp_le_length)

text \<open>The simplifier writes \<open>push_bit i 1\<close> as a power of two.\<close>

lemmas single_bit = and_bit_zero [unfolded push_bit_of_1] bit_set_one [unfolded push_bit_of_1]
  bit_clear_one [unfolded push_bit_of_1]

lemma not_eq_zero_iff: "NOT (w :: 'a::len word) = 0 \<longleftrightarrow> (\<forall>j<LENGTH('a). bit w j)"
proof
  assume "NOT w = 0"
  then have "\<not> bit (NOT w) j" for j by simp
  then show "\<forall>j<LENGTH('a). bit w j" by (simp add: bit_simps)
next
  assume "\<forall>j<LENGTH('a). bit w j"
  then show "NOT w = 0" by (intro bit_word_eqI) (simp add: bit_simps)
qed

end
