(* ===== verification/Paging.thy ===== *)
theory Paging
  imports Kalloc Bitmap
begin

text \<open>
  Physical frames and page tables (\<^verbatim>\<open>src/kernel/x86_32/paging.c\<close>). The bitmap of used frames
  is an array of 32-bit words; directories and tables are arrays of words in memory, reached
  through pointers, and new tables come from \<open>malloc\<close>.
\<close>

section \<open>Frames\<close>

text \<open>\<open>0xffffffff / 0x1000 / 32\<close> words of \<open>BITS\<close> bits.\<close>

definition NUM_FRAMES :: nat where "NUM_FRAMES = 0xffffffff div 0x1000 div 32"
definition BITS :: nat where "BITS = 32"

definition set_frame :: "u32 list \<Rightarrow> u32 \<Rightarrow> u32 list res" where
  "set_frame frames frame_addr =
     (let frame = frame_addr div 0x1000 in
      res_bind (arr_get frames (uint (frame div 32))) (\<lambda>w.
      arr_set frames (uint (frame div 32)) (w OR push_bit (unat (frame mod 32)) 1)))"

definition clear_frame :: "u32 list \<Rightarrow> u32 \<Rightarrow> u32 list res" where
  "clear_frame frames frame_addr =
     (let frame = frame_addr div 0x1000 in
      res_bind (arr_get frames (uint (frame div 32))) (\<lambda>w.
      arr_set frames (uint (frame div 32)) (w AND NOT (push_bit (unat (frame mod 32)) 1))))"

text \<open>The two loops of \<open>first_free_frame\<close>; \<open>i\<close> counts the words already seen.\<close>

definition first_zero :: "u32 \<Rightarrow> nat option" where
  "first_zero w = find (\<lambda>j. w AND push_bit j 1 = 0) [0..<BITS]"

fun scan_frames :: "u32 list \<Rightarrow> nat \<Rightarrow> nat option" where
  "scan_frames [] i = None"
| "scan_frames (w # ws) i =
     (if NOT w = 0 then scan_frames ws (Suc i)
      else case first_zero w of
             Some j \<Rightarrow> Some (i * BITS + j)
           | None \<Rightarrow> scan_frames ws (Suc i))"

text \<open>
  \<open>i < NUM_FRAMES / BITS\<close>, where both macros are expanded without parentheses, is
  \<open>i < 0xffffffff / 0x1000 / 32 / 32\<close>: the loop sees the first 1023 words.
\<close>

definition SCANNED :: nat where "SCANNED = 0xffffffff div 0x1000 div 32 div 32"

definition first_free_frame :: "u32 list \<Rightarrow> u32 res" where
  "first_free_frame frames =
     (case scan_frames (take SCANNED frames) 0 of
        Some f \<Rightarrow> Inr (of_nat f)
      | None \<Rightarrow> Inl (Panic ''first_free_frame failed! no free frames''))"

definition bit_if :: "bool \<Rightarrow> nat \<Rightarrow> u32" where
  "bit_if b n = (if b then push_bit n 1 else 0)"

text \<open>The new value of the page table entry and the bitmap.\<close>

definition alloc_frame :: "u32 list \<Rightarrow> u32 \<Rightarrow> bool \<Rightarrow> bool \<Rightarrow> (u32 \<times> u32 list) res" where
  "alloc_frame frames entry user writable =
     (if entry AND 1 \<noteq> 0 then Inr (entry, frames)
      else
        res_bind (first_free_frame frames) (\<lambda>frame.
        res_bind (set_frame frames (frame * 0x1000)) (\<lambda>frames1.
        Inr (frame OR 1 OR bit_if writable 1 OR bit_if user 2, frames1))))"

definition free_frame :: "u32 list \<Rightarrow> u32 \<Rightarrow> u32 list res" where
  "free_frame frames page = clear_frame frames (page div 0x1000)"

section \<open>Page tables\<close>

text \<open>\<open>kernel_page_directory\<close> is the address of that array.\<close>

record paging =
  frames :: "u32 list"
  kernel_page_directory :: u32
  kmem :: kalloc

definition read_entry :: "paging \<Rightarrow> u32 \<Rightarrow> u32 \<Rightarrow> u32 res" where
  "read_entry p table i = load32 (mem (kmem p)) (table + 4 * i)"

definition write_entry :: "paging \<Rightarrow> u32 \<Rightarrow> u32 \<Rightarrow> u32 \<Rightarrow> paging res" where
  "write_entry p table i v =
     res_bind (put_word (kmem p) (table + 4 * i) v) (\<lambda>k. Inr (p\<lparr>kmem := k\<rparr>))"

fun set_first_frames :: "u32 list \<Rightarrow> nat \<Rightarrow> u32 list res" where
  "set_first_frames fs 0 = Inr fs"
| "set_first_frames fs (Suc n) =
     res_bind (set_first_frames fs n) (\<lambda>fs1. set_frame fs1 (of_nat n * 0x1000))"

text \<open>\<open>phys_start\<close>, \<open>user\<close> and \<open>rw\<close> are parameters that the function does not use.\<close>

definition map_4mb :: "paging \<Rightarrow> u32 \<Rightarrow> u32 \<Rightarrow> paging res" where
  "map_4mb p dir virt_start =
     (let table = drop_bit 22 virt_start in
      res_bind (set_first_frames (frames p) 1024) (\<lambda>fs.
      write_entry (p\<lparr>frames := fs\<rparr>) dir table 0x83))"

definition get_or_create_table :: "paging \<Rightarrow> u32 \<Rightarrow> u32 \<Rightarrow> bool \<Rightarrow> bool \<Rightarrow> (u32 \<times> paging) res" where
  "get_or_create_table p dir table user rw =
     res_bind (read_entry p dir table) (\<lambda>d.
     if d AND 1 \<noteq> 0 \<and> d XOR push_bit 7 1 \<noteq> 0 then Inr (PHYS_TO_VIRT (d AND NOT 0xfff), p)
     else
       res_bind (malloc (kmem p) 4096) (\<lambda>(page_table, k).
       res_bind (write_entry (p\<lparr>kmem := k\<rparr>) dir table
                   (VIRT_TO_PHYS page_table OR 1 OR bit_if rw 1 OR bit_if user 2)) (\<lambda>p1.
       Inr (page_table, p1))))"

fun unmap_frames_from :: "paging \<Rightarrow> u32 \<Rightarrow> nat \<Rightarrow> paging res" where
  "unmap_frames_from p table 0 = Inr p"
| "unmap_frames_from p table (Suc n) =
     res_bind (unmap_frames_from p table n) (\<lambda>p1.
     res_bind (read_entry p1 table (of_nat n)) (\<lambda>e.
     if e AND 1 \<noteq> 0
     then res_bind (clear_frame (frames p1) (drop_bit 12 e)) (\<lambda>fs. Inr (p1\<lparr>frames := fs\<rparr>))
     else Inr p1))"

definition unmap_all_frames :: "paging \<Rightarrow> u32 \<Rightarrow> paging res" where
  "unmap_all_frames p page_table_p = unmap_frames_from p (PHYS_TO_VIRT page_table_p) 1024"

definition destroy_page_table_if_exists :: "paging \<Rightarrow> u32 \<Rightarrow> u32 \<Rightarrow> paging res" where
  "destroy_page_table_if_exists p dir table =
     res_bind (read_entry p dir table) (\<lambda>d.
     if d AND 1 \<noteq> 0 \<and> d XOR push_bit 7 1 \<noteq> 0 then
       res_bind (unmap_all_frames p (drop_bit 12 d)) (\<lambda>p1.
       res_bind (free (kmem p1) (PHYS_TO_VIRT (drop_bit 12 d))) (\<lambda>k. Inr (p1\<lparr>kmem := k\<rparr>)))
     else Inr p)"

definition unmap_page :: "paging \<Rightarrow> u32 \<Rightarrow> u32 \<Rightarrow> paging res" where
  "unmap_page p dir virt =
     (let page = virt div 0x1000 mod 1024 in
      res_bind (get_or_create_table p dir (drop_bit 22 virt) False False) (\<lambda>(table, p1).
      write_entry p1 table page 0))"

definition map_page_to :: "paging \<Rightarrow> u32 \<Rightarrow> u32 \<Rightarrow> u32 \<Rightarrow> bool \<Rightarrow> bool \<Rightarrow> paging res" where
  "map_page_to p dir virt frame_p writable user =
     (let page = virt div 0x1000 mod 1024 in
      res_bind (get_or_create_table p dir (drop_bit 22 virt) False False) (\<lambda>(table, p1).
      write_entry p1 table page ((frame_p XOR 0xfff) OR 1 OR bit_if writable 1 OR bit_if user 2)))"

definition alloc_entry :: "paging \<Rightarrow> u32 \<Rightarrow> u32 \<Rightarrow> bool \<Rightarrow> bool \<Rightarrow> paging res" where
  "alloc_entry p table page user writable =
     res_bind (read_entry p table page) (\<lambda>e.
     res_bind (alloc_frame (frames p) e user writable) (\<lambda>(e1, fs).
     write_entry (p\<lparr>frames := fs\<rparr>) table page e1))"

definition alloc_page :: "paging \<Rightarrow> u32 \<Rightarrow> u32 \<Rightarrow> paging res" where
  "alloc_page p dir virt =
     (let page = virt div 0x1000 mod 1024 in
      res_bind (get_or_create_table p dir (drop_bit 22 virt) False False) (\<lambda>(table, p1).
      alloc_entry p1 table page False False))"

definition alloc_kernel_page :: "paging \<Rightarrow> u32 \<Rightarrow> paging res" where
  "alloc_kernel_page p virt = alloc_page p (kernel_page_directory p) virt"

text \<open>
  The loop of \<open>alloc_kernel_page_range\<close>, which need not end: \<open>None\<close> is not returning. The
  page numbers are passed on as if they were addresses, and the step is in bytes.
\<close>

partial_function (option) alloc_pages_from :: "paging \<Rightarrow> u32 \<Rightarrow> u32 \<Rightarrow> paging res option" where
  "alloc_pages_from p f t =
     (case alloc_kernel_page p t of
        Inl e \<Rightarrow> Some (Inl e)
      | Inr p1 \<Rightarrow> if f < t + 0x1000 then alloc_pages_from p1 f (t + 0x1000) else Some (Inr p1))"

definition alloc_kernel_page_range :: "paging \<Rightarrow> u32 \<Rightarrow> u32 \<Rightarrow> paging res option" where
  "alloc_kernel_page_range p from_p to_p = alloc_pages_from p (from_p div 0x1000) (to_p div 0x1000)"

text \<open>The test reads the physical address in the directory, flags included, as a pointer.\<close>

definition map_page :: "paging \<Rightarrow> u32 \<Rightarrow> u32 \<Rightarrow> bool \<Rightarrow> bool \<Rightarrow> paging res" where
  "map_page p dir virt_start user rw =
     (let page = virt_start div 0x1000 mod 1024; table = drop_bit 22 virt_start in
      res_bind (first_free_frame (frames p)) (\<lambda>frame.
      res_bind (read_entry p dir table) (\<lambda>d.
      res_bind (if d AND 1 \<noteq> 0 \<and> d AND push_bit 7 1 \<noteq> 0 then Inr True
                else if drop_bit 12 d \<noteq> 0
                then res_bind (read_entry p d page) (\<lambda>e. Inr (e AND 1 \<noteq> 0))
                else Inr False) (\<lambda>mapped.
      if mapped then Inr p
      else
        res_bind (set_frame (frames p) frame) (\<lambda>fs.
        res_bind (get_or_create_table (p\<lparr>frames := fs\<rparr>) dir table user rw) (\<lambda>(t, p1).
        alloc_entry p1 t page user rw))))))"

definition new_page_directory_v :: "paging \<Rightarrow> (u32 \<times> paging) res" where
  "new_page_directory_v p =
     res_bind (malloc (kmem p) (1024 * 4)) (\<lambda>(dir, k).
     res_bind (map_4mb (p\<lparr>kmem := k\<rparr>) (kernel_page_directory p) 0xC0000000) (\<lambda>p1. Inr (dir, p1)))"

fun destroy_tables :: "paging \<Rightarrow> u32 \<Rightarrow> nat \<Rightarrow> paging res" where
  "destroy_tables p dir 0 = Inr p"
| "destroy_tables p dir (Suc n) =
     res_bind (destroy_tables p dir n) (\<lambda>p1. destroy_page_table_if_exists p1 dir (of_nat n))"

definition free_page_directory_v :: "paging \<Rightarrow> u32 \<Rightarrow> paging res" where
  "free_page_directory_v p dir =
     res_bind (destroy_tables p dir 1024) (\<lambda>p1.
     res_bind (free (kmem p1) dir) (\<lambda>k. Inr (p1\<lparr>kmem := k\<rparr>)))"

text \<open>The address that \<open>load_page_directory\<close> is given is the second component.\<close>

definition init_paging :: "paging \<Rightarrow> (paging \<times> u32) res" where
  "init_paging p =
     res_bind (mem_set (mem (kmem p)) (kernel_page_directory p) 0 (1024 * 4)) (\<lambda>m.
     res_bind (map_4mb (p\<lparr>kmem := (kmem p)\<lparr>mem := m\<rparr>\<rparr>) (kernel_page_directory p) 0xC0000000) (\<lambda>p1.
     Inr (p1, VIRT_TO_PHYS (kernel_page_directory p1))))"

section \<open>The bitmap\<close>

definition frame_used :: "u32 list \<Rightarrow> nat \<Rightarrow> bool" where
  "frame_used fs i = bit (fs ! (i div 32)) (i mod 32)"

definition frames_ok :: "u32 list \<Rightarrow> bool" where
  "frames_ok fs \<longleftrightarrow> length fs = NUM_FRAMES"

lemma num_frames: "NUM_FRAMES = 32767" "SCANNED = 1023" "BITS = 32"
  by (simp_all add: NUM_FRAMES_def SCANNED_def BITS_def)

lemma frame_address:
  assumes "i < 2 ^ 20"
  shows "unat (of_nat i * 0x1000 :: u32) = i * 4096"
proof -
  have "unat (of_nat i :: u32) = i" using assms by (simp add: unat_of_nat)
  then show ?thesis using assms by (simp add: unat_word_ariths)
qed

lemma frame_number:
  assumes "i < 2 ^ 20"
  shows "unat ((of_nat i * 0x1000 :: u32) div 0x1000 div 32) = i div 32"
    and "unat ((of_nat i * 0x1000 :: u32) div 0x1000 mod 32) = i mod 32"
  using frame_address[OF assms] by (simp_all add: unat_div unat_mod)

lemma set_frame_nat:
  assumes "frames_ok fs" "i < 32 * 32767"
  shows "set_frame fs (of_nat i * 0x1000) = Inr (fs[i div 32 := fs ! (i div 32) OR push_bit (i mod 32) 1])"
proof -
  have "i div 32 < 32767" using assms(2) by simp
  then show ?thesis using assms
    by (simp add: set_frame_def Let_def arr_get_uint arr_set_uint frame_number frames_ok_def num_frames)
qed

lemma clear_frame_nat:
  assumes "frames_ok fs" "i < 32 * 32767"
  shows "clear_frame fs (of_nat i * 0x1000) = Inr (fs[i div 32 := fs ! (i div 32) AND NOT (push_bit (i mod 32) 1)])"
proof -
  have "i div 32 < 32767" using assms(2) by simp
  then show ?thesis using assms
    by (simp add: clear_frame_def Let_def arr_get_uint arr_set_uint frame_number frames_ok_def num_frames)
qed

lemma same_frame: "(j :: nat) div 32 = i div 32 \<Longrightarrow> j mod 32 = i mod 32 \<longleftrightarrow> j = i"
  by (metis div_mult_mod_eq)

lemma frame_used_set:
  assumes "frames_ok fs" "i < 32 * 32767" "j < 32 * 32767"
  shows "frame_used (fs[i div 32 := fs ! (i div 32) OR push_bit (i mod 32) 1]) j \<longleftrightarrow> j = i \<or> frame_used fs j"
proof -
  have "i div 32 < 32767" using assms(2) by simp
  then show ?thesis using assms(1) same_frame[of j i]
    by (cases "j div 32 = i div 32") (auto simp: frame_used_def frames_ok_def num_frames single_bit)
qed

lemma frame_used_clear:
  assumes "frames_ok fs" "i < 32 * 32767" "j < 32 * 32767"
  shows "frame_used (fs[i div 32 := fs ! (i div 32) AND NOT (push_bit (i mod 32) 1)]) j \<longleftrightarrow> j \<noteq> i \<and> frame_used fs j"
proof -
  have "i div 32 < 32767" using assms(2) by simp
  then show ?thesis using assms(1) same_frame[of j i]
    by (cases "j div 32 = i div 32") (auto simp: frame_used_def frames_ok_def num_frames single_bit)
qed

lemma first_zero_cases:
  "(case first_zero w of
      None \<Rightarrow> NOT w = 0
    | Some j \<Rightarrow> j < 32 \<and> \<not> bit w j \<and> (\<forall>i<j. bit w i))"
proof (cases "first_zero w")
  case None
  then have "bit w j" if "j < 32" for j
    using that by (auto simp: first_zero_def find_None_iff single_bit BITS_def)
  then have "NOT w = 0" by (simp only: not_eq_zero_iff) simp
  then show ?thesis using None by simp
next
  case (Some j)
  then show ?thesis
    using find_upt_Some[of "\<lambda>j. bit w j \<longrightarrow> 32 \<le> j" 0 32 j]
    by (auto simp: first_zero_def single_bit BITS_def not_le)
qed

definition bit_at :: "u32 list \<Rightarrow> nat \<Rightarrow> bool" where
  "bit_at ws i = bit (ws ! (i div 32)) (i mod 32)"

lemma bit_at_Cons: "bit_at (w # ws) i = (if i < 32 then bit w i else bit_at ws (i - 32))"
proof (cases "i < 32")
  case False
  then have "i div 32 = Suc ((i - 32) div 32)" "i mod 32 = (i - 32) mod 32"
    by (simp_all add: le_div_geq le_mod_geq)
  then show ?thesis using False by (simp add: bit_at_def)
qed (simp add: bit_at_def)

lemma scan_frames_cases:
  "(case scan_frames ws i of
      None \<Rightarrow> \<forall>k<32 * length ws. bit_at ws k
    | Some f \<Rightarrow> \<exists>k<32 * length ws. f = 32 * i + k \<and> \<not> bit_at ws k \<and> (\<forall>l<k. bit_at ws l))"
proof (induction ws arbitrary: i)
  case (Cons w ws)
  show ?case
  proof (cases "NOT w = 0")
    case True
    then have all: "bit w j" if "j < 32" for j using that by (simp add: not_eq_zero_iff)
    show ?thesis
    proof (cases "scan_frames ws (Suc i)")
      case None
      then show ?thesis using True Cons[of "Suc i"] all by (auto simp: bit_at_Cons)
    next
      case (Some f)
      then obtain k where k: "k < 32 * length ws" "f = 32 * Suc i + k" "\<not> bit_at ws k" "\<forall>l<k. bit_at ws l"
        using Cons[of "Suc i"] by auto
      have "32 + k < 32 * length (w # ws)" "f = 32 * i + (32 + k)" "\<not> bit_at (w # ws) (32 + k)"
        "\<forall>l<32 + k. bit_at (w # ws) l"
        using k all by (auto simp: bit_at_Cons)
      then show ?thesis using True Some by auto
    qed
  next
    case False
    then obtain j where j: "first_zero w = Some j" "j < 32" "\<not> bit w j" "\<forall>l<j. bit w l"
      using first_zero_cases[of w] by (cases "first_zero w") auto
    then show ?thesis using False by (auto simp: bit_at_Cons BITS_def intro!: exI[of _ j])
  qed
qed simp

lemma scan_frames_pick:
  assumes "frames_ok fs"
  shows "(case scan_frames (take SCANNED fs) 0 of
      None \<Rightarrow> \<forall>k<32736. frame_used fs k
    | Some f \<Rightarrow> f < 32736 \<and> \<not> frame_used fs f \<and> (\<forall>l<f. frame_used fs l))"
proof -
  have len: "32 * length (take SCANNED fs) = 32736" using assms by (simp add: frames_ok_def num_frames)
  have eq: "bit_at (take SCANNED fs) k = frame_used fs k" if "k < 32736" for k
  proof -
    have "k div 32 < 1023" using that by simp
    then show ?thesis by (simp add: bit_at_def frame_used_def num_frames)
  qed
  show ?thesis
    using scan_frames_cases[of "take SCANNED fs" 0] eq unfolding len
    by (auto split: option.splits)
qed

interpretation frame_store: bit_picker frames_ok 32736 frame_used "\<lambda>fs i. set_frame fs (of_nat i * 0x1000)"
  "\<lambda>fs. scan_frames (take SCANNED fs) 0"
proof (unfold_locales, goal_cases)
  case (1 s i)
  have "frames_ok (s[i div 32 := s ! (i div 32) OR push_bit (i mod 32) 1])"
    using 1 by (simp add: frames_ok_def)
  moreover have "frame_used (s[i div 32 := s ! (i div 32) OR push_bit (i mod 32) 1]) j \<longleftrightarrow> j = i \<or> frame_used s j"
    if "j < 32736" for j using that 1 by (intro frame_used_set) auto
  ultimately show ?case using 1 by (intro exI[of _ "s[i div 32 := s ! (i div 32) OR push_bit (i mod 32) 1]"])
    (auto simp: set_frame_nat)
next
  case (2 s i)
  then show ?case using scan_frames_pick[of s] by auto
next
  case (3 s j)
  then show ?case using scan_frames_pick[of s] by auto
qed

interpretation frame_clearer: bit_clearer frames_ok 32736 frame_used "\<lambda>fs i. set_frame fs (of_nat i * 0x1000)"
  "\<lambda>fs i. clear_frame fs (of_nat i * 0x1000)"
proof (unfold_locales, goal_cases)
  case (1 s i)
  have "frames_ok (s[i div 32 := s ! (i div 32) AND NOT (push_bit (i mod 32) 1)])"
    using 1 by (simp add: frames_ok_def)
  moreover have "frame_used (s[i div 32 := s ! (i div 32) AND NOT (push_bit (i mod 32) 1)]) j \<longleftrightarrow> j \<noteq> i \<and> frame_used s j"
    if "j < 32736" for j using that 1 by (intro frame_used_clear) auto
  ultimately show ?case using 1
    by (intro exI[of _ "s[i div 32 := s ! (i div 32) AND NOT (push_bit (i mod 32) 1)]"])
      (auto simp: clear_frame_nat)
qed

lemma alloc_frame_cases:
  assumes "frames_ok fs" "entry AND 1 = 0"
  shows "(frame_store.free_set fs = {} \<longrightarrow> alloc_frame fs entry user writable =
      Inl (Panic ''first_free_frame failed! no free frames'')) \<and>
    (frame_store.free_set fs \<noteq> {} \<longrightarrow> (\<exists>f fs'. f \<in> frame_store.free_set fs \<and>
      (\<forall>j\<in>frame_store.free_set fs. f \<le> j) \<and>
      alloc_frame fs entry user writable = Inr (of_nat f OR 1 OR bit_if writable 1 OR bit_if user 2, fs') \<and>
      frames_ok fs' \<and> frame_store.free_set fs' = frame_store.free_set fs - {f}))"
proof (cases "frame_store.free_set fs = {}")
  case True
  then show ?thesis
    using frame_store.pick_iff[OF assms(1)] assms(2) by (simp add: alloc_frame_def first_free_frame_def)
next
  case False
  then obtain f fs' where f: "scan_frames (take SCANNED fs) 0 = Some f" "set_frame fs (of_nat f * 0x1000) = Inr fs'"
    "frames_ok fs'" "f \<in> frame_store.free_set fs" "frame_store.free_set fs' = frame_store.free_set fs - {f}"
    using frame_store.pick_mark[OF assms(1)] by blast
  moreover have "\<forall>j\<in>frame_store.free_set fs. f \<le> j"
    using frame_store.pick_least(2)[OF assms(1) f(1)] by blast
  moreover have "alloc_frame fs entry user writable = Inr (of_nat f OR 1 OR bit_if writable 1 OR bit_if user 2, fs')"
    using f(1,2) assms(2) by (simp add: alloc_frame_def first_free_frame_def)
  ultimately show ?thesis using False by blast
qed

definition boot_frames :: "u32 list" where
  "boot_frames = replicate 32 (- 1) @ replicate 32735 0"

lemma boot_frames_ok: "frames_ok boot_frames"
  by (simp add: boot_frames_def frames_ok_def num_frames)

lemma boot_frames_used: "i < 32736 \<Longrightarrow> frame_used boot_frames i \<longleftrightarrow> i < 1024"
proof -
  assume "i < 32736"
  then have "i div 32 < 32767" "i div 32 < 32 \<longleftrightarrow> i < 1024" by auto
  then show ?thesis by (auto simp: frame_used_def boot_frames_def nth_append)
qed

lemma boot_free_set: "frame_store.free_set boot_frames = {1024..<32736}"
  using boot_frames_used by (auto simp: frame_store.free_set_def)

lemma set_first_frames_used:
  "n \<le> 32736 \<Longrightarrow> frames_ok fs \<Longrightarrow> \<exists>fs'. set_first_frames fs n = Inr fs' \<and> frames_ok fs' \<and>
    (\<forall>j<32736. frame_used fs' j \<longleftrightarrow> j < n \<or> frame_used fs j)"
proof (induction n)
  case (Suc n)
  then obtain fs1 where 1: "set_first_frames fs n = Inr fs1" "frames_ok fs1"
    "\<forall>j<32736. frame_used fs1 j \<longleftrightarrow> j < n \<or> frame_used fs j" by auto
  obtain fs2 where 2: "set_frame fs1 (of_nat n * 0x1000) = Inr fs2" "frames_ok fs2"
    "\<forall>j<32736. frame_used fs2 j \<longleftrightarrow> j = n \<or> frame_used fs1 j"
    using frame_store.mark_ok[OF 1(2), of n] Suc.prems(1) by auto
  show ?case using 1 2 by (intro exI[of _ fs2]) (auto simp: less_Suc_eq)
qed simp

section \<open>Properties\<close>

text \<open>
  C37. \<open>alloc_frame\<close> on an entry that is not present takes the lowest free frame among the
  32736 that it scans and marks exactly that one used; with none free it stops the kernel.
\<close>

theorem alloc_frame_correct:
  assumes "frames_ok fs" and "entry AND 1 = 0"
  shows "(if \<forall>j<32736. frame_used fs j
      then alloc_frame fs entry user writable = Inl (Panic ''first_free_frame failed! no free frames'')
      else \<exists>f fs'. f < 32736 \<and> \<not> frame_used fs f \<and> (\<forall>j<f. frame_used fs j) \<and>
        alloc_frame fs entry user writable = Inr (of_nat f OR 1 OR bit_if writable 1 OR bit_if user 2, fs') \<and>
        (\<forall>j<32736. frame_used fs' j \<longleftrightarrow> j = f \<or> frame_used fs j))"
proof (cases "\<forall>j<32736. frame_used fs j")
  case True
  then have "frame_store.free_set fs = {}" by (auto simp: frame_store.free_set_def)
  then show ?thesis using True alloc_frame_cases[OF assms] by simp
next
  case False
  then have "frame_store.free_set fs \<noteq> {}" by (auto simp: frame_store.free_set_def)
  then obtain f fs' where f: "f \<in> frame_store.free_set fs" "\<forall>j\<in>frame_store.free_set fs. f \<le> j"
      "alloc_frame fs entry user writable = Inr (of_nat f OR 1 OR bit_if writable 1 OR bit_if user 2, fs')"
      "frame_store.free_set fs' = frame_store.free_set fs - {f}"
    using alloc_frame_cases[OF assms] by blast
  have "\<forall>j<32736. frame_used fs' j \<longleftrightarrow> j = f \<or> frame_used fs j"
    using f(1,4) by (auto simp: frame_store.free_set_def)
  moreover have "\<forall>j<f. frame_used fs j"
  proof (intro allI impI, rule ccontr)
    fix j assume "j < f" "\<not> frame_used fs j"
    then have "j \<in> frame_store.free_set fs" using f(1) by (simp add: frame_store.free_set_def)
    then show False using f(2) \<open>j < f\<close> by fastforce
  qed
  ultimately show ?thesis using False f(1,3) by (auto simp: frame_store.free_set_def)
qed

theorem alloc_frame_correct_witness:
  "\<exists>fs'. alloc_frame boot_frames 0 False True = Inr (of_nat 1024 OR 1 OR bit_if True 1 OR bit_if False 2, fs')"
proof -
  have n: "\<not> (\<forall>j<32736. frame_used boot_frames j)"
    using boot_frames_used[of 1024] by (intro notI) simp
  obtain f fs' where f: "f < 32736" "\<not> frame_used boot_frames f" "\<forall>j<f. frame_used boot_frames j"
    "alloc_frame boot_frames 0 False True = Inr (of_nat f OR 1 OR bit_if True 1 OR bit_if False 2, fs')"
    using alloc_frame_correct[OF boot_frames_ok, of 0 False True] unfolding if_not_P[OF n] by auto
  have "f = 1024" using f(1-3) boot_frames_used[of 1024] boot_frames_used[of f] by (cases "f < 1024"; cases "1024 < f") auto
  then show ?thesis using f(4) by blast
qed

text \<open>
  The entry that \<open>alloc_frame\<close> writes holds the frame's number where the processor reads
  the frame's address: every frame below 4096 is mapped to physical page 0, and two
  successive allocations, of an even frame and the next one, give the same entry.
\<close>

theorem alloc_frame_entries_collide:
  assumes "frames_ok fs" and "even f" and "f < 4096"
    and "\<forall>j<f. frame_used fs j" and "\<not> frame_used fs f" and "\<not> frame_used fs (f + 1)"
  shows "\<exists>e fs1 fs2. alloc_frame fs 0 user writable = Inr (e, fs1) \<and>
    alloc_frame fs1 0 user writable = Inr (e, fs2) \<and> drop_bit 12 e = 0"
proof -
  let ?e = "\<lambda>i. of_nat i OR 1 OR bit_if writable 1 OR bit_if user 2 :: u32"
  have mem: "f \<in> frame_store.free_set fs" "f + 1 \<in> frame_store.free_set fs"
    using assms(3,5,6) by (auto simp: frame_store.free_set_def)
  have lo: "f \<le> j" if "j \<in> frame_store.free_set fs" for j
    using that assms(4) by (auto simp: frame_store.free_set_def not_less[symmetric])
  obtain g fs1 where 1: "g \<in> frame_store.free_set fs" "\<forall>j\<in>frame_store.free_set fs. g \<le> j"
    "alloc_frame fs 0 user writable = Inr (?e g, fs1)" "frames_ok fs1"
    "frame_store.free_set fs1 = frame_store.free_set fs - {g}"
    using alloc_frame_cases[OF assms(1), of 0 user writable] mem by auto
  have g: "g = f" using 1(1,2) mem(1) lo by (auto intro: antisym)
  have mem1: "f + 1 \<in> frame_store.free_set fs1" using 1(5) g mem(2) by simp
  obtain h fs2 where 2: "h \<in> frame_store.free_set fs1" "\<forall>j\<in>frame_store.free_set fs1. h \<le> j"
    "alloc_frame fs1 0 user writable = Inr (?e h, fs2)"
    using alloc_frame_cases[OF 1(4), of 0 user writable] mem1 by auto
  have "f < h" using 2(1) 1(5) g lo[of h] by auto
  moreover have "h \<le> f + 1" using 2(2) mem1 by blast
  ultimately have h: "h = f + 1" by simp
  have "(of_nat (f + 1) :: u32) = of_nat f OR 1"
  proof -
    have "even (of_nat f :: u32)" using assms(2) by (auto elim!: evenE)
    then have "(of_nat f :: u32) + 1 = of_nat f OR 1"
      by (subst disjunctive_add) (auto simp: bit_simps bit_1_iff bit_0)
    then show ?thesis by (simp add: add.commute)
  qed
  then have same: "?e h = ?e f" unfolding h by (simp add: or.assoc)
  have "drop_bit 12 (?e f) = 0"
  proof -
    have "(of_nat f :: u32) = take_bit 12 (of_nat f)"
    proof -
      have "take_bit 12 f = f" using assms(3) by (simp add: take_bit_nat_eq_self)
      then show ?thesis by (metis of_nat_take_bit)
    qed
    then have "drop_bit 12 (of_nat f :: u32) = 0"
      by (metis drop_bit_take_bit take_bit_0 diff_self_eq_0)
    then show ?thesis by (simp add: bit_if_def)
  qed
  then show ?thesis using 1(3) 2(3) same g by metis
qed

theorem alloc_frame_entries_collide_witness:
  "\<exists>e fs1 fs2. alloc_frame boot_frames 0 False True = Inr (e, fs1) \<and>
    alloc_frame fs1 0 False True = Inr (e, fs2) \<and> drop_bit 12 e = 0"
  using alloc_frame_entries_collide[OF boot_frames_ok, of 1024 False True] boot_frames_used by auto

text \<open>
  \<open>free_frame\<close> divides the frame's address by the page size twice: given the address of
  frame \<open>f\<close> it clears the bit of frame \<open>f div 4096\<close>, so that \<open>f\<close> itself is never free again.
\<close>

theorem free_frame_clears_other:
  assumes "frames_ok fs" and "0 < f" and "f < 32736"
  shows "\<exists>fs'. free_frame fs (of_nat f * 0x1000) = Inr fs' \<and>
    (\<forall>j<32736. frame_used fs' j \<longleftrightarrow> j \<noteq> f div 4096 \<and> frame_used fs j) \<and>
    frame_used fs' f = frame_used fs f"
proof -
  let ?g = "f div 4096"
  have g: "?g < 32736" "?g \<noteq> f" using assms(2,3) by (auto simp: div_less_dividend less_imp_neq)
  have u: "unat ((of_nat f * 0x1000 :: u32) div 0x1000 div 0x1000) = ?g"
    using frame_address[of f] assms(3) by (simp add: unat_div)
  have v: "unat ((of_nat ?g * 0x1000 :: u32) div 0x1000) = ?g"
    using frame_address[of ?g] g(1) by (simp add: unat_div)
  have "(of_nat f * 0x1000 :: u32) div 0x1000 div 0x1000 = (of_nat ?g * 0x1000) div 0x1000"
    by (rule word_unat_eq_iff[THEN iffD2]) (simp only: u v)
  then have "free_frame fs (of_nat f * 0x1000) = clear_frame fs (of_nat ?g * 0x1000)"
    by (simp only: free_frame_def clear_frame_def)
  then show ?thesis using frame_clearer.clear_ok[OF assms(1) g(1)] g(2) assms(3) by auto
qed

theorem free_frame_clears_other_witness:
  "\<exists>fs'. free_frame boot_frames (of_nat 1000 * 0x1000) = Inr fs' \<and> frame_used fs' 1000 \<and> \<not> frame_used fs' 0"
  using free_frame_clears_other[OF boot_frames_ok, of 1000] boot_frames_used[of 1000] by auto

text \<open>
  \<open>map_4mb\<close> reserves the first 1024 frames, whatever it maps, and writes the entry 0x83.
  The test with which \<open>get_or_create_table\<close> means to leave such entries alone does not: it
  takes physical address 0 for a page table.
\<close>

theorem map_4mb_reserves:
  assumes "frames_ok (frames p)" and "word_at (dir + 4 * drop_bit 22 virt) \<subseteq> dom (mem (kmem p))"
  shows "\<exists>p'. map_4mb p dir virt = Inr p' \<and>
    (\<forall>j<32736. frame_used (frames p') j \<longleftrightarrow> j < 1024 \<or> frame_used (frames p) j) \<and>
    load32 (mem (kmem p')) (dir + 4 * drop_bit 22 virt) = Inr 0x83 \<and>
    get_or_create_table p' dir (drop_bit 22 virt) user rw = Inr (0xC0000000, p')"
proof -
  obtain fs where fs: "set_first_frames (frames p) 1024 = Inr fs"
    "\<forall>j<32736. frame_used fs j \<longleftrightarrow> j < 1024 \<or> frame_used (frames p) j"
    using set_first_frames_used[of 1024 "frames p"] assms(1) by auto
  let ?p = "p\<lparr>frames := fs, kmem := (kmem p)\<lparr>mem := put32 (mem (kmem p)) (dir + 4 * drop_bit 22 virt) 0x83\<rparr>\<rparr>"
  have m: "map_4mb p dir virt = Inr ?p"
    using fs(1) assms(2) by (simp add: map_4mb_def Let_def write_entry_def put_word_Inr del: set_first_frames.simps)
  have l: "load32 (mem (kmem ?p)) (dir + 4 * drop_bit 22 virt) = Inr 0x83"
    by (simp add: load32_put32_same)
  have "get_or_create_table ?p dir (drop_bit 22 virt) user rw = Inr (0xC0000000, ?p)"
    using l by (simp add: get_or_create_table_def read_entry_def PHYS_TO_VIRT_def)
  then show ?thesis using m l fs(2) by auto
qed

theorem map_4mb_reserves_witness:
  "\<exists>p'. map_4mb \<lparr>frames = boot_frames, kernel_page_directory = 0xC0300000, kmem = one_gap\<rparr> 0xC0300000 0xC0000000 = Inr p' \<and>
    get_or_create_table p' 0xC0300000 768 False False = Inr (0xC0000000, p')"
proof -
  have d: "dom (mem one_gap) = UNIV" by (auto simp: one_gap_def put32_def)
  have e: "drop_bit 22 (0xC0000000 :: u32) = 768" by simp
  show ?thesis
    using map_4mb_reserves[of "\<lparr>frames = boot_frames, kernel_page_directory = 0xC0300000, kmem = one_gap\<rparr>" "0xC0300000" "0xC0000000" False False]
      boot_frames_ok d unfolding e by auto
qed

end
