(* ===== verification/Tasks.thy ===== *)
theory Tasks
  imports Paging Kstring
begin

text \<open>
  Processes and the scheduler (\<^verbatim>\<open>include/kernel/task.h\<close>, \<^verbatim>\<open>src/kernel/x86_32/task.c\<close>): the
  doubly linked list of tasks is an explicit store of nodes, so that every pointer update of
  the code is one of the model. The context a switch loads is the result of the operation.
\<close>

section \<open>State\<close>

record registers =
  r_ds :: u32
  r_edi :: u32
  r_esi :: u32
  r_ebp :: u32
  r_esp :: u32
  r_ebx :: u32
  r_edx :: u32
  r_ecx :: u32
  r_eax :: u32
  r_interrupt_number :: u32
  r_error_code :: u32
  r_eip :: u32
  r_cs :: u32
  r_eflags :: u32
  r_useresp :: u32
  r_ss :: u32

record process =
  p_exists :: bool
  pid :: u32
  ring :: u32
  uid :: u32
  pname :: "u8 list"
  page_directory_p :: u32
  last_stack_pos :: u32

text \<open>\<open>proc\<close> is the index in \<open>processes\<close>.\<close>

record task =
  tid :: u32
  waiting :: bool
  proc :: nat
  stack_top_p :: u32
  state_regs :: registers

text \<open>A node's address is its key in \<open>nodes\<close>; the null pointer is 0.\<close>

record ll_task =
  next_p :: u32
  prev_p :: u32
  the_task :: task

record tasks =
  processes :: "process list"
  first_task :: u32
  last_task :: u32
  current_task :: u32
  nodes :: "u32 \<rightharpoonup> ll_task"
  next_task_id :: u32
  tasks_initialized :: bool
  pg :: paging
  stacks :: "u32 \<rightharpoonup> u32"

definition get_node :: "tasks \<Rightarrow> u32 \<Rightarrow> ll_task res" where
  "get_node s a = (case nodes s a of None \<Rightarrow> Inl NullDeref | Some n \<Rightarrow> Inr n)"

definition put_node :: "tasks \<Rightarrow> u32 \<Rightarrow> ll_task \<Rightarrow> tasks" where
  "put_node s a n = s\<lparr>nodes := (nodes s)(a \<mapsto> n)\<rparr>"

section \<open>Operations\<close>

definition no_registers :: registers where
  "no_registers = \<lparr>r_ds = 0, r_edi = 0, r_esi = 0, r_ebp = 0, r_esp = 0, r_ebx = 0, r_edx = 0, r_ecx = 0,
     r_eax = 0, r_interrupt_number = 0, r_error_code = 0, r_eip = 0, r_cs = 0, r_eflags = 0, r_useresp = 0, r_ss = 0\<rparr>"

text \<open>\<open>sizeof(struct ll_task_i)\<close>: two pointers, four words of the task and its registers.\<close>

definition LL_TASK_SIZE :: u32 where "LL_TASK_SIZE = 8 + 16 + 64"

definition kernel_process :: "tasks \<Rightarrow> process" where
  "kernel_process s = \<lparr>p_exists = True, pid = 0, ring = 0, uid = 0,
     pname = map of_char ''kernel'' @ replicate 26 0,
     page_directory_p = VIRT_TO_PHYS (kernel_page_directory (pg s)), last_stack_pos = 0xFFFFF000\<rparr>"

definition init_tasks :: "tasks \<Rightarrow> tasks res" where
  "init_tasks s =
     res_bind (malloc (kmem (pg s)) LL_TASK_SIZE) (\<lambda>(a, k).
     Inr (s\<lparr>processes := (processes s)[0 := kernel_process s],
            first_task := a, last_task := a, current_task := a,
            nodes := (nodes s)(a \<mapsto> \<lparr>next_p = 0, prev_p = 0, the_task =
              \<lparr>tid = next_task_id s, waiting = False, proc = 0, stack_top_p = 0, state_regs = no_registers\<rparr>\<rparr>),
            next_task_id := next_task_id s + 1, tasks_initialized := True, pg := (pg s)\<lparr>kmem := k\<rparr>\<rparr>))"

definition get_process :: "tasks \<Rightarrow> u32 \<Rightarrow> process option" where
  "get_process s p = (if p < 1024 then Some (processes s ! unat p) else None)"

definition get_task_id :: "tasks \<Rightarrow> u32 res" where
  "get_task_id s = res_bind (get_node s (current_task s)) (\<lambda>n. Inr (tid (the_task n)))"

definition get_process_id :: "tasks \<Rightarrow> u32 res" where
  "get_process_id s =
     res_bind (get_node s (current_task s)) (\<lambda>n.
     res_bind (arr_get (processes s) (int (proc (the_task n)))) (\<lambda>p. Inr (pid p)))"

text \<open>
  \<open>entry\<close>, \<open>data\<close> and \<open>kill_ptr\<close> are the addresses of the function, its argument and
  \<open>kill_this_thread\<close>. The new page's two top words are written to \<open>stacks\<close>.
\<close>

definition spawn_thread :: "u32 \<Rightarrow> tasks \<Rightarrow> u32 \<Rightarrow> u32 \<Rightarrow> tasks res" where
  "spawn_thread kill_ptr s entry data =
     res_bind (get_node s (current_task s)) (\<lambda>cur.
     res_bind (arr_get (processes s) (int (proc (the_task cur)))) (\<lambda>p.
     let base = last_stack_pos p;
         s1 = s\<lparr>processes := (processes s)[proc (the_task cur) := p\<lparr>last_stack_pos := base - 0x1000\<rparr>]\<rparr> in
     res_bind (alloc_page (pg s1) (PHYS_TO_VIRT (page_directory_p p)) (base - 0x1000)) (\<lambda>pg1.
     let s2 = s1\<lparr>pg := pg1, stacks := (stacks s1)(base - 4 \<mapsto> data, base - 8 \<mapsto> kill_ptr)\<rparr> in
     res_bind (malloc (kmem pg1) LL_TASK_SIZE) (\<lambda>(a, k).
     let new_task = (the_task cur)\<lparr>tid := next_task_id s2, waiting := False,
           state_regs := (state_regs (the_task cur))\<lparr>r_ebp := base - 8, r_esp := base - 8, r_eip := entry\<rparr>\<rparr>;
         s3 = put_node (s2\<lparr>pg := pg1\<lparr>kmem := k\<rparr>, next_task_id := next_task_id s2 + 1\<rparr>) a
           \<lparr>next_p = 0, prev_p = last_task s2, the_task = new_task\<rparr> in
     res_bind (get_node s3 (last_task s3)) (\<lambda>l.
     Inr ((put_node s3 (last_task s3) (l\<lparr>next_p := a\<rparr>))\<lparr>last_task := a\<rparr>))))))"

text \<open>The context that the processor continues with, and its page directory.\<close>

definition switch_to_task :: "tasks \<Rightarrow> u32 \<Rightarrow> (u32 \<times> registers) res" where
  "switch_to_task s a =
     res_bind (get_node s a) (\<lambda>n.
     res_bind (arr_get (processes s) (int (proc (the_task n)))) (\<lambda>p.
     Inr (page_directory_p p, state_regs (the_task n))))"

definition unlink_task :: "tasks \<Rightarrow> ll_task \<Rightarrow> (tasks \<times> u32) res" where
  "unlink_task s cur =
     res_bind (if prev_p cur \<noteq> 0
               then res_bind (get_node s (prev_p cur)) (\<lambda>p.
                    Inr (put_node s (prev_p cur) (p\<lparr>next_p := next_p cur\<rparr>)))
               else Inr s) (\<lambda>s1.
     res_bind (if next_p cur \<noteq> 0
               then res_bind (get_node s1 (next_p cur)) (\<lambda>n.
                    Inr (put_node s1 (next_p cur) (n\<lparr>prev_p := prev_p cur\<rparr>), next_p cur))
               else Inr (s1, first_task s1)) (\<lambda>(s2, t).
     let s3 = (if current_task s2 = first_task s2 then s2\<lparr>first_task := next_p cur\<rparr> else s2);
         s4 = (if current_task s3 = last_task s3 then s3\<lparr>last_task := prev_p cur\<rparr> else s3) in
     Inr (s4, t)))"

definition kill_this_thread :: "tasks \<Rightarrow> (tasks \<times> u32 \<times> registers) res" where
  "kill_this_thread s =
     res_bind (get_node s (current_task s)) (\<lambda>cur.
     if prev_p cur = 0 \<and> next_p cur = 0
     then Inl (Panic ''You may not kill the last task in the kernel'')
     else
       res_bind (unlink_task s cur) (\<lambda>(s1, t).
       res_bind (free (kmem (pg s1)) (current_task s1)) (\<lambda>k.
       let s2 = s1\<lparr>current_task := t, nodes := (nodes s1)(current_task s1 := None), pg := (pg s1)\<lparr>kmem := k\<rparr>\<rparr> in
       res_bind (switch_to_task s2 t) (\<lambda>(cr3, regs). Inr (s2, cr3, regs)))))"

text \<open>One round of the loop, and the loop, which need not end: \<open>None\<close> is not returning.\<close>

definition step_task :: "tasks \<Rightarrow> u32 \<Rightarrow> u32 res" where
  "step_task s c = res_bind (get_node s c) (\<lambda>n. Inr (if next_p n = 0 then first_task s else next_p n))"

partial_function (option) find_runnable :: "tasks \<Rightarrow> u32 \<Rightarrow> u32 res option" where
  "find_runnable s c =
     (case step_task s c of
        Inl e \<Rightarrow> Some (Inl e)
      | Inr d \<Rightarrow>
          (case get_node s d of
             Inl e \<Rightarrow> Some (Inl e)
           | Inr n \<Rightarrow> if waiting (the_task n) then find_runnable s d else Some (Inr d)))"

definition do_switch_task :: "tasks \<Rightarrow> registers \<Rightarrow> (tasks \<times> u32 \<times> registers) res option" where
  "do_switch_task s regs =
     (case get_node s (current_task s) of
        Inl e \<Rightarrow> Some (Inl e)
      | Inr cur \<Rightarrow>
          let original = current_task s;
              s1 = put_node s original (cur\<lparr>the_task := (the_task cur)\<lparr>state_regs := regs\<rparr>\<rparr>) in
          (case find_runnable s1 original of
             None \<Rightarrow> None
           | Some (Inl e) \<Rightarrow> Some (Inl e)
           | Some (Inr c) \<Rightarrow>
               Some (let s2 = s1\<lparr>current_task := c\<rparr> in
                     if c = original \<and> waiting (the_task cur)
                     then Inl (Panic ''All tasks are waiting for I/O. There must be at least 1 task using CPU at all times.'')
                     else res_bind (switch_to_task s2 c) (\<lambda>(cr3, r). Inr (s2, cr3, r)))))"

definition switch_task :: "tasks \<Rightarrow> registers \<Rightarrow> (tasks \<times> (u32 \<times> registers) option) res option" where
  "switch_task s ctx =
     (if tasks_initialized s
      then map_option (\<lambda>r. res_bind r (\<lambda>(s1, cr3, regs). Inr (s1, Some (cr3, regs)))) (do_switch_task s ctx)
      else Some (Inr (s, None)))"

partial_function (option) set_waiting_from :: "u32 \<Rightarrow> bool \<Rightarrow> tasks \<Rightarrow> u32 \<Rightarrow> tasks res option" where
  "set_waiting_from id_num w s t =
     (if t = 0 then Some (Inr s)
      else
        (case get_node s t of
           Inl e \<Rightarrow> Some (Inl e)
         | Inr n \<Rightarrow>
             if tid (the_task n) = id_num
             then Some (Inr (put_node s t (n\<lparr>the_task := (the_task n)\<lparr>waiting := w\<rparr>\<rparr>)))
             else set_waiting_from id_num w s (next_p n)))"

definition set_waiting :: "tasks \<Rightarrow> u32 \<Rightarrow> bool \<Rightarrow> tasks res option" where
  "set_waiting s id_num w = set_waiting_from id_num w s (first_task s)"

section \<open>The list in the store\<close>

definition hd0 :: "u32 list \<Rightarrow> u32" where "hd0 xs = (case xs of [] \<Rightarrow> 0 | x # _ \<Rightarrow> x)"
definition last0 :: "u32 list \<Rightarrow> u32" where "last0 xs = (if xs = [] then 0 else last xs)"

lemma hd0_simps [simp]: "hd0 [] = 0" "hd0 (x # xs) = x" by (simp_all add: hd0_def)
lemma last0_simps [simp]: "last0 [] = 0" "last0 (xs @ [x]) = x" by (simp_all add: last0_def)

text \<open>
  The nodes \<open>xs\<close> are linked in this order, the first one back to \<open>p\<close> and the last one on to
  \<open>e\<close>.
\<close>

fun chain :: "(u32 \<rightharpoonup> ll_task) \<Rightarrow> u32 \<Rightarrow> u32 list \<Rightarrow> u32 \<Rightarrow> bool" where
  "chain m p [] e \<longleftrightarrow> True"
| "chain m p (x # xs) e \<longleftrightarrow> x \<noteq> 0 \<and> (case m x of None \<Rightarrow> False
     | Some n \<Rightarrow> prev_p n = p \<and> next_p n = (if xs = [] then e else hd xs)) \<and> chain m x xs e"

lemma chain_append:
  "chain m p (xs @ ys) e \<longleftrightarrow>
     chain m p xs (if ys = [] then e else hd ys) \<and> chain m (if xs = [] then p else last xs) ys e"
  by (induction xs arbitrary: p) (auto split: option.splits)

lemma chain_cong:
  assumes "chain m p xs e"
    and "\<And>x. x \<in> set xs \<Longrightarrow> map_option prev_p (m' x) = map_option prev_p (m x) \<and>
      map_option next_p (m' x) = map_option next_p (m x)"
  shows "chain m' p xs e"
  using assms
proof (induction xs arbitrary: p)
  case (Cons x xs)
  have x: "map_option prev_p (m' x) = map_option prev_p (m x)"
    "map_option next_p (m' x) = map_option next_p (m x)" using Cons.prems(2)[of x] by auto
  obtain n where n: "m x = Some n" using Cons.prems(1) by (auto split: option.splits)
  then obtain n' where "m' x = Some n'" "prev_p n' = prev_p n" "next_p n' = next_p n" using x by auto
  then show ?case using Cons n by auto
qed simp

lemma chain_frame: "x \<notin> set xs \<Longrightarrow> chain m p xs e \<Longrightarrow> chain (m(x := v)) p xs e"
  by (erule chain_cong) auto

lemma chain_member: "chain m p xs e \<Longrightarrow> x \<in> set xs \<Longrightarrow> \<exists>n. m x = Some n \<and> x \<noteq> 0"
  by (induction xs arbitrary: p) (auto split: option.splits)

lemma chain_relink_end:
  assumes "chain m p (xs @ [x]) e" "m x = Some n" "x \<notin> set xs"
  shows "chain (m(x \<mapsto> n\<lparr>next_p := e'\<rparr>)) p (xs @ [x]) e'"
  using assms by (auto simp: chain_append intro!: chain_frame)

lemma chain_relink_start:
  assumes "chain m p (x # xs) e" "m x = Some n" "x \<notin> set xs"
  shows "chain (m(x \<mapsto> n\<lparr>prev_p := p'\<rparr>)) p' (x # xs) e"
  using assms by (auto intro!: chain_frame)

definition task_list :: "tasks \<Rightarrow> u32 list \<Rightarrow> bool" where
  "task_list s ts \<longleftrightarrow> distinct ts \<and> chain (nodes s) 0 ts 0 \<and> first_task s = hd0 ts \<and>
     last_task s = last0 ts \<and> current_task s \<in> set ts"

lemma task_list_split:
  assumes "task_list s ts"
  shows "\<exists>xs ys n. ts = xs @ current_task s # ys \<and> nodes s (current_task s) = Some n \<and>
    current_task s \<notin> set xs \<union> set ys \<and> prev_p n = last0 xs \<and> next_p n = hd0 ys \<and>
    chain (nodes s) 0 xs (current_task s) \<and> chain (nodes s) (current_task s) ys 0"
proof -
  obtain xs ys where ts: "ts = xs @ current_task s # ys"
    using assms by (auto simp: task_list_def dest: split_list)
  have c: "distinct ts" "chain (nodes s) 0 (xs @ current_task s # ys) 0"
    using assms ts by (auto simp: task_list_def)
  obtain n where n: "nodes s (current_task s) = Some n"
    using chain_member[OF c(2), of "current_task s"] by auto
  have "prev_p n = last0 xs" "next_p n = hd0 ys" "chain (nodes s) 0 xs (current_task s)"
    "chain (nodes s) (current_task s) ys 0"
    using c(2) n by (simp_all add: chain_append last0_def hd0_def split: list.splits)
  then show ?thesis using ts n c(1) by (intro exI[of _ xs] exI[of _ ys] exI[of _ n]) simp
qed

lemma task_list_current: "task_list s ts \<Longrightarrow> \<exists>n. get_node s (current_task s) = Inr n"
  using chain_member by (fastforce simp: task_list_def get_node_def)

section \<open>Killing a thread\<close>

lemma get_put_node: "get_node (put_node s a n) b = (if a = b then Inr n else get_node s b)"
  by (simp add: get_node_def put_node_def)

lemma put_node_frame [simp]:
  "first_task (put_node s a n) = first_task s" "last_task (put_node s a n) = last_task s"
  "current_task (put_node s a n) = current_task s" "pg (put_node s a n) = pg s"
  "processes (put_node s a n) = processes s" "nodes (put_node s a n) = (nodes s)(a \<mapsto> n)"
  "stacks (put_node s a n) = stacks s" "next_task_id (put_node s a n) = next_task_id s"
  by (simp_all add: put_node_def)

text \<open>The store after the node between \<open>xs\<close> and \<open>ys\<close> is unlinked.\<close>

lemma unlink_chain:
  assumes "chain m 0 xs c" "chain m c ys 0" "distinct (xs @ c # ys)"
    and p: "xs \<noteq> [] \<Longrightarrow> m (last xs) = Some p" and n: "ys \<noteq> [] \<Longrightarrow> m (hd ys) = Some n"
  defines "m1 \<equiv> if xs = [] then m else m(last xs \<mapsto> p\<lparr>next_p := hd0 ys\<rparr>)"
  defines "m2 \<equiv> if ys = [] then m1 else m1(hd ys \<mapsto> n\<lparr>prev_p := last0 xs\<rparr>)"
  shows "chain (m2(c := None)) 0 (xs @ ys) 0"
proof -
  have 1: "chain m1 0 xs (hd0 ys)"
  proof (cases xs rule: rev_cases)
    case (snoc zs x)
    then show ?thesis
      using chain_relink_end[of m 0 zs x c p "hd0 ys"] assms(1,3) p by (simp add: m1_def)
  qed simp
  have 2: "chain m2 0 xs (hd0 ys)"
    using 1 assms(3) by (cases ys) (auto simp: m2_def intro!: chain_frame)
  have 3: "chain m2 (last0 xs) ys 0"
  proof (cases ys)
    case (Cons y zs)
    have "m1 y = Some n" using n Cons assms(3) by (auto simp: m1_def split: if_splits)
    moreover have "set xs \<inter> set ys = {}" using assms(3) by auto
    then have "xs \<noteq> [] \<Longrightarrow> last xs \<notin> set ys" using last_in_set[of xs] by blast
    then have "chain m1 c ys 0" using assms(2) by (simp add: m1_def chain_frame)
    ultimately show ?thesis
      using chain_relink_start[of m1 c y zs 0 n "last0 xs"] assms(3) Cons by (simp add: m2_def)
  qed simp
  have "chain m2 0 (xs @ ys) 0"
    using 2 3 by (simp add: chain_append last0_def hd0_def split: list.splits)
  then show ?thesis using assms(3) by (intro chain_frame) auto
qed

lemma unlink_task_Inr:
  assumes tl: "task_list s ts" and ts: "ts = xs @ current_task s # ys"
    and n: "nodes s (current_task s) = Some cur" "prev_p cur = last0 xs" "next_p cur = hd0 ys"
    and c: "chain (nodes s) 0 xs (current_task s)" "chain (nodes s) (current_task s) ys 0"
  shows "\<exists>s1. unlink_task s cur = Inr (s1, if ys = [] then first_task s else hd ys) \<and>
    chain ((nodes s1)(current_task s := None)) 0 (xs @ ys) 0 \<and>
    first_task s1 = hd0 (xs @ ys) \<and> last_task s1 = last0 (xs @ ys) \<and> current_task s1 = current_task s \<and>
    pg s1 = pg s \<and> processes s1 = processes s \<and>
    (\<forall>a. map_option the_task (nodes s1 a) = map_option the_task (nodes s a))"
proof -
  have d: "distinct (xs @ current_task s # ys)" and f: "first_task s = hd0 ts" and l: "last_task s = last0 ts"
    using tl ts by (auto simp: task_list_def)
  have lx: "xs \<noteq> [] \<Longrightarrow> \<exists>p. nodes s (last xs) = Some p \<and> last xs \<noteq> 0"
    using chain_member[OF c(1)] by simp
  have hy: "ys \<noteq> [] \<Longrightarrow> \<exists>q. nodes s (hd ys) = Some q \<and> hd ys \<noteq> 0"
    using chain_member[OF c(2)] by simp
  obtain p where p: "xs \<noteq> [] \<Longrightarrow> nodes s (last xs) = Some p" using lx by (cases "xs = []") auto
  obtain q where q: "ys \<noteq> [] \<Longrightarrow> nodes s (hd ys) = Some q" using hy by (cases "ys = []") auto
  let ?s1 = "if xs = [] then s else put_node s (last xs) (p\<lparr>next_p := hd0 ys\<rparr>)"
  let ?s2 = "if ys = [] then ?s1 else put_node ?s1 (hd ys) (q\<lparr>prev_p := last0 xs\<rparr>)"
  have ne: "xs \<noteq> [] \<Longrightarrow> ys \<noteq> [] \<Longrightarrow> last xs \<noteq> hd ys"
    using d by (metis disjoint_insert(1) distinct_append hd_in_set insert_Diff insert_iff last_in_set list.set(2))
  have a1: "(if prev_p cur \<noteq> 0 then res_bind (get_node s (prev_p cur)) (\<lambda>p.
       Inr (put_node s (prev_p cur) (p\<lparr>next_p := next_p cur\<rparr>))) else Inr s) = Inr ?s1"
    using lx p n by (auto simp: last0_def get_node_def)
  have g: "ys \<noteq> [] \<Longrightarrow> get_node ?s1 (hd ys) = Inr q"
    using q ne by (auto simp: get_put_node) (simp_all add: get_node_def)
  have a2: "(if next_p cur \<noteq> 0 then res_bind (get_node ?s1 (next_p cur)) (\<lambda>n.
       Inr (put_node ?s1 (next_p cur) (n\<lparr>prev_p := prev_p cur\<rparr>), next_p cur)) else Inr (?s1, first_task ?s1))
     = Inr (?s2, if ys = [] then first_task s else hd ys)"
  proof (cases ys)
    case (Cons y zs)
    then have "next_p cur = hd ys" "next_p cur \<noteq> 0" "prev_p cur = last0 xs" using n hy by auto
    then show ?thesis using g Cons by simp
  qed (use n in simp)
  let ?s3 = "if current_task ?s2 = first_task ?s2 then ?s2\<lparr>first_task := next_p cur\<rparr> else ?s2"
  let ?s4 = "if current_task ?s3 = last_task ?s3 then ?s3\<lparr>last_task := prev_p cur\<rparr> else ?s3"
  have r: "unlink_task s cur = Inr (?s4, if ys = [] then first_task s else hd ys)"
    unfolding unlink_task_def a1 res_bind_simps a2 by (simp only: res_bind_simps case_prod_conv Let_def)
  have ch: "chain ((nodes ?s4)(current_task s := None)) 0 (xs @ ys) 0"
    using unlink_chain[OF c d p q] by (auto split: if_splits)
  have ff: "first_task ?s4 = hd0 (xs @ ys)"
    using f ts d n(3) by (cases xs) (auto split: if_splits)
  have ll: "last_task ?s4 = last0 (xs @ ys)"
    using l ts d n(2) by (cases ys rule: rev_cases) (auto simp: last0_def split: if_splits)
  have tk: "map_option the_task (nodes ?s4 a) = map_option the_task (nodes s a)" for a
    using p q ne by (cases "xs = []"; cases "ys = []") auto
  show ?thesis using r ch ff ll tk by (intro exI[of _ ?s4]) (auto split: if_splits)
qed

text \<open>The task that runs after the current one is killed: its successor, or the first.\<close>

definition successor :: "u32 list \<Rightarrow> u32 \<Rightarrow> u32" where
  "successor ts c = (let ys = tl (dropWhile (\<lambda>x. x \<noteq> c) ts) in if ys = [] then hd ts else hd ys)"

lemma successor_split: "c \<notin> set xs \<Longrightarrow> successor (xs @ c # ys) c = (if ys = [] then hd (xs @ [c]) else hd ys)"
proof -
  assume "c \<notin> set xs"
  then have "dropWhile (\<lambda>x. x \<noteq> c) (xs @ c # ys) = c # ys" by (subst dropWhile_append2) auto
  then show ?thesis by (simp add: successor_def Let_def)
qed

lemma kill_Inr:
  assumes tl: "task_list s ts" and len: "1 < length ts"
    and fr: "free (kmem (pg s)) (current_task s) = Inr k"
    and proc_ok: "\<forall>a\<in>set ts. \<forall>n. nodes s a = Some n \<longrightarrow> proc (the_task n) < length (processes s)"
  shows "\<exists>s' cr3 regs. kill_this_thread s = Inr (s', cr3, regs) \<and>
    task_list s' (remove1 (current_task s) ts) \<and> current_task s' = successor ts (current_task s) \<and>
    (\<forall>a. a \<noteq> current_task s \<longrightarrow> map_option the_task (nodes s' a) = map_option the_task (nodes s a))"
proof -
  obtain xs ys cur where ts: "ts = xs @ current_task s # ys" "nodes s (current_task s) = Some cur"
    "current_task s \<notin> set xs \<union> set ys" "prev_p cur = last0 xs" "next_p cur = hd0 ys"
    "chain (nodes s) 0 xs (current_task s)" "chain (nodes s) (current_task s) ys 0"
    using task_list_split[OF tl] by blast
  let ?c = "current_task s" and ?t = "if ys = [] then first_task s else hd ys"
  obtain s1 where u: "unlink_task s cur = Inr (s1, ?t)"
    "chain ((nodes s1)(?c := None)) 0 (xs @ ys) 0" "first_task s1 = hd0 (xs @ ys)"
    "last_task s1 = last0 (xs @ ys)" "current_task s1 = ?c" "pg s1 = pg s" "processes s1 = processes s"
    "\<forall>a. map_option the_task (nodes s1 a) = map_option the_task (nodes s a)"
    using unlink_task_Inr[OF tl ts(1,2,4,5,6,7)] by blast
  have ne: "xs @ ys \<noteq> []" using len ts(1) by auto
  have t: "?t = successor ts ?c" "?t \<in> set (xs @ ys)"
  proof -
    have sp: "successor ts ?c = (if ys = [] then hd (xs @ [?c]) else hd ys)"
      unfolding ts(1) by (rule successor_split) (use ts(3) in simp)
    have ft: "first_task s = hd0 ts" using tl by (simp add: task_list_def)
    have "?t = successor ts ?c \<and> ?t \<in> set (xs @ ys)"
    proof (cases "ys = []")
      case True
      then obtain x xs' where "xs = x # xs'" using ne by (cases xs) auto
      then have "first_task s = x" using ft ts(1) by (metis append_Cons hd0_simps(2))
      then show ?thesis using True sp \<open>xs = x # xs'\<close> by simp
    qed (simp add: sp)
    then show "?t = successor ts ?c" "?t \<in> set (xs @ ys)" by blast+
  qed
  have links: "\<not> (prev_p cur = 0 \<and> next_p cur = 0)"
  proof (cases "xs = []")
    case True
    then have "hd ys \<in> set ys" using ne by simp
    then have "hd ys \<noteq> 0" using chain_member[OF ts(7)] by blast
    then show ?thesis using True ne ts(5) by (simp add: hd0_def split: list.splits)
  next
    case False
    then have "last xs \<noteq> 0" using chain_member[OF ts(6), of "last xs"] by simp
    then show ?thesis using False ts(4) by (simp add: last0_def)
  qed
  let ?s2 = "s1\<lparr>current_task := ?t, nodes := (nodes s1)(?c := None), pg := (pg s1)\<lparr>kmem := k\<rparr>\<rparr>"
  have tl2: "task_list ?s2 (xs @ ys)"
    using u t(2) tl ts(1) by (simp add: task_list_def)
  obtain n where n: "nodes ?s2 ?t = Some n" using chain_member[OF u(2) t(2)] by auto
  have "?t \<in> set ts" using t(2) ts(1) by auto
  then have "proc (the_task n) < length (processes s)"
  proof -
    have "nodes s1 ?t = Some n" using n by (simp split: if_splits)
    then have "map_option the_task (nodes s ?t) = Some (the_task n)" using u(8)[rule_format, of ?t] by simp
    then obtain q where "nodes s ?t = Some q" "the_task q = the_task n" by blast
    then show ?thesis using proc_ok \<open>?t \<in> set ts\<close> by fastforce
  qed
  then have "\<exists>cr3 regs. switch_to_task ?s2 ?t = Inr (cr3, regs)"
    using n u(7) by (simp add: switch_to_task_def get_node_def)
  then obtain cr3 regs where sw: "switch_to_task ?s2 ?t = Inr (cr3, regs)" by blast
  have "kill_this_thread s = Inr (?s2, cr3, regs)"
    unfolding kill_this_thread_def using ts(2) links u(1,5,6) fr sw by (simp add: get_node_def Let_def)
  moreover have "remove1 ?c ts = xs @ ys" using ts(1,3) by (simp add: remove1_append)
  ultimately show ?thesis using tl2 t(1) u(8) by auto
qed

section \<open>Spawning a thread\<close>

lemma chain_snoc:
  assumes "chain m 0 ts 0" "distinct ts" "ts \<noteq> []" "a \<notin> set ts" "a \<noteq> 0" "m (last ts) = Some l"
  shows "chain (m(a \<mapsto> \<lparr>next_p = 0, prev_p = last ts, the_task = tk\<rparr>, last ts \<mapsto> l\<lparr>next_p := a\<rparr>)) 0 (ts @ [a]) 0"
proof -
  obtain zs z where z: "ts = zs @ [z]" using assms(3) by (cases ts rule: rev_cases) auto
  let ?m = "m(a \<mapsto> \<lparr>next_p = 0, prev_p = z, the_task = tk\<rparr>)"
  have "chain ?m 0 (zs @ [z]) 0" using assms(1,4) z by (intro chain_frame) auto
  moreover have "?m z = Some l" using assms(4,6) z by auto
  ultimately have "chain (?m(z \<mapsto> l\<lparr>next_p := a\<rparr>)) 0 (zs @ [z]) a"
    using assms(2) z by (intro chain_relink_end) auto
  then show ?thesis using assms(4,5) z by (auto simp: chain_append)
qed

lemma spawn_Inr:
  assumes tl: "task_list s ts" and cur: "nodes s (current_task s) = Some cur"
    and p: "proc (the_task cur) < length (processes s)"
    and page: "alloc_page (pg s) (PHYS_TO_VIRT (page_directory_p (processes s ! proc (the_task cur))))
        (last_stack_pos (processes s ! proc (the_task cur)) - 0x1000) = Inr pg1"
    and m: "malloc (kmem pg1) LL_TASK_SIZE = Inr (a, k)" and fresh: "a \<notin> set ts" "a \<noteq> 0"
  defines "base \<equiv> last_stack_pos (processes s ! proc (the_task cur))"
  shows "\<exists>s' n. spawn_thread kill_ptr s f d = Inr s' \<and> task_list s' (ts @ [a]) \<and>
    current_task s' = current_task s \<and> nodes s' a = Some n \<and> tid (the_task n) = next_task_id s \<and>
    \<not> waiting (the_task n) \<and> proc (the_task n) = proc (the_task cur) \<and>
    r_eip (state_regs (the_task n)) = f \<and> r_esp (state_regs (the_task n)) = base - 8 \<and>
    stacks s' (base - 4) = Some d \<and> stacks s' (base - 8) = Some kill_ptr \<and>
    last_stack_pos (processes s' ! proc (the_task cur)) = base - 0x1000 \<and>
    (\<forall>b\<in>set ts. map_option the_task (nodes s' b) = map_option the_task (nodes s b))"
proof -
  let ?new = "(the_task cur)\<lparr>tid := next_task_id s, waiting := False,
      state_regs := (state_regs (the_task cur))\<lparr>r_ebp := base - 8, r_esp := base - 8, r_eip := f\<rparr>\<rparr>"
  have ne: "ts \<noteq> []" and lt: "last_task s = last ts" "distinct ts" "chain (nodes s) 0 ts 0"
    using tl by (auto simp: task_list_def last0_def split: if_splits)
  obtain l where l: "nodes s (last ts) = Some l" "last ts \<noteq> 0" using chain_member[OF lt(3), of "last ts"] ne by auto
  have al: "last ts \<noteq> a" using fresh(1) ne by auto
  let ?node = "\<lparr>next_p = 0, prev_p = last ts, the_task = ?new\<rparr>"
  have "\<exists>s'. spawn_thread kill_ptr s f d = Inr s' \<and>
    nodes s' = (nodes s)(a \<mapsto> ?node, last ts \<mapsto> l\<lparr>next_p := a\<rparr>) \<and> first_task s' = first_task s \<and>
    last_task s' = a \<and> current_task s' = current_task s \<and>
    stacks s' = (stacks s)(base - 4 \<mapsto> d, base - 8 \<mapsto> kill_ptr) \<and>
    processes s' = (processes s)[proc (the_task cur) := (processes s ! proc (the_task cur))\<lparr>last_stack_pos := base - 0x1000\<rparr>]"
    using cur p page m l al lt(1)
    by (simp add: spawn_thread_def get_node_def Let_def base_def put_node_def)
  then obtain s' where s': "spawn_thread kill_ptr s f d = Inr s'"
    "nodes s' = (nodes s)(a \<mapsto> ?node, last ts \<mapsto> l\<lparr>next_p := a\<rparr>)" "first_task s' = first_task s"
    "last_task s' = a" "current_task s' = current_task s"
    "stacks s' = (stacks s)(base - 4 \<mapsto> d, base - 8 \<mapsto> kill_ptr)"
    "processes s' = (processes s)[proc (the_task cur) := (processes s ! proc (the_task cur))\<lparr>last_stack_pos := base - 0x1000\<rparr>]"
    by blast
  have "chain (nodes s') 0 (ts @ [a]) 0"
    unfolding s'(2) by (rule chain_snoc[OF lt(3,2) ne fresh l(1)])
  moreover have "task_list s' (ts @ [a])" if c: "chain (nodes s') 0 (ts @ [a]) 0"
  proof -
    have "hd0 (ts @ [a]) = hd0 ts" using ne by (cases ts) auto
    then show ?thesis using c tl s' fresh(1) by (simp add: task_list_def)
  qed
  ultimately have "task_list s' (ts @ [a])" by blast
  moreover have "\<forall>b\<in>set ts. map_option the_task (nodes s' b) = map_option the_task (nodes s b)"
    using l fresh by (auto simp: s'(2))
  ultimately show ?thesis using s' p al by (intro exI[of _ s'] exI[of _ ?node]) (simp add: s'(2))
qed

section \<open>Switching\<close>

lemma chain_nth:
  "chain m p ts e \<Longrightarrow> i < length ts \<Longrightarrow>
    \<exists>n. m (ts ! i) = Some n \<and> next_p n = (if Suc i < length ts then ts ! Suc i else e)"
proof (induction ts arbitrary: p i)
  case (Cons x xs)
  show ?case
  proof (cases i)
    case 0
    then show ?thesis using Cons.prems by (auto simp: hd_conv_nth split: option.splits)
  next
    case (Suc j)
    then show ?thesis using Cons.IH[of x j] Cons.prems by auto
  qed
qed simp

definition is_waiting :: "tasks \<Rightarrow> u32 \<Rightarrow> bool" where
  "is_waiting s a = (case nodes s a of None \<Rightarrow> False | Some n \<Rightarrow> waiting (the_task n))"

lemma step_task_nth:
  assumes "chain (nodes s) 0 ts 0" "first_task s = hd0 ts" "i < length ts"
  shows "step_task s (ts ! i) = Inr (ts ! (Suc i mod length ts))"
proof -
  obtain n where n: "nodes s (ts ! i) = Some n" "next_p n = (if Suc i < length ts then ts ! Suc i else 0)"
    using chain_nth[OF assms(1,3)] by blast
  have h: "hd0 ts = ts ! 0" using assms(3) by (cases ts) auto
  show ?thesis
  proof (cases "Suc i < length ts")
    case True
    then have "ts ! Suc i \<noteq> 0" using chain_member[OF assms(1), of "ts ! Suc i"] by auto
    then show ?thesis using True n by (simp add: step_task_def get_node_def)
  next
    case False
    then have "Suc i = length ts" using assms(3) by simp
    then show ?thesis using False n assms(2) h by (simp add: step_task_def get_node_def)
  qed
qed

lemma find_runnable_step:
  assumes "chain (nodes s) 0 ts 0" "first_task s = hd0 ts" "i < length ts"
  shows "find_runnable s (ts ! i) =
    (if is_waiting s (ts ! (Suc i mod length ts)) then find_runnable s (ts ! (Suc i mod length ts))
     else Some (Inr (ts ! (Suc i mod length ts))))"
proof -
  have "Suc i mod length ts < length ts" using assms(3) by (intro mod_less_divisor) auto
  then obtain n where n: "nodes s (ts ! (Suc i mod length ts)) = Some n" using chain_nth[OF assms(1)] by blast
  show ?thesis
    by (subst find_runnable.simps) (use step_task_nth[OF assms] n in \<open>simp add: get_node_def is_waiting_def\<close>)
qed

lemma find_runnable_nth:
  assumes "chain (nodes s) 0 ts 0" "first_task s = hd0 ts" "i < length ts" "0 < k"
    and "\<forall>j. 0 < j \<and> j < k \<longrightarrow> is_waiting s (ts ! ((i + j) mod length ts))"
    and "\<not> is_waiting s (ts ! ((i + k) mod length ts))"
  shows "find_runnable s (ts ! i) = Some (Inr (ts ! ((i + k) mod length ts)))"
  using assms(3-)
proof (induction k arbitrary: i)
  case (Suc k)
  let ?d = "Suc i mod length ts"
  show ?case
  proof (cases "k = 0")
    case True
    then show ?thesis using find_runnable_step[OF assms(1,2) Suc.prems(1)] Suc.prems(4) by simp
  next
    case False
    have d: "?d < length ts" using Suc.prems(1) by (intro mod_less_divisor) auto
    have sh: "(?d + j) mod length ts = (i + Suc j) mod length ts" for j by (simp add: mod_add_left_eq)
    have "is_waiting s (ts ! ?d)" using Suc.prems(3)[rule_format, of 1] False by simp
    moreover have "find_runnable s (ts ! ?d) = Some (Inr (ts ! ((?d + k) mod length ts)))"
      using Suc.prems(3,4) False by (intro Suc.IH[OF d]) (auto simp: sh)
    ultimately show ?thesis using find_runnable_step[OF assms(1,2) Suc.prems(1)] by (simp add: sh)
  qed
qed simp

text \<open>With every task waiting the loop never returns.\<close>

lemma find_runnable_all_waiting:
  assumes "chain (nodes s) 0 ts 0" "first_task s = hd0 ts" "\<forall>a\<in>set ts. is_waiting s a" "c \<in> set ts"
  shows "find_runnable s c = None"
proof (rule ccontr)
  assume "find_runnable s c \<noteq> None"
  then obtain r where r: "find_runnable s c = Some r" by blast
  have "c \<in> set ts \<Longrightarrow> first_task s = hd0 ts \<Longrightarrow> chain (nodes s) 0 ts 0 \<Longrightarrow> \<forall>a\<in>set ts. is_waiting s a \<Longrightarrow> False"
  proof (induction rule: find_runnable.raw_induct[rotated, OF r])
    case (1 find_runnable s c y)
    obtain i where i: "i < length ts" "c = ts ! i" using 1(3) by (metis in_set_conv_nth)
    have d: "Suc i mod length ts < length ts" using i(1) by (intro mod_less_divisor) auto
    obtain n where n: "nodes s (ts ! (Suc i mod length ts)) = Some n" using chain_nth[OF 1(5) d] by blast
    have w: "waiting (the_task n)" using bspec[OF 1(6) nth_mem[OF d]] n by (simp add: is_waiting_def)
    have st: "step_task s c = Inr (ts ! (Suc i mod length ts))"
      unfolding i(2) by (rule step_task_nth[OF 1(5,4) i(1)])
    have "find_runnable s (ts ! (Suc i mod length ts)) = Some y"
      using 1(2) st n w by (simp add: get_node_def)
    then show ?case using 1(1)[of s "ts ! (Suc i mod length ts)" y] d 1(4-6) by simp
  qed
  then show False using assms by blast
qed

lemma save_context:
  fixes regs :: registers
  assumes "task_list s ts" "nodes s (current_task s) = Some cur"
  defines "s1 \<equiv> put_node s (current_task s) (cur\<lparr>the_task := (the_task cur)\<lparr>state_regs := regs\<rparr>\<rparr>)"
  shows "task_list s1 ts" "is_waiting s1 a = is_waiting s a"
  using assms by (auto simp: task_list_def is_waiting_def put_node_def intro: chain_cong)

lemma set_waiting_from_chain:
  assumes "chain (nodes s) p ts 0"
  shows "set_waiting_from i w s (hd0 ts) = Some (Inr
    (case find (\<lambda>a. tid (the_task (the (nodes s a))) = i) ts of
       None \<Rightarrow> s
     | Some a \<Rightarrow> put_node s a ((the (nodes s a))\<lparr>the_task := (the_task (the (nodes s a)))\<lparr>waiting := w\<rparr>\<rparr>)))"
  using assms
proof (induction ts arbitrary: p)
  case Nil
  then show ?case by (subst set_waiting_from.simps) simp
next
  case (Cons x xs)
  then obtain n where n: "nodes s x = Some n" "next_p n = (if xs = [] then 0 else hd xs)" "x \<noteq> 0"
    "chain (nodes s) x xs 0" by (auto split: option.splits)
  have "next_p n = hd0 xs" using n(2) by (cases xs) auto
  then show ?case using n Cons.IH[OF n(4)] by (subst set_waiting_from.simps) (simp add: get_node_def)
qed

section \<open>Properties\<close>

text \<open>A kernel process with two tasks: the current one's node is a block of \<open>malloc\<close>.\<close>

definition sample_task :: "u32 \<Rightarrow> bool \<Rightarrow> task" where
  "sample_task i w = \<lparr>tid = i, waiting = w, proc = 0, stack_top_p = 0, state_regs = no_registers\<lparr>r_eip := i\<rparr>\<rparr>"

definition two_tasks :: "bool \<Rightarrow> bool \<Rightarrow> tasks" where
  "two_tasks v w = \<lparr>processes = [\<lparr>p_exists = True, pid = 0, ring = 0, uid = 0, pname = [],
       page_directory_p = 0x100000, last_stack_pos = 0xFFFFF000\<rparr>],
     first_task = 0xC020010C, last_task = 8, current_task = 0xC020010C,
     nodes = [0xC020010C \<mapsto> \<lparr>next_p = 8, prev_p = 0, the_task = sample_task 0 v\<rparr>,
       8 \<mapsto> \<lparr>next_p = 0, prev_p = 0xC020010C, the_task = sample_task 1 w\<rparr>],
     next_task_id = 2, tasks_initialized = True,
     pg = \<lparr>frames = boot_frames, kernel_page_directory = 0xC0100000, kmem = one_block\<rparr>,
     stacks = (\<lambda>_. None)\<rparr>"

lemma two_tasks_list: "task_list (two_tasks v w) [0xC020010C, 8]"
  by (simp add: two_tasks_def task_list_def last0_def)

text \<open>
  A switch goes round robin: from task \<open>i\<close> it runs the next task in the list's cyclic
  order that is not waiting, wherever that is. The interrupted context is saved in the task
  left, the context and page directory loaded are the ones of the task chosen, and the
  list keeps its links.
\<close>

theorem switch_round_robin:
  assumes "task_list s ts" and "i < length ts" and "current_task s = ts ! i" and "0 < k"
    and "\<forall>j. 0 < j \<and> j < k \<longrightarrow> is_waiting s (ts ! ((i + j) mod length ts))"
    and "\<not> is_waiting s (ts ! ((i + k) mod length ts))"
    and "\<forall>a\<in>set ts. \<forall>n. nodes s a = Some n \<longrightarrow> proc (the_task n) < length (processes s)"
  defines "c \<equiv> ts ! ((i + k) mod length ts)"
  shows "\<exists>s' cr3 n old. do_switch_task s regs = Some (Inr (s', cr3, state_regs (the_task n))) \<and>
    current_task s' = c \<and> nodes s' c = Some n \<and> cr3 = page_directory_p (processes s ! proc (the_task n)) \<and>
    nodes s' (ts ! i) = Some old \<and> state_regs (the_task old) = regs \<and> task_list s' ts"
proof -
  obtain cur where cur: "nodes s (current_task s) = Some cur"
    using task_list_current[OF assms(1)] by (auto simp: get_node_def split: option.splits)
  let ?s1 = "put_node s (current_task s) (cur\<lparr>the_task := (the_task cur)\<lparr>state_regs := regs\<rparr>\<rparr>)"
  note save = save_context[OF assms(1) cur, of regs]
  have ch: "chain (nodes ?s1) 0 ts 0" "first_task ?s1 = hd0 ts" using save(1) by (simp_all add: task_list_def)
  have f: "find_runnable ?s1 (ts ! i) = Some (Inr c)"
    unfolding c_def using assms(5,6) save(2) by (intro find_runnable_nth[OF ch assms(2,4)]) simp_all
  have "(i + k) mod length ts < length ts" using assms(2) by (intro mod_less_divisor) auto
  then have c: "c \<in> set ts" by (simp add: c_def)
  then obtain n where n: "nodes ?s1 c = Some n" using chain_member[OF ch(1)] by blast
  have "\<exists>m. nodes s c = Some m \<and> proc (the_task m) = proc (the_task n)"
    using n cur by (auto split: if_splits)
  then have p: "proc (the_task n) < length (processes s)" using assms(7) c by fastforce
  have nw: "c = current_task s \<Longrightarrow> \<not> waiting (the_task cur)"
    using assms(6) cur by (simp add: c_def[symmetric] is_waiting_def)
  let ?s2 = "?s1\<lparr>current_task := c\<rparr>"
  have "do_switch_task s regs = Some (Inr (?s2, page_directory_p (processes s ! proc (the_task n)), state_regs (the_task n)))"
    using cur f n p nw assms(3)
    by (simp add: do_switch_task_def get_node_def Let_def switch_to_task_def)
  moreover have "task_list ?s2 ts" using save(1) c by (simp add: task_list_def)
  ultimately show ?thesis using n assms(3)
    by (intro exI[of _ ?s2] exI[of _ "page_directory_p (processes s ! proc (the_task n))"] exI[of _ n]
        exI[of _ "cur\<lparr>the_task := (the_task cur)\<lparr>state_regs := regs\<rparr>\<rparr>"]) simp
qed

theorem switch_round_robin_witness:
  "\<exists>s' cr3. do_switch_task (two_tasks False False) no_registers = Some (Inr (s', cr3, no_registers\<lparr>r_eip := 1\<rparr>)) \<and>
    current_task s' = 8"
proof -
  have "\<exists>s' cr3 n old. do_switch_task (two_tasks False False) no_registers = Some (Inr (s', cr3, state_regs (the_task n))) \<and>
    current_task s' = [0xC020010C, 8] ! ((0 + 1) mod length [0xC020010C, 8 :: u32]) \<and>
    nodes s' ([0xC020010C, 8] ! ((0 + 1) mod length [0xC020010C, 8 :: u32])) = Some n \<and>
    cr3 = page_directory_p (processes (two_tasks False False) ! proc (the_task n)) \<and>
    nodes s' ([0xC020010C, 8] ! 0) = Some old \<and> state_regs (the_task old) = no_registers \<and>
    task_list s' [0xC020010C, 8]"
    by (rule switch_round_robin[OF two_tasks_list])
      (auto simp: two_tasks_def is_waiting_def sample_task_def)
  moreover have "do_switch_task (two_tasks False False) no_registers = Some (Inr (s', cr3, r)) \<Longrightarrow>
      nodes s' 8 = nodes (two_tasks False False) 8" for s' cr3 r
    by (auto simp: do_switch_task_def get_node_def two_tasks_def put_node_def Let_def res_bind_eq_Inr split: option.splits sum.splits if_splits)
  ultimately show ?thesis by (fastforce simp: two_tasks_def sample_task_def)
qed

text \<open>
  When every task is waiting a switch never returns: the loop looks for a task that is
  not waiting and goes round for ever, so the panic after it, meant for this case, is never
  reached.
\<close>

theorem switch_all_waiting_hangs:
  assumes "task_list s ts" and "\<forall>a\<in>set ts. is_waiting s a"
  shows "do_switch_task s regs = None"
proof -
  obtain cur where cur: "nodes s (current_task s) = Some cur"
    using task_list_current[OF assms(1)] by (auto simp: get_node_def split: option.splits)
  let ?s1 = "put_node s (current_task s) (cur\<lparr>the_task := (the_task cur)\<lparr>state_regs := regs\<rparr>\<rparr>)"
  note save = save_context[OF assms(1) cur, of regs]
  have "find_runnable ?s1 (current_task s) = None"
    using save assms by (intro find_runnable_all_waiting[of _ ts]) (auto simp: task_list_def)
  then show ?thesis using cur by (simp add: do_switch_task_def get_node_def Let_def)
qed

theorem switch_all_waiting_hangs_witness: "do_switch_task (two_tasks True True) no_registers = None"
  by (rule switch_all_waiting_hangs[OF two_tasks_list])
    (auto simp: two_tasks_def is_waiting_def sample_task_def)



text \<open>
  Spawning a thread appends one task to the list and leaves the others alone. The new
  task belongs to the same process, has the next id, is not waiting, starts at the function
  it was given on a fresh stack 4096 bytes below the last one, and finds on that stack the
  argument and, as its return address, \<open>kill_this_thread\<close>.
\<close>

theorem spawn_appends_task:
  assumes "task_list s ts" and "nodes s (current_task s) = Some cur"
    and "proc (the_task cur) < length (processes s)"
    and "alloc_page (pg s) (PHYS_TO_VIRT (page_directory_p (processes s ! proc (the_task cur))))
        (last_stack_pos (processes s ! proc (the_task cur)) - 0x1000) = Inr pg1"
    and "malloc (kmem pg1) LL_TASK_SIZE = Inr (a, k)" and "a \<notin> set ts" and "a \<noteq> 0"
  defines "base \<equiv> last_stack_pos (processes s ! proc (the_task cur))"
  shows "\<exists>s' n. spawn_thread kill_ptr s f d = Inr s' \<and> task_list s' (ts @ [a]) \<and>
    current_task s' = current_task s \<and> nodes s' a = Some n \<and> tid (the_task n) = next_task_id s \<and>
    \<not> waiting (the_task n) \<and> proc (the_task n) = proc (the_task cur) \<and>
    r_eip (state_regs (the_task n)) = f \<and> r_esp (state_regs (the_task n)) = base - 8 \<and>
    stacks s' (base - 4) = Some d \<and> stacks s' (base - 8) = Some kill_ptr \<and>
    last_stack_pos (processes s' ! proc (the_task cur)) = base - 0x1000 \<and>
    (\<forall>b\<in>set ts. map_option the_task (nodes s' b) = map_option the_task (nodes s b))"
  unfolding base_def by (rule spawn_Inr[OF assms(1-7)])

definition mapped_mem :: memory where
  "mapped_mem = put32 (put32 (mem one_gap) 0xC0100FFC 0x300001) 0xC0300FF8 1"

definition spawn_ready :: tasks where
  "spawn_ready = (two_tasks False False)\<lparr>pg := \<lparr>frames = boot_frames, kernel_page_directory = 0xC0100000,
     kmem = one_gap\<lparr>mem := mapped_mem\<rparr>\<rparr>\<rparr>"

lemma word_at_consts:
  "word_at 0xC0100FFC = {0xC0100FFC, 0xC0100FFD, 0xC0100FFE, 0xC0100FFF}"
  "word_at 0xC0300FF8 = {0xC0300FF8, 0xC0300FF9, 0xC0300FFA, 0xC0300FFB}"
  "word_at 0xC0200008 = {0xC0200008, 0xC0200009, 0xC020000A, 0xC020000B}"
  by (simp_all add: word_at_def)

lemma mapped_mem_dom: "dom mapped_mem = UNIV" "dom (put32 mapped_mem a v) = UNIV"
  by (auto simp: mapped_mem_def one_gap_def put32_def)

lemma mapped_mem_words:
  "load32 mapped_mem 0xC0100FFC = Inr 0x300001" "load32 mapped_mem 0xC0300FF8 = Inr 1"
  unfolding mapped_mem_def
  by (simp_all add: load32_put32_same load32_put32_other word_at_consts)

lemma spawn_page:
  "alloc_page (pg spawn_ready) 0xC0100000 0xFFFFE000 =
     Inr ((pg spawn_ready)\<lparr>kmem := one_gap\<lparr>mem := put32 mapped_mem 0xC0300FF8 1\<rparr>\<rparr>)"
proof -
  have "word_at 0xC0300FF8 \<subseteq> dom mapped_mem" by (simp add: mapped_mem_dom)
  then show ?thesis
    by (simp add: alloc_page_def spawn_ready_def get_or_create_table_def read_entry_def Let_def
        mapped_mem_words PHYS_TO_VIRT_def alloc_entry_def alloc_frame_def write_entry_def put_word_Inr)
qed

lemma spawn_gap: "gap_ok (put32 mapped_mem 0xC0300FF8 1) \<lparr>key = 1024, address = 0xC0200000\<rparr>"
proof -
  have "load8 (put32 mapped_mem 0xC0300FF8 1) 0xC0200004 = Inr 0"
    by (simp add: load8_def put32_other word_at_consts mapped_mem_def one_gap_def)
  moreover have "load32 (put32 mapped_mem 0xC0300FF8 1) 0xC0200008 = Inr 1024"
    unfolding mapped_mem_def one_gap_def
    by (simp add: load32_put32_same load32_put32_other word_at_consts)
  ultimately show ?thesis by (simp add: gap_ok_def mapped_mem_dom)
qed

theorem spawn_appends_task_witness:
  "\<exists>s'. spawn_thread 77 spawn_ready 4096 5 = Inr s' \<and> task_list s' [0xC020010C, 8, 0xC020000C] \<and>
    stacks s' 0xFFFFEFFC = Some 5 \<and> stacks s' 0xFFFFEFF8 = Some 77"
proof -
  let ?k = "one_gap\<lparr>mem := put32 mapped_mem 0xC0300FF8 1\<rparr>"
  obtain k where "malloc ?k LL_TASK_SIZE = Inr (0xC020000C, k)"
    using malloc_split[of ?k LL_TASK_SIZE "\<lparr>key = 1024, address = 0xC0200000\<rparr>" 0]
      one_gap_inv one_gap_lookup[of 104] spawn_gap by (auto simp: LL_TASK_SIZE_def)
  then have m: "malloc (kmem ((pg spawn_ready)\<lparr>kmem := ?k\<rparr>)) LL_TASK_SIZE = Inr (0xC020000C, k)" by simp
  have tl: "task_list spawn_ready [0xC020010C, 8]"
    using two_tasks_list[of False False] by (simp add: task_list_def spawn_ready_def)
  have n: "nodes spawn_ready (current_task spawn_ready) = Some \<lparr>next_p = 8, prev_p = 0, the_task = sample_task 0 False\<rparr>"
    by (simp add: spawn_ready_def two_tasks_def)
  have p: "proc (the_task \<lparr>next_p = 8, prev_p = 0, the_task = sample_task 0 False\<rparr>) = 0" "length (processes spawn_ready) = 1"
    "page_directory_p (processes spawn_ready ! 0) = 0x100000" "last_stack_pos (processes spawn_ready ! 0) = 0xFFFFF000"
    by (simp_all add: sample_task_def spawn_ready_def two_tasks_def)
  have "alloc_page (pg spawn_ready) (PHYS_TO_VIRT (page_directory_p (processes spawn_ready ! 0)))
      (last_stack_pos (processes spawn_ready ! 0) - 0x1000) = Inr ((pg spawn_ready)\<lparr>kmem := ?k\<rparr>)"
    using spawn_page by (simp add: p PHYS_TO_VIRT_def)
  from spawn_appends_task[OF tl n, unfolded p, OF _ this[unfolded p] m, of 77 4096 5]
  show ?thesis by (auto simp: p)
qed

end
