(* ===== verification/Sync.thy ===== *)
theory Sync
  imports Tasks
begin

text \<open>
  Spin locks and semaphores (\<^verbatim>\<open>include/kernel/sync.h\<close>, \<^verbatim>\<open>src/kernel/x86_32/sync.c\<close>). The
  chunks of 1024 semaphores are a list; a new chunk's contents are what \<open>malloc\<close> left in
  it, an argument \<open>junk\<close> here, its link being read as null. The queue of waiting tasks is an
  explicit store of nodes.
\<close>

section \<open>Spin locks\<close>

definition sl_new :: int where "sl_new = 0"
definition sl_release :: "int \<Rightarrow> int" where "sl_release sl = 0"

text \<open>
  The loop repeats a compare-and-swap of -2 against 1. A value other than -2 only changes
  when somebody stores to the lock, and nobody stores -2: then the loop has no end.
\<close>

definition sl_acquire :: "int \<Rightarrow> int res" where
  "sl_acquire sl = (if sl = - 2 then Inr 1 else Inl Hang)"

section \<open>Semaphores\<close>

definition SM_PER_LIST :: nat where "SM_PER_LIST = 1024"

record semaphore =
  task_lock :: int
  sm_head :: u32
  sm_last :: u32
  sm_val :: u32

record sm_task =
  sm_tid :: u32
  sm_next :: u32

record sync =
  sm_lists :: "semaphore list list"
  sm_num :: u32
  sm_tasks :: "u32 \<rightharpoonup> sm_task"
  tsk :: tasks

text \<open>A list walk of the scheduler as a result: not returning is \<open>Hang\<close>.\<close>

definition returns :: "'a res option \<Rightarrow> 'a res" where
  "returns r = (case r of None \<Rightarrow> Inl Hang | Some x \<Rightarrow> x)"

text \<open>The id is an \<open>int\<close>; the chunk and the index in it.\<close>

function sm_from_id :: "sync \<Rightarrow> nat \<Rightarrow> int \<Rightarrow> (nat \<times> int) res" where
  "sm_from_id s chunk i =
     (if int SM_PER_LIST \<le> i then
        if chunk < length (sm_lists s) then sm_from_id s (Suc chunk) (i - int SM_PER_LIST)
        else Inl NullDeref
      else Inr (chunk, i))"
  by pat_completeness auto
termination
  by (relation "measure (\<lambda>(s, chunk, i). nat i)") (auto simp: SM_PER_LIST_def)

declare sm_from_id.simps [simp del]

definition get_sm :: "sync \<Rightarrow> nat \<times> int \<Rightarrow> semaphore res" where
  "get_sm s ci = (case ci of (chunk, i) \<Rightarrow>
     if chunk < length (sm_lists s) then arr_get (sm_lists s ! chunk) i else Inl NullDeref)"

definition put_sm :: "sync \<Rightarrow> nat \<times> int \<Rightarrow> semaphore \<Rightarrow> sync" where
  "put_sm s ci m = (case ci of (chunk, i) \<Rightarrow>
     s\<lparr>sm_lists := (sm_lists s)[chunk := (sm_lists s ! chunk)[nat i := m]]\<rparr>)"

definition sync_malloc :: "sync \<Rightarrow> u32 \<Rightarrow> (u32 \<times> sync) res" where
  "sync_malloc s n =
     res_bind (malloc (kmem (pg (tsk s))) n) (\<lambda>(a, k).
     Inr (a, s\<lparr>tsk := (tsk s)\<lparr>pg := (pg (tsk s))\<lparr>kmem := k\<rparr>\<rparr>\<rparr>))"

definition sync_free :: "sync \<Rightarrow> u32 \<Rightarrow> sync res" where
  "sync_free s a =
     res_bind (free (kmem (pg (tsk s))) a) (\<lambda>k. Inr (s\<lparr>tsk := (tsk s)\<lparr>pg := (pg (tsk s))\<lparr>kmem := k\<rparr>\<rparr>\<rparr>))"

text \<open>The branch of a wait that queues the task and gives up the processor.\<close>

definition sm_enqueue :: "sync \<Rightarrow> nat \<times> int \<Rightarrow> registers \<Rightarrow> sync res" where
  "sm_enqueue s ci regs =
     res_bind (get_sm s ci) (\<lambda>m.
     res_bind (sl_acquire (task_lock m)) (\<lambda>l.
     res_bind (sync_malloc s 8) (\<lambda>(a, s1).
     res_bind (get_task_id (tsk s1)) (\<lambda>me.
     let s2 = s1\<lparr>sm_tasks := (sm_tasks s1)(a \<mapsto> \<lparr>sm_tid = me, sm_next = 0\<rparr>)\<rparr> in
     res_bind
       (if sm_last m \<noteq> 0 then
          (case sm_tasks s2 (sm_last m) of
             None \<Rightarrow> Inl OutOfBounds
           | Some t \<Rightarrow> Inr (put_sm (s2\<lparr>sm_tasks := (sm_tasks s2)(sm_last m \<mapsto> t\<lparr>sm_next := a\<rparr>)\<rparr>) ci
                              (m\<lparr>sm_last := a, task_lock := sl_release l\<rparr>)))
        else Inr (put_sm s2 ci (m\<lparr>sm_last := a, sm_head := a, task_lock := sl_release l\<rparr>))) (\<lambda>s3.
     res_bind (returns (set_waiting (tsk s3) me True)) (\<lambda>t.
     res_bind (returns (switch_task t regs)) (\<lambda>(t1, _). Inr (s3\<lparr>tsk := t1\<rparr>))))))))"

text \<open>
  \<open>sm->sm--\<close> and the test \<open>sm->sm < 0\<close> on an unsigned value. \<open>regs\<close> is the context that the
  interrupt of \<open>sys_giveup\<close> saves.
\<close>

definition sm_unsafe_wait :: "sync \<Rightarrow> nat \<times> int \<Rightarrow> registers \<Rightarrow> sync res" where
  "sm_unsafe_wait s ci regs =
     res_bind (get_sm s ci) (\<lambda>m.
     let s1 = put_sm s ci (m\<lparr>sm_val := sm_val m - 1\<rparr>) in
     if uint (sm_val m - 1) < 0 then sm_enqueue s1 ci regs else Inr s1)"

definition sm_dequeue :: "sync \<Rightarrow> nat \<times> int \<Rightarrow> sync res" where
  "sm_dequeue s ci =
     res_bind (get_sm s ci) (\<lambda>m.
     res_bind (sl_acquire (task_lock m)) (\<lambda>l.
     res_bind
       (if sm_head m \<noteq> 0 then
          (case sm_tasks s (sm_head m) of
             None \<Rightarrow> Inl OutOfBounds
           | Some f \<Rightarrow>
               res_bind (returns (set_waiting (tsk s) (sm_tid f) False)) (\<lambda>t.
               res_bind (sync_free (put_sm (s\<lparr>tsk := t\<rparr>) ci (m\<lparr>sm_head := sm_next f\<rparr>)) (sm_head m)) (\<lambda>s1.
               Inr (s1\<lparr>sm_tasks := (sm_tasks s1)(sm_head m := None)\<rparr>))))
        else Inr s) (\<lambda>s2.
     res_bind (get_sm s2 ci) (\<lambda>m2. Inr (put_sm s2 ci (m2\<lparr>task_lock := sl_release l\<rparr>))))))"

definition sm_unsafe_signal :: "sync \<Rightarrow> nat \<times> int \<Rightarrow> sync res" where
  "sm_unsafe_signal s ci =
     res_bind (get_sm s ci) (\<lambda>m.
     let s1 = put_sm s ci (m\<lparr>sm_val := sm_val m + 1\<rparr>) in
     if uint (sm_val m + 1) \<le> 0 then sm_dequeue s1 ci else Inr s1)"

definition sm_wait :: "sync \<Rightarrow> int \<Rightarrow> registers \<Rightarrow> sync res" where
  "sm_wait s sm regs = res_bind (sm_from_id s 0 sm) (\<lambda>ci. sm_unsafe_wait s ci regs)"

definition sm_signal :: "sync \<Rightarrow> int \<Rightarrow> sync res" where
  "sm_signal s sm = res_bind (sm_from_id s 0 sm) (sm_unsafe_signal s)"

text \<open>\<open>sizeof(struct sm_list)\<close>.\<close>

definition SM_LIST_SIZE :: u32 where "SM_LIST_SIZE = 1024 * 16 + 4"

function sm_place :: "semaphore list \<Rightarrow> sync \<Rightarrow> nat \<Rightarrow> u32 \<Rightarrow> (nat \<times> u32 \<times> sync) res" where
  "sm_place junk s chunk num =
     (if of_nat SM_PER_LIST \<le> num then
        res_bind (if Suc chunk < length (sm_lists s) then Inr s
                  else res_bind (sync_malloc s SM_LIST_SIZE) (\<lambda>(a, s1).
                    Inr (s1\<lparr>sm_lists := sm_lists s1 @ [junk]\<rparr>))) (\<lambda>s2.
        sm_place junk s2 (Suc chunk) (num - of_nat SM_PER_LIST))
      else Inr (chunk, num, s))"
  by pat_completeness auto
termination
  by (relation "measure (\<lambda>(junk, s, chunk, num). unat num)")
    (auto simp: SM_PER_LIST_def word_le_nat_alt unat_sub)

declare sm_place.simps [simp del]

definition sm_new :: "semaphore list \<Rightarrow> sync \<Rightarrow> (int \<times> sync) res" where
  "sm_new junk s =
     res_bind (if sm_lists s = [] then
                 res_bind (sync_malloc s SM_LIST_SIZE) (\<lambda>(a, s1). Inr (s1\<lparr>sm_lists := [junk]\<rparr>))
               else Inr s) (\<lambda>s1.
     res_bind (sm_place junk (s1\<lparr>sm_num := sm_num s1 + 1\<rparr>) 0 (sm_num s1)) (\<lambda>(chunk, num, s2).
     let ci = (chunk, uint num) in
     res_bind (get_sm s2 ci) (\<lambda>m.
     Inr (sint num, put_sm s2 ci (m\<lparr>sm_head := 0, sm_last := 0, sm_val := 1, task_lock := sl_new\<rparr>)))))"

section \<open>Locks are never acquired\<close>

text \<open>The values that a lock takes, under any sequence of the three operations.\<close>

inductive lock_reach :: "int \<Rightarrow> bool" where
  created: "lock_reach sl_new"
| released: "lock_reach sl \<Longrightarrow> lock_reach (sl_release sl)"
| acquired: "lock_reach sl \<Longrightarrow> sl_acquire sl = Inr t \<Longrightarrow> lock_reach t"

lemma lock_reach_zero: "lock_reach sl \<Longrightarrow> sl = 0"
  by (induction rule: lock_reach.induct) (auto simp: sl_new_def sl_release_def sl_acquire_def)

definition wf_sync :: "sync \<Rightarrow> bool" where
  "wf_sync s \<longleftrightarrow> (\<forall>l\<in>set (sm_lists s). length l = SM_PER_LIST)"

lemma get_put_sm:
  assumes "get_sm s ci = Inr m"
  shows "get_sm (put_sm s ci m') ci = Inr m'"
  using assms by (auto simp: get_sm_def put_sm_def arr_get_def split: prod.splits if_splits)

lemma put_sm_frame [simp]:
  "tsk (put_sm s ci m) = tsk s" "sm_num (put_sm s ci m) = sm_num s" "sm_tasks (put_sm s ci m) = sm_tasks s"
  "length (sm_lists (put_sm s ci m)) = length (sm_lists s)"
  by (auto simp: put_sm_def split: prod.splits)

lemma sm_from_id_put: "sm_from_id (put_sm s ci m) chunk i = sm_from_id s chunk i"
  by (induction s chunk i rule: sm_from_id.induct)
    (subst (1 2) sm_from_id.simps, simp)

section \<open>Properties\<close>



text \<open>
  \<open>sm_wait\<close> never blocks, whatever the semaphore's value: the counter is unsigned, so
  the test for a negative value fails, the value goes down by one (wrapping around at 0)
  and the caller goes on with the scheduler untouched. A semaphore excludes nobody.
\<close>

theorem sm_wait_never_blocks:
  assumes "sm_from_id s 0 i = Inr ci" and "get_sm s ci = Inr m"
  shows "\<exists>s'. sm_wait s i regs = Inr s' \<and> get_sm s' ci = Inr (m\<lparr>sm_val := sm_val m - 1\<rparr>) \<and> tsk s' = tsk s"
proof -
  have "\<not> uint (sm_val m - 1) < 0" by simp
  then show ?thesis using assms get_put_sm[OF assms(2), of "m\<lparr>sm_val := sm_val m - 1\<rparr>"]
    by (simp add: sm_wait_def sm_unsafe_wait_def Let_def)
qed

definition one_semaphore :: sync where
  "one_semaphore = \<lparr>sm_lists = [replicate 1024 \<lparr>task_lock = 0, sm_head = 0, sm_last = 0, sm_val = 1\<rparr>],
     sm_num = 1, sm_tasks = (\<lambda>_. None), tsk = two_tasks False False\<rparr>"

lemma one_semaphore_ok:
  "sm_from_id one_semaphore 0 0 = Inr (0, 0)"
  "get_sm one_semaphore (0, 0) = Inr \<lparr>task_lock = 0, sm_head = 0, sm_last = 0, sm_val = 1\<rparr>"
  by (subst sm_from_id.simps) (simp_all add: SM_PER_LIST_def get_sm_def one_semaphore_def arr_get_def)

theorem sm_wait_never_blocks_witness:
  "\<exists>s'. sm_wait one_semaphore 0 no_registers = Inr s' \<and> tsk s' = tsk one_semaphore"
  using sm_wait_never_blocks[OF one_semaphore_ok] by blast

text \<open>
  \<open>sm_signal\<close> raises the value and wakes nobody, except when the value wraps around to
  0, where it tries to take the semaphore's lock and spins for ever: on a semaphore of
  value 1, two waits and a signal stop the kernel.
\<close>

theorem sm_signal_hangs_at_zero:
  assumes "sm_from_id s 0 i = Inr ci" and "get_sm s ci = Inr m" and "lock_reach (task_lock m)"
  shows "(if sm_val m = - 1 then sm_signal s i = Inl Hang
      else \<exists>s'. sm_signal s i = Inr s' \<and> get_sm s' ci = Inr (m\<lparr>sm_val := sm_val m + 1\<rparr>) \<and> tsk s' = tsk s)"
proof -
  have g: "get_sm (put_sm s ci (m\<lparr>sm_val := sm_val m + 1\<rparr>)) ci = Inr (m\<lparr>sm_val := sm_val m + 1\<rparr>)"
    by (rule get_put_sm[OF assms(2)])
  have z: "uint (sm_val m + 1) \<le> 0 \<longleftrightarrow> sm_val m = - 1"
  proof -
    have "uint x \<le> 0 \<longleftrightarrow> x = 0" for x :: u32 using uint_ge_0[of x] by (auto simp: order_antisym_conv word_uint_eq_iff)
    then show ?thesis by (simp only: add_eq_0_iff2)
  qed
  show ?thesis
    using assms(1,2) g get_put_sm[OF assms(2), of "m\<lparr>sm_val := 0\<rparr>"] z lock_reach_zero[OF assms(3)]
    by (simp add: sm_signal_def sm_unsafe_signal_def Let_def sm_dequeue_def sl_acquire_def)
qed

theorem sm_signal_hangs_at_zero_witness:
  "res_bind (sm_wait one_semaphore 0 no_registers) (\<lambda>s1. res_bind (sm_wait s1 0 no_registers) (\<lambda>s2. sm_signal s2 0))
     = Inl Hang"
proof -
  let ?m = "\<lambda>v. \<lparr>task_lock = 0, sm_head = 0, sm_last = 0, sm_val = v\<rparr>"
  let ?s = "\<lambda>v. put_sm one_semaphore (0, 0) (?m v)"
  have f: "sm_from_id (?s v) 0 0 = Inr (0, 0)" and g: "get_sm (?s v) (0, 0) = Inr (?m v)" for v
    using one_semaphore_ok get_put_sm[OF one_semaphore_ok(2)] by (simp_all add: sm_from_id_put)
  have p: "put_sm (?s v) (0, 0) (?m w) = ?s w" for v w
    by (simp add: put_sm_def one_semaphore_def)
  have "sm_wait one_semaphore 0 no_registers = Inr (?s 0)"
    using one_semaphore_ok by (simp add: sm_wait_def sm_unsafe_wait_def)
  moreover have "sm_wait (?s 0) 0 no_registers = Inr (?s (- 1))"
    using f[of 0] g[of 0] p[of 0 "- 1"] by (simp add: sm_wait_def sm_unsafe_wait_def)
  moreover have "sm_signal (?s (- 1)) 0 = Inl Hang"
    using sm_signal_hangs_at_zero[OF f g] lock_reach.created by (simp add: sl_new_def)
  ultimately show ?thesis by simp
qed

text \<open>
  Past the first 1024 semaphores \<open>sm_new\<close> returns the index in the chunk, not the id: the
  semaphore it sets up is never found again, and the id it returns is the one of an older
  semaphore in the first chunk.
\<close>

theorem sm_new_ids_collide:
  assumes "unat (sm_num s) = 1024 + k" and "k < 1024" and "sm_lists s = [c1, c2]"
    and "length c1 = 1024" and "length c2 = 1024"
  shows "\<exists>s'. sm_new junk s = Inr (int k, s') \<and> sm_from_id s' 0 (int k) = Inr (0, int k) \<and>
    get_sm s' (0, int k) = Inr (c1 ! k) \<and>
    get_sm s' (1, int k) = Inr \<lparr>task_lock = 0, sm_head = 0, sm_last = 0, sm_val = 1\<rparr>"
proof -
  let ?n = "sm_num s"
  have le: "1024 \<le> ?n" using assms(1) by (simp add: word_le_nat_alt)
  have k: "unat (?n - 1024) = k" using le assms(1) by (simp add: unat_sub)
  then have nle: "\<not> 1024 \<le> ?n - 1024" using assms(2) by (simp add: word_le_nat_alt)
  let ?s1 = "s\<lparr>sm_num := ?n + 1\<rparr>"
  have pl: "sm_place junk ?s1 0 ?n = Inr (1, ?n - 1024, ?s1)"
    using le nle assms(3) by (subst sm_place.simps, simp add: SM_PER_LIST_def)
      (subst sm_place.simps, simp add: SM_PER_LIST_def)
  have u: "uint (?n - 1024) = int k" using k by (metis of_nat_unat)
  have si: "sint (?n - 1024) = int k" using sint_eq_unat[of "?n - 1024"] k assms(2) by simp
  have g: "get_sm ?s1 (1, int k) = Inr (c2 ! k)"
    using assms(2,3,5) by (simp add: get_sm_def)
  let ?s2 = "put_sm ?s1 (1, int k) \<lparr>task_lock = 0, sm_head = 0, sm_last = 0, sm_val = 1\<rparr>"
  have "sm_new junk s = Inr (int k, ?s2)"
    using assms(3) pl u si g by (cases "c2 ! k") (simp add: sm_new_def Let_def sl_new_def)
  moreover have "sm_from_id ?s2 0 (int k) = Inr (0, int k)"
    using assms(2) by (subst sm_from_id.simps) (simp add: SM_PER_LIST_def)
  moreover have "get_sm ?s2 (0, int k) = Inr (c1 ! k)"
    using assms(2,3,4) by (simp add: get_sm_def put_sm_def)
  moreover have "get_sm ?s2 (1, int k) = Inr \<lparr>task_lock = 0, sm_head = 0, sm_last = 0, sm_val = 1\<rparr>"
    by (rule get_put_sm[OF g])
  ultimately show ?thesis by blast
qed

theorem sm_new_ids_collide_witness:
  "\<exists>s'. sm_new [] (one_semaphore\<lparr>sm_num := 1029, sm_lists := sm_lists one_semaphore @ sm_lists one_semaphore\<rparr>) = Inr (5, s') \<and>
    sm_from_id s' 0 5 = Inr (0, 5)"
proof -
  let ?c = "replicate 1024 \<lparr>task_lock = 0, sm_head = 0, sm_last = 0, sm_val = 1\<rparr> :: semaphore list"
  show ?thesis
    using sm_new_ids_collide[of "one_semaphore\<lparr>sm_num := 1029, sm_lists := [?c, ?c]\<rparr>" 5 ?c ?c "[]"]
    by (auto simp: one_semaphore_def)
qed

end
