(* ===== verification/Vfs.thy ===== *)
theory Vfs
  imports Kstring
begin

text \<open>
  The virtual file system (\<^verbatim>\<open>include/kernel/vfs.h\<close>, \<^verbatim>\<open>src/kernel/x86_32/vfs.c\<close>): nodes with a
  table of driver functions each of which may be missing, mount points, and the dispatching
  functions \<open>fs_read\<close> to \<open>fs_finddir\<close>. A table's functions act on the driver's state, which
  extends the record \<open>vfs\<close> of nodes.
\<close>

section \<open>Nodes\<close>

definition FS_MAX_NAME_LEN :: nat where "FS_MAX_NAME_LEN = 128"
definition FS_FILE :: u32 where "FS_FILE = 1"
definition FS_DIRECTORY :: u32 where "FS_DIRECTORY = 2"
definition FS_MOUNT :: u32 where "FS_MOUNT = 8"

text \<open>
  The nodes that the code has: its globals \<open>root\<close>, \<open>dev\<close> and \<open>initrd\<close>, the initrd's own
  directory and files, and those that a driver allocates.
\<close>

datatype node_ptr = RootNode | DevNode | InitrdNode | RealInitrd | InitrdFile nat | HeapNode nat

datatype vtable_ptr = RootVtable | InitrdVtable | Ext2FileVtable | Ext2DirVtable

record fs_node =
  name_len :: u32
  name :: "u8 list"
  inode :: u32
  flags :: u32
  perm_mask :: u32
  gid :: u32
  uid :: u32
  fsize :: u32
  dri_res_i :: u32
  vtable :: "vtable_ptr option"
  mount :: "node_ptr option"

record fs_dirent =
  d_name :: "u8 list"
  d_name_len :: u32
  d_inode :: u32

record vfs =
  nodes :: "node_ptr \<Rightarrow> fs_node option"

text \<open>\<open>struct fs_vtable\<close>: a null pointer is \<open>None\<close>. \<open>read\<close> and \<open>write\<close> return the buffer too.\<close>

record 's fs_vtable =
  v_read :: "('s \<Rightarrow> node_ptr \<Rightarrow> u32 \<Rightarrow> u32 \<Rightarrow> u8 list \<Rightarrow> (u32 \<times> u8 list \<times> 's) res) option"
  v_write :: "('s \<Rightarrow> node_ptr \<Rightarrow> u32 \<Rightarrow> u32 \<Rightarrow> u8 list \<Rightarrow> (u32 \<times> 's) res) option"
  v_open :: "('s \<Rightarrow> node_ptr \<Rightarrow> 's res) option"
  v_close :: "('s \<Rightarrow> node_ptr \<Rightarrow> 's res) option"
  v_readdir :: "('s \<Rightarrow> node_ptr \<Rightarrow> u32 \<Rightarrow> fs_dirent \<Rightarrow> (bool \<times> fs_dirent) res) option"
  v_finddir :: "('s \<Rightarrow> node_ptr \<Rightarrow> u8 list \<Rightarrow> u32 \<Rightarrow> (node_ptr option \<times> 's) res) option"

type_synonym 's drivers = "vtable_ptr \<Rightarrow> 's fs_vtable"

section \<open>Dispatch\<close>

definition deref :: "'a vfs_scheme \<Rightarrow> node_ptr \<Rightarrow> fs_node res" where
  "deref s p = (case nodes s p of None \<Rightarrow> Inl NullDeref | Some n \<Rightarrow> Inr n)"

text \<open>\<open>if (node->mount) node = node->mount;\<close>\<close>

definition follow_mount :: "'a vfs_scheme \<Rightarrow> node_ptr \<Rightarrow> (node_ptr \<times> fs_node) res" where
  "follow_mount s p =
     res_bind (deref s p) (\<lambda>n.
     case mount n of
       None \<Rightarrow> Inr (p, n)
     | Some q \<Rightarrow> res_bind (deref s q) (\<lambda>m. Inr (q, m)))"

text \<open>The driver function that a node's table has, if it has a table and the function.\<close>

definition driver_op :: "'s drivers \<Rightarrow> fs_node \<Rightarrow> ('s fs_vtable \<Rightarrow> 'f option) \<Rightarrow> 'f option" where
  "driver_op ops n sel = (case vtable n of None \<Rightarrow> None | Some v \<Rightarrow> sel (ops v))"

definition fs_read :: "'a vfs_scheme drivers \<Rightarrow> 'a vfs_scheme \<Rightarrow> node_ptr \<Rightarrow> u32 \<Rightarrow> u32 \<Rightarrow> u8 list \<Rightarrow> (u32 \<times> u8 list \<times> 'a vfs_scheme) res" where
  "fs_read ops s p offset sz buf =
     res_bind (follow_mount s p) (\<lambda>(q, n).
     case driver_op ops n v_read of None \<Rightarrow> Inr (0, buf, s) | Some f \<Rightarrow> f s q offset sz buf)"

definition fs_write :: "'a vfs_scheme drivers \<Rightarrow> 'a vfs_scheme \<Rightarrow> node_ptr \<Rightarrow> u32 \<Rightarrow> u32 \<Rightarrow> u8 list \<Rightarrow> (u32 \<times> 'a vfs_scheme) res" where
  "fs_write ops s p offset sz buf =
     res_bind (follow_mount s p) (\<lambda>(q, n).
     case driver_op ops n v_write of None \<Rightarrow> Inr (0, s) | Some f \<Rightarrow> f s q offset sz buf)"

definition fs_open :: "'a vfs_scheme drivers \<Rightarrow> 'a vfs_scheme \<Rightarrow> node_ptr \<Rightarrow> 'a vfs_scheme res" where
  "fs_open ops s p =
     res_bind (follow_mount s p) (\<lambda>(q, n).
     case driver_op ops n v_open of None \<Rightarrow> Inr s | Some f \<Rightarrow> f s q)"

definition fs_close :: "'a vfs_scheme drivers \<Rightarrow> 'a vfs_scheme \<Rightarrow> node_ptr \<Rightarrow> 'a vfs_scheme res" where
  "fs_close ops s p =
     res_bind (follow_mount s p) (\<lambda>(q, n).
     case driver_op ops n v_close of None \<Rightarrow> Inr s | Some f \<Rightarrow> f s q)"

definition fs_readdir :: "'a vfs_scheme drivers \<Rightarrow> 'a vfs_scheme \<Rightarrow> node_ptr \<Rightarrow> u32 \<Rightarrow> fs_dirent \<Rightarrow> (bool \<times> fs_dirent) res" where
  "fs_readdir ops s p index out =
     res_bind (follow_mount s p) (\<lambda>(q, n).
     case driver_op ops n v_readdir of
       None \<Rightarrow> Inr (False, out)
     | Some f \<Rightarrow> if flags n AND 7 \<noteq> FS_DIRECTORY then Inr (False, out) else f s q index out)"

definition fs_finddir :: "'a vfs_scheme drivers \<Rightarrow> 'a vfs_scheme \<Rightarrow> node_ptr \<Rightarrow> u8 list \<Rightarrow> u32 \<Rightarrow> (node_ptr option \<times> 'a vfs_scheme) res" where
  "fs_finddir ops s p nm nl =
     res_bind (follow_mount s p) (\<lambda>(q, n).
     case driver_op ops n v_finddir of
       None \<Rightarrow> Inr (None, s)
     | Some f \<Rightarrow> if flags n AND 7 \<noteq> FS_DIRECTORY then Inr (None, s) else f s q nm nl)"

text \<open>The functions of the root and device directories, which no table points to.\<close>

definition root_readdir :: "node_ptr \<Rightarrow> u32 \<Rightarrow> fs_dirent \<Rightarrow> (bool \<times> fs_dirent) res" where
  "root_readdir p index out =
     (if p = RootNode \<and> index = 0 then
        res_bind (memcpy (d_name out) [100, 101, 118, 0] 4) (\<lambda>nm.
        Inr (True, out\<lparr>d_name := nm, d_inode := - 1\<rparr>))
      else Inr (False, out))"

definition root_finddir :: "node_ptr \<Rightarrow> u8 list \<Rightarrow> u32 \<Rightarrow> node_ptr option res" where
  "root_finddir p nm nl =
     res_bind (strncmp nm [100, 101, 118, 0] (unat nl)) (\<lambda>r. Inr (if r = 0 then Some DevNode else None))"

definition dev_readdir :: "node_ptr \<Rightarrow> u32 \<Rightarrow> fs_dirent \<Rightarrow> (bool \<times> fs_dirent) res" where
  "dev_readdir p index out =
     (if p = DevNode \<and> index = 0 then
        res_bind (memcpy (d_name out) [100, 105, 114, 101, 110, 116, 0] 7) (\<lambda>nm.
        Inr (True, out\<lparr>d_name := nm, d_inode := - 1\<rparr>))
      else Inr (False, out))"

definition dev_finddir :: "node_ptr \<Rightarrow> u8 list \<Rightarrow> u32 \<Rightarrow> node_ptr option res" where
  "dev_finddir p nm nl =
     (if p \<noteq> DevNode then Inr None
      else res_bind (strncmp nm [105, 110, 105, 116, 114, 100, 0] (min (unat nl) FS_MAX_NAME_LEN)) (\<lambda>r.
           Inr (if r = 0 then Some InitrdNode else None)))"

definition empty_vtable :: "'s fs_vtable" where
  "empty_vtable = \<lparr>v_read = None, v_write = None, v_open = None, v_close = None,
     v_readdir = None, v_finddir = None\<rparr>"

section \<open>Mounting\<close>

definition set_node :: "'a vfs_scheme \<Rightarrow> node_ptr \<Rightarrow> fs_node \<Rightarrow> 'a vfs_scheme" where
  "set_node s p n = s\<lparr>nodes := (nodes s)(p := Some n)\<rparr>"

definition init_vfs :: "'a vfs_scheme \<Rightarrow> 'a vfs_scheme res" where
  "init_vfs s =
     res_bind (deref s RootNode) (\<lambda>n.
     Inr (set_node s RootNode (n\<lparr>mount := None, inode := 0, flags := FS_DIRECTORY, perm_mask := - 1,
       gid := 0, uid := 0, fsize := 0, vtable := Some RootVtable\<rparr>)))"

definition fs_mount :: "'a vfs_scheme \<Rightarrow> node_ptr \<Rightarrow> node_ptr \<Rightarrow> (u32 \<times> 'a vfs_scheme) res" where
  "fs_mount s target source =
     res_bind (deref s target) (\<lambda>t.
     if flags t XOR FS_DIRECTORY \<noteq> 0 then Inr (1, s)
     else if flags t AND FS_MOUNT \<noteq> 0 then Inr (2, s)
     else
       res_bind (deref s source) (\<lambda>src.
       if flags src XOR FS_DIRECTORY \<noteq> 0 then Inr (3, s)
       else Inr (0, set_node s target (t\<lparr>flags := flags t OR FS_MOUNT, mount := Some source\<rparr>))))"

section \<open>Lemmas\<close>

lemma xor_zero_iff: "(a XOR b = 0) \<longleftrightarrow> a = (b :: 'a::len word)"
  by (metis xor.assoc xor.comm_neutral xor_self_eq)

lemma fs_mount_cases:
  assumes "nodes s target = Some t" "nodes s source = Some src"
  shows "fs_mount s target source =
    (if flags t \<noteq> 2 then Inr (1, s) else if flags src \<noteq> 2 then Inr (3, s)
     else Inr (0, set_node s target (t\<lparr>flags := 10, mount := Some source\<rparr>)))"
  using assms by (simp add: fs_mount_def deref_def xor_zero_iff FS_DIRECTORY_def FS_MOUNT_def)

section \<open>Properties\<close>

text \<open>
  \<open>fs_mount\<close> succeeds exactly when both nodes' flags are those of a plain directory, and
  then sets the target's mount and flag and nothing else. Mounting again on a mount point
  gives 1, not the 2 that the interface documents: that value is never returned.
\<close>

theorem fs_mount_result:
  assumes "nodes s target = Some t" and "nodes s source = Some src"
  shows "fs_mount s target source =
      (if flags t \<noteq> 2 then Inr (1, s) else if flags src \<noteq> 2 then Inr (3, s)
       else Inr (0, set_node s target (t\<lparr>flags := 10, mount := Some source\<rparr>))) \<and>
    (\<forall>s1. fs_mount s target source = Inr (0, s1) \<longrightarrow> fs_mount s1 target source = Inr (1, s1))"
proof (intro conjI allI impI)
  show "fs_mount s target source =
      (if flags t \<noteq> 2 then Inr (1, s) else if flags src \<noteq> 2 then Inr (3, s)
       else Inr (0, set_node s target (t\<lparr>flags := 10, mount := Some source\<rparr>)))"
    by (rule fs_mount_cases[OF assms])
next
  fix s1 assume "fs_mount s target source = Inr (0, s1)"
  then have "s1 = set_node s target (t\<lparr>flags := 10, mount := Some source\<rparr>)"
    using fs_mount_cases[OF assms] by (auto split: if_splits)
  then show "fs_mount s1 target source = Inr (1, s1)"
    by (simp add: fs_mount_def deref_def set_node_def xor_zero_iff FS_DIRECTORY_def)
qed

definition plain_node :: "u32 \<Rightarrow> fs_node" where
  "plain_node fl = \<lparr>name_len = 0, name = replicate 128 0, inode = 0, flags = fl, perm_mask = 0, gid = 0,
     uid = 0, fsize = 0, dri_res_i = 0, vtable = Some InitrdVtable, mount = None\<rparr>"

definition two_dirs :: vfs where
  "two_dirs = \<lparr>nodes = [RootNode \<mapsto> plain_node 2, RealInitrd \<mapsto> plain_node 2]\<rparr>"

theorem fs_mount_result_witness:
  "\<exists>s1. fs_mount two_dirs RootNode RealInitrd = Inr (0, s1) \<and> fs_mount s1 RootNode RealInitrd = Inr (1, s1)"
  using fs_mount_result[of two_dirs RootNode "plain_node 2" RealInitrd "plain_node 2"]
  by (simp add: two_dirs_def plain_node_def)

text \<open>
  After a successful mount, reading a directory entry or looking a name up through the
  mount point does what it does through the mounted directory, where that is itself no mount
  point.
\<close>

theorem mount_point_dispatch:
  assumes "fs_mount s target source = Inr (0, s1)" and "nodes s source = Some src"
    and "mount src = None" and "source \<noteq> target"
  shows "fs_readdir ops s1 target index out = fs_readdir ops s1 source index out \<and>
    fs_finddir ops s1 target nm nl = fs_finddir ops s1 source nm nl \<and>
    fs_read ops s1 target offset sz buf = fs_read ops s1 source offset sz buf"
proof -
  obtain t where t: "nodes s target = Some t"
    using assms(1) by (cases "nodes s target") (auto simp: fs_mount_def deref_def)
  have "s1 = set_node s target (t\<lparr>flags := 10, mount := Some source\<rparr>)"
    using assms(1) fs_mount_cases[OF t assms(2)] by (auto split: if_splits)
  then have "follow_mount s1 target = follow_mount s1 source"
    using assms(2-4) by (simp add: follow_mount_def deref_def set_node_def)
  then show ?thesis by (simp add: fs_readdir_def fs_finddir_def fs_read_def)
qed

definition dir_driver :: "vfs fs_vtable" where
  "dir_driver = empty_vtable\<lparr>v_readdir := Some (\<lambda>s p i d. Inr (True, d\<lparr>d_inode := 7\<rparr>))\<rparr>"

theorem mount_point_dispatch_witness:
  "\<exists>s1. fs_mount two_dirs RootNode RealInitrd = Inr (0, s1) \<and>
    fs_readdir (\<lambda>_. dir_driver) s1 RootNode 0 \<lparr>d_name = [], d_name_len = 0, d_inode = 0\<rparr> =
      Inr (True, \<lparr>d_name = [], d_name_len = 0, d_inode = 7\<rparr>)"
proof -
  let ?d = "\<lparr>d_name = [], d_name_len = 0, d_inode = 0\<rparr>"
  obtain s1 where s1: "fs_mount two_dirs RootNode RealInitrd = Inr (0, s1)"
    and e: "s1 = set_node two_dirs RootNode ((plain_node 2)\<lparr>flags := 10, mount := Some RealInitrd\<rparr>)"
    using fs_mount_cases[of two_dirs RootNode "plain_node 2" RealInitrd "plain_node 2"]
    by (simp add: two_dirs_def plain_node_def)
  have n: "nodes two_dirs RealInitrd = Some (plain_node 2)" "mount (plain_node 2) = None"
    by (simp_all add: two_dirs_def plain_node_def)
  have "fs_readdir (\<lambda>_. dir_driver) s1 RealInitrd 0 ?d = Inr (True, ?d\<lparr>d_inode := 7\<rparr>)"
    by (simp add: e fs_readdir_def follow_mount_def deref_def set_node_def n driver_op_def dir_driver_def)
      (simp add: plain_node_def FS_DIRECTORY_def)
  with mount_point_dispatch[OF s1 n, of "\<lambda>_. dir_driver" 0 ?d] s1 show ?thesis by auto
qed

end
