(* ===== verification/Initrd.thy ===== *)
theory Initrd
  imports Vfs Bytes
begin

text \<open>
  The initial ram disk: the program that writes an image (\<^verbatim>\<open>src/mkinitrd/main.c\<close>,
  \<^verbatim>\<open>include/initrd/initrd.h\<close>) and the kernel's driver that reads it
  (\<^verbatim>\<open>src/kernel/x86_32/vfs_initrd.c\<close>). An image is a list of bytes, pointers into it are
  offsets, and reading past its end is a fault.
\<close>

section \<open>The image format\<close>

definition INITRD_MAGIC :: u32 where "INITRD_MAGIC = 0xaa77dbf6"

section \<open>Writing an image\<close>

text \<open>
  An \<open>unsigned long\<close> has \<open>long\<close> bytes on the machine that runs \<open>mkinitrd\<close>: 4 or 8. The numbers
  written are below \<open>2 ^ 32\<close>, so the upper bytes are zero.
\<close>

definition put_long :: "nat \<Rightarrow> u32 \<Rightarrow> u8 list" where
  "put_long long v = le32 v @ replicate (long - 4) 0"

definition global_header :: "nat \<Rightarrow> nat \<Rightarrow> u8 list" where
  "global_header long n = le32 INITRD_MAGIC @ put_long long (of_nat n)"

definition file_header :: "nat \<Rightarrow> u8 list \<Rightarrow> nat \<Rightarrow> u8 list res" where
  "file_header long nm n =
     res_bind (strcpy (replicate 64 0) nm) (\<lambda>b. Inr (b @ put_long long (of_nat n)))"

text \<open>\<open>while ((c = getc(in)) != EOF)\<close> with a signed \<open>char c\<close>: byte 0xFF is taken for the end.\<close>

definition copied_bytes :: "u8 list \<Rightarrow> u8 list" where
  "copied_bytes content = takeWhile (\<lambda>c. sint c \<noteq> - 1) content"

fun write_files :: "nat \<Rightarrow> (u8 list \<Rightarrow> u8 list option) \<Rightarrow> u8 list list \<Rightarrow> u8 list \<Rightarrow> (int \<times> u8 list) res" where
  "write_files long fs [] out = Inr (0, out)"
| "write_files long fs (arg # args) out =
     (case fs arg of
        None \<Rightarrow> Inr (2, out)
      | Some content \<Rightarrow>
          res_bind (file_header long arg (length content)) (\<lambda>h.
          write_files long fs args (out @ h @ copied_bytes content)))"

text \<open>
  \<open>main\<close>: the exit code, and the name and contents of the output file once it is open.
  Arguments are C strings with their zero byte; \<open>fs\<close> opens an input, \<open>can_write\<close> an output.
  The name \<open>-\<close> makes \<open>stdin\<close> the output, to which nothing can be written.
\<close>

definition mkinitrd_main ::
    "nat \<Rightarrow> (u8 list \<Rightarrow> u8 list option) \<Rightarrow> (u8 list \<Rightarrow> bool) \<Rightarrow> u8 list list \<Rightarrow> (int \<times> (u8 list \<times> u8 list) option) res" where
  "mkinitrd_main long fs can_write argv =
     (if length argv = 1 then Inr (1, None)
      else if 1 < length argv \<and> argv ! 1 = [45, 104, 0] then Inr (0, None)
      else if argv ! 1 = [45, 0] then
        res_bind (write_files long fs (drop 2 argv) []) (\<lambda>(code, out). Inr (code, None))
      else if \<not> can_write (argv ! 1) then Inr (1, None)
      else
        res_bind (write_files long fs (drop 2 argv) (global_header long (length argv - 2))) (\<lambda>(code, out).
        Inr (code, Some (argv ! 1, out))))"

section \<open>Reading an image\<close>

record initrd_fs_entry =
  e_name :: nat
  e_data :: nat
  e_size :: u32

record initrd_fs = vfs +
  image :: "u8 list"
  entries :: "initrd_fs_entry list"
  num_initrd_files :: u32

definition c_string_at :: "u8 list \<Rightarrow> nat \<Rightarrow> u8 list" where
  "c_string_at d i = drop i d"

definition initrd_readdir :: "initrd_fs \<Rightarrow> node_ptr \<Rightarrow> u32 \<Rightarrow> fs_dirent \<Rightarrow> (bool \<times> fs_dirent) res" where
  "initrd_readdir s p i out =
     (if p \<noteq> RealInitrd then Inr (False, out)
      else if num_initrd_files s \<le> i then Inr (False, out)
      else
        res_bind (arr_get (entries s) (uint i)) (\<lambda>e.
        res_bind (strlen (c_string_at (image s) (e_name e))) (\<lambda>n.
        res_bind (memcpy (d_name out) (c_string_at (image s) (e_name e)) (n + 1)) (\<lambda>nm.
        Inr (True, out\<lparr>d_name := nm, d_inode := i\<rparr>)))))"

text \<open>The loop over the entries, \<open>i\<close> counting those already seen.\<close>

fun find_entry :: "u8 list \<Rightarrow> u8 list \<Rightarrow> nat \<Rightarrow> initrd_fs_entry list \<Rightarrow> nat \<Rightarrow> nat option res" where
  "find_entry img nm n [] i = Inr None"
| "find_entry img nm n (e # es) i =
     res_bind (strncmp (c_string_at img (e_name e)) nm n) (\<lambda>r.
     if r = 0 then Inr (Some i) else find_entry img nm n es (Suc i))"

definition initrd_finddir :: "initrd_fs \<Rightarrow> node_ptr \<Rightarrow> u8 list \<Rightarrow> u32 \<Rightarrow> (node_ptr option \<times> initrd_fs) res" where
  "initrd_finddir s p nm nl =
     (if p \<noteq> RealInitrd then Inr (None, s)
      else
        res_bind (find_entry (image s) nm (min FS_MAX_NAME_LEN (unat nl)) (take (unat (num_initrd_files s)) (entries s)) 0)
          (\<lambda>r. Inr (map_option InitrdFile r, s)))"

definition initrd_open :: "initrd_fs \<Rightarrow> node_ptr \<Rightarrow> initrd_fs res" where "initrd_open s p = Inr s"
definition initrd_close :: "initrd_fs \<Rightarrow> node_ptr \<Rightarrow> initrd_fs res" where "initrd_close s p = Inr s"

definition initrd_read :: "initrd_fs \<Rightarrow> node_ptr \<Rightarrow> u32 \<Rightarrow> u32 \<Rightarrow> u8 list \<Rightarrow> (u32 \<times> u8 list \<times> initrd_fs) res" where
  "initrd_read s p offset sz buf =
     res_bind (deref s p) (\<lambda>n.
     if fsize n < offset then Inr (0, buf, s)
     else
       let sz1 = min sz (fsize n - offset) in
       res_bind (arr_get (entries s) (uint (dri_res_i n))) (\<lambda>e.
       res_bind (memcpy buf (drop (e_data e) (image s)) (unat sz1)) (\<lambda>b. Inr (sz1, b, s))))"

definition initrd_vtable :: "initrd_fs fs_vtable" where
  "initrd_vtable = \<lparr>v_read = Some initrd_read, v_write = None, v_open = Some initrd_open,
     v_close = Some initrd_close, v_readdir = Some initrd_readdir, v_finddir = Some initrd_finddir\<rparr>"

text \<open>\<open>unsigned long\<close> has 4 bytes in the kernel: headers of 8 and of 68 bytes.\<close>

definition GLOBAL_HEADER_SIZE :: nat where "GLOBAL_HEADER_SIZE = 8"
definition FILE_HEADER_SIZE :: nat where "FILE_HEADER_SIZE = 68"

text \<open>The loop of \<open>init_initrd_vfs\<close>: \<open>n\<close> more files, the next header at \<open>f\<close>.\<close>

fun parse_files :: "u8 list \<Rightarrow> nat \<Rightarrow> nat \<Rightarrow> initrd_fs_entry list res" where
  "parse_files d 0 f = Inr []"
| "parse_files d (Suc n) f =
     res_bind (word_from d (f + 64)) (\<lambda>sz.
     res_bind (strlen (c_string_at d f)) (\<lambda>_.
     res_bind (parse_files d n (f + FILE_HEADER_SIZE + unat sz)) (\<lambda>es.
     Inr (\<lparr>e_name = f, e_data = f + FILE_HEADER_SIZE, e_size = sz\<rparr> # es))))"

definition entry_node :: "u8 list \<Rightarrow> nat \<Rightarrow> initrd_fs_entry \<Rightarrow> fs_node" where
  "entry_node d i e = \<lparr>name_len = 0,
     name = takeWhile (\<lambda>c. c \<noteq> 0) (c_string_at d (e_name e)) @
       replicate (128 - length (takeWhile (\<lambda>c. c \<noteq> 0) (c_string_at d (e_name e)))) 0,
     inode = 0, flags = FS_FILE, perm_mask = 0x149, gid = 0, uid = 0, fsize = e_size e, dri_res_i = of_nat i,
     vtable = Some InitrdVtable, mount = None\<rparr>"

definition real_initrd_node :: fs_node where
  "real_initrd_node = \<lparr>name_len = 0, name = replicate 128 0, inode = 0, flags = FS_DIRECTORY, perm_mask = 0,
     gid = 0, uid = 0, fsize = 0, dri_res_i = 0, vtable = Some InitrdVtable, mount = None\<rparr>"

definition init_initrd_vfs :: "initrd_fs \<Rightarrow> u8 list \<Rightarrow> initrd_fs res" where
  "init_initrd_vfs s d =
     res_bind (word_from d 0) (\<lambda>magic.
     if magic \<noteq> INITRD_MAGIC then Inl (Panic ''initrd magic'')
     else
       res_bind (word_from d 4) (\<lambda>n.
       res_bind (parse_files d (unat n) GLOBAL_HEADER_SIZE) (\<lambda>es.
       let s1 = (set_node s RealInitrd real_initrd_node)\<lparr>image := d, entries := es, num_initrd_files := n\<rparr>;
           s2 = s1\<lparr>nodes := (\<lambda>p. case p of
                  InitrdFile i \<Rightarrow> if i < length es then Some (entry_node d i (es ! i)) else nodes s1 p
                | _ \<Rightarrow> nodes s1 p)\<rparr> in
       res_bind (fs_mount s2 InitrdNode RealInitrd) (\<lambda>(code, s3).
       if code \<noteq> 0 then Inl (Panic ''Failed to mount initrd to /dev/initrd'') else Inr s3))))"

section \<open>Reading back what was written\<close>

lemma strcpy_exact:
  assumes "0 \<notin> set s" "length s < length dest"
  shows "strcpy dest (s @ [0]) = Inr (s @ 0 # drop (Suc (length s)) dest)"
  using assms memcpy_append[of "Suc (length s)" dest "s @ [0]"]
  by (simp add: strcpy_def strlen_append)

text \<open>One file of the image: its name field, its size and its bytes.\<close>

definition name_field :: "u8 list \<Rightarrow> u8 list" where
  "name_field n = n @ 0 # replicate (63 - length n) 0"

definition file_bytes :: "nat \<Rightarrow> u8 list \<times> u8 list \<Rightarrow> u8 list" where
  "file_bytes long f = name_field (fst f) @ put_long long (of_nat (length (snd f))) @ snd f"

definition file_ok :: "u8 list \<times> u8 list \<Rightarrow> bool" where
  "file_ok f \<longleftrightarrow> 0 \<notin> set (fst f) \<and> length (fst f) < 64 \<and> 255 \<notin> set (snd f) \<and> length (snd f) < 2 ^ 32"

lemma name_field_length: "length n < 64 \<Longrightarrow> length (name_field n) = 64"
  by (simp add: name_field_def)

lemma copied_bytes_all: "255 \<notin> set c \<Longrightarrow> copied_bytes c = c"
proof -
  assume "255 \<notin> set c"
  moreover have "sint x \<noteq> - 1" if "x \<noteq> 255" for x :: u8
  proof
    assume "sint x = - 1"
    moreover have "word_of_int (sint x) = x" by simp
    ultimately have "x = - 1" by simp
    then show False using that by simp
  qed
  ultimately have "\<forall>x\<in>set c. sint x \<noteq> - 1" by metis
  then show ?thesis unfolding copied_bytes_def by (simp only: takeWhile_eq_all_conv)
qed

lemma file_header_Inr:
  assumes "0 \<notin> set n" "length n < 64"
  shows "file_header long (n @ [0]) k = Inr (name_field n @ put_long long (of_nat k))"
  using assms by (simp add: file_header_def strcpy_exact name_field_def)

lemma write_files_Inr:
  assumes "\<forall>f\<in>set files. file_ok f \<and> fs (fst f @ [0]) = Some (snd f)"
  shows "write_files long fs (map (\<lambda>f. fst f @ [0]) files) out =
    Inr (0, out @ concat (map (file_bytes long) files))"
  using assms
proof (induction files arbitrary: out)
  case (Cons f files)
  then show ?case
    by (simp add: file_ok_def file_header_Inr copied_bytes_all file_bytes_def)
qed simp

definition entry_for :: "u8 list \<Rightarrow> initrd_fs_entry \<Rightarrow> u8 list \<times> u8 list \<Rightarrow> bool" where
  "entry_for img e f \<longleftrightarrow> cstring (c_string_at img (e_name e)) (fst f) \<and>
     take (length (snd f)) (drop (e_data e) img) = snd f \<and> e_size e = of_nat (length (snd f))"

lemma file_bytes_length: "file_ok f \<Longrightarrow> length (file_bytes 4 f) = FILE_HEADER_SIZE + length (snd f)"
  by (simp add: file_bytes_def file_ok_def name_field_length put_long_def FILE_HEADER_SIZE_def)

lemma entry_for_append:
  assumes "file_ok f"
  shows "entry_for (pre @ file_bytes 4 f @ post)
    \<lparr>e_name = length pre, e_data = length pre + FILE_HEADER_SIZE, e_size = of_nat (length (snd f))\<rparr> f"
proof -
  have "cstring (c_string_at (pre @ file_bytes 4 f @ post) (length pre)) (fst f)"
    using assms by (simp add: c_string_at_def cstring_def file_bytes_def name_field_def file_ok_def)
  moreover have "drop (length pre + FILE_HEADER_SIZE) (pre @ file_bytes 4 f @ post) = snd f @ post"
    using assms
    by (simp add: file_bytes_def file_ok_def name_field_length put_long_def FILE_HEADER_SIZE_def)
  ultimately show ?thesis by (simp add: entry_for_def)
qed

lemma parse_files_Inr:
  assumes "\<forall>f\<in>set files. file_ok f"
  shows "\<exists>es. parse_files (pre @ concat (map (file_bytes 4) files) @ post) (length files) (length pre) = Inr es \<and>
    list_all2 (entry_for (pre @ concat (map (file_bytes 4) files) @ post)) es files"
  using assms
proof (induction files arbitrary: pre)
  case (Cons f files)
  let ?rest = "concat (map (file_bytes 4) files) @ post"
  let ?img = "pre @ file_bytes 4 f @ ?rest"
  have f: "file_ok f" using Cons.prems by simp
  have sz: "unat (of_nat (length (snd f)) :: u32) = length (snd f)"
    using f by (simp add: file_ok_def unat_of_nat)
  have w: "word_from ?img (length pre + 64) = Inr (of_nat (length (snd f)))"
    using word_from_at[of "length pre + 64" "pre @ name_field (fst f)" "of_nat (length (snd f))" "snd f @ ?rest"] f
    by (simp add: file_bytes_def put_long_def name_field_length file_ok_def)
  have n: "\<exists>k. strlen (c_string_at ?img (length pre)) = Inr k"
    using entry_for_append[OF f, of pre ?rest] strlen_cstring by (fastforce simp: entry_for_def)
  have l: "length (pre @ file_bytes 4 f) = length pre + FILE_HEADER_SIZE + length (snd f)"
    using file_bytes_length[OF f] by simp
  obtain es where es: "parse_files ?img (length files) (length pre + FILE_HEADER_SIZE + length (snd f)) = Inr es"
    "list_all2 (entry_for ?img) es files"
    using Cons.IH[of "pre @ file_bytes 4 f"] Cons.prems unfolding l by auto
  show ?case
    using w n sz es entry_for_append[OF f, of pre ?rest] by auto
qed simp

lemma find_entry_first:
  assumes "list_all2 (\<lambda>e n. cstring (c_string_at img (e_name e)) n) es ns" "cstring q nm"
  shows "find_entry img q n es i = Inr (map_option (\<lambda>k. i + k)
    (find (\<lambda>k. take n (ns ! k) = take n nm) [0..<length ns]))"
  using assms(1)
proof (induction es ns arbitrary: i rule: list_all2_induct)
  case (Cons e es x xs)
  obtain r where r: "strncmp (c_string_at img (e_name e)) q n = Inr r" "r = 0 \<longleftrightarrow> take n x = take n nm"
    using strncmp_cstring[OF Cons.hyps(1) assms(2)] by blast
  have shift: "find P [0..<length (x # xs)] = (if P 0 then Some 0 else map_option Suc (find (\<lambda>k. P (Suc k)) [0..<length xs]))"
    for P
  proof -
    have "find P (map Suc ks) = map_option Suc (find (\<lambda>k. P (Suc k)) ks)" for ks
      by (induction ks) auto
    moreover have "[0..<length (x # xs)] = 0 # map Suc [0..<length xs]"
    proof -
      have "[0..<Suc (length xs)] = 0 # [Suc 0..<Suc (length xs)]" by (rule upt_conv_Cons) simp
      then show ?thesis by (simp only: map_Suc_upt list.size(4) One_nat_def add_Suc_right add_0_right)
    qed
    ultimately show ?thesis by simp
  qed
  show ?case using r Cons.IH[of "Suc i"] unfolding shift
    by (auto simp: option.map_comp comp_def)
qed simp

lemma initrd_read_prefix:
  assumes "nodes s p = Some n" "unat (dri_res_i n) < length (entries s)"
    and "entry_for (image s) (entries s ! unat (dri_res_i n)) (nm, content)" "fsize n = of_nat (length content)"
    and "length content < 2 ^ 32" "unat offset \<le> length content" "length content - unat offset \<le> length buf"
  shows "initrd_read s p offset sz buf =
    (let k = min (unat sz) (length content - unat offset) in Inr (of_nat k, take k content @ drop k buf, s))"
proof -
  let ?e = "entries s ! unat (dri_res_i n)"
  have size: "unat (fsize n) = length content" using assms(4,5) by (simp add: unat_of_nat)
  have not: "\<not> fsize n < offset" using assms(6) size by (simp add: word_less_nat_alt)
  let ?k = "min (unat sz) (length content - unat offset)"
  have sub: "unat (fsize n - offset) = length content - unat offset"
    using not size by (subst unat_sub) (simp_all add: not_less)
  have k: "unat (min sz (fsize n - offset)) = ?k"
    using sub by (simp add: min_def word_le_nat_alt)
  then have kw: "min sz (fsize n - offset) = of_nat ?k"
    by (simp only: k[symmetric]) simp
  have d: "take (length content) (drop (e_data ?e) (image s)) = content" using assms(3) by (simp add: entry_for_def)
  then have "length content \<le> length (drop (e_data ?e) (image s))" by (metis length_take min.absorb_iff2 min.commute)
  then have "memcpy buf (drop (e_data ?e) (image s)) ?k = Inr (take ?k (drop (e_data ?e) (image s)) @ drop ?k buf)"
    using assms(7) by (intro memcpy_append) auto
  moreover have "take ?k (drop (e_data ?e) (image s)) = take ?k content"
  proof -
    have "?k \<le> length content" by simp
    then have "take ?k (drop (e_data ?e) (image s)) = take ?k (take (length content) (drop (e_data ?e) (image s)))"
      by (simp only: take_take min.absorb1)
    then show ?thesis by (simp only: d)
  qed
  ultimately show ?thesis
    using assms(1,2) not k kw by (simp add: initrd_read_def deref_def Let_def arr_get_uint)
qed

section \<open>Properties\<close>

text \<open>
  C31. The image that \<open>mkinitrd\<close> writes with a 4-byte \<open>unsigned long\<close>, from files whose names
  fit their field and whose bytes are never 0xFF, is one that the kernel reads back: magic,
  number of files, and for every file, in order, its name, its size and its bytes.
\<close>

theorem initrd_roundtrip:
  assumes "\<forall>f\<in>set files. file_ok f \<and> fs (fst f @ [0]) = Some (snd f)" and "length files < 2 ^ 32"
    and "can_write out" and "out \<noteq> [45, 0]" and "out \<noteq> [45, 104, 0]"
  shows "\<exists>img es. mkinitrd_main 4 fs can_write (prog # out # map (\<lambda>f. fst f @ [0]) files) = Inr (0, Some (out, img)) \<and>
    word_from img 0 = Inr INITRD_MAGIC \<and> word_from img 4 = Inr (of_nat (length files)) \<and>
    parse_files img (length files) GLOBAL_HEADER_SIZE = Inr es \<and> list_all2 (entry_for img) es files"
proof -
  let ?h = "le32 INITRD_MAGIC @ le32 (of_nat (length files))"
  let ?img = "?h @ concat (map (file_bytes 4) files)"
  have "mkinitrd_main 4 fs can_write (prog # out # map (\<lambda>f. fst f @ [0]) files) = Inr (0, Some (out, ?img))"
    using write_files_Inr[OF assms(1), of 4] assms(3-5)
    by (simp add: mkinitrd_main_def global_header_def put_long_def)
  moreover have "word_from ?img 0 = Inr INITRD_MAGIC" by (simp add: word_from_at[of 0 "[]", simplified])
  moreover have "word_from ?img 4 = Inr (of_nat (length files))"
    using word_from_at[of 4 "le32 INITRD_MAGIC"] by simp
  moreover have "\<exists>es. parse_files ?img (length files) 8 = Inr es \<and> list_all2 (entry_for ?img) es files"
    using parse_files_Inr[of files ?h "[]"] assms(1) by simp
  ultimately show ?thesis by (auto simp: GLOBAL_HEADER_SIZE_def)
qed

theorem initrd_roundtrip_witness:
  "\<exists>img es. mkinitrd_main 4 (\<lambda>a. Some [1, 2, 3]) (\<lambda>_. True) [[0], [111, 0], [97, 0]] = Inr (0, Some ([111, 0], img)) \<and>
    parse_files img 1 8 = Inr es"
  using initrd_roundtrip[of "[([97], [1, 2, 3])]" "\<lambda>a. Some [1, 2, 3]" "\<lambda>_. True" "[111, 0]" "[0]"]
  by (auto simp: file_ok_def GLOBAL_HEADER_SIZE_def simp del: parse_files.simps)

text \<open>
  \<open>initrd_finddir\<close> returns the first file whose name agrees with the given one on the
  first \<open>name_len\<close> (at most 128) characters: a name of which it is a prefix is taken too.
\<close>

theorem initrd_finddir_first_match:
  assumes "list_all2 (\<lambda>e n. cstring (c_string_at (image s) (e_name e)) n) (entries s) ns"
    and "unat (num_initrd_files s) = length ns" and "0 \<notin> set nm"
  shows "initrd_finddir s RealInitrd (nm @ 0 # rest) nl =
    Inr (map_option InitrdFile (find (\<lambda>k. take (min 128 (unat nl)) (ns ! k) = take (min 128 (unat nl)) nm) [0..<length ns]), s)"
proof -
  have "length (entries s) = length ns" using assms(1) by (rule list_all2_lengthD)
  then show ?thesis
    using find_entry_first[OF assms(1) cstringI[OF assms(3), of rest], of "min 128 (unat nl)" 0] assms(2)
    by (simp add: initrd_finddir_def FS_MAX_NAME_LEN_def option.map_ident)
qed

definition sample_initrd :: initrd_fs where
  "sample_initrd = \<lparr>nodes = [InitrdFile 0 \<mapsto> (plain_node 1)\<lparr>fsize := 3\<rparr>, InitrdNode \<mapsto> plain_node 0],
     image = [97, 98, 0, 7, 8, 9], entries = [\<lparr>e_name = 0, e_data = 3, e_size = 3\<rparr>], num_initrd_files = 1\<rparr>"

theorem initrd_finddir_first_match_witness:
  "initrd_finddir sample_initrd RealInitrd ([97] @ 0 # []) 1 = Inr (Some (InitrdFile 0), sample_initrd)"
  using initrd_finddir_first_match[of sample_initrd "[[97, 98]]" "[97]" "[]" 1]
  by (simp add: sample_initrd_def c_string_at_def cstring_def)

text \<open>
  \<open>initrd_read\<close> returns as many bytes as lie from \<open>offset\<close> to the end of the file, at most
  \<open>size\<close>, but they are the first bytes of the file, whatever the offset.
\<close>

theorem initrd_read_ignores_offset:
  assumes "nodes s p = Some n" and "unat (dri_res_i n) < length (entries s)"
    and "entry_for (image s) (entries s ! unat (dri_res_i n)) (nm, content)" and "fsize n = of_nat (length content)"
    and "length content < 2 ^ 32" and "unat offset \<le> length content"
    and "length content - unat offset \<le> length buf"
  shows "initrd_read s p offset sz buf =
    (let k = min (unat sz) (length content - unat offset) in Inr (of_nat k, take k content @ drop k buf, s))"
  by (rule initrd_read_prefix[OF assms])

theorem initrd_read_ignores_offset_witness:
  "initrd_read sample_initrd (InitrdFile 0) 1 4 [0, 0, 0, 0] = Inr (2, [7, 8, 0, 0], sample_initrd)"
proof -
  have "nodes sample_initrd (InitrdFile 0) = Some ((plain_node 1)\<lparr>fsize := 3\<rparr>)"
    and "entry_for (image sample_initrd) (entries sample_initrd ! unat (dri_res_i ((plain_node 1)\<lparr>fsize := 3\<rparr>))) ([97, 98], [7, 8, 9])"
    by (simp_all add: sample_initrd_def plain_node_def entry_for_def c_string_at_def cstring_def)
  from initrd_read_ignores_offset[OF this(1) _ this(2), of 1 "[0, 0, 0, 0]" 4] show ?thesis
    by (simp add: sample_initrd_def plain_node_def)
qed

text \<open>
  \<open>init_initrd_vfs\<close> never succeeds as the kernel calls it: nothing makes the node
  \<open>initrd\<close> a directory, so on a well-formed image the mount at the end fails and panics.
\<close>

theorem init_initrd_panics:
  assumes "word_from d 0 = Inr INITRD_MAGIC" and "word_from d 4 = Inr n"
    and "parse_files d (unat n) GLOBAL_HEADER_SIZE = Inr es"
    and "nodes s InitrdNode = Some t" and "flags t = 0"
  shows "init_initrd_vfs s d = Inl (Panic ''Failed to mount initrd to /dev/initrd'')"
  using assms by (simp add: init_initrd_vfs_def Let_def fs_mount_def deref_def set_node_def FS_DIRECTORY_def)

theorem init_initrd_panics_witness:
  "init_initrd_vfs sample_initrd (le32 INITRD_MAGIC @ le32 0) = Inl (Panic ''Failed to mount initrd to /dev/initrd'')"
proof (rule init_initrd_panics)
  show "word_from (le32 INITRD_MAGIC @ le32 0) 0 = Inr INITRD_MAGIC" by (simp add: word_from_at[of 0 "[]", simplified])
  show "word_from (le32 INITRD_MAGIC @ le32 0) 4 = Inr 0" using word_from_at[of 4 "le32 INITRD_MAGIC" 0 "[]"] by simp
  show "parse_files (le32 INITRD_MAGIC @ le32 0) (unat 0) GLOBAL_HEADER_SIZE = Inr []" by simp
  show "nodes sample_initrd InitrdNode = Some (plain_node 0)" by (simp add: sample_initrd_def)
  show "flags (plain_node 0) = 0" by (simp add: plain_node_def)
qed

end
