(* ===== verification/AtaPio.thy ===== *)
theory AtaPio
  imports Sync "HOL-Library.While_Combinator"
begin

text \<open>
  The ATA PIO disk driver (\<^verbatim>\<open>src/kernel/dri/ata_pio/ata_pio.c\<close>) at the level of its port
  accesses, over a device that is a parameter, and the interface \<open>block_device\<close> that the
  file system relies on. The locale is interpreted on the driver's own operations, run on
  a controller that behaves as PIO controllers do: a command sent while a transfer is under
  way is ignored, and the data of consecutive sectors follow each other.
\<close>

section \<open>Ports\<close>

definition ATA_BSY :: u8 where "ATA_BSY = 0x80"
definition ATA_RDY :: u8 where "ATA_RDY = 0x40"
definition ATA_ERR :: u8 where "ATA_ERR = 0x01"
definition ATA_PORT_CMD :: u16 where "ATA_PORT_CMD = 0x1f7"
definition ATA_PORT_DATA :: u16 where "ATA_PORT_DATA = 0x1f0"
definition ATA_PORT_DRIVE_SEL :: u16 where "ATA_PORT_DRIVE_SEL = 0x1f6"
definition ATA_PORT_SECTOR_COUNT :: u16 where "ATA_PORT_SECTOR_COUNT = 0x1f2"
definition ATA_PORT_LBA_LOW :: u16 where "ATA_PORT_LBA_LOW = 0x1f3"
definition ATA_PORT_LBA_MID :: u16 where "ATA_PORT_LBA_MID = 0x1f4"
definition ATA_PORT_LBA_HIGH :: u16 where "ATA_PORT_LBA_HIGH = 0x1f5"
definition ATA_CMD_READ :: u8 where "ATA_CMD_READ = 0x21"
definition ATA_CMD_WRITE :: u8 where "ATA_CMD_WRITE = 0x31"
definition ATA_CMD_FLUSH_CACHE :: u8 where "ATA_CMD_FLUSH_CACHE = 0xe7"

record 'd ports =
  in8 :: "u16 \<Rightarrow> 'd \<Rightarrow> u8 \<times> 'd"
  in16 :: "u16 \<Rightarrow> 'd \<Rightarrow> u16 \<times> 'd"
  out8 :: "u16 \<Rightarrow> u8 \<Rightarrow> 'd \<Rightarrow> 'd"
  out16 :: "u16 \<Rightarrow> u16 \<Rightarrow> 'd \<Rightarrow> 'd"

section \<open>The driver\<close>

text \<open>A polling loop: the status read until the condition fails; never is \<open>Hang\<close>.\<close>

definition poll_while :: "(u8 \<Rightarrow> bool) \<Rightarrow> 'd ports \<Rightarrow> 'd \<Rightarrow> 'd res" where
  "poll_while c io d =
     (case while_option (\<lambda>(b, d). c b) (\<lambda>(b, d). in8 io ATA_PORT_CMD d) (in8 io ATA_PORT_CMD d) of
        None \<Rightarrow> Inl Hang
      | Some (b, d1) \<Rightarrow> Inr d1)"

definition ata_pio_wait_bsy :: "'d ports \<Rightarrow> 'd \<Rightarrow> 'd res" where
  "ata_pio_wait_bsy = poll_while (\<lambda>b. b AND ATA_BSY \<noteq> 0)"

definition ata_pio_wait_drq :: "'d ports \<Rightarrow> 'd \<Rightarrow> 'd res" where
  "ata_pio_wait_drq = poll_while (\<lambda>b. b AND ATA_RDY = 0)"

text \<open>The code reads port \<open>ATA_ERR\<close>, a status bit's number, not a port's.\<close>

definition ata_pio_get_error :: "'d ports \<Rightarrow> 'd \<Rightarrow> u8 \<times> 'd" where
  "ata_pio_get_error io d = in8 io (ucast ATA_ERR) d"

definition ata_pio_send_init :: "'d ports \<Rightarrow> u32 \<Rightarrow> u8 \<Rightarrow> 'd \<Rightarrow> 'd" where
  "ata_pio_send_init io lba num d =
     out8 io ATA_PORT_LBA_HIGH (ucast (drop_bit 16 lba AND 0xff))
      (out8 io ATA_PORT_LBA_MID (ucast (drop_bit 8 lba AND 0xff))
       (out8 io ATA_PORT_LBA_LOW (ucast (lba AND 0xff))
        (out8 io ATA_PORT_SECTOR_COUNT num
         (out8 io 0x1f1 0
          (out8 io ATA_PORT_DRIVE_SEL (ucast (0xe0 OR (drop_bit 24 lba AND 0x0f))) d)))))"

text \<open>What both loops do before the data of one sector: command, wait, error check.\<close>

definition start_sector :: "'d ports \<Rightarrow> u8 \<Rightarrow> string \<Rightarrow> u32 \<Rightarrow> u8 \<Rightarrow> 'd \<Rightarrow> 'd res" where
  "start_sector io cmd msg lba num d =
     res_bind (ata_pio_wait_bsy io d) (\<lambda>d1.
     res_bind (ata_pio_wait_bsy io (out8 io ATA_PORT_CMD cmd (ata_pio_send_init io lba num d1))) (\<lambda>d2.
     case in8 io ATA_PORT_CMD d2 of
       (st, d3) \<Rightarrow> if st AND ATA_ERR \<noteq> 0 then Inl (Panic msg) else Inr d3))"

definition end_sector :: "'d ports \<Rightarrow> 'd \<Rightarrow> 'd res" where
  "end_sector io d =
     res_bind (ata_pio_wait_bsy io d) (\<lambda>d1. Inr (out16 io ATA_PORT_CMD (ucast ATA_CMD_FLUSH_CACHE) d1))"

fun read_words :: "'d ports \<Rightarrow> nat \<Rightarrow> 'd \<Rightarrow> u16 list \<times> 'd" where
  "read_words io 0 d = ([], d)"
| "read_words io (Suc n) d =
     (case in16 io ATA_PORT_DATA d of (w, d1) \<Rightarrow> case read_words io n d1 of (ws, d2) \<Rightarrow> (w # ws, d2))"

fun write_words :: "'d ports \<Rightarrow> u16 list \<Rightarrow> 'd \<Rightarrow> 'd" where
  "write_words io [] d = d"
| "write_words io (w # ws) d = write_words io ws (out16 io ATA_PORT_DATA w d)"

fun read_loop :: "'d ports \<Rightarrow> u32 \<Rightarrow> u8 \<Rightarrow> nat \<Rightarrow> 'd \<Rightarrow> (u16 list \<times> 'd) res" where
  "read_loop io lba num 0 d = Inr ([], d)"
| "read_loop io lba num (Suc k) d =
     res_bind (start_sector io ATA_CMD_READ ''Failed to read'' lba num d) (\<lambda>d1.
     case read_words io 256 d1 of
       (ws, d2) \<Rightarrow>
         res_bind (end_sector io d2) (\<lambda>d3.
         res_bind (read_loop io lba num k d3) (\<lambda>(rest, d4). Inr (ws @ rest, d4))))"

fun write_loop :: "'d ports \<Rightarrow> u32 \<Rightarrow> u8 \<Rightarrow> nat \<Rightarrow> u16 list \<Rightarrow> 'd \<Rightarrow> 'd res" where
  "write_loop io lba num 0 ws d = Inr d"
| "write_loop io lba num (Suc k) ws d =
     res_bind (start_sector io ATA_CMD_WRITE ''Failed to write'' lba num d) (\<lambda>d1.
     if length ws < 256 then Inl OutOfBounds
     else res_bind (end_sector io (write_words io (take 256 ws) d1)) (\<lambda>d2.
          write_loop io lba num k (drop 256 ws) d2))"

text \<open>The driver's lock is a semaphore; \<open>regs\<close> is the context of the calling task.\<close>

record 'd ata =
  sy :: sync
  ata_lock :: int
  dev :: 'd

definition ata_pio_read_sectors :: "'d ports \<Rightarrow> registers \<Rightarrow> u32 \<Rightarrow> u8 \<Rightarrow> 'd ata \<Rightarrow> (u16 list \<times> 'd ata) res" where
  "ata_pio_read_sectors io regs lba num s =
     res_bind (sm_wait (sy s) (ata_lock s) regs) (\<lambda>y1.
     res_bind (read_loop io lba num (unat num) (dev s)) (\<lambda>(ws, d1).
     res_bind (sm_signal y1 (ata_lock s)) (\<lambda>y2. Inr (ws, s\<lparr>sy := y2, dev := d1\<rparr>))))"

definition ata_pio_write_sectors :: "'d ports \<Rightarrow> registers \<Rightarrow> u32 \<Rightarrow> u8 \<Rightarrow> u16 list \<Rightarrow> 'd ata \<Rightarrow> 'd ata res" where
  "ata_pio_write_sectors io regs lba num ws s =
     res_bind (sm_wait (sy s) (ata_lock s) regs) (\<lambda>y1.
     res_bind (write_loop io lba num (unat num) ws (dev s)) (\<lambda>d1.
     res_bind (sm_signal y1 (ata_lock s)) (\<lambda>y2. Inr (s\<lparr>sy := y2, dev := d1\<rparr>))))"

definition init_ata_pio :: "semaphore list \<Rightarrow> 'd ata \<Rightarrow> 'd ata res" where
  "init_ata_pio junk s = res_bind (sm_new junk (sy s)) (\<lambda>(l, y). Inr (s\<lparr>sy := y, ata_lock := l\<rparr>))"

section \<open>The interface of a disk\<close>

text \<open>
  \<open>sector d l\<close> is the contents of sector \<open>l\<close>; \<open>limit\<close> sectors can be addressed.
\<close>

locale block_device =
  fixes ok :: "'s \<Rightarrow> bool"
    and sector :: "'s \<Rightarrow> nat \<Rightarrow> u16 list"
    and limit :: nat
    and rd :: "u32 \<Rightarrow> u8 \<Rightarrow> 's \<Rightarrow> (u16 list \<times> 's) res"
    and wr :: "u32 \<Rightarrow> u8 \<Rightarrow> u16 list \<Rightarrow> 's \<Rightarrow> 's res"
  assumes sector_length: "ok s \<Longrightarrow> length (sector s l) = 256"
    and rd_ok: "ok s \<Longrightarrow> unat lba + unat num \<le> limit \<Longrightarrow>
      \<exists>s'. rd lba num s = Inr (concat (map (sector s) [unat lba..<unat lba + unat num]), s') \<and>
        ok s' \<and> sector s' = sector s"
    and wr_ok: "ok s \<Longrightarrow> unat lba + unat num \<le> limit \<Longrightarrow> length ws = 256 * unat num \<Longrightarrow>
      \<exists>s'. wr lba num ws s = Inr s' \<and> ok s' \<and>
        sector s' = (\<lambda>l. if unat lba \<le> l \<and> l < unat lba + unat num
          then take 256 (drop (256 * (l - unat lba)) ws) else sector s l)"
begin

lemma concat_slices:
  "length ws = 256 * n \<Longrightarrow> concat (map (\<lambda>l. take 256 (drop (256 * (l - a)) ws)) [a..<a + n]) = ws"
proof (induction n arbitrary: ws)
  case (Suc n)
  have l: "length (take (256 * n) ws) = 256 * n" using Suc.prems by simp
  have "map (\<lambda>l. take 256 (drop (256 * (l - a)) ws)) [a..<a + n] =
      map (\<lambda>l. take 256 (drop (256 * (l - a)) (take (256 * n) ws))) [a..<a + n]"
  proof (rule map_cong[OF refl])
    fix l assume "l \<in> set [a..<a + n]"
    then have "256 * (l - a) + 256 \<le> 256 * n" by auto
    then show "take 256 (drop (256 * (l - a)) ws) = take 256 (drop (256 * (l - a)) (take (256 * n) ws))"
      by (simp add: drop_take min_def)
  qed
  then have "concat (map (\<lambda>l. take 256 (drop (256 * (l - a)) ws)) [a..<a + n]) = take (256 * n) ws"
    by (simp only: Suc.IH[OF l])
  moreover have "take 256 (drop (256 * n) ws) = drop (256 * n) ws" using Suc.prems by simp
  ultimately show ?case by simp
qed simp

lemma read_after_write:
  assumes "ok s" "unat lba + unat num \<le> limit" "length ws = 256 * unat num"
  shows "\<exists>s1 s2. wr lba num ws s = Inr s1 \<and> rd lba num s1 = Inr (ws, s2) \<and> ok s2 \<and> sector s2 = sector s1"
proof -
  obtain s1 where s1: "wr lba num ws s = Inr s1" "ok s1"
    "sector s1 = (\<lambda>l. if unat lba \<le> l \<and> l < unat lba + unat num
       then take 256 (drop (256 * (l - unat lba)) ws) else sector s l)"
    using wr_ok[OF assms] by blast
  have "map (sector s1) [unat lba..<unat lba + unat num] =
      map (\<lambda>l. take 256 (drop (256 * (l - unat lba)) ws)) [unat lba..<unat lba + unat num]"
    by (rule map_cong) (auto simp: s1(3))
  then have "concat (map (sector s1) [unat lba..<unat lba + unat num]) = ws"
    by (simp only: concat_slices[OF assms(3), of "unat lba"])
  then show ?thesis using rd_ok[OF s1(2) assms(2)] s1(1) by auto
qed

lemma read_elsewhere:
  assumes "ok s" "unat lba + unat num \<le> limit" "length ws = 256 * unat num"
    and "unat a + unat n \<le> limit" "unat a + unat n \<le> unat lba \<or> unat lba + unat num \<le> unat a"
  shows "\<exists>s1 s2 s3 bs. wr lba num ws s = Inr s1 \<and> rd a n s1 = Inr (bs, s2) \<and> rd a n s = Inr (bs, s3)"
proof -
  obtain s1 where s1: "wr lba num ws s = Inr s1" "ok s1"
    "sector s1 = (\<lambda>l. if unat lba \<le> l \<and> l < unat lba + unat num
       then take 256 (drop (256 * (l - unat lba)) ws) else sector s l)"
    using wr_ok[OF assms(1-3)] by blast
  have "map (sector s1) [unat a..<unat a + unat n] = map (sector s) [unat a..<unat a + unat n]"
    using assms(5) by (intro map_cong) (auto simp: s1(3))
  then show ?thesis using rd_ok[OF s1(2) assms(4)] rd_ok[OF assms(1,4)] s1(1) by metis
qed

end

section \<open>A controller\<close>

text \<open>
  A PIO controller: its sectors, its task registers and the transfer under way, with the
  sector, the words of it already transferred and the number of sectors still to go. It is
  always ready and never fails; a command during a transfer is ignored.
\<close>

datatype transfer = Idle | Reading nat nat nat | Writing nat "u16 list" nat

record controller =
  disk :: "nat \<Rightarrow> u16 list"
  drive_sel :: u8
  sec_count :: u8
  lba_low :: u8
  lba_mid :: u8
  lba_high :: u8
  xfer :: transfer

definition lba_of :: "controller \<Rightarrow> nat" where
  "lba_of c = unat (lba_low c) + 2 ^ 8 * unat (lba_mid c) + 2 ^ 16 * unat (lba_high c) +
     2 ^ 24 * (unat (drive_sel c) mod 16)"

definition ctl_out8 :: "u16 \<Rightarrow> u8 \<Rightarrow> controller \<Rightarrow> controller" where
  "ctl_out8 port v c =
     (if port = ATA_PORT_DRIVE_SEL then c\<lparr>drive_sel := v\<rparr>
      else if port = ATA_PORT_SECTOR_COUNT then c\<lparr>sec_count := v\<rparr>
      else if port = ATA_PORT_LBA_LOW then c\<lparr>lba_low := v\<rparr>
      else if port = ATA_PORT_LBA_MID then c\<lparr>lba_mid := v\<rparr>
      else if port = ATA_PORT_LBA_HIGH then c\<lparr>lba_high := v\<rparr>
      else if port = ATA_PORT_CMD \<and> xfer c = Idle then
        (if v = ATA_CMD_READ then c\<lparr>xfer := Reading (lba_of c) 0 (unat (sec_count c))\<rparr>
         else if v = ATA_CMD_WRITE then c\<lparr>xfer := Writing (lba_of c) [] (unat (sec_count c))\<rparr>
         else c)
      else c)"

definition ctl_in8 :: "u16 \<Rightarrow> controller \<Rightarrow> u8 \<times> controller" where
  "ctl_in8 port c = (if port = ATA_PORT_CMD then ATA_RDY else 0, c)"

definition ctl_in16 :: "u16 \<Rightarrow> controller \<Rightarrow> u16 \<times> controller" where
  "ctl_in16 port c =
     (case xfer c of
        Reading l p n \<Rightarrow>
          (disk c l ! p,
           c\<lparr>xfer := (if Suc p < 256 then Reading l (Suc p) n
                       else if Suc 0 < n then Reading (Suc l) 0 (n - 1) else Idle)\<rparr>)
      | _ \<Rightarrow> (0, c))"

definition ctl_out16 :: "u16 \<Rightarrow> u16 \<Rightarrow> controller \<Rightarrow> controller" where
  "ctl_out16 port v c =
     (if port = ATA_PORT_DATA then
        (case xfer c of
           Writing l ws n \<Rightarrow>
             if Suc (length ws) < 256 then c\<lparr>xfer := Writing l (ws @ [v]) n\<rparr>
             else c\<lparr>disk := (disk c)(l := ws @ [v]),
                    xfer := (if Suc 0 < n then Writing (Suc l) [] (n - 1) else Idle)\<rparr>
         | _ \<Rightarrow> c)
      else c)"

definition ctl :: "controller ports" where
  "ctl = \<lparr>in8 = ctl_in8, in16 = ctl_in16, out8 = ctl_out8, out16 = ctl_out16\<rparr>"

section \<open>The driver on the controller\<close>

lemma poll_ready: "\<not> c ATA_RDY \<Longrightarrow> poll_while c ctl d = Inr d"
  unfolding poll_while_def
  by (subst while_option_unfold) (simp add: ctl_def ctl_in8_def)

lemma wait_bsy_ctl: "ata_pio_wait_bsy ctl d = Inr d"
  unfolding ata_pio_wait_bsy_def by (rule poll_ready) (simp add: ATA_RDY_def ATA_BSY_def)

lemmas port_defs = ATA_PORT_CMD_def ATA_PORT_DATA_def ATA_PORT_DRIVE_SEL_def ATA_PORT_SECTOR_COUNT_def
  ATA_PORT_LBA_LOW_def ATA_PORT_LBA_MID_def ATA_PORT_LBA_HIGH_def

definition addressed :: "controller \<Rightarrow> u32 \<Rightarrow> u8 \<Rightarrow> controller" where
  "addressed c lba num = c\<lparr>drive_sel := ucast (0xe0 OR (drop_bit 24 lba AND 0x0f)), sec_count := num,
     lba_low := ucast (lba AND 0xff), lba_mid := ucast (drop_bit 8 lba AND 0xff),
     lba_high := ucast (drop_bit 16 lba AND 0xff)\<rparr>"

lemma send_init_ctl: "ata_pio_send_init ctl lba num c = addressed c lba num"
  by (simp add: ata_pio_send_init_def ctl_def ctl_out8_def port_defs addressed_def)

lemma unat_byte_of: "unat (ucast (drop_bit k lba) :: u8) = unat (lba :: u32) div 2 ^ k mod 2 ^ LENGTH(8)"
proof -
  have "unat (ucast (drop_bit k lba) :: u8) = take_bit LENGTH(8) (drop_bit k (unat lba))"
    by (simp only: unsigned_ucast_eq unat_drop_bit_eq)
  then show ?thesis by (simp only: take_bit_eq_mod drop_bit_eq_div)
qed

lemma byte_unat: "unat (ucast (drop_bit k lba AND 0xff :: u32) :: u8) = unat lba div 2 ^ k mod 2 ^ 8"
proof -
  have "ucast (drop_bit k lba AND 0xff :: u32) = (ucast (drop_bit k lba) :: u8)"
  proof (rule bit_word_eqI)
    fix n assume "n < LENGTH(8)"
    then have "bit (0xff :: u32) n" using bit_mask_iff[of 8 n, where 'a = u32] by (simp add: mask_eq_decr_exp)
    then show "bit (ucast (drop_bit k lba AND 0xff :: u32) :: u8) n \<longleftrightarrow> bit (ucast (drop_bit k lba) :: u8) n"
      by (simp add: bit_ucast_iff bit_and_iff)
  qed
  moreover have "unat (ucast (drop_bit k lba) :: u8) = unat lba div 2 ^ k mod 2 ^ LENGTH(8)"
    by (rule unat_byte_of)
  ultimately show ?thesis by simp
qed

lemma power_16: "(16 :: nat) = 2 ^ 4"
  by simp

lemma drive_unat: "unat (ucast (0xe0 OR (drop_bit k lba AND 0x0f) :: u32) :: u8) mod 16 = unat lba div 2 ^ k mod 16"
proof -
  have "take_bit 4 (ucast (0xe0 OR (drop_bit k lba AND 0x0f) :: u32) :: u8) = take_bit 4 (ucast (drop_bit k lba))"
  proof (rule bit_word_eqI)
    fix n assume "n < LENGTH(8)"
    have f: "n < 4 \<Longrightarrow> bit (0xf :: u32) n" using bit_mask_iff[of 4 n, where 'a = u32] by (simp add: mask_eq_decr_exp)
    have e: "n < 4 \<Longrightarrow> \<not> bit (0xe0 :: u32) n" using bit_push_bit_iff[of 5 "7 :: u32" n] by (simp add: push_bit_eq_mult)
    show "bit (take_bit 4 (ucast (0xe0 OR (drop_bit k lba AND 0x0f) :: u32) :: u8)) n \<longleftrightarrow>
        bit (take_bit 4 (ucast (drop_bit k lba) :: u8)) n"
      using f e by (auto simp: bit_ucast_iff bit_and_iff bit_or_iff bit_take_bit_iff)
  qed
  then have "unat (take_bit 4 (ucast (0xe0 OR (drop_bit k lba AND 0x0f) :: u32) :: u8)) =
      unat (take_bit 4 (ucast (drop_bit k lba) :: u8))" by simp
  moreover have "unat (ucast (drop_bit k lba) :: u8) = unat lba div 2 ^ k mod 2 ^ LENGTH(8)"
    by (rule unat_byte_of)
  moreover have "a mod 2 ^ LENGTH(8) mod 2 ^ 4 = a mod 2 ^ 4" for a :: nat
    by (simp add: mod_mod_cancel)
  ultimately show ?thesis
    by (metis (no_types, lifting) unsigned_take_bit_eq take_bit_eq_mod power_16)
qed

lemma power_byte: "(2 :: nat) ^ 8 = 256" "(2 :: nat) ^ 16 = 65536" "(2 :: nat) ^ 24 = 16777216"
  by simp_all

lemma digits:
  assumes "n < 2 ^ 28"
  shows "n mod 2 ^ 8 + 2 ^ 8 * (n div 2 ^ 8 mod 2 ^ 8) + 2 ^ 16 * (n div 2 ^ 16 mod 2 ^ 8) + 2 ^ 24 * (n div 2 ^ 24 mod 16) = (n :: nat)"
proof -
  have d: "n div 65536 = n div 256 div 256" "n div 16777216 = n div 256 div 256 div 256"
    by (simp_all add: div_mult2_eq[symmetric])
  have "n div 2 ^ 24 mod 16 = n div 2 ^ 24" using assms by simp
  then have e: "n div 16777216 mod 16 = n div 16777216" by simp
  have "q1 * 256 + r0 = n \<Longrightarrow> q2 * 256 + r1 = q1 \<Longrightarrow> q3 * 256 + r2 = q2 \<Longrightarrow>
      r0 + 256 * r1 + 65536 * r2 + 16777216 * q3 = n" for q1 q2 q3 r0 r1 r2 by simp
  note this[OF div_mult_mod_eq[of n 256] div_mult_mod_eq[of "n div 256" 256] div_mult_mod_eq[of "n div 256 div 256" 256]]
  then show ?thesis by (simp only: power_byte e) (simp only: d)
qed

lemma lba_addressed: "unat lba < 2 ^ 28 \<Longrightarrow> lba_of (addressed c lba num) = unat lba"
  using digits[of "unat lba"] byte_unat[of 0 lba]
  by (simp add: lba_of_def addressed_def byte_unat drive_unat)

lemma start_read_idle:
  assumes "xfer c = Idle" "unat lba < 2 ^ 28"
  shows "start_sector ctl ATA_CMD_READ msg lba num c =
    Inr ((addressed c lba num)\<lparr>xfer := Reading (unat lba) 0 (unat num)\<rparr>)"
  using assms lba_addressed[OF assms(2), of c num]
  by (simp add: start_sector_def wait_bsy_ctl send_init_ctl)
    (simp add: ctl_def ctl_out8_def ctl_in8_def port_defs ATA_RDY_def ATA_ERR_def addressed_def)

lemma start_write_idle:
  assumes "xfer c = Idle" "unat lba < 2 ^ 28"
  shows "start_sector ctl ATA_CMD_WRITE msg lba num c =
    Inr ((addressed c lba num)\<lparr>xfer := Writing (unat lba) [] (unat num)\<rparr>)"
  using assms lba_addressed[OF assms(2), of c num]
  by (simp add: start_sector_def wait_bsy_ctl send_init_ctl)
    (simp add: ctl_def ctl_out8_def ctl_in8_def port_defs ATA_RDY_def ATA_ERR_def addressed_def
       ATA_CMD_READ_def ATA_CMD_WRITE_def)

lemma start_busy:
  assumes "xfer c \<noteq> Idle"
  shows "start_sector ctl cmd msg lba num c = Inr (addressed c lba num)"
  using assms
  by (simp add: start_sector_def wait_bsy_ctl send_init_ctl)
    (simp add: ctl_def ctl_out8_def ctl_in8_def port_defs ATA_RDY_def ATA_ERR_def addressed_def)

lemma end_sector_ctl: "end_sector ctl c = Inr c"
  by (simp add: end_sector_def wait_bsy_ctl) (simp add: ctl_def ctl_out16_def port_defs)

lemma addressed_frame [simp]: "disk (addressed c lba num) = disk c" "xfer (addressed c lba num) = xfer c"
  by (simp_all add: addressed_def)

definition next_read :: "nat \<Rightarrow> nat \<Rightarrow> transfer" where
  "next_read l n = (if Suc 0 < n then Reading (Suc l) 0 (n - 1) else Idle)"

definition next_write :: "nat \<Rightarrow> nat \<Rightarrow> transfer" where
  "next_write l n = (if Suc 0 < n then Writing (Suc l) [] (n - 1) else Idle)"

lemma read_words_ctl:
  assumes "xfer c = Reading l p n" "length (disk c l) = 256" "p + Suc k = 256"
  shows "read_words ctl (Suc k) c = (drop p (disk c l), c\<lparr>xfer := next_read l n\<rparr>)"
  using assms
proof (induction k arbitrary: c p)
  case 0
  then show ?case
    by (simp add: ctl_def ctl_in16_def next_read_def Cons_nth_drop_Suc[symmetric])
next
  case (Suc k)
  let ?c = "c\<lparr>xfer := Reading l (Suc p) n\<rparr>"
  have "in16 ctl ATA_PORT_DATA c = (disk c l ! p, ?c)" using Suc.prems by (simp add: ctl_def ctl_in16_def)
  moreover have "read_words ctl (Suc k) ?c = (drop (Suc p) (disk ?c l), ?c\<lparr>xfer := next_read l n\<rparr>)"
    using Suc.prems by (intro Suc.IH) simp_all
  ultimately have "read_words ctl (Suc (Suc k)) c = (disk c l ! p # drop (Suc p) (disk c l), c\<lparr>xfer := next_read l n\<rparr>)"
    by (simp del: read_words.simps(2) add: read_words.simps(2)[of ctl "Suc k"])
  then show ?case using Suc.prems by (simp add: Cons_nth_drop_Suc del: read_words.simps)
qed

lemma write_words_ctl:
  assumes "xfer c = Writing l acc n" "length acc + length ws = 256" "ws \<noteq> []"
  shows "write_words ctl ws c = c\<lparr>disk := (disk c)(l := acc @ ws), xfer := next_write l n\<rparr>"
  using assms
proof (induction ws arbitrary: c acc)
  case (Cons w ws)
  show ?case
  proof (cases ws)
    case Nil
    then show ?thesis using Cons.prems by (simp add: ctl_def ctl_out16_def next_write_def fun_upd_def)
  next
    case (Cons a list)
    let ?c = "c\<lparr>xfer := Writing l (acc @ [w]) n\<rparr>"
    have "out16 ctl ATA_PORT_DATA w c = ?c" using Cons.prems Cons by (simp add: ctl_def ctl_out16_def)
    moreover have "write_words ctl ws ?c = ?c\<lparr>disk := (disk ?c)(l := (acc @ [w]) @ ws), xfer := next_write l n\<rparr>"
      using Cons.prems Cons by (intro Cons.IH) simp_all
    ultimately show ?thesis by (simp add: fun_upd_def)
  qed
qed simp


lemma read_loop_busy:
  assumes "xfer c = Reading l 0 (Suc k)" "\<And>l. length (disk c l) = 256"
  shows "\<exists>c'. read_loop ctl lba num (Suc k) c = Inr (concat (map (disk c) [l..<l + Suc k]), c') \<and>
    xfer c' = Idle \<and> disk c' = disk c"
  using assms
proof (induction k arbitrary: c l)
  case 0
  then show ?case
    using read_words_ctl[of "addressed c lba num" l 0 "Suc 0" 255]
    by (simp add: start_busy end_sector_ctl next_read_def del: read_words.simps)
next
  case (Suc k)
  let ?a = "addressed c lba num"
  let ?c = "?a\<lparr>xfer := Reading (Suc l) 0 (Suc k)\<rparr>"
  have s: "start_sector ctl ATA_CMD_READ ''Failed to read'' lba num c = Inr ?a"
    using Suc.prems by (intro start_busy) simp
  have r: "read_words ctl 256 ?a = (disk c l, ?c)"
    using read_words_ctl[of ?a l 0 "Suc (Suc k)" 255] Suc.prems
    by (simp add: next_read_def del: read_words.simps)
  obtain c' where c': "read_loop ctl lba num (Suc k) ?c = Inr (concat (map (disk c) [Suc l..<Suc l + Suc k]), c')"
    "xfer c' = Idle" "disk c' = disk c"
    using Suc.IH[of ?c "Suc l"] Suc.prems(2) by auto
  have "read_loop ctl lba num (Suc (Suc k)) c = Inr (disk c l @ concat (map (disk c) [Suc l..<Suc l + Suc k]), c')"
    by (subst read_loop.simps(2)) (simp only: s r c'(1) end_sector_ctl res_bind_simps prod.case)
  moreover have "[l..<l + Suc (Suc k)] = l # [Suc l..<Suc l + Suc k]" by (simp add: upt_conv_Cons)
  ultimately show ?case using c'(2,3) by simp
qed

lemma write_loop_busy:
  assumes "xfer c = Writing l [] (Suc k)" "length ws = 256 * Suc k"
  shows "\<exists>c'. write_loop ctl lba num (Suc k) ws c = Inr c' \<and> xfer c' = Idle \<and>
    disk c' = (\<lambda>s. if l \<le> s \<and> s < l + Suc k then take 256 (drop (256 * (s - l)) ws) else disk c s)"
  using assms
proof (induction k arbitrary: c l ws)
  case 0
  then have "ws \<noteq> []" by auto
  with 0 show ?case
    using write_words_ctl[of "addressed c lba num" l "[]" "Suc 0" ws]
    by (auto simp: start_busy end_sector_ctl next_write_def fun_eq_iff)
next
  case (Suc k)
  let ?a = "addressed c lba num"
  let ?c = "?a\<lparr>disk := (disk c)(l := take 256 ws), xfer := Writing (Suc l) [] (Suc k)\<rparr>"
  have s: "start_sector ctl ATA_CMD_WRITE ''Failed to write'' lba num c = Inr ?a"
    using Suc.prems by (intro start_busy) simp
  have "take 256 ws \<noteq> []" using Suc.prems by auto
  then have r: "write_words ctl (take 256 ws) ?a = ?c"
    using write_words_ctl[of ?a l "[]" "Suc (Suc k)" "take 256 ws"] Suc.prems
    by (simp add: next_write_def)
  have len: "length (drop 256 ws) = 256 * Suc k" "\<not> length ws < 256" using Suc.prems by simp_all
  obtain c' where c': "write_loop ctl lba num (Suc k) (drop 256 ws) ?c = Inr c'" "xfer c' = Idle"
    "disk c' = (\<lambda>s. if Suc l \<le> s \<and> s < Suc l + Suc k then take 256 (drop (256 * (s - Suc l)) (drop 256 ws)) else disk ?c s)"
    using Suc.IH[of ?c "Suc l" "drop 256 ws"] len(1) by auto
  have "write_loop ctl lba num (Suc (Suc k)) ws c = Inr c'"
    using len(2) by (subst write_loop.simps(2)) (simp only: s r c'(1) end_sector_ctl res_bind_simps if_False)
  moreover have "disk c' = (\<lambda>s. if l \<le> s \<and> s < l + Suc (Suc k) then take 256 (drop (256 * (s - l)) ws) else disk c s)"
  proof
    fix s
    have "Suc l \<le> s \<Longrightarrow> 256 + 256 * (s - Suc l) = 256 * (s - l)" by auto
    then show "disk c' s = (if l \<le> s \<and> s < l + Suc (Suc k) then take 256 (drop (256 * (s - l)) ws) else disk c s)"
      unfolding c'(3) by (cases "s = l") (auto simp: add.commute)
  qed
  ultimately show ?case using c'(2) by blast
qed

lemma read_loop_ctl:
  assumes "xfer c = Idle" "\<And>l. length (disk c l) = 256" "unat lba < 2 ^ 28"
  shows "\<exists>c'. read_loop ctl lba num (unat num) c =
      Inr (concat (map (disk c) [unat lba..<unat lba + unat num]), c') \<and> xfer c' = Idle \<and> disk c' = disk c"
proof (cases "unat num")
  case (Suc k)
  let ?c = "(addressed c lba num)\<lparr>xfer := Reading (unat lba) 0 (Suc k)\<rparr>"
  have a: "addressed ?c lba num = ?c" by (simp add: addressed_def)
  have "read_loop ctl lba num (Suc k) c = read_loop ctl lba num (Suc k) ?c"
    using start_read_idle[OF assms(1,3), of "''Failed to read''" num] start_busy[of ?c ATA_CMD_READ "''Failed to read''" lba num] Suc
    by (simp add: a del: read_words.simps)
  then show ?thesis using read_loop_busy[of ?c "unat lba" k lba num] assms(2) Suc
    by (simp del: read_loop.simps)
qed (use assms in simp)

lemma write_loop_ctl:
  assumes "xfer c = Idle" "unat lba < 2 ^ 28" "length ws = 256 * unat num"
  shows "\<exists>c'. write_loop ctl lba num (unat num) ws c = Inr c' \<and> xfer c' = Idle \<and>
    disk c' = (\<lambda>s. if unat lba \<le> s \<and> s < unat lba + unat num
      then take 256 (drop (256 * (s - unat lba)) ws) else disk c s)"
proof (cases "unat num")
  case (Suc k)
  let ?c = "(addressed c lba num)\<lparr>xfer := Writing (unat lba) [] (Suc k)\<rparr>"
  have a: "addressed ?c lba num = ?c" by (simp add: addressed_def)
  have "write_loop ctl lba num (Suc k) ws c = write_loop ctl lba num (Suc k) ws ?c"
    using start_write_idle[OF assms(1,2), of "''Failed to write''" num] start_busy[of ?c ATA_CMD_WRITE "''Failed to write''" lba num] Suc
    by (simp add: a)
  then show ?thesis using write_loop_busy[of ?c "unat lba" k ws lba num] assms(3) Suc
    by (simp del: write_loop.simps cong: if_cong)
qed (use assms in \<open>auto simp: fun_eq_iff\<close>)


section \<open>The driver is a disk\<close>

lemma wait_signal_ok:
  assumes "sm_from_id y 0 i = Inr ci" "get_sm y ci = Inr m" "sm_val m \<noteq> 0"
  shows "\<exists>y1 y2 m2. sm_wait y i regs = Inr y1 \<and> sm_signal y1 i = Inr y2 \<and>
    sm_from_id y2 0 i = Inr ci \<and> get_sm y2 ci = Inr m2 \<and> sm_val m2 \<noteq> 0"
proof -
  let ?y1 = "put_sm y ci (m\<lparr>sm_val := sm_val m - 1\<rparr>)"
  let ?y2 = "put_sm ?y1 ci (m\<lparr>sm_val := sm_val m\<rparr>)"
  have g1: "get_sm ?y1 ci = Inr (m\<lparr>sm_val := sm_val m - 1\<rparr>)" by (rule get_put_sm[OF assms(2)])
  have "\<not> uint (sm_val m) \<le> 0"
    using assms(3) uint_ge_0[of "sm_val m"] by (auto simp: order_antisym_conv word_uint_eq_iff)
  moreover have "\<not> uint (sm_val m - 1) < 0" by simp
  ultimately have "sm_wait y i regs = Inr ?y1 \<and> sm_signal ?y1 i = Inr ?y2"
    using assms(1,2) g1
    by (simp add: sm_wait_def sm_unsafe_wait_def sm_signal_def sm_unsafe_signal_def Let_def sm_from_id_put)
  then show ?thesis using assms(1,3) get_put_sm[OF g1] by (auto simp: sm_from_id_put)
qed

definition ata_ok :: "controller ata \<Rightarrow> bool" where
  "ata_ok s \<longleftrightarrow> xfer (dev s) = Idle \<and> (\<forall>l. length (disk (dev s) l) = 256) \<and>
     (\<exists>ci m. sm_from_id (sy s) 0 (ata_lock s) = Inr ci \<and> get_sm (sy s) ci = Inr m \<and> sm_val m \<noteq> 0)"

lemma ata_read_ok:
  assumes "ata_ok s" "unat lba + unat num \<le> 2 ^ 28"
  shows "\<exists>s'. ata_pio_read_sectors ctl regs lba num s =
      Inr (concat (map (disk (dev s)) [unat lba..<unat lba + unat num]), s') \<and>
    ata_ok s' \<and> disk (dev s') = disk (dev s)"
proof -
  obtain ci m where m: "sm_from_id (sy s) 0 (ata_lock s) = Inr ci" "get_sm (sy s) ci = Inr m" "sm_val m \<noteq> 0"
    using assms(1) by (auto simp: ata_ok_def)
  obtain y1 y2 m2 where y: "sm_wait (sy s) (ata_lock s) regs = Inr y1" "sm_signal y1 (ata_lock s) = Inr y2"
    "sm_from_id y2 0 (ata_lock s) = Inr ci" "get_sm y2 ci = Inr m2" "sm_val m2 \<noteq> 0"
    using wait_signal_ok[OF m] by blast
  obtain c' where c: "read_loop ctl lba num (unat num) (dev s) =
      Inr (concat (map (disk (dev s)) [unat lba..<unat lba + unat num]), c')" "xfer c' = Idle" "disk c' = disk (dev s)"
  proof (cases "unat num = 0")
    case True
    then show ?thesis using that assms(1) by (simp add: ata_ok_def)
  next
    case False
    then show ?thesis using that read_loop_ctl[of "dev s" lba num] assms by (auto simp: ata_ok_def)
  qed
  show ?thesis
    using assms(1) y c by (auto simp: ata_pio_read_sectors_def ata_ok_def simp del: split_paired_Ex)
qed

lemma ata_write_ok:
  assumes "ata_ok s" "unat lba + unat num \<le> 2 ^ 28" "length ws = 256 * unat num"
  shows "\<exists>s'. ata_pio_write_sectors ctl regs lba num ws s = Inr s' \<and> ata_ok s' \<and>
    disk (dev s') = (\<lambda>l. if unat lba \<le> l \<and> l < unat lba + unat num
      then take 256 (drop (256 * (l - unat lba)) ws) else disk (dev s) l)"
proof -
  obtain ci m where m: "sm_from_id (sy s) 0 (ata_lock s) = Inr ci" "get_sm (sy s) ci = Inr m" "sm_val m \<noteq> 0"
    using assms(1) by (auto simp: ata_ok_def)
  obtain y1 y2 m2 where y: "sm_wait (sy s) (ata_lock s) regs = Inr y1" "sm_signal y1 (ata_lock s) = Inr y2"
    "sm_from_id y2 0 (ata_lock s) = Inr ci" "get_sm y2 ci = Inr m2" "sm_val m2 \<noteq> 0"
    using wait_signal_ok[OF m] by blast
  obtain c' where c: "write_loop ctl lba num (unat num) ws (dev s) = Inr c'" "xfer c' = Idle"
    "disk c' = (\<lambda>l. if unat lba \<le> l \<and> l < unat lba + unat num
      then take 256 (drop (256 * (l - unat lba)) ws) else disk (dev s) l)"
  proof (cases "unat num = 0")
    case True
    then have "disk (dev s) = (\<lambda>l. if unat lba \<le> l \<and> l < unat lba + unat num
      then take 256 (drop (256 * (l - unat lba)) ws) else disk (dev s) l)" by (auto simp: fun_eq_iff)
    then show ?thesis using that[of "dev s"] assms(1) True by (auto simp: ata_ok_def)
  next
    case False
    then show ?thesis using that write_loop_ctl[of "dev s" lba ws num] assms by (auto simp: ata_ok_def)
  qed
  have "length (disk c' l) = 256" for l
  proof (cases "unat lba \<le> l \<and> l < unat lba + unat num")
    case True
    then have "256 * (l - unat lba) + 256 \<le> 256 * unat num" by auto
    then show ?thesis using True assms(3) by (simp add: c(3))
  qed (use assms(1) in \<open>auto simp: c(3) ata_ok_def\<close>)
  then show ?thesis
    using y c by (auto simp: ata_pio_write_sectors_def ata_ok_def cong: if_cong simp del: split_paired_Ex)
qed

interpretation ata_disk: block_device ata_ok "\<lambda>s. disk (dev s)" "2 ^ 28"
  "ata_pio_read_sectors ctl regs" "ata_pio_write_sectors ctl regs" for regs
proof
  show "length (disk (dev s) l) = 256" if "ata_ok s" for s l using that by (simp add: ata_ok_def)
qed (fact ata_read_ok ata_write_ok)+


definition blank_disk :: "controller ata" where
  "blank_disk = \<lparr>sy = one_semaphore, ata_lock = 0,
     dev = \<lparr>disk = (\<lambda>_. replicate 256 0), drive_sel = 0, sec_count = 0, lba_low = 0, lba_mid = 0, lba_high = 0, xfer = Idle\<rparr>\<rparr>"

lemma blank_disk_ok: "ata_ok blank_disk"
  using one_semaphore_ok by (auto simp: ata_ok_def blank_disk_def)


text \<open>
  Writing some sectors leaves every other sector as it was: a read that does not meet
  them returns the same words before and after.
\<close>

theorem ata_write_elsewhere:
  assumes "ata_ok s" and "unat lba + unat num \<le> 2 ^ 28" and "length ws = 256 * unat num"
    and "unat a + unat n \<le> 2 ^ 28" and "unat a + unat n \<le> unat lba \<or> unat lba + unat num \<le> unat a"
  shows "\<exists>s1 s2 s3 bs. ata_pio_write_sectors ctl regs lba num ws s = Inr s1 \<and>
    ata_pio_read_sectors ctl regs a n s1 = Inr (bs, s2) \<and> ata_pio_read_sectors ctl regs a n s = Inr (bs, s3)"
  by (rule ata_disk.read_elsewhere[OF assms])

theorem ata_write_elsewhere_witness:
  "\<exists>s1 s2 s3 bs. ata_pio_write_sectors ctl no_registers 6 2 (replicate 512 7) blank_disk = Inr s1 \<and>
    ata_pio_read_sectors ctl no_registers 8 3 s1 = Inr (bs, s2) \<and>
    ata_pio_read_sectors ctl no_registers 8 3 blank_disk = Inr (bs, s3)"
  using ata_write_elsewhere[OF blank_disk_ok, of 6 2 "replicate 512 7" 8 3 no_registers] by auto

end
