(* ===== verification/Ext2.thy ===== *)
theory Ext2
  imports Bytes AtaPio Bitmap Kstring
begin

text \<open>
  The ext2 file system driver (\<^verbatim>\<open>src/kernel/dri/fs/ext2/ext2.c\<close>,
  \<^verbatim>\<open>include/kernel/dri/fs/ext2/ext2.h\<close>) on a disk that is a parameter: two operations on
  sectors, which the kernel takes from the ATA driver. Structures on disk are byte
  sequences with the layout of the packed C structures; a buffer is as long as what was
  read into it. Console output is left out.
\<close>

section \<open>Structures\<close>

record ext2_superblock =
  total_inodes :: u32
  total_blocks :: u32
  blocks_reserved_for_superuser :: u32
  sb_unallocated_blocks :: u32
  sb_unallocated_inodes :: u32
  superblock_block_number :: u32
  block_size_shift :: u32
  fragment_size_shift :: u32
  blocks_per_block_group :: u32
  fragments_per_block_group :: u32
  inodes_per_block_group :: u32
  last_mount_time :: u32
  last_write_time :: u32
  mounts_since_last_fsck :: u16
  mounts_allowed_before_fsck :: u16
  signature :: u16
  fs_state :: u16
  error_case :: u16
  version_minor :: u16
  last_fsck_time :: u32
  fsck_time_interval :: u32
  creator_os_id :: u32
  version_major :: u32
  reserved_blocks_uid :: u16
  reserved_blocks_gid :: u16

definition EXT2_SIGNATURE :: u16 where "EXT2_SIGNATURE = 0xef53"

definition decode_superblock :: "u8 list \<Rightarrow> ext2_superblock" where
  "decode_superblock b = \<lparr>total_inodes = d32 b 0, total_blocks = d32 b 4,
     blocks_reserved_for_superuser = d32 b 8, sb_unallocated_blocks = d32 b 12,
     sb_unallocated_inodes = d32 b 16, superblock_block_number = d32 b 20, block_size_shift = d32 b 24,
     fragment_size_shift = d32 b 28, blocks_per_block_group = d32 b 32, fragments_per_block_group = d32 b 36,
     inodes_per_block_group = d32 b 40, last_mount_time = d32 b 44, last_write_time = d32 b 48,
     mounts_since_last_fsck = d16 b 52, mounts_allowed_before_fsck = d16 b 54, signature = d16 b 56,
     fs_state = d16 b 58, error_case = d16 b 60, version_minor = d16 b 62, last_fsck_time = d32 b 64,
     fsck_time_interval = d32 b 68, creator_os_id = d32 b 72, version_major = d32 b 76,
     reserved_blocks_uid = d16 b 80, reserved_blocks_gid = d16 b 82\<rparr>"

definition encode_superblock :: "ext2_superblock \<Rightarrow> u8 list" where
  "encode_superblock s =
     le32 (total_inodes s) @ le32 (total_blocks s) @ le32 (blocks_reserved_for_superuser s) @
     le32 (sb_unallocated_blocks s) @ le32 (sb_unallocated_inodes s) @ le32 (superblock_block_number s) @
     le32 (block_size_shift s) @ le32 (fragment_size_shift s) @ le32 (blocks_per_block_group s) @
     le32 (fragments_per_block_group s) @ le32 (inodes_per_block_group s) @ le32 (last_mount_time s) @
     le32 (last_write_time s) @ le16 (mounts_since_last_fsck s) @ le16 (mounts_allowed_before_fsck s) @
     le16 (signature s) @ le16 (fs_state s) @ le16 (error_case s) @ le16 (version_minor s) @
     le32 (last_fsck_time s) @ le32 (fsck_time_interval s) @ le32 (creator_os_id s) @
     le32 (version_major s) @ le16 (reserved_blocks_uid s) @ le16 (reserved_blocks_gid s)"

record ext2_block_group_descriptor =
  block_bitmap :: u32
  inode_bitmap :: u32
  inode_table_start_block :: u32
  unallocated_blocks :: u16
  unallocated_inodes :: u16
  num_dirs :: u16
  bgd_padding :: u16
  bgd_reserved :: "u8 list"

definition decode_bgd :: "u8 list \<Rightarrow> ext2_block_group_descriptor" where
  "decode_bgd b = \<lparr>block_bitmap = d32 b 0, inode_bitmap = d32 b 4, inode_table_start_block = d32 b 8,
     unallocated_blocks = d16 b 12, unallocated_inodes = d16 b 14, num_dirs = d16 b 16, bgd_padding = d16 b 18,
     bgd_reserved = take 12 (drop 20 b)\<rparr>"

definition encode_bgd :: "ext2_block_group_descriptor \<Rightarrow> u8 list" where
  "encode_bgd g = le32 (block_bitmap g) @ le32 (inode_bitmap g) @ le32 (inode_table_start_block g) @
     le16 (unallocated_blocks g) @ le16 (unallocated_inodes g) @ le16 (num_dirs g) @ le16 (bgd_padding g) @
     bgd_reserved g"

definition BGD_SIZE :: nat where "BGD_SIZE = 32"

record ext2_inode =
  i_mode :: u16
  i_uid :: u16
  i_size :: u32
  access_time :: u32
  created_time :: u32
  modified_time :: u32
  deleted_time :: u32
  i_gid :: u16
  links_count :: u16
  num_blocks :: u32
  i_flags :: u32
  os_reserved_1 :: u32
  i_blocks :: "u32 list"
  generation :: u32
  file_acl :: u32
  dir_acl :: u32
  faddr :: u32
  os_reserved_2 :: "u8 list"

definition decode_inode :: "u8 list \<Rightarrow> ext2_inode" where
  "decode_inode b = \<lparr>i_mode = d16 b 0, i_uid = d16 b 2, i_size = d32 b 4, access_time = d32 b 8,
     created_time = d32 b 12, modified_time = d32 b 16, deleted_time = d32 b 20, i_gid = d16 b 24,
     links_count = d16 b 26, num_blocks = d32 b 28, i_flags = d32 b 32, os_reserved_1 = d32 b 36,
     i_blocks = map (\<lambda>k. d32 b (40 + 4 * k)) [0..<15], generation = d32 b 100, file_acl = d32 b 104,
     dir_acl = d32 b 108, faddr = d32 b 112, os_reserved_2 = take 12 (drop 116 b)\<rparr>"

definition encode_inode :: "ext2_inode \<Rightarrow> u8 list" where
  "encode_inode i =
     le16 (i_mode i) @ le16 (i_uid i) @ le32 (i_size i) @ le32 (access_time i) @ le32 (created_time i) @
     le32 (modified_time i) @ le32 (deleted_time i) @ le16 (i_gid i) @ le16 (links_count i) @
     le32 (num_blocks i) @ le32 (i_flags i) @ le32 (os_reserved_1 i) @ concat (map le32 (i_blocks i)) @
     le32 (generation i) @ le32 (file_acl i) @ le32 (dir_acl i) @ le32 (faddr i) @ os_reserved_2 i"

definition INODE_SIZE :: nat where "INODE_SIZE = 128"

text \<open>A value of the C type has arrays of the declared lengths.\<close>

definition inode_ok :: "ext2_inode \<Rightarrow> bool" where
  "inode_ok i \<longleftrightarrow> length (i_blocks i) = 15 \<and> length (os_reserved_2 i) = 12"

definition bgd_ok :: "ext2_block_group_descriptor \<Rightarrow> bool" where
  "bgd_ok g \<longleftrightarrow> length (bgd_reserved g) = 12"

lemma encode_superblock_length [simp]: "length (encode_superblock s) = 84"
  by (simp add: encode_superblock_def)

lemma decode_encode_superblock [simp]: "decode_superblock (encode_superblock s @ r) = s"
  by (simp add: decode_superblock_def encode_superblock_def)

lemma encode_bgd_length [simp]: "bgd_ok g \<Longrightarrow> length (encode_bgd g) = BGD_SIZE"
  by (simp add: encode_bgd_def bgd_ok_def BGD_SIZE_def)

lemma decode_encode_bgd [simp]: "bgd_ok g \<Longrightarrow> decode_bgd (encode_bgd g) = g"
  by (simp add: decode_bgd_def encode_bgd_def bgd_ok_def)

lemma encode_inode_length [simp]: "inode_ok i \<Longrightarrow> length (encode_inode i) = INODE_SIZE"
  by (simp add: encode_inode_def inode_ok_def INODE_SIZE_def)

lemma decode_encode_inode [simp]:
  assumes "inode_ok i"
  shows "decode_inode (encode_inode i) = i"
proof -
  have "map (\<lambda>k. d32 (concat (map le32 (i_blocks i)) @ r) (4 * k)) [0..<15] = i_blocks i" for r
    using assms by (intro nth_equalityI) (simp_all add: inode_ok_def d32_words)
  then show ?thesis using assms by (simp add: decode_inode_def encode_inode_def inode_ok_def)
qed

section \<open>The disk\<close>

record 's disk_ops =
  d_read :: "u32 \<Rightarrow> u8 \<Rightarrow> 's \<Rightarrow> (u16 list \<times> 's) res"
  d_write :: "u32 \<Rightarrow> u8 \<Rightarrow> u16 list \<Rightarrow> 's \<Rightarrow> 's res"

definition ata_ops :: "'d ports \<Rightarrow> registers \<Rightarrow> 'd ata disk_ops" where
  "ata_ops io regs = \<lparr>d_read = ata_pio_read_sectors io regs, d_write = ata_pio_write_sectors io regs\<rparr>"

definition ext2_block_size :: "ext2_superblock \<Rightarrow> u32" where
  "ext2_block_size sb = push_bit (unat (block_size_shift sb)) 1024"

definition ext2_read_block :: "'s disk_ops \<Rightarrow> ext2_superblock \<Rightarrow> u32 \<Rightarrow> 's \<Rightarrow> (u8 list \<times> 's) res" where
  "ext2_read_block dv sb block d =
     (let block_size = ext2_block_size sb div 512; block_start = block_size * block in
      res_bind (d_read dv block_start (ucast block_size) d) (\<lambda>(ws, d1). Inr (bytes_of ws, d1)))"

definition ext2_write_block :: "'s disk_ops \<Rightarrow> ext2_superblock \<Rightarrow> u8 list \<Rightarrow> u32 \<Rightarrow> 's \<Rightarrow> 's res" where
  "ext2_write_block dv sb buffer block d =
     (let block_size = ext2_block_size sb div 512; block_start = block_size * block in
      d_write dv block_start (ucast block_size) (words_of buffer) d)"

definition ext2_read_superblock :: "'s disk_ops \<Rightarrow> 's \<Rightarrow> (ext2_superblock \<times> 's) res" where
  "ext2_read_superblock dv d =
     res_bind (d_read dv 2 2 d) (\<lambda>(ws, d1). Inr (decode_superblock (bytes_of ws), d1))"

text \<open>The structure itself is the buffer: the disk is given its 84 bytes for two sectors.\<close>

definition ext2_write_superblock :: "'s disk_ops \<Rightarrow> ext2_superblock \<Rightarrow> 's \<Rightarrow> 's res" where
  "ext2_write_superblock dv sb d = d_write dv 2 2 (words_of (encode_superblock sb)) d"

definition ext2_corrupt_superblock_for_fun :: "'s disk_ops \<Rightarrow> 's \<Rightarrow> 's res" where
  "ext2_corrupt_superblock_for_fun dv d =
     res_bind (ext2_read_superblock dv d) (\<lambda>(sb, d1). ext2_write_superblock dv (sb\<lparr>signature := 0xDEAD\<rparr>) d1)"

definition ext2_valid_filesystem :: "'s disk_ops \<Rightarrow> 's \<Rightarrow> (bool \<times> 's) res" where
  "ext2_valid_filesystem dv d =
     res_bind (ext2_read_superblock dv d) (\<lambda>(sb, d1). Inr (signature sb = EXT2_SIGNATURE, d1))"

definition ext2_num_block_groups :: "ext2_superblock \<Rightarrow> u32 res" where
  "ext2_num_block_groups sb =
     (if blocks_per_block_group sb = 0 \<or> inodes_per_block_group sb = 0 then Inl DivByZero
      else
        let a = IDIV_CEIL (total_blocks sb) (blocks_per_block_group sb);
            b = IDIV_CEIL (total_inodes sb) (inodes_per_block_group sb) in
        if a = b then Inr a else Inl (Panic ''Corrupted filesystem''))"

section \<open>Block group descriptors and inodes\<close>

definition ext2_load_or_write_bgd ::
    "'s disk_ops \<Rightarrow> ext2_superblock \<Rightarrow> u32 \<Rightarrow> ext2_block_group_descriptor \<Rightarrow> bool \<Rightarrow> 's \<Rightarrow> (ext2_block_group_descriptor \<times> 's) res" where
  "ext2_load_or_write_bgd dv sb block_group g setit d =
     (let block_size = ext2_block_size sb;
          bgdt_block = (if block_size = 1024 then 2 else 1);
          hd_page = block_group div 16;
          bgd_offset = block_group mod 16;
          lba = block_size div 512 * bgdt_block + hd_page in
      res_bind (d_read dv lba 1 d) (\<lambda>(ws, d1).
      if setit then
        res_bind (splice (bytes_of ws) (BGD_SIZE * unat bgd_offset) (encode_bgd g)) (\<lambda>descriptors.
        res_bind (d_write dv lba 1 (words_of descriptors) d1) (\<lambda>d2. Inr (g, d2)))
      else
        res_bind (slice (bytes_of ws) (BGD_SIZE * unat bgd_offset) BGD_SIZE) (\<lambda>b. Inr (decode_bgd b, d1))))"

definition ext2_write_bgd :: "'s disk_ops \<Rightarrow> ext2_superblock \<Rightarrow> u32 \<Rightarrow> ext2_block_group_descriptor \<Rightarrow> 's \<Rightarrow> 's res" where
  "ext2_write_bgd dv sb block_group g d =
     res_bind (ext2_load_or_write_bgd dv sb block_group g True d) (\<lambda>(_, d1). Inr d1)"

text \<open>The local variable that \<open>ext2_load_bgd\<close> fills in; its first contents do not matter.\<close>

definition no_bgd :: ext2_block_group_descriptor where
  "no_bgd = decode_bgd (replicate BGD_SIZE 0)"

definition ext2_load_bgd :: "'s disk_ops \<Rightarrow> ext2_superblock \<Rightarrow> u32 \<Rightarrow> 's \<Rightarrow> (ext2_block_group_descriptor \<times> 's) res" where
  "ext2_load_bgd dv sb block_group d = ext2_load_or_write_bgd dv sb block_group no_bgd False d"

text \<open>The result is the value returned, \<open>*inode\<close> and the disk.\<close>

definition ext2_get_or_set_inode ::
    "'s disk_ops \<Rightarrow> ext2_superblock \<Rightarrow> u32 \<Rightarrow> ext2_inode \<Rightarrow> bool \<Rightarrow> 's \<Rightarrow> (bool \<times> ext2_inode \<times> 's) res" where
  "ext2_get_or_set_inode dv sb number inode setit d =
     (if number = 0 then Inr (False, inode, d)
      else if inodes_per_block_group sb = 0 then Inl DivByZero
      else
        let block_group = (number - 1) div inodes_per_block_group sb;
            local_index = (number - 1) mod inodes_per_block_group sb in
        res_bind (ext2_load_bgd dv sb block_group d) (\<lambda>(descriptor, d1).
        let inodes_per_block = ext2_block_size sb div of_nat INODE_SIZE in
        if inodes_per_block = 0 then Inl DivByZero
        else
          let inode_block = local_index div inodes_per_block;
              inode_index = local_index mod inodes_per_block;
              fs_block = inode_table_start_block descriptor + inode_block in
          res_bind (ext2_read_block dv sb fs_block d1) (\<lambda>(inodes, d2).
          if setit then
            res_bind (splice inodes (INODE_SIZE * unat inode_index) (encode_inode inode)) (\<lambda>buf.
            res_bind (ext2_write_block dv sb buf fs_block d2) (\<lambda>d3. Inr (True, inode, d3)))
          else
            res_bind (slice inodes (INODE_SIZE * unat inode_index) INODE_SIZE) (\<lambda>b.
            Inr (True, decode_inode b, d2)))))"

definition ext2_find_inode :: "'s disk_ops \<Rightarrow> ext2_superblock \<Rightarrow> u32 \<Rightarrow> ext2_inode \<Rightarrow> 's \<Rightarrow> (bool \<times> ext2_inode \<times> 's) res" where
  "ext2_find_inode dv sb number inode d = ext2_get_or_set_inode dv sb number inode False d"

definition ext2_set_inode :: "'s disk_ops \<Rightarrow> ext2_superblock \<Rightarrow> u32 \<Rightarrow> ext2_inode \<Rightarrow> 's \<Rightarrow> (bool \<times> 's) res" where
  "ext2_set_inode dv sb number inode d =
     res_bind (ext2_get_or_set_inode dv sb number inode True d) (\<lambda>(r, _, d1). Inr (r, d1))"

section \<open>Blocks of a file\<close>

definition ext2_compute_absolute_block :: "u32 \<Rightarrow> u32 res" where
  "ext2_compute_absolute_block block =
     (if 12 \<le> block then Inl (Panic ''Invalid inode block'') else Inr block)"

definition ext2_read_inode_block :: "'s disk_ops \<Rightarrow> ext2_superblock \<Rightarrow> ext2_inode \<Rightarrow> u32 \<Rightarrow> 's \<Rightarrow> (u8 list \<times> 's) res" where
  "ext2_read_inode_block dv sb inode block d =
     res_bind (ext2_compute_absolute_block block) (\<lambda>b.
     res_bind (arr_get (i_blocks inode) (uint b)) (\<lambda>block_address.
     ext2_read_block dv sb block_address d))"

definition ext2_write_inode_block :: "'s disk_ops \<Rightarrow> ext2_superblock \<Rightarrow> ext2_inode \<Rightarrow> u8 list \<Rightarrow> u32 \<Rightarrow> 's \<Rightarrow> 's res" where
  "ext2_write_inode_block dv sb dir buffer block d =
     res_bind (ext2_compute_absolute_block block) (\<lambda>b.
     res_bind (arr_get (i_blocks dir) (uint b)) (\<lambda>block_address.
     ext2_write_block dv sb buffer block_address d))"

text \<open>The full blocks \<open>i\<close> to \<open>i + n - 1\<close> of the file into the buffer.\<close>

fun read_full_blocks :: "'s disk_ops \<Rightarrow> ext2_superblock \<Rightarrow> ext2_inode \<Rightarrow> nat \<Rightarrow> nat \<Rightarrow> u8 list \<Rightarrow> 's \<Rightarrow> (u8 list \<times> 's) res" where
  "read_full_blocks dv sb inode i 0 buffer d = Inr (buffer, d)"
| "read_full_blocks dv sb inode i (Suc n) buffer d =
     res_bind (ext2_read_inode_block dv sb inode (of_nat i) d) (\<lambda>(b, d1).
     res_bind (splice buffer (i * unat (ext2_block_size sb)) b) (\<lambda>buf.
     read_full_blocks dv sb inode (Suc i) n buf d1))"

definition ext2_read_inode :: "'s disk_ops \<Rightarrow> ext2_superblock \<Rightarrow> ext2_inode \<Rightarrow> u8 list \<Rightarrow> u32 \<Rightarrow> 's \<Rightarrow> (u32 \<times> u8 list \<times> 's) res" where
  "ext2_read_inode dv sb inode buffer sz d =
     (let block_size = ext2_block_size sb; fsize = min (i_size inode) sz; i = fsize div block_size in
      if block_size = 0 then Inl DivByZero
      else
        res_bind (read_full_blocks dv sb inode 0 (unat i) buffer d) (\<lambda>(buf, d1).
        if i * block_size < fsize then
          res_bind (ext2_read_inode_block dv sb inode i d1) (\<lambda>(transfer, d2).
          res_bind (slice transfer 0 (unat (fsize mod block_size))) (\<lambda>part.
          res_bind (splice buf (unat (i * block_size)) part) (\<lambda>buf2. Inr (fsize, buf2, d2))))
        else Inr (fsize, buf, d1)))"

section \<open>Directories\<close>

definition EXT2_F_TYPE :: u16 where "EXT2_F_TYPE = 0xf000"
definition EXT2_S_IFREG :: u16 where "EXT2_S_IFREG = 0x8000"
definition EXT2_S_IFDIR :: u16 where "EXT2_S_IFDIR = 0x4000"

text \<open>\<open>ext2_s_to_ft\<close>: the array ends at its largest index, 0xc.\<close>

definition ext2_s_to_ft :: "u8 list" where
  "ext2_s_to_ft = [0, 5, 3, 0, 2, 0, 4, 0, 1, 0, 7, 0, 6]"

definition EXT2_S_TO_FT :: "u16 \<Rightarrow> u8 res" where
  "EXT2_S_TO_FT s = arr_get ext2_s_to_ft (uint (drop_bit 12 s))"

definition is_dir :: "ext2_inode \<Rightarrow> bool" where
  "is_dir i \<longleftrightarrow> i_mode i AND EXT2_F_TYPE = EXT2_S_IFDIR"

definition DIRENT_SIZE :: nat where "DIRENT_SIZE = 8"

text \<open>
  The entries of one block, from offset \<open>p\<close>; \<open>cb\<close> is called with the inode number and the
  name with its zero byte, on the state \<open>c\<close> of the caller and the disk. The flag of the
  result says that the listing is over. A record length of 0 makes the loop endless, which
  is \<open>None\<close>.
\<close>

type_synonym ('c, 's) dir_cb = "u32 \<Rightarrow> u8 list \<Rightarrow> 'c \<Rightarrow> 's \<Rightarrow> (bool \<times> 'c \<times> 's) res option"

partial_function (option) ls_block ::
    "('c, 's) dir_cb \<Rightarrow> u8 list \<Rightarrow> nat \<Rightarrow> nat \<Rightarrow> 'c \<Rightarrow> 's \<Rightarrow> (bool \<times> 'c \<times> 's) res option" where
  "ls_block cb buffer block_size p c d =
     (if p < block_size then
        (case word_from buffer p of
           Inl e \<Rightarrow> Some (Inl e)
         | Inr ino \<Rightarrow>
             if ino = 0 then Some (Inr (True, c, d))
             else
               (case res_bind (arr_get buffer (int (p + 6))) (\<lambda>nl. slice buffer (p + DIRENT_SIZE) (unat nl)) of
                  Inl e \<Rightarrow> Some (Inl e)
                | Inr nm \<Rightarrow>
                    (case cb ino (nm @ [0]) c d of
                       None \<Rightarrow> None
                     | Some (Inl e) \<Rightarrow> Some (Inl e)
                     | Some (Inr (go, c1, d1)) \<Rightarrow>
                         if \<not> go then Some (Inr (True, c1, d1))
                         else
                           (case half_from buffer (p + 4) of
                              Inl e \<Rightarrow> Some (Inl e)
                            | Inr rec_len \<Rightarrow> ls_block cb buffer block_size (p + unat rec_len) c1 d1))))
      else Some (Inr (False, c, d)))"

partial_function (option) ls_blocks ::
    "('c, 's) dir_cb \<Rightarrow> 's disk_ops \<Rightarrow> ext2_superblock \<Rightarrow> ext2_inode \<Rightarrow> u32 \<Rightarrow> 'c \<Rightarrow> 's \<Rightarrow> ('c \<times> 's) res option" where
  "ls_blocks cb dv sb dir i c d =
     (if i < num_blocks dir then
        (case ext2_read_inode_block dv sb dir i d of
           Inl e \<Rightarrow> Some (Inl e)
         | Inr (buffer, d1) \<Rightarrow>
             (case ls_block cb buffer (unat (ext2_block_size sb)) 0 c d1 of
                None \<Rightarrow> None
              | Some (Inl e) \<Rightarrow> Some (Inl e)
              | Some (Inr (over, c1, d2)) \<Rightarrow>
                  if over then Some (Inr (c1, d2)) else ls_blocks cb dv sb dir (i + 1) c1 d2))
      else Some (Inr (c, d)))"

definition ext2_dir_ls ::
    "'s disk_ops \<Rightarrow> ext2_superblock \<Rightarrow> ext2_inode \<Rightarrow> ('c, 's) dir_cb \<Rightarrow> 'c \<Rightarrow> 's \<Rightarrow> (bool \<times> 'c \<times> 's) res option" where
  "ext2_dir_ls dv sb dir cb c d =
     (if \<not> is_dir dir then Some (Inr (False, c, d))
      else
        (case ls_blocks cb dv sb dir 0 c d of
           None \<Rightarrow> None
         | Some (Inl e) \<Rightarrow> Some (Inl e)
         | Some (Inr (c1, d1)) \<Rightarrow> Some (Inr (True, c1, d1))))"

text \<open>
  Both callbacks compare on the shorter of the two lengths; \<open>len\<close> is the length that the
  caller gives, \<open>name\<close> the name with its zero byte.
\<close>

definition ext2_dir_contains_cb :: "u8 list \<Rightarrow> u32 \<Rightarrow> (bool, 's) dir_cb" where
  "ext2_dir_contains_cb name len ino nm found d =
     Some (res_bind (strncmp nm name (min (length nm - 1) (unat len))) (\<lambda>r.
       Inr (if r = 0 then (False, True, d) else (True, found, d))))"

definition ext2_dir_contains ::
    "'s disk_ops \<Rightarrow> ext2_superblock \<Rightarrow> ext2_inode \<Rightarrow> u8 list \<Rightarrow> u32 \<Rightarrow> 's \<Rightarrow> (bool \<times> 's) res option" where
  "ext2_dir_contains dv sb dir name len d =
     (if \<not> is_dir dir then Some (Inr (False, d))
      else
        (case ext2_dir_ls dv sb dir (ext2_dir_contains_cb name len) False d of
           None \<Rightarrow> None
         | Some r \<Rightarrow> Some (res_bind r (\<lambda>(_, found, d1). Inr (found, d1)))))"

definition ext2_dir_find_cb :: "u8 list \<Rightarrow> u32 \<Rightarrow> (u32, 's) dir_cb" where
  "ext2_dir_find_cb name len ino nm found d =
     Some (res_bind (strncmp nm name (min (length nm - 1) (unat len))) (\<lambda>r.
       Inr (if r = 0 then (False, ino, d) else (True, found, d))))"

definition ext2_dir_find ::
    "'s disk_ops \<Rightarrow> ext2_superblock \<Rightarrow> ext2_inode \<Rightarrow> u8 list \<Rightarrow> u32 \<Rightarrow> 's \<Rightarrow> (u32 \<times> 's) res option" where
  "ext2_dir_find dv sb dir name len d =
     (if \<not> is_dir dir then Some (Inr (0, d))
      else
        (case ext2_dir_ls dv sb dir (ext2_dir_find_cb name len) 0 d of
           None \<Rightarrow> None
         | Some r \<Rightarrow> Some (res_bind r (\<lambda>(_, ino, d1). Inr (ino, d1)))))"

text \<open>An entry written field by field.\<close>

definition put_dirent :: "u8 list \<Rightarrow> nat \<Rightarrow> u32 \<Rightarrow> u32 \<Rightarrow> u8 list \<Rightarrow> u32 \<Rightarrow> u8 \<Rightarrow> u8 list res" where
  "put_dirent buffer p ino rec_len name nl type =
     res_bind (splice buffer (p + 4) (le16 (ucast rec_len))) (\<lambda>b1.
     res_bind (splice b1 (p + 6) [ucast nl]) (\<lambda>b2.
     res_bind (splice b2 p (le32 ino)) (\<lambda>b3.
     res_bind (splice b3 (p + 7) [type]) (\<lambda>b4.
     res_bind (slice name 0 (unat nl)) (\<lambda>nm.
     splice b4 (p + DIRENT_SIZE) nm)))))"

text \<open>
  The search in one block for room for an entry of \<open>min_size\<close> bytes, and the block with the
  entry in it; \<open>Some None\<close> when there is none.
\<close>

definition min_rec_len :: "u32 \<Rightarrow> u32" where
  "min_rec_len nl = PAD (nl + of_nat DIRENT_SIZE)"

partial_function (option) insert_in_block ::
    "u8 list \<Rightarrow> u32 \<Rightarrow> u32 \<Rightarrow> u8 \<Rightarrow> u8 list \<Rightarrow> nat \<Rightarrow> nat \<Rightarrow> u8 list option res option" where
  "insert_in_block name nl ino type buffer block_size p =
     (if p < block_size then
        (case word_from buffer p of
           Inl e \<Rightarrow> Some (Inl e)
         | Inr ent_ino \<Rightarrow>
             let min_size = min_rec_len nl in
             if ent_ino = 0 then
               Some (res_bind (put_dirent buffer p ino min_size name nl type) (\<lambda>b. Inr (Some b)))
             else
               (case res_bind (arr_get buffer (int (p + 6))) (\<lambda>l.
                     res_bind (half_from buffer (p + 4)) (\<lambda>rec_len. Inr (l, rec_len))) of
                  Inl e \<Rightarrow> Some (Inl e)
                | Inr (ent_nl, rec_len) \<Rightarrow>
                    let this_min_size = min_rec_len (ucast ent_nl);
                        available_size = ucast rec_len - this_min_size in
                    if min_size \<le> available_size then
                      Some (res_bind (splice buffer (p + 4) (le16 (ucast this_min_size))) (\<lambda>b1.
                            res_bind (put_dirent b1 (p + unat this_min_size) ino available_size name nl type) (\<lambda>b2.
                            Inr (Some b2))))
                    else insert_in_block name nl ino type buffer block_size (p + unat rec_len)))
      else Some (Inr None))"

text \<open>The result is the last buffer, \<open>i\<close> where the loop was left, and the disk.\<close>

partial_function (option) insert_in_blocks ::
    "u8 list \<Rightarrow> u32 \<Rightarrow> u32 \<Rightarrow> u8 \<Rightarrow> 's disk_ops \<Rightarrow> ext2_superblock \<Rightarrow> ext2_inode \<Rightarrow> u32 \<Rightarrow> u8 list \<Rightarrow> 's \<Rightarrow> (u8 list \<times> u32 \<times> 's) res option" where
  "insert_in_blocks name nl ino type dv sb dir i buffer d =
     (if i < num_blocks dir then
        (case ext2_read_inode_block dv sb dir i d of
           Inl e \<Rightarrow> Some (Inl e)
         | Inr (buf, d1) \<Rightarrow>
             (case insert_in_block name nl ino type buf (unat (ext2_block_size sb)) 0 of
                None \<Rightarrow> None
              | Some (Inl e) \<Rightarrow> Some (Inl e)
              | Some (Inr None) \<Rightarrow> insert_in_blocks name nl ino type dv sb dir (i + 1) buf d1
              | Some (Inr (Some b)) \<Rightarrow> Some (Inr (b, i, d1))))
      else Some (Inr (buffer, i, d)))"

text \<open>\<open>junk\<close> is what the local buffer holds before anything is read into it.\<close>

definition ext2_insert_into_dir ::
    "u8 list \<Rightarrow> 's disk_ops \<Rightarrow> ext2_superblock \<Rightarrow> ext2_inode \<Rightarrow> u8 list \<Rightarrow> u32 \<Rightarrow> u32 \<Rightarrow> u8 \<Rightarrow> 's \<Rightarrow> 's res option" where
  "ext2_insert_into_dir junk dv sb dir name name_len ino type d =
     (if \<not> is_dir dir then Some (Inr d)
      else
        (case insert_in_blocks name (min name_len 255) ino type dv sb dir 0 junk d of
           None \<Rightarrow> None
         | Some r \<Rightarrow> Some (res_bind r (\<lambda>(buffer, i, d1). ext2_write_inode_block dv sb dir buffer i d1))))"

definition ext2_hard_link ::
    "u8 list \<Rightarrow> 's disk_ops \<Rightarrow> ext2_superblock \<Rightarrow> ext2_inode \<Rightarrow> u8 list \<Rightarrow> u32 \<Rightarrow> u32 \<Rightarrow> 's \<Rightarrow> (bool \<times> 's) res option" where
  "ext2_hard_link junk dv sb dir name name_len ino d =
     (case ext2_dir_contains dv sb dir name name_len d of
        None \<Rightarrow> None
      | Some (Inl e) \<Rightarrow> Some (Inl e)
      | Some (Inr (True, d1)) \<Rightarrow> Some (Inr (False, d1))
      | Some (Inr (False, d1)) \<Rightarrow>
          (case ext2_find_inode dv sb ino (decode_inode (replicate INODE_SIZE 0)) d1 of
             Inl e \<Rightarrow> Some (Inl e)
           | Inr (False, _, d2) \<Rightarrow> Some (Inr (False, d2))
           | Inr (True, target, d2) \<Rightarrow>
               if \<not> is_dir dir then Some (Inr (False, d2))
               else
                 let target1 = target\<lparr>links_count := links_count target + 1\<rparr> in
                 (case ext2_set_inode dv sb ino target1 d2 of
                    Inl e \<Rightarrow> Some (Inl e)
                  | Inr (_, d3) \<Rightarrow>
                      (case EXT2_S_TO_FT (i_mode target1) of
                         Inl e \<Rightarrow> Some (Inl e)
                       | Inr type \<Rightarrow>
                           (case ext2_insert_into_dir junk dv sb dir name name_len ino type d3 of
                              None \<Rightarrow> None
                            | Some r \<Rightarrow> Some (res_bind r (\<lambda>d4. Inr (True, d4))))))))"

section \<open>Bitmaps\<close>

text \<open>
  \<open>ext2_bitmap_block\<close>: the block that holds the bit and the bit's index in it. It counts a
  block's size in bytes where the index counts bits.
\<close>

function ext2_bitmap_block :: "u32 \<Rightarrow> u32 \<Rightarrow> u32 \<Rightarrow> (u32 \<times> u32) res" where
  "ext2_bitmap_block block_size bitmap_block index =
     (if block_size < index then
        if block_size = 0 then Inl Hang
        else ext2_bitmap_block block_size (bitmap_block + 1) (index - block_size)
      else Inr (bitmap_block, index))"
  by pat_completeness auto
termination
  by (relation "measure (\<lambda>(block_size, bitmap_block, index). unat index)")
    (auto simp: word_less_nat_alt unat_sub word_le_nat_alt unat_gt_0 intro!: diff_less)

declare ext2_bitmap_block.simps [simp del]

definition ext2_check_in_bitmap :: "'s disk_ops \<Rightarrow> ext2_superblock \<Rightarrow> u32 \<Rightarrow> u32 \<Rightarrow> 's \<Rightarrow> (bool \<times> 's) res" where
  "ext2_check_in_bitmap dv sb bitmap_block index d =
     res_bind (ext2_bitmap_block (ext2_block_size sb) bitmap_block index) (\<lambda>(block, idx).
     res_bind (ext2_read_block dv sb block d) (\<lambda>(buffer, d1).
     res_bind (arr_get buffer (uint (idx div 8))) (\<lambda>byte.
     Inr (byte AND push_bit (unat (idx mod 8)) 1 \<noteq> 0, d1))))"

definition ext2_set_in_bitmap :: "'s disk_ops \<Rightarrow> ext2_superblock \<Rightarrow> u32 \<Rightarrow> u32 \<Rightarrow> bool \<Rightarrow> 's \<Rightarrow> 's res" where
  "ext2_set_in_bitmap dv sb bitmap_block index value d =
     res_bind (ext2_bitmap_block (ext2_block_size sb) bitmap_block index) (\<lambda>(block, idx).
     res_bind (ext2_read_block dv sb block d) (\<lambda>(buffer, d1).
     res_bind (arr_get buffer (uint (idx div 8))) (\<lambda>byte.
     let target_bit = push_bit (unat (idx mod 8)) 1 in
     res_bind (arr_set buffer (uint (idx div 8)) (if value then byte OR target_bit else byte OR NOT target_bit)) (\<lambda>buf.
     ext2_write_block dv sb buf block d1))))"

text \<open>\<open>__builtin_ffs\<close>: one more than the index of the least bit that is set, 0 for 0.\<close>

definition builtin_ffs :: "u32 \<Rightarrow> u32" where
  "builtin_ffs x = (case find (bit x) [0..<32] of None \<Rightarrow> 0 | Some k \<Rightarrow> of_nat k + 1)"

text \<open>The dwords of one block, from number \<open>i\<close>, \<open>n\<close> of them.\<close>

fun zero_bit_in_block :: "u8 list \<Rightarrow> nat \<Rightarrow> nat \<Rightarrow> (nat \<times> u32) option res" where
  "zero_bit_in_block buffer i 0 = Inr None"
| "zero_bit_in_block buffer i (Suc n) =
     res_bind (word_from buffer (4 * i)) (\<lambda>w.
     if NOT w \<noteq> 0 then Inr (Some (i, builtin_ffs (NOT w) - 1)) else zero_bit_in_block buffer (Suc i) n)"

function zero_bit_from :: "'s disk_ops \<Rightarrow> ext2_superblock \<Rightarrow> u32 \<Rightarrow> u32 \<Rightarrow> u32 \<Rightarrow> 's \<Rightarrow> (u32 \<times> 's) res" where
  "zero_bit_from dv sb bitmap_block past block d =
     (if block < past then
        res_bind (ext2_read_block dv sb block d) (\<lambda>(buffer, d1).
        res_bind (zero_bit_in_block buffer 0 (unat (ext2_block_size sb div 4))) (\<lambda>r.
        case r of
          Some (i, trailing) \<Rightarrow>
            Inr (trailing + (4 * 8 * of_nat i + (block - bitmap_block) * 8 * ext2_block_size sb), d1)
        | None \<Rightarrow> zero_bit_from dv sb bitmap_block past (block + 1) d1))
      else Inr (- 1, d))"
  by pat_completeness auto
termination
proof (relation "measure (\<lambda>(dv, sb, bitmap_block, past, block, d). unat (past - block))", goal_cases)
  case (2 dv sb bitmap_block past block d)
  moreover have "unat past < 2 ^ LENGTH(32)" by (rule unsigned_less)
  ultimately have "unat (block + 1) = Suc (unat block)" by (intro unat_plus_one) (simp add: word_less_nat_alt)
  then show ?case using 2(1) by (simp add: word_less_nat_alt unat_sub word_le_nat_alt)
qed simp

declare zero_bit_from.simps [simp del]

text \<open>\<open>start_at\<close> is not used.\<close>

definition ext2_first_zero_bit :: "'s disk_ops \<Rightarrow> ext2_superblock \<Rightarrow> u32 \<Rightarrow> u32 \<Rightarrow> u32 \<Rightarrow> 's \<Rightarrow> (u32 \<times> 's) res" where
  "ext2_first_zero_bit dv sb bitmap_block n start_at d =
     zero_bit_from dv sb bitmap_block (bitmap_block + n) bitmap_block d"

text \<open>The loop over the block groups, of which it always loads number 0; \<open>n\<close> rounds are left.\<close>

fun free_inode_rounds :: "'s disk_ops \<Rightarrow> ext2_superblock \<Rightarrow> nat \<Rightarrow> 's \<Rightarrow> (u32 \<times> 's) res" where
  "free_inode_rounds dv sb 0 d = Inr (0, d)"
| "free_inode_rounds dv sb (Suc n) d =
     res_bind (ext2_load_bgd dv sb 0 d) (\<lambda>(bgd, d1).
     if ext2_block_size sb = 0 then Inl DivByZero
     else
       let bitset_blocks = inodes_per_block_group sb div 8 div ext2_block_size sb + 1 in
       res_bind (ext2_first_zero_bit dv sb (inode_bitmap bgd) bitset_blocks 12 d1) (\<lambda>(b, d2).
       if b + 1 \<noteq> 0 then Inr (b + 1, d2) else free_inode_rounds dv sb n d2))"

definition ext2_first_free_inode :: "'s disk_ops \<Rightarrow> ext2_superblock \<Rightarrow> 's \<Rightarrow> (u32 \<times> 's) res" where
  "ext2_first_free_inode dv sb d =
     res_bind (ext2_num_block_groups sb) (\<lambda>n. free_inode_rounds dv sb (unat n) d)"

fun free_block_rounds :: "'s disk_ops \<Rightarrow> ext2_superblock \<Rightarrow> nat \<Rightarrow> 's \<Rightarrow> (u32 \<times> 's) res" where
  "free_block_rounds dv sb 0 d = Inr (0, d)"
| "free_block_rounds dv sb (Suc n) d =
     res_bind (ext2_load_bgd dv sb 0 d) (\<lambda>(bgd, d1).
     if ext2_block_size sb = 0 then Inl DivByZero
     else
       let bitset_blocks = blocks_per_block_group sb div 8 div ext2_block_size sb + 1 in
       res_bind (ext2_first_zero_bit dv sb (block_bitmap bgd) bitset_blocks 0 d1) (\<lambda>(b, d2).
       if b \<noteq> 0xffffffff then Inr (b, d2) else free_block_rounds dv sb n d2))"

definition ext2_first_free_block :: "'s disk_ops \<Rightarrow> ext2_superblock \<Rightarrow> 's \<Rightarrow> (u32 \<times> 's) res" where
  "ext2_first_free_block dv sb d =
     res_bind (ext2_num_block_groups sb) (\<lambda>n. free_block_rounds dv sb (unat n) d)"

text \<open>The recursion to the next group ends only at a group with a free block: \<open>None\<close> otherwise.\<close>

partial_function (option) ext2_alloc_new_block ::
    "'s disk_ops \<Rightarrow> ext2_superblock \<Rightarrow> u32 \<Rightarrow> 's \<Rightarrow> (u32 \<times> 's) res option" where
  "ext2_alloc_new_block dv sb block_group d =
     (case ext2_load_bgd dv sb block_group d of
        Inl e \<Rightarrow> Some (Inl e)
      | Inr (bgd, d1) \<Rightarrow>
          if unallocated_blocks bgd = 0 then ext2_alloc_new_block dv sb (block_group + 1) d1
          else
            Some
              (res_bind (ext2_first_zero_bit dv sb (block_bitmap bgd) (- 1) 0 d1) (\<lambda>(block, d2).
               res_bind (ext2_set_in_bitmap dv sb (block_bitmap bgd) block True d2) (\<lambda>d3.
               res_bind (ext2_write_bgd dv sb block_group
                           (bgd\<lparr>unallocated_blocks := unallocated_blocks bgd - 1\<rparr>) d3) (\<lambda>d4.
               Inr (block, d4))))))"

end
