(* ===== verification/Ext2_Disk.thy ===== *)
theory Ext2_Disk
  imports Ext2
begin

text \<open>
  The ext2 driver of \<open>Ext2\<close> on a disk that keeps the contract \<open>block_device\<close>: blocks as groups
  of sectors, inodes, files and bitmaps. The lemmas are proved once for every such disk, in
  the locale \<open>fs_disk\<close>, and then used for the kernel's own disk, the ATA driver on its
  controller.
\<close>

section \<open>Blocks as groups of sectors\<close>

definition sectors_per_block :: "ext2_superblock \<Rightarrow> nat" where
  "sectors_per_block sb = unat (ext2_block_size sb div 512)"

text \<open>Blocks of 1024 bytes to 64 KiB; 128 sectors is what a \<open>uchar\<close> count can hold.\<close>

definition sb_ok :: "ext2_superblock \<Rightarrow> bool" where
  "sb_ok sb \<longleftrightarrow> unat (block_size_shift sb) \<le> 6 \<and> inodes_per_block_group sb \<noteq> 0"

definition fs_block :: "(nat \<Rightarrow> u16 list) \<Rightarrow> nat \<Rightarrow> nat \<Rightarrow> u8 list" where
  "fs_block sec n b = bytes_of (concat (map sec [n * b..<n * b + n]))"

lemma sb_sizes:
  assumes "sb_ok sb"
  shows "unat (ext2_block_size sb) = 512 * sectors_per_block sb"
    and "2 \<le> sectors_per_block sb" and "sectors_per_block sb \<le> 128"
    and "unat (ucast (ext2_block_size sb div 512) :: u8) = sectors_per_block sb"
    and "unat (ext2_block_size sb div of_nat INODE_SIZE) = 4 * sectors_per_block sb"
    and "unat (ext2_block_size sb div 4) = 128 * sectors_per_block sb"
proof -
  obtain k where k: "unat (block_size_shift sb) = k" "k \<le> 6" using assms by (simp add: sb_ok_def)
  then consider "k = 0" | "k = 1" | "k = 2" | "k = 3" | "k = 4" | "k = 5" | "k = 6" by linarith
  then have "unat (ext2_block_size sb) = 512 * sectors_per_block sb \<and> 2 \<le> sectors_per_block sb \<and>
      sectors_per_block sb \<le> 128 \<and> unat (ucast (ext2_block_size sb div 512) :: u8) = sectors_per_block sb \<and>
      unat (ext2_block_size sb div of_nat INODE_SIZE) = 4 * sectors_per_block sb \<and>
      unat (ext2_block_size sb div 4) = 128 * sectors_per_block sb"
    by cases (simp_all add: sectors_per_block_def ext2_block_size_def k INODE_SIZE_def)
  then show "unat (ext2_block_size sb) = 512 * sectors_per_block sb"
    and "2 \<le> sectors_per_block sb" and "sectors_per_block sb \<le> 128"
    and "unat (ucast (ext2_block_size sb div 512) :: u8) = sectors_per_block sb"
    and "unat (ext2_block_size sb div of_nat INODE_SIZE) = 4 * sectors_per_block sb"
    and "unat (ext2_block_size sb div 4) = 128 * sectors_per_block sb"
    by simp_all
qed

locale fs_disk = block_device ok sector limit "d_read dv" "d_write dv"
  for ok :: "'s \<Rightarrow> bool" and sector :: "'s \<Rightarrow> nat \<Rightarrow> u16 list" and limit :: nat
    and dv :: "'s disk_ops" +
  assumes limit_le: "limit \<le> 2 ^ 32"
begin

text \<open>Block \<open>b\<close> lies on the disk.\<close>

definition on_disk :: "ext2_superblock \<Rightarrow> u32 \<Rightarrow> bool" where
  "on_disk sb b \<longleftrightarrow> sectors_per_block sb * unat b + sectors_per_block sb \<le> limit"

definition blk :: "ext2_superblock \<Rightarrow> 's \<Rightarrow> u32 \<Rightarrow> u8 list" where
  "blk sb d b = fs_block (sector d) (sectors_per_block sb) (unat b)"

lemma length_concat_sectors: "ok d \<Longrightarrow> length (concat (map (sector d) xs)) = 256 * length xs"
  by (induction xs) (simp_all add: sector_length)

lemma blk_length:
  assumes "ok d" "sb_ok sb"
  shows "length (blk sb d b) = unat (ext2_block_size sb)"
  using assms by (simp add: blk_def fs_block_def length_concat_sectors sb_sizes(1))

lemma block_start:
  assumes "sb_ok sb" "on_disk sb b"
  shows "unat (ext2_block_size sb div 512 * b) = sectors_per_block sb * unat b"
proof -
  have "sectors_per_block sb * unat b < 2 ^ 32"
    using assms sb_sizes(2)[OF assms(1)] limit_le unfolding on_disk_def by linarith
  then show ?thesis by (simp add: sectors_per_block_def unat_mult_lem[symmetric])
qed

lemma read_block_ok:
  assumes "ok d" "sb_ok sb" "on_disk sb b"
  shows "\<exists>d'. ext2_read_block dv sb b d = Inr (blk sb d b, d') \<and> ok d' \<and> sector d' = sector d"
proof -
  have "unat (ext2_block_size sb div 512 * b) + unat (ucast (ext2_block_size sb div 512) :: u8) \<le> limit"
    using assms(3) by (simp only: block_start[OF assms(2,3)] sb_sizes(4)[OF assms(2)] on_disk_def)
  from rd_ok[OF assms(1) this] show ?thesis
    by (auto simp: ext2_read_block_def Let_def block_start[OF assms(2,3)] sb_sizes(4)[OF assms(2)] blk_def fs_block_def)
qed

lemma write_block_sector:
  assumes "ok d" "sb_ok sb" "on_disk sb b" "length buf = unat (ext2_block_size sb)"
  shows "\<exists>d'. ext2_write_block dv sb buf b d = Inr d' \<and> ok d' \<and> blk sb d' b = buf \<and>
    (\<forall>l. l < sectors_per_block sb * unat b \<or> sectors_per_block sb * unat b + sectors_per_block sb \<le> l \<longrightarrow>
      sector d' l = sector d l)"
proof -
  let ?n = "sectors_per_block sb" and ?a = "sectors_per_block sb * unat b"
  have len: "length (words_of buf) = 256 * ?n" using assms(4) by (simp add: sb_sizes(1)[OF assms(2)])
  have "unat (ext2_block_size sb div 512 * b) + unat (ucast (ext2_block_size sb div 512) :: u8) \<le> limit"
    using assms(3) by (simp only: block_start[OF assms(2,3)] sb_sizes(4)[OF assms(2)] on_disk_def)
  from wr_ok[OF assms(1) this, of "words_of buf"] len obtain d' where
    d': "d_write dv (ext2_block_size sb div 512 * b) (ucast (ext2_block_size sb div 512)) (words_of buf) d = Inr d'"
      "ok d'" "sector d' = (\<lambda>l. if ?a \<le> l \<and> l < ?a + ?n
        then take 256 (drop (256 * (l - ?a)) (words_of buf)) else sector d l)"
    by (auto simp: block_start[OF assms(2,3)] sb_sizes(4)[OF assms(2)] cong: if_cong)
  have "map (sector d') [?a..<?a + ?n] = map (\<lambda>l. take 256 (drop (256 * (l - ?a)) (words_of buf))) [?a..<?a + ?n]"
    by (rule map_cong) (auto simp: d'(3))
  then have "concat (map (sector d') [?a..<?a + ?n]) = words_of buf"
    by (simp only: concat_slices[OF len])
  then have "blk sb d' b = buf"
    using assms(4) by (simp only: blk_def fs_block_def) (simp add: bytes_of_words_of sb_sizes(1)[OF assms(2)])
  then show ?thesis using d' by (auto simp: ext2_write_block_def Let_def)
qed

lemma blk_cong:
  assumes "\<forall>l. sectors_per_block sb * unat b \<le> l \<and> l < sectors_per_block sb * unat b + sectors_per_block sb \<longrightarrow>
      sector d' l = sector d l"
  shows "blk sb d' b = blk sb d b"
proof -
  have "map (sector d') [sectors_per_block sb * unat b..<sectors_per_block sb * unat b + sectors_per_block sb] =
      map (sector d) [sectors_per_block sb * unat b..<sectors_per_block sb * unat b + sectors_per_block sb]"
    using assms by (intro map_cong) auto
  then show ?thesis by (simp only: blk_def fs_block_def)
qed

lemma blocks_apart:
  assumes "b \<noteq> b'" "n * unat b' \<le> l" "l < n * unat b' + n"
  shows "l < n * unat b \<or> n * unat b + n \<le> l"
proof (rule ccontr)
  assume "\<not> ?thesis"
  then have "l div n = unat b" "l div n = unat b'" using assms(2,3) by (auto intro!: div_nat_eqI simp: mult.commute)
  then show False using assms(1) by (metis word_unat_eq_iff)
qed

lemma write_block_ok:
  assumes "ok d" "sb_ok sb" "on_disk sb b" "length buf = unat (ext2_block_size sb)"
  shows "\<exists>d'. ext2_write_block dv sb buf b d = Inr d' \<and> ok d' \<and> blk sb d' = (blk sb d)(b := buf)"
proof -
  obtain d' where d': "ext2_write_block dv sb buf b d = Inr d'" "ok d'" "blk sb d' b = buf"
    "\<forall>l. l < sectors_per_block sb * unat b \<or> sectors_per_block sb * unat b + sectors_per_block sb \<le> l \<longrightarrow>
      sector d' l = sector d l"
    using write_block_sector[OF assms] by blast
  have "blk sb d' b' = blk sb d b'" if "b' \<noteq> b" for b'
    using d'(4) blocks_apart[of b b'] that by (intro blk_cong) blast
  then show ?thesis using d' by (intro exI[of _ d']) auto
qed

end

section \<open>Block group descriptors and inodes on the disk\<close>

definition bgd_lba :: "ext2_superblock \<Rightarrow> u32 \<Rightarrow> nat" where
  "bgd_lba sb g = sectors_per_block sb * (if ext2_block_size sb = 1024 then 2 else 1) + unat g div 16"

definition group_of :: "ext2_superblock \<Rightarrow> u32 \<Rightarrow> u32" where
  "group_of sb number = (number - 1) div inodes_per_block_group sb"

definition inode_index :: "ext2_superblock \<Rightarrow> u32 \<Rightarrow> nat" where
  "inode_index sb number = unat ((number - 1) mod inodes_per_block_group sb) mod (4 * sectors_per_block sb)"

definition bgd_at :: "ext2_superblock \<Rightarrow> (nat \<Rightarrow> u16 list) \<Rightarrow> u32 \<Rightarrow> ext2_block_group_descriptor" where
  "bgd_at sb sec g = decode_bgd (take BGD_SIZE (drop (BGD_SIZE * (unat g mod 16)) (bytes_of (sec (bgd_lba sb g)))))"

text \<open>The block of the inode table that holds inode \<open>number\<close>.\<close>

definition inode_blk :: "ext2_superblock \<Rightarrow> (nat \<Rightarrow> u16 list) \<Rightarrow> u32 \<Rightarrow> u32" where
  "inode_blk sb sec number = inode_table_start_block (bgd_at sb sec (group_of sb number)) +
     (number - 1) mod inodes_per_block_group sb div (ext2_block_size sb div of_nat INODE_SIZE)"

definition inode_at :: "ext2_superblock \<Rightarrow> (nat \<Rightarrow> u16 list) \<Rightarrow> u32 \<Rightarrow> ext2_inode" where
  "inode_at sb sec number = decode_inode (take INODE_SIZE (drop (INODE_SIZE * inode_index sb number)
     (fs_block sec (sectors_per_block sb) (unat (inode_blk sb sec number)))))"

text \<open>
  Inode \<open>number\<close> exists on a disk of \<open>limit\<close> sectors: its descriptor and its block are on the
  disk, and the descriptor is not inside that block.
\<close>

definition inode_on_disk :: "ext2_superblock \<Rightarrow> (nat \<Rightarrow> u16 list) \<Rightarrow> nat \<Rightarrow> u32 \<Rightarrow> bool" where
  "inode_on_disk sb sec limit number \<longleftrightarrow> number \<noteq> 0 \<and> bgd_lba sb (group_of sb number) < limit \<and>
     (let n = sectors_per_block sb; a = n * unat (inode_blk sb sec number); l = bgd_lba sb (group_of sb number) in
      a + n \<le> limit \<and> (l < a \<or> a + n \<le> l))"

lemma bgd_lba_unat:
  assumes "sb_ok sb"
  shows "unat (ext2_block_size sb div 512 * (if ext2_block_size sb = 1024 then 2 else 1) + g div 16) = bgd_lba sb g"
proof -
  let ?k = "if ext2_block_size sb = 1024 then 2 else 1 :: u32"
  have k: "unat ?k = (if ext2_block_size sb = 1024 then 2 else 1)" by simp
  have s: "sectors_per_block sb \<le> 128" by (rule sb_sizes(3)[OF assms])
  have g: "unat g < 2 ^ LENGTH(32)" by (rule unsigned_less)
  have m: "sectors_per_block sb * unat ?k < 2 ^ 32" using s by simp
  then have e: "unat (ext2_block_size sb div 512 * ?k) = sectors_per_block sb * unat ?k"
    by (simp only: sectors_per_block_def unat_mult_lem[symmetric]) simp
  have f: "unat (g div 16) = unat g div 16" by (simp add: unat_div)
  have "sectors_per_block sb * unat ?k + unat g div 16 < 2 ^ LENGTH(32)"
  proof -
    have "sectors_per_block sb * unat ?k \<le> 256" using s by simp
    moreover have "unat g div 16 < 2 ^ 28" using g by (simp add: less_mult_imp_div_less)
    ultimately show ?thesis by simp
  qed
  then have "unat (ext2_block_size sb div 512 * ?k) + unat (g div 16) < 2 ^ LENGTH(32)" by (simp only: e f)
  from iffD1[OF unat_add_lem this] show ?thesis by (simp only: e f k bgd_lba_def)
qed

lemma slice_ok: "off + n \<le> length buf \<Longrightarrow> slice buf off n = Inr (take n (drop off buf))"
  by (simp add: slice_def)

lemma splice_ok: "off + length xs \<le> length buf \<Longrightarrow> \<exists>buf'. splice buf off xs = Inr buf'"
  by (simp add: splice_def)

context fs_disk begin

lemma load_bgd_ok:
  assumes "ok d" "sb_ok sb" "bgd_lba sb g < limit"
  shows "\<exists>d'. ext2_load_bgd dv sb g d = Inr (bgd_at sb (sector d) g, d') \<and> ok d' \<and> sector d' = sector d"
proof -
  let ?lba = "ext2_block_size sb div 512 * (if ext2_block_size sb = 1024 then 2 else 1) + g div 16"
  have "unat ?lba + unat (1 :: u8) \<le> limit" using assms(3) by (simp only: bgd_lba_unat[OF assms(2)]) simp
  from rd_ok[OF assms(1) this] obtain d' where d': "d_read dv ?lba 1 d = Inr (sector d (bgd_lba sb g), d')"
    "ok d'" "sector d' = sector d"
    by (simp only: bgd_lba_unat[OF assms(2)]) auto
  have "BGD_SIZE * (unat g mod 16) + BGD_SIZE \<le> length (bytes_of (sector d (bgd_lba sb g)))"
    using sector_length[OF assms(1)] mod_less_divisor[of 16 "unat g"] by (simp add: BGD_SIZE_def)
  from slice_ok[OF this] d' show ?thesis
    by (auto simp: ext2_load_bgd_def ext2_load_or_write_bgd_def Let_def bgd_at_def unat_mod)
qed

lemma find_inode_ok:
  assumes "ok d" "sb_ok sb" "inode_on_disk sb (sector d) limit number"
  shows "\<exists>d'. ext2_find_inode dv sb number j d = Inr (True, inode_at sb (sector d) number, d') \<and>
    ok d' \<and> sector d' = sector d"
proof -
  let ?b = "inode_blk sb (sector d) number"
  obtain d1 where d1: "ext2_load_bgd dv sb (group_of sb number) d = Inr (bgd_at sb (sector d) (group_of sb number), d1)"
    "ok d1" "sector d1 = sector d"
    using load_bgd_ok[OF assms(1,2)] assms(3) by (auto simp: inode_on_disk_def)
  have "on_disk sb ?b" using assms(3) by (simp add: inode_on_disk_def on_disk_def Let_def)
  from read_block_ok[OF d1(2) assms(2) this] d1(3) obtain d2 where
    d2: "ext2_read_block dv sb ?b d1 = Inr (blk sb d ?b, d2)" "ok d2" "sector d2 = sector d"
    by (auto simp: blk_def)
  have ib: "unat ((number - 1) mod inodes_per_block_group sb mod (ext2_block_size sb div of_nat INODE_SIZE)) = inode_index sb number"
    by (simp add: inode_index_def unat_mod sb_sizes(5)[OF assms(2)])
  have nz: "ext2_block_size sb div of_nat INODE_SIZE \<noteq> 0"
    using sb_sizes(5)[OF assms(2)] sb_sizes(2)[OF assms(2)] by auto
  have "inode_index sb number < 4 * sectors_per_block sb"
    using sb_sizes(2)[OF assms(2)] by (simp add: inode_index_def)
  then have "INODE_SIZE * inode_index sb number + INODE_SIZE \<le> length (blk sb d ?b)"
    by (simp add: blk_length[OF assms(1,2)] sb_sizes(1)[OF assms(2)] INODE_SIZE_def)
  note sl = slice_ok[OF this]
  show ?thesis
    using assms(2,3) d1 d2 sl nz
    by (auto simp: ext2_find_inode_def ext2_get_or_set_inode_def Let_def ib sb_ok_def inode_on_disk_def
      group_of_def[symmetric] inode_blk_def[symmetric] inode_at_def blk_def)
qed

end

lemma same_place:
  assumes "sb_ok sb" "group_of sb m = group_of sb number" "inode_blk sb sec m = inode_blk sb sec number"
    and "inode_index sb m = inode_index sb number"
  shows "m = number"
proof -
  let ?p = "ext2_block_size sb div of_nat INODE_SIZE"
  let ?a = "(m - 1) mod inodes_per_block_group sb" and ?b = "(number - 1) mod inodes_per_block_group sb"
  have "?a div ?p = ?b div ?p" using assms(2,3) by (simp add: inode_blk_def)
  moreover have "unat (?a mod ?p) = unat (?b mod ?p)"
    using assms(4) by (simp add: inode_index_def unat_mod sb_sizes(5)[OF assms(1)])
  ultimately have "?a = ?b" by (metis div_mult_mod_eq word_unat_eq_iff)
  moreover have "(m - 1) div inodes_per_block_group sb = (number - 1) div inodes_per_block_group sb"
    using assms(2) by (simp add: group_of_def)
  ultimately have "m - 1 = number - 1" by (metis div_mult_mod_eq)
  then show ?thesis by simp
qed

lemma inode_offsets_apart:
  "a \<noteq> b \<Longrightarrow> INODE_SIZE * a + INODE_SIZE \<le> INODE_SIZE * b \<or> INODE_SIZE * b + INODE_SIZE \<le> INODE_SIZE * a"
  by (cases a b rule: linorder_cases) (auto simp: INODE_SIZE_def)

context fs_disk begin

lemma write_inode_blk_ok:
  assumes "ok d" "sb_ok sb" "inode_on_disk sb (sector d) limit number" "inode_ok i"
  shows "\<exists>d' buf. ext2_set_inode dv sb number i d = Inr (True, d') \<and> ok d' \<and>
    splice (blk sb d (inode_blk sb (sector d) number)) (INODE_SIZE * inode_index sb number) (encode_inode i) = Inr buf \<and>
    blk sb d' (inode_blk sb (sector d) number) = buf \<and>
    (\<forall>l. l < sectors_per_block sb * unat (inode_blk sb (sector d) number) \<or>
         sectors_per_block sb * unat (inode_blk sb (sector d) number) + sectors_per_block sb \<le> l \<longrightarrow>
      sector d' l = sector d l)"
proof -
  let ?b = "inode_blk sb (sector d) number"
  obtain d1 where d1: "ext2_load_bgd dv sb (group_of sb number) d = Inr (bgd_at sb (sector d) (group_of sb number), d1)"
    "ok d1" "sector d1 = sector d"
    using load_bgd_ok[OF assms(1,2)] assms(3) by (auto simp: inode_on_disk_def)
  have od: "on_disk sb ?b" using assms(3) by (simp add: inode_on_disk_def on_disk_def Let_def)
  from read_block_ok[OF d1(2) assms(2) this] d1(3) obtain d2 where
    d2: "ext2_read_block dv sb ?b d1 = Inr (blk sb d ?b, d2)" "ok d2" "sector d2 = sector d"
    by (auto simp: blk_def)
  have ib: "unat ((number - 1) mod inodes_per_block_group sb mod (ext2_block_size sb div of_nat INODE_SIZE)) = inode_index sb number"
    by (simp add: inode_index_def unat_mod sb_sizes(5)[OF assms(2)])
  have nz: "ext2_block_size sb div of_nat INODE_SIZE \<noteq> 0"
    using sb_sizes(5)[OF assms(2)] sb_sizes(2)[OF assms(2)] by auto
  have "inode_index sb number < 4 * sectors_per_block sb"
    using sb_sizes(2)[OF assms(2)] by (simp add: inode_index_def)
  then have "INODE_SIZE * inode_index sb number + length (encode_inode i) \<le> length (blk sb d ?b)"
    using assms(4) by (simp add: blk_length[OF assms(1,2)] sb_sizes(1)[OF assms(2)] INODE_SIZE_def)
  from splice_ok[OF this] obtain buf where
    buf: "splice (blk sb d ?b) (INODE_SIZE * inode_index sb number) (encode_inode i) = Inr buf" by blast
  have "length buf = unat (ext2_block_size sb)" using splice_length[OF buf] blk_length[OF assms(1,2)] by simp
  from write_block_sector[OF d2(2) assms(2) od this] d2(3) obtain d3 where
    d3: "ext2_write_block dv sb buf ?b d2 = Inr d3" "ok d3" "blk sb d3 ?b = buf"
      "\<forall>l. l < sectors_per_block sb * unat ?b \<or> sectors_per_block sb * unat ?b + sectors_per_block sb \<le> l \<longrightarrow>
        sector d3 l = sector d l"
    by metis
  have "ext2_set_inode dv sb number i d = Inr (True, d3)"
    using assms(2,3) d1 d2 d3 buf nz
    by (auto simp: ext2_set_inode_def ext2_get_or_set_inode_def Let_def ib sb_ok_def inode_on_disk_def
      group_of_def[symmetric] inode_blk_def[symmetric])
  then show ?thesis using d3 buf by blast
qed

lemma set_inode_ok:
  assumes "ok d" "sb_ok sb" "inode_on_disk sb (sector d) limit number" "inode_ok i"
  shows "\<exists>d'. ext2_set_inode dv sb number i d = Inr (True, d') \<and> ok d' \<and>
    inode_on_disk sb (sector d') limit number \<and> inode_at sb (sector d') number = i \<and>
    (\<forall>m. group_of sb m = group_of sb number \<and> m \<noteq> number \<longrightarrow>
      inode_blk sb (sector d') m = inode_blk sb (sector d) m \<and> inode_at sb (sector d') m = inode_at sb (sector d) m)"
proof -
  let ?b = "inode_blk sb (sector d) number" and ?n = "sectors_per_block sb"
  obtain d' buf where d': "ext2_set_inode dv sb number i d = Inr (True, d')" "ok d'"
    "splice (blk sb d ?b) (INODE_SIZE * inode_index sb number) (encode_inode i) = Inr buf" "blk sb d' ?b = buf"
    "\<forall>l. l < ?n * unat ?b \<or> ?n * unat ?b + ?n \<le> l \<longrightarrow> sector d' l = sector d l"
    using write_inode_blk_ok[OF assms] by blast
  have "sector d' (bgd_lba sb (group_of sb number)) = sector d (bgd_lba sb (group_of sb number))"
    using assms(3) d'(5) by (auto simp: inode_on_disk_def Let_def)
  then have g: "bgd_at sb (sector d') (group_of sb number) = bgd_at sb (sector d) (group_of sb number)"
    by (simp add: bgd_at_def)
  then have b: "inode_blk sb (sector d') m = inode_blk sb (sector d) m" if "group_of sb m = group_of sb number" for m
    using that by (simp add: inode_blk_def)
  have r: "slice buf (INODE_SIZE * inode_index sb number) INODE_SIZE = Inr (encode_inode i)"
    using slice_splice_same[OF d'(3)] assms(4) by simp
  have "inode_at sb (sector d') number = i"
    using r assms(4) d'(4) by (auto simp: inode_at_def b blk_def slice_def split: if_splits)
  moreover have "inode_at sb (sector d') m = inode_at sb (sector d) m"
    if m: "group_of sb m = group_of sb number" "m \<noteq> number" for m
  proof (cases "inode_blk sb (sector d) m = ?b")
    case True
    let ?k = "INODE_SIZE * inode_index sb m"
    have "inode_index sb m \<noteq> inode_index sb number" using same_place[OF assms(2) m(1) True] m(2) by blast
    then have "slice buf ?k INODE_SIZE = slice (blk sb d ?b) ?k INODE_SIZE"
      using inode_offsets_apart[of "inode_index sb m" "inode_index sb number"] assms(4)
      by (intro slice_splice_other[OF d'(3)]) simp
    moreover have "inode_index sb m < 4 * ?n" using sb_sizes(2)[OF assms(2)] by (simp add: inode_index_def)
    then have "?k + INODE_SIZE \<le> length (blk sb d ?b)"
      by (simp add: blk_length[OF assms(1,2)] sb_sizes(1)[OF assms(2)] INODE_SIZE_def)
    moreover have "length buf = length (blk sb d ?b)" by (rule splice_length[OF d'(3)])
    ultimately have "take INODE_SIZE (drop ?k buf) = take INODE_SIZE (drop ?k (blk sb d ?b))" by (simp add: slice_ok)
    then show ?thesis using True d'(4) by (simp add: inode_at_def b[OF m(1)] blk_def)
  next
    case False
    then have "blk sb d' (inode_blk sb (sector d) m) = blk sb d (inode_blk sb (sector d) m)"
      using blocks_apart[of ?b "inode_blk sb (sector d) m" ?n] d'(5) by (intro blk_cong) metis
    then show ?thesis by (simp add: inode_at_def b[OF m(1)] blk_def)
  qed
  moreover have "inode_on_disk sb (sector d') limit number"
    using assms(3) by (simp add: inode_on_disk_def b)
  ultimately show ?thesis using d'(1,2) b by blast
qed

lemma set_then_find:
  assumes "ok d" "sb_ok sb" "inode_on_disk sb (sector d) limit number" "inode_ok i"
  shows "\<exists>d1 d2. ext2_set_inode dv sb number i d = Inr (True, d1) \<and>
    ext2_find_inode dv sb number j d1 = Inr (True, i, d2) \<and>
    (\<forall>m. group_of sb m = group_of sb number \<and> m \<noteq> number \<and> inode_on_disk sb (sector d) limit m \<longrightarrow>
      (\<exists>x d3 d4. ext2_find_inode dv sb m j d = Inr (True, x, d3) \<and> ext2_find_inode dv sb m j d1 = Inr (True, x, d4)))"
proof -
  obtain d1 where d1: "ext2_set_inode dv sb number i d = Inr (True, d1)" "ok d1"
    "inode_on_disk sb (sector d1) limit number" "inode_at sb (sector d1) number = i"
    "\<forall>m. group_of sb m = group_of sb number \<and> m \<noteq> number \<longrightarrow>
      inode_blk sb (sector d1) m = inode_blk sb (sector d) m \<and> inode_at sb (sector d1) m = inode_at sb (sector d) m"
    using set_inode_ok[OF assms] by blast
  have "\<exists>x d3 d4. ext2_find_inode dv sb m j d = Inr (True, x, d3) \<and> ext2_find_inode dv sb m j d1 = Inr (True, x, d4)"
    if m: "group_of sb m = group_of sb number" "m \<noteq> number" "inode_on_disk sb (sector d) limit m" for m
  proof -
    have "inode_on_disk sb (sector d1) limit m" using m d1(5) by (simp add: inode_on_disk_def)
    then show ?thesis
      using find_inode_ok[OF assms(1,2) m(3), of j] find_inode_ok[OF d1(2) assms(2), of m j] m d1(5) by fastforce
  qed
  then show ?thesis using d1 find_inode_ok[OF d1(2) assms(2) d1(3), of j] by auto
qed

end

section \<open>Reading a file\<close>

lemma splice_Inr:
  "off + length xs \<le> length buf \<Longrightarrow> splice buf off xs = Inr (take off buf @ xs @ drop (off + length xs) buf)"
  by (simp add: splice_def)

lemma take_two: "length A = a \<Longrightarrow> length B = b \<Longrightarrow> take (a + b) (A @ B @ C) = A @ B"
  by simp

lemma drop_two:
  "length A = a \<Longrightarrow> length B = b \<Longrightarrow> a + b \<le> c \<Longrightarrow> drop c (A @ B @ drop (a + b) xs) = drop c xs"
  by simp

context fs_disk begin

definition blocks_on_disk :: "ext2_superblock \<Rightarrow> ext2_inode \<Rightarrow> nat \<Rightarrow> bool" where
  "blocks_on_disk sb inode k \<longleftrightarrow> length (i_blocks inode) = 15 \<and> k \<le> 12 \<and> (\<forall>j<k. on_disk sb (i_blocks inode ! j))"

definition file_blocks :: "ext2_superblock \<Rightarrow> 's \<Rightarrow> ext2_inode \<Rightarrow> nat \<Rightarrow> nat \<Rightarrow> u8 list" where
  "file_blocks sb d inode i k = concat (map (\<lambda>j. blk sb d (i_blocks inode ! j)) [i..<k])"

lemma blk_sector: "sector d' = sector d \<Longrightarrow> blk sb d' = blk sb d"
  by (rule ext) (simp only: blk_def)

lemma read_inode_block_ok:
  assumes "ok d" "sb_ok sb" "length (i_blocks inode) = 15" "j < 12" "on_disk sb (i_blocks inode ! j)"
  shows "\<exists>d'. ext2_read_inode_block dv sb inode (of_nat j) d = Inr (blk sb d (i_blocks inode ! j), d') \<and>
    ok d' \<and> sector d' = sector d"
proof -
  have u: "unat (of_nat j :: u32) = j" using assms(4) by (simp add: unat_of_nat)
  then have "\<not> 12 \<le> (of_nat j :: u32)" using assms(4) by (simp add: word_le_nat_alt)
  then show ?thesis
    using read_block_ok[OF assms(1,2,5)] assms(3,4)
    by (auto simp: ext2_read_inode_block_def ext2_compute_absolute_block_def arr_get_uint u)
qed

lemma read_full_blocks_ok:
  assumes "ok d" "sb_ok sb" "blocks_on_disk sb inode (i + n)" "(i + n) * unat (ext2_block_size sb) \<le> length buf"
  shows "\<exists>d'. read_full_blocks dv sb inode i n buf d =
      Inr (take (i * unat (ext2_block_size sb)) buf @ file_blocks sb d inode i (i + n) @
        drop ((i + n) * unat (ext2_block_size sb)) buf, d') \<and> ok d' \<and> sector d' = sector d"
  using assms
proof (induction n arbitrary: i buf d)
  case (Suc n)
  let ?z = "unat (ext2_block_size sb)" and ?b = "blk sb d (i_blocks inode ! i)"
  obtain d1 where d1: "ext2_read_inode_block dv sb inode (of_nat i) d = Inr (?b, d1)" "ok d1" "sector d1 = sector d"
    using read_inode_block_ok[OF Suc.prems(1,2), of inode i] Suc.prems(3) by (auto simp: blocks_on_disk_def)
  have len: "length ?b = ?z" by (rule blk_length[OF Suc.prems(1,2)])
  have le: "i * ?z + ?z \<le> length buf"
  proof -
    have "i * ?z + ?z \<le> (i + Suc n) * ?z" by (simp add: algebra_simps)
    then show ?thesis using Suc.prems(4) by linarith
  qed
  let ?buf = "take (i * ?z) buf @ ?b @ drop (i * ?z + ?z) buf"
  have sp: "splice buf (i * ?z) ?b = Inr ?buf" using splice_Inr[of "i * ?z" ?b buf] le len by simp
  have bl: "length ?buf = length buf" using le len by simp
  have pre: "blocks_on_disk sb inode (Suc i + n)" "(Suc i + n) * ?z \<le> length ?buf"
    using Suc.prems(3,4) unfolding bl by simp_all
  from Suc.IH[OF d1(2) Suc.prems(2) this] obtain d' where
    d': "read_full_blocks dv sb inode (Suc i) n ?buf d1 = Inr (take (Suc i * ?z) ?buf @
        file_blocks sb d1 inode (Suc i) (Suc i + n) @ drop ((Suc i + n) * ?z) ?buf, d')" "ok d'" "sector d' = sector d1"
    by blast
  have tl: "length (take (i * ?z) buf) = i * ?z" using le by simp
  have "take (Suc i * ?z) ?buf = take (i * ?z) buf @ ?b"
    using take_two[OF tl len] by (simp only: mult_Suc add.commute)
  moreover have "i * ?z + ?z \<le> (Suc i + n) * ?z" by (simp add: algebra_simps)
  then have "drop ((Suc i + n) * ?z) ?buf = drop ((i + Suc n) * ?z) buf"
    using drop_two[OF tl len] by (simp only: add_Suc_shift)
  moreover have "file_blocks sb d inode i (i + Suc n) = ?b @ file_blocks sb d1 inode (Suc i) (Suc i + n)"
  proof -
    have "[i..<i + Suc n] = i # [Suc i..<Suc i + n]" by (simp only: add_Suc_right add_Suc) (rule upt_conv_Cons, simp)
    then show ?thesis by (simp only: file_blocks_def blk_sector[OF d1(3)]) simp
  qed
  moreover have "read_full_blocks dv sb inode i (Suc n) buf d = read_full_blocks dv sb inode (Suc i) n ?buf d1"
    by (simp only: read_full_blocks.simps d1(1) sp res_bind_simps prod.case)
  ultimately show ?case using d' d1(3) by (metis append.assoc)
qed (auto simp: file_blocks_def)

lemma file_blocks_split:
  assumes "i \<le> j" "j \<le> k"
  shows "file_blocks sb d inode i k = file_blocks sb d inode i j @ file_blocks sb d inode j k"
proof -
  obtain m where "k = j + m" using assms(2) le_Suc_ex by blast
  then show ?thesis using upt_add_eq_append[OF assms(1), of m] by (simp add: file_blocks_def)
qed

lemma file_blocks_Cons: "i < k \<Longrightarrow> file_blocks sb d inode i k = blk sb d (i_blocks inode ! i) @ file_blocks sb d inode (Suc i) k"
  by (simp add: file_blocks_def upt_conv_Cons)

lemma file_blocks_length:
  "ok d \<Longrightarrow> sb_ok sb \<Longrightarrow> length (file_blocks sb d inode i k) = (k - i) * unat (ext2_block_size sb)"
  by (induction k) (auto simp: file_blocks_def blk_length Suc_diff_le)

lemma read_inode_ok:
  assumes "ok d" "sb_ok sb" "blocks_on_disk sb inode k"
    and "unat (min (i_size inode) n) \<le> k * unat (ext2_block_size sb)" "unat (min (i_size inode) n) \<le> length buf"
  shows "\<exists>d'. ext2_read_inode dv sb inode buf n d = Inr (min (i_size inode) n,
      take (unat (min (i_size inode) n)) (file_blocks sb d inode 0 k) @ drop (unat (min (i_size inode) n)) buf, d') \<and>
    ok d' \<and> sector d' = sector d"
proof -
  let ?z = "unat (ext2_block_size sb)" and ?f = "min (i_size inode) n"
  define q where "q = unat ?f div ?z"
  define r where "r = unat ?f mod ?z"
  have z: "0 < ?z" using sb_sizes(1,2)[OF assms(2)] by simp
  have dm: "q * ?z + r = unat ?f" "r < ?z" using z by (simp_all add: q_def r_def)
  have "q * ?z \<le> k * ?z" using dm assms(4) by linarith
  then have ik: "q \<le> k" using z by simp
  have bod: "blocks_on_disk sb inode (0 + q)" using assms(3) ik by (auto simp: blocks_on_disk_def)
  have "q * ?z \<le> length buf" using dm assms(5) by linarith
  then have "(0 + q) * ?z \<le> length buf" by (simp only: add_0)
  from read_full_blocks_ok[OF assms(1,2) bod this] obtain d1 where
    d1: "read_full_blocks dv sb inode 0 q buf d = Inr (file_blocks sb d inode 0 q @ drop (q * ?z) buf, d1)"
      "ok d1" "sector d1 = sector d" by auto
  have ui: "unat (?f div ext2_block_size sb) = q" by (simp add: unat_div q_def)
  have um: "unat (?f div ext2_block_size sb * ext2_block_size sb) = q * ?z"
  proof -
    have "unat ?f < 2 ^ LENGTH(32)" by (rule unsigned_less)
    then have "q * ?z < 2 ^ LENGTH(32)" using dm by linarith
    then have "unat (?f div ext2_block_size sb) * ?z < 2 ^ LENGTH(32)" by (simp only: ui)
    from iffD1[OF unat_mult_lem this] show ?thesis by (simp only: ui)
  qed
  have nz: "ext2_block_size sb \<noteq> 0" using z by auto
  have fl: "length (file_blocks sb d inode 0 q) = q * ?z" using file_blocks_length[OF assms(1,2)] by simp
  show ?thesis
  proof (cases "r = 0")
    case True
    then have "\<not> ?f div ext2_block_size sb * ext2_block_size sb < ?f" using dm by (simp add: word_less_nat_alt um)
    moreover have "take (unat ?f) (file_blocks sb d inode 0 k) = file_blocks sb d inode 0 q"
    proof -
      have "file_blocks sb d inode 0 k = file_blocks sb d inode 0 q @ file_blocks sb d inode q k"
        using ik by (intro file_blocks_split) simp_all
      then show ?thesis using fl True dm(1) by simp
    qed
    ultimately show ?thesis using d1 dm True nz by (auto simp: ext2_read_inode_def Let_def ui)
  next
    case False
    then have lt: "?f div ext2_block_size sb * ext2_block_size sb < ?f"
    proof -
      have "q * ?z < unat ?f" using False dm by linarith
      then show ?thesis by (simp only: word_less_nat_alt um)
    qed
    have "q * ?z < k * ?z" using False dm assms(4) by linarith
    then have ik': "q < k" by simp
    let ?b = "blk sb d (i_blocks inode ! q)"
    obtain d2 where d2: "ext2_read_inode_block dv sb inode (?f div ext2_block_size sb) d1 = Inr (?b, d2)" "ok d2" "sector d2 = sector d"
      using read_inode_block_ok[OF d1(2) assms(2), of inode q] assms(3) ik' blk_sector[OF d1(3)] d1(3)
      by (auto simp: blocks_on_disk_def ui[symmetric])
    have len: "length ?b = ?z" by (rule blk_length[OF assms(1,2)])
    have sl: "slice ?b 0 r = Inr (take r ?b)" using dm(2) len by (simp add: slice_def)
    have bl: "length (file_blocks sb d inode 0 q @ drop (q * ?z) buf) = length buf" using fl dm assms(5) by simp
    have sp: "splice (file_blocks sb d inode 0 q @ drop (q * ?z) buf) (q * ?z) (take r ?b) =
        Inr (file_blocks sb d inode 0 q @ take r ?b @ drop (unat ?f) buf)"
      using dm assms(5) len fl by (simp add: splice_def add.commute)
    have "file_blocks sb d inode 0 k = file_blocks sb d inode 0 q @ ?b @ file_blocks sb d inode (Suc q) k"
      using ik' file_blocks_split[of 0 q k sb d inode] file_blocks_Cons[of q k sb d inode] by simp
    then have "take (unat ?f) (file_blocks sb d inode 0 k) = file_blocks sb d inode 0 q @ take r ?b"
      using fl len dm(2) by (simp add: dm(1)[symmetric])
    then show ?thesis using d1 d2 sl sp lt nz by (auto simp: ext2_read_inode_def Let_def ui um unat_mod r_def[symmetric])
  qed
qed

end

section \<open>Bitmaps\<close>

text \<open>Bit \<open>k\<close> of a buffer, the least significant bit of a byte first.\<close>

definition bit_in :: "u8 list \<Rightarrow> nat \<Rightarrow> bool" where
  "bit_in buf k \<longleftrightarrow> bit (buf ! (k div 8)) (k mod 8)"

lemma bitmap_block_near [simp]: "index \<le> block_size \<Longrightarrow> ext2_bitmap_block block_size b index = Inr (b, index)"
  by (simp add: ext2_bitmap_block.simps[of block_size b index] leD)

text \<open>The walk to the bit's block, in steps of as many bits as a block has bytes.\<close>

lemma bitmap_block_steps:
  assumes "unat index = k * unat block_size + r" "0 < r" "r \<le> unat block_size"
  shows "ext2_bitmap_block block_size b index = Inr (b + of_nat k, of_nat r)"
  using assms
proof (induction k arbitrary: index b)
  case 0
  then have "unat index = r" by simp
  then have "index \<le> block_size" "index = of_nat r" using 0 by (auto simp: word_le_nat_alt)
  then show ?case by simp
next
  case (Suc k)
  have lt: "block_size < index" using Suc.prems by (simp add: word_less_nat_alt)
  then have u: "unat (index - block_size) = k * unat block_size + r"
    using Suc.prems(1) by (simp add: unat_sub word_less_nat_alt word_le_nat_alt less_imp_le)
  have "block_size \<noteq> 0" using Suc.prems by auto
  then show ?case
    using lt Suc.IH[OF u Suc.prems(2,3), of "b + 1"]
    by (simp add: ext2_bitmap_block.simps[of block_size b index] algebra_simps)
qed

lemma bit_in_update:
  assumes "i div 8 < length buf"
  shows "bit_in (buf[i div 8 := buf ! (i div 8) OR push_bit (i mod 8) 1]) j \<longleftrightarrow> j = i \<or> bit_in buf j"
proof (cases "j div 8 = i div 8")
  case True
  then have "j mod 8 = i mod 8 \<longleftrightarrow> j = i" by (metis div_mult_mod_eq)
  then show ?thesis using True assms by (simp add: bit_in_def bit_set_one del: push_bit_of_1)
qed (auto simp: bit_in_def)

lemma bit_in_clear:
  assumes "i div 8 < length buf"
  shows "bit_in (buf[i div 8 := buf ! (i div 8) OR NOT (push_bit (i mod 8) 1)]) j \<longleftrightarrow>
    j div 8 = i div 8 \<and> j \<noteq> i \<or> bit_in buf j"
proof (cases "j div 8 = i div 8")
  case True
  then have "j mod 8 = i mod 8 \<longleftrightarrow> j = i" by (metis div_mult_mod_eq)
  then show ?thesis using True assms by (auto simp: bit_in_def bit_simps bit_1_iff)
qed (auto simp: bit_in_def)

context fs_disk begin

lemma bitmap_byte:
  assumes "ok d" "sb_ok sb" "index \<le> ext2_block_size sb"
  shows "unat index div 8 < length (blk sb d b)"
  using assms sb_sizes(1,2)[OF assms(2)]
  by (simp add: blk_length word_le_nat_alt)

lemma check_in_bitmap_ok:
  assumes "ok d" "sb_ok sb" "on_disk sb b" "index \<le> ext2_block_size sb"
  shows "\<exists>d'. ext2_check_in_bitmap dv sb b index d = Inr (bit_in (blk sb d b) (unat index), d') \<and>
    ok d' \<and> sector d' = sector d"
  using read_block_ok[OF assms(1-3)] bitmap_byte[OF assms(1,2,4), of b] assms(4)
  by (auto simp: ext2_check_in_bitmap_def arr_get_uint unat_div unat_mod bit_in_def and_bit_zero
    simp del: push_bit_of_1)

lemma set_in_bitmap_ok:
  assumes "ok d" "sb_ok sb" "on_disk sb b" "index \<le> ext2_block_size sb"
  shows "\<exists>d'. ext2_set_in_bitmap dv sb b index value d = Inr d' \<and> ok d' \<and>
    (\<forall>c. c \<noteq> b \<longrightarrow> blk sb d' c = blk sb d c) \<and>
    (\<forall>j. bit_in (blk sb d' b) j \<longleftrightarrow> bit_in (blk sb d b) j \<or>
      (if value then j = unat index else j div 8 = unat index div 8 \<and> j \<noteq> unat index))"
proof -
  let ?i = "unat index" and ?buf = "blk sb d b"
  let ?v = "if value then ?buf ! (?i div 8) OR push_bit (?i mod 8) 1 else ?buf ! (?i div 8) OR NOT (push_bit (?i mod 8) 1)"
  have lt: "?i div 8 < length ?buf" by (rule bitmap_byte[OF assms(1,2,4)])
  obtain d1 where d1: "ext2_read_block dv sb b d = Inr (?buf, d1)" "ok d1" "sector d1 = sector d"
    using read_block_ok[OF assms(1-3)] by blast
  have "length (?buf[?i div 8 := ?v]) = unat (ext2_block_size sb)" using blk_length[OF assms(1,2)] by simp
  from write_block_ok[OF d1(2) assms(2,3) this] obtain d2 where
    d2: "ext2_write_block dv sb (?buf[?i div 8 := ?v]) b d1 = Inr d2" "ok d2" "blk sb d2 = (blk sb d1)(b := ?buf[?i div 8 := ?v])"
    by blast
  have "ext2_set_in_bitmap dv sb b index value d = Inr d2"
    using d1 d2(1) lt assms(4)
    by (simp add: ext2_set_in_bitmap_def arr_get_uint arr_set_uint unat_div unat_mod Let_def del: push_bit_of_1)
  moreover have "bit_in (?buf[?i div 8 := ?v]) j \<longleftrightarrow> bit_in ?buf j \<or>
      (if value then j = ?i else j div 8 = ?i div 8 \<and> j \<noteq> ?i)" for j
    using bit_in_update[OF lt] bit_in_clear[OF lt] by auto
  ultimately show ?thesis using d2 blk_sector[OF d1(3)] by auto
qed

end

section \<open>The first zero bit\<close>

lemma bit_join32:
  assumes "j < 32"
  shows "bit (join32 a b c d) j \<longleftrightarrow> bit ([a, b, c, d] ! (j div 8)) (j mod 8)"
proof -
  have j: "j = 8 * (j div 8) + j mod 8" "j mod 8 < 8" "j div 8 < 4" using assms by auto
  obtain q r where qr: "j = 8 * q + r" "r < 8" "q < 4" "j div 8 = q" "j mod 8 = r" using j by blast
  from qr(3) consider "q = 0" | "q = 1" | "q = 2" | "q = 3" by linarith
  then have "bit (join32 a b c d) (8 * q + r) \<longleftrightarrow> bit ([a, b, c, d] ! q) r"
    unfolding join32_def
    using qr(2) by cases (simp_all add: bit_simps, (auto dest: bit_imp_le_length)?)
  then show ?thesis using qr(1,4,5) by simp
qed

lemma bit_d32:
  assumes "j < 32"
  shows "bit (d32 buf (4 * i)) j \<longleftrightarrow> bit_in buf (32 * i + j)"
proof -
  have q: "(32 * i + j) div 8 = 4 * i + j div 8" "(32 * i + j) mod 8 = j mod 8"
    using div_mult_self1[of 8 j "4 * i"] mod_mult_self1[of j "4 * i" 8] by (simp_all add: algebra_simps)
  have "j div 8 < 4" using assms by simp
  then have "j div 8 = 0 \<or> j div 8 = 1 \<or> j div 8 = 2 \<or> j div 8 = 3" by linarith
  then have "[buf ! (4 * i), buf ! (4 * i + 1), buf ! (4 * i + 2), buf ! (4 * i + 3)] ! (j div 8) = buf ! (4 * i + j div 8)"
    by auto
  then show ?thesis using bit_join32[OF assms] by (simp only: d32_def bit_in_def q)
qed

lemma ffs_some:
  assumes "x \<noteq> 0"
  shows "\<exists>j<32. builtin_ffs x - 1 = of_nat j \<and> bit x j \<and> (\<forall>k<j. \<not> bit x k)"
proof -
  have "\<exists>j. find (bit x) [0..<32] = Some j"
  proof (rule ccontr)
    assume "\<not> ?thesis"
    then have "find (bit x) [0..<32] = None" by simp
    then have "\<forall>j<32. \<not> bit x j" by (simp add: find_None_iff)
    then have "x = 0" by (intro bit_word_eqI) simp
    then show False using assms by simp
  qed
  then obtain j where j: "find (bit x) [0..<32] = Some j" by blast
  from find_upt_Some[OF this] show ?thesis by (intro exI[of _ j]) (auto simp: builtin_ffs_def j)
qed

lemma zero_bit_in_block_ok:
  assumes "4 * (i + n) \<le> length buf"
  shows "\<exists>r. zero_bit_in_block buf i n = Inr r \<and>
    (case r of
       None \<Rightarrow> \<forall>k\<in>{32 * i..<32 * (i + n)}. bit_in buf k
     | Some (m, t) \<Rightarrow> m < i + n \<and>
         (\<exists>j<32. t = of_nat j \<and> \<not> bit_in buf (32 * m + j) \<and> (\<forall>k\<in>{32 * i..<32 * m + j}. bit_in buf k)))"
  using assms
proof (induction n arbitrary: i)
  case (Suc n)
  have w: "word_from buf (4 * i) = Inr (d32 buf (4 * i))" using Suc.prems by (intro word_from_in) simp
  show ?case
  proof (cases "NOT (d32 buf (4 * i)) = 0")
    case True
    then have all: "\<forall>j<32. bit_in buf (32 * i + j)" using bit_d32[of _ buf i] by (simp add: not_eq_zero_iff)
    have e: "bit_in buf k" if "32 * i \<le> k" "k < 32 * Suc i" for k
      using all[rule_format, of "k - 32 * i"] that by simp
    have ext: "(\<forall>k\<in>{32 * i..<b}. bit_in buf k) \<longleftrightarrow> (\<forall>k\<in>{32 * Suc i..<b}. bit_in buf k)" for b
    proof (intro iffI ballI)
      fix k assume "\<forall>k\<in>{32 * i..<b}. bit_in buf k" "k \<in> {32 * Suc i..<b}"
      then show "bit_in buf k" by simp
    next
      fix k assume "\<forall>k\<in>{32 * Suc i..<b}. bit_in buf k" "k \<in> {32 * i..<b}"
      then show "bit_in buf k" using e[of k] by (cases "k < 32 * Suc i") simp_all
    qed
    have "4 * (Suc i + n) \<le> length buf" using Suc.prems by simp
    from Suc.IH[OF this] show ?thesis using w True by (simp only: zero_bit_in_block.simps res_bind_simps ext add_Suc_shift) simp
  next
    case False
    then obtain j where j: "j < 32" "builtin_ffs (NOT (d32 buf (4 * i))) - 1 = of_nat j" "bit (NOT (d32 buf (4 * i))) j"
      "\<forall>k<j. \<not> bit (NOT (d32 buf (4 * i))) k" using ffs_some by blast
    have "\<not> bit_in buf (32 * i + j)" using j(1,3) by (simp add: bit_not_iff bit_d32)
    moreover have "bit_in buf k" if "32 * i \<le> k" "k < 32 * i + j" for k
    proof -
      have "k - 32 * i < j" using that by simp
      then have "\<not> bit (NOT (d32 buf (4 * i))) (k - 32 * i)" using j(4) by blast
      then have "bit (d32 buf (4 * i)) (k - 32 * i)" using \<open>k - 32 * i < j\<close> j(1) by (simp add: bit_not_iff)
      then show ?thesis using bit_d32[of "k - 32 * i" buf i] that j(1) by simp
    qed
    ultimately show ?thesis using w False j(1,2) by auto
  qed
qed simp

context fs_disk begin

definition bitmap_used :: "ext2_superblock \<Rightarrow> 's \<Rightarrow> u32 \<Rightarrow> nat \<Rightarrow> bool" where
  "bitmap_used sb d b k \<longleftrightarrow> bit_in (blk sb d (b + of_nat (k div (8 * unat (ext2_block_size sb)))))
     (k mod (8 * unat (ext2_block_size sb)))"

lemma zero_bit_from_ok:
  assumes "ok d" "sb_ok sb" "\<forall>i<n. on_disk sb (b + of_nat i)" "unat b + n < 2 ^ 32" "i + m = n"
  shows "\<exists>r d'. zero_bit_from dv sb b (b + of_nat n) (b + of_nat i) d = Inr (r, d') \<and> ok d' \<and> sector d' = sector d \<and>
    (r = - 1 \<and> (\<forall>k\<in>{8 * unat (ext2_block_size sb) * i..<8 * unat (ext2_block_size sb) * n}. bitmap_used sb d b k) \<or>
     (\<exists>k\<in>{8 * unat (ext2_block_size sb) * i..<8 * unat (ext2_block_size sb) * n}. r = of_nat k \<and> \<not> bitmap_used sb d b k \<and>
        (\<forall>j\<in>{8 * unat (ext2_block_size sb) * i..<k}. bitmap_used sb d b j)))"
  using assms(1,5)
proof (induction m arbitrary: i d)
  case 0
  then show ?case by (subst zero_bit_from.simps) simp
next
  case (Suc m)
  let ?z = "unat (ext2_block_size sb)" and ?blk = "b + of_nat i :: u32"
  have small: "unat (b + of_nat k) = unat b + k" if "k \<le> n" for k
  proof -
    have "unat b + k < 2 ^ 32" using that assms(4) by simp
    then have "unat (of_nat k :: u32) = k" "unat b + unat (of_nat k :: u32) < 2 ^ LENGTH(32)"
      by (simp_all add: unat_of_nat)
    then show ?thesis using iffD1[OF unat_add_lem] by metis
  qed
  have lt: "?blk < b + of_nat n" using Suc.prems(2) small[of i] small[of n] by (simp add: word_less_nat_alt)
  obtain d1 where d1: "ext2_read_block dv sb ?blk d = Inr (blk sb d ?blk, d1)" "ok d1" "sector d1 = sector d"
    using read_block_ok[OF Suc.prems(1) assms(2), of ?blk] assms(3) Suc.prems(2) by auto
  have z: "0 < ?z" using sb_sizes(1,2)[OF assms(2)] by simp
  have four: "4 * unat (ext2_block_size sb div 4) = ?z" using sb_sizes(1,6)[OF assms(2)] by simp
  have at: "bit_in (blk sb d ?blk) k \<longleftrightarrow> bitmap_used sb d b (8 * ?z * i + k)" if "k < 8 * ?z" for k
  proof -
    have "(8 * ?z * i + k) div (8 * ?z) = i" "(8 * ?z * i + k) mod (8 * ?z) = k"
      using that z by (simp_all add: div_mult_self4)
    then show ?thesis by (simp only: bitmap_used_def)
  qed
  have rng: "(\<forall>k\<in>{0..<c}. bit_in (blk sb d ?blk) k) \<longleftrightarrow> (\<forall>k\<in>{8 * ?z * i..<8 * ?z * i + c}. bitmap_used sb d b k)"
    if "c \<le> 8 * ?z" for c
  proof (intro iffI ballI)
    fix k assume *: "\<forall>k\<in>{0..<c}. bit_in (blk sb d ?blk) k" "k \<in> {8 * ?z * i..<8 * ?z * i + c}"
    then show "bitmap_used sb d b k" using at[of "k - 8 * ?z * i"] that by auto
  next
    fix k assume *: "\<forall>k\<in>{8 * ?z * i..<8 * ?z * i + c}. bitmap_used sb d b k" "k \<in> {0..<c}"
    then show "bit_in (blk sb d ?blk) k" using at[of k] that by auto
  qed
  have "4 * (0 + unat (ext2_block_size sb div 4)) \<le> length (blk sb d ?blk)"
    using blk_length[OF Suc.prems(1) assms(2)] four by simp
  note zb = zero_bit_in_block_ok[OF this]
  have e32: "32 * unat (ext2_block_size sb div 4) = 8 * ?z" using four by simp
  from zb obtain r where r: "zero_bit_in_block (blk sb d ?blk) 0 (unat (ext2_block_size sb div 4)) = Inr r"
    "case r of None \<Rightarrow> \<forall>k\<in>{0..<8 * ?z}. bit_in (blk sb d ?blk) k
     | Some (m, t) \<Rightarrow> m < unat (ext2_block_size sb div 4) \<and>
         (\<exists>j<32. t = of_nat j \<and> \<not> bit_in (blk sb d ?blk) (32 * m + j) \<and> (\<forall>k\<in>{0..<32 * m + j}. bit_in (blk sb d ?blk) k))"
    by (simp only: e32 mult_0_right add_0) blast
  show ?case
  proof (cases r)
    case None
    then have all: "\<forall>k\<in>{8 * ?z * i..<8 * ?z * i + 8 * ?z}. bitmap_used sb d b k" using r(2) rng[of "8 * ?z"] by simp
    have ext: "(\<forall>k\<in>{8 * ?z * Suc i..<c}. bitmap_used sb d b k) \<Longrightarrow> (\<forall>k\<in>{8 * ?z * i..<c}. bitmap_used sb d b k)" for c
    proof (intro ballI)
      fix k assume "\<forall>k\<in>{8 * ?z * Suc i..<c}. bitmap_used sb d b k" "k \<in> {8 * ?z * i..<c}"
      then show "bitmap_used sb d b k" using all by (cases "k < 8 * ?z * i + 8 * ?z") simp_all
    qed
    have us: "bitmap_used sb d1 b k \<longleftrightarrow> bitmap_used sb d b k" for k
      by (simp only: bitmap_used_def blk_sector[OF d1(3)])
    have eq: "zero_bit_from dv sb b (b + of_nat n) ?blk d = zero_bit_from dv sb b (b + of_nat n) (b + of_nat (Suc i)) d1"
      using lt d1(1) r(1) None by (subst zero_bit_from.simps) (simp add: add_ac)
    have "Suc i + m = n" using Suc.prems(2) by simp
    from Suc.IH[OF d1(2) this] obtain r' d' where
      r': "zero_bit_from dv sb b (b + of_nat n) (b + of_nat (Suc i)) d1 = Inr (r', d')" "ok d'" "sector d' = sector d1"
      "r' = - 1 \<and> (\<forall>k\<in>{8 * ?z * Suc i..<8 * ?z * n}. bitmap_used sb d b k) \<or>
       (\<exists>k\<in>{8 * ?z * Suc i..<8 * ?z * n}. r' = of_nat k \<and> \<not> bitmap_used sb d b k \<and>
          (\<forall>j\<in>{8 * ?z * Suc i..<k}. bitmap_used sb d b j))"
      unfolding us by blast
    have sub: "k \<in> {8 * ?z * Suc i..<8 * ?z * n} \<Longrightarrow> k \<in> {8 * ?z * i..<8 * ?z * n}" for k by simp
    have s: "sector d' = sector d" using r'(3) d1(3) by simp
    from r'(4) show ?thesis
    proof (elim disjE conjE bexE)
      assume "r' = - 1" "\<forall>k\<in>{8 * ?z * Suc i..<8 * ?z * n}. bitmap_used sb d b k"
      then show ?thesis using r'(1,2) s ext unfolding eq by blast
    next
      fix k assume "k \<in> {8 * ?z * Suc i..<8 * ?z * n}" "r' = of_nat k" "\<not> bitmap_used sb d b k"
        "\<forall>j\<in>{8 * ?z * Suc i..<k}. bitmap_used sb d b j"
      then show ?thesis using r'(1,2) s ext sub unfolding eq by blast
    qed
  next
    case (Some p)
    obtain m' t where p: "p = (m', t)" by force
    obtain j where j: "j < 32" "t = of_nat j" "\<not> bit_in (blk sb d ?blk) (32 * m' + j)"
      "\<forall>k\<in>{0..<32 * m' + j}. bit_in (blk sb d ?blk) k" "m' < unat (ext2_block_size sb div 4)"
      using r(2) Some p by auto
    have c: "32 * m' + j < 8 * ?z" using j(1,5) four by linarith
    have "8 * ?z * i + 8 * ?z \<le> 8 * ?z * n"
    proof -
      have "8 * ?z * Suc i \<le> 8 * ?z * n" using Suc.prems(2) by (intro mult_le_mono2) simp
      then show ?thesis by simp
    qed
    then have k: "8 * ?z * i + (32 * m' + j) \<in> {8 * ?z * i..<8 * ?z * n}" using c by simp
    have bs: "ext2_block_size sb = of_nat ?z" by simp
    have "zero_bit_from dv sb b (b + of_nat n) ?blk d =
        Inr (of_nat j + (4 * 8 * of_nat m' + of_nat i * 8 * ext2_block_size sb), d1)"
      using lt d1(1) r(1) Some p j(2) by (subst zero_bit_from.simps) simp
    also have "of_nat j + (4 * 8 * of_nat m' + of_nat i * 8 * ext2_block_size sb) = (of_nat (8 * ?z * i + (32 * m' + j)) :: u32)"
      by (simp add: algebra_simps)
    finally have eq: "zero_bit_from dv sb b (b + of_nat n) ?blk d = Inr (of_nat (8 * ?z * i + (32 * m' + j)), d1)" .
    have "\<not> bitmap_used sb d b (8 * ?z * i + (32 * m' + j))" using at[OF c] j(3) by simp
    moreover have "\<forall>k\<in>{8 * ?z * i..<8 * ?z * i + (32 * m' + j)}. bitmap_used sb d b k"
      using rng[OF less_imp_le[OF c]] j(4) by blast
    ultimately show ?thesis using k d1 eq by blast
  qed
qed

lemma first_zero_bit_ok:
  assumes "ok d" "sb_ok sb" "\<forall>i<unat n. on_disk sb (b + of_nat i)" "unat b + unat n < 2 ^ 32"
    and "8 * unat (ext2_block_size sb) * unat n < 2 ^ 32"
  shows "\<exists>r d'. ext2_first_zero_bit dv sb b n start_at d = Inr (r, d') \<and> ok d' \<and> sector d' = sector d \<and>
    (if \<forall>k<8 * unat (ext2_block_size sb) * unat n. bitmap_used sb d b k then r = - 1
     else unat r < 8 * unat (ext2_block_size sb) * unat n \<and> \<not> bitmap_used sb d b (unat r) \<and>
       (\<forall>j<unat r. bitmap_used sb d b j))"
proof -
  let ?e = "8 * unat (ext2_block_size sb) * unat n"
  obtain r d' where r: "zero_bit_from dv sb b (b + n) b d = Inr (r, d')" "ok d'" "sector d' = sector d"
    "r = - 1 \<and> (\<forall>k\<in>{0..<?e}. bitmap_used sb d b k) \<or>
     (\<exists>k\<in>{0..<?e}. r = of_nat k \<and> \<not> bitmap_used sb d b k \<and> (\<forall>j\<in>{0..<k}. bitmap_used sb d b j))"
    using zero_bit_from_ok[OF assms(1-4), of 0 "unat n"] by auto
  have u: "unat (of_nat k :: u32) = k" if "k < ?e" for k
  proof -
    have "k < 2 ^ LENGTH(32)" by (rule less_trans[OF that]) (use assms(5) in simp)
    then show ?thesis by (simp only: unat_of_nat mod_less)
  qed
  show ?thesis
  proof (cases "\<forall>k<?e. bitmap_used sb d b k")
    case True
    then show ?thesis using r by (auto simp: ext2_first_zero_bit_def)
  next
    case False
    then obtain k where k: "k < ?e" "r = of_nat k" "\<not> bitmap_used sb d b k" "\<forall>j<k. bitmap_used sb d b j" using r(4) by auto
    then show ?thesis using r(1-3) u[OF k(1)] False by (auto simp: ext2_first_zero_bit_def)
  qed
qed

end

section \<open>Allocation\<close>

sublocale fs_disk \<subseteq> marker: bit_store "\<lambda>d. ok d \<and> sb_ok sb \<and> on_disk sb b" "Suc (unat (ext2_block_size sb))"
  "\<lambda>d. bit_in (blk sb d b)" "\<lambda>d i. ext2_set_in_bitmap dv sb b (of_nat i) True d" for sb b
proof
  fix d and i :: nat
  assume *: "ok d \<and> sb_ok sb \<and> on_disk sb b" "i < Suc (unat (ext2_block_size sb))"
  have "unat (ext2_block_size sb) < 2 ^ LENGTH(32)" by (rule unsigned_less)
  then have u: "unat (of_nat i :: u32) = i" using *(2) by (simp add: unat_of_nat)
  then have "of_nat i \<le> ext2_block_size sb" using *(2) by (simp add: word_le_nat_alt)
  then show "\<exists>d'. ext2_set_in_bitmap dv sb b (of_nat i) True d = Inr d' \<and> (ok d' \<and> sb_ok sb \<and> on_disk sb b) \<and>
      (\<forall>j<Suc (unat (ext2_block_size sb)). bit_in (blk sb d' b) j = (j = i \<or> bit_in (blk sb d b) j))"
    using set_in_bitmap_ok[of d sb b "of_nat i" True] * u by auto
qed

lemma last_index:
  assumes "sb_ok sb"
  shows "unat (- 1 :: u32) = (2 ^ 32 div unat (ext2_block_size sb) - 1) * unat (ext2_block_size sb) + (unat (ext2_block_size sb) - 1)"
    and "0 < unat (ext2_block_size sb) - 1" and "of_nat (unat (ext2_block_size sb) - 1) \<le> ext2_block_size sb"
proof -
  obtain k where k: "unat (block_size_shift sb) = k" "k \<le> 6" using assms by (simp add: sb_ok_def)
  then consider "k = 0" | "k = 1" | "k = 2" | "k = 3" | "k = 4" | "k = 5" | "k = 6" by linarith
  then have "unat (- 1 :: u32) = (2 ^ 32 div unat (ext2_block_size sb) - 1) * unat (ext2_block_size sb) + (unat (ext2_block_size sb) - 1) \<and>
      0 < unat (ext2_block_size sb) - 1 \<and> of_nat (unat (ext2_block_size sb) - 1) \<le> ext2_block_size sb"
    by cases (simp_all add: ext2_block_size_def k unat_minus_one_u32)
  then show "unat (- 1 :: u32) = (2 ^ 32 div unat (ext2_block_size sb) - 1) * unat (ext2_block_size sb) + (unat (ext2_block_size sb) - 1)"
    and "0 < unat (ext2_block_size sb) - 1" and "of_nat (unat (ext2_block_size sb) - 1) \<le> ext2_block_size sb" by blast+
qed

definition far_block :: "ext2_superblock \<Rightarrow> u32 \<Rightarrow> u32" where
  "far_block sb b = b + of_nat (2 ^ 32 div unat (ext2_block_size sb) - 1)"

lemma set_in_bitmap_far:
  assumes "sb_ok sb"
  shows "ext2_set_in_bitmap dv sb b (- 1) v d =
    ext2_set_in_bitmap dv sb (far_block sb b) (of_nat (unat (ext2_block_size sb) - 1)) v d"
  using bitmap_block_steps[OF last_index(1)[OF assms] last_index(2)[OF assms], of b] last_index(3)[OF assms]
  by (simp add: ext2_set_in_bitmap_def far_block_def)

lemma first_zero_bit_unlimited: "b \<noteq> 0 \<Longrightarrow> ext2_first_zero_bit dv sb b (- 1) start_at d = Inr (- 1, d)"
proof -
  assume "b \<noteq> 0"
  moreover have "\<not> n < n - Suc 0" for n by simp
  ultimately have "\<not> b < b + - 1" by (simp add: word_less_nat_alt unat_minus_one)
  then show ?thesis by (simp add: ext2_first_zero_bit_def zero_bit_from.simps[of dv sb b])
qed

context fs_disk begin

lemma write_bgd_ok:
  assumes "ok d" "sb_ok sb" "bgd_lba sb g < limit" "bgd_ok x"
  shows "\<exists>d'. ext2_write_bgd dv sb g x d = Inr d' \<and> ok d' \<and> bgd_at sb (sector d') g = x \<and>
    (\<forall>l. l \<noteq> bgd_lba sb g \<longrightarrow> sector d' l = sector d l)"
proof -
  let ?lba = "ext2_block_size sb div 512 * (if ext2_block_size sb = 1024 then 2 else 1) + g div 16"
  let ?o = "BGD_SIZE * (unat g mod 16)"
  have le: "unat ?lba + unat (1 :: u8) \<le> limit" using assms(3) by (simp only: bgd_lba_unat[OF assms(2)]) simp
  from rd_ok[OF assms(1) this] obtain d1 where d1: "d_read dv ?lba 1 d = Inr (sector d (bgd_lba sb g), d1)"
    "ok d1" "sector d1 = sector d"
    by (simp only: bgd_lba_unat[OF assms(2)]) auto
  have sl: "length (sector d (bgd_lba sb g)) = 256" by (rule sector_length[OF assms(1)])
  have fit: "?o + length (encode_bgd x) \<le> length (bytes_of (sector d (bgd_lba sb g)))"
    using sl assms(4) mod_less_divisor[of 16 "unat g"] by (simp add: BGD_SIZE_def)
  from splice_ok[OF this] obtain buf where buf: "splice (bytes_of (sector d (bgd_lba sb g))) ?o (encode_bgd x) = Inr buf"
    by blast
  have bl: "length buf = 512" using splice_length[OF buf] sl by simp
  have len: "length (words_of buf) = 256 * unat (1 :: u8)" using bl by simp
  from wr_ok[OF d1(2) le len] obtain d2 where d2: "d_write dv ?lba 1 (words_of buf) d1 = Inr d2" "ok d2"
    "sector d2 = (\<lambda>l. if unat ?lba \<le> l \<and> l < unat ?lba + unat (1 :: u8)
        then take 256 (drop (256 * (l - unat ?lba)) (words_of buf)) else sector d1 l)" by blast
  have s2: "sector d2 (bgd_lba sb g) = words_of buf" "l \<noteq> bgd_lba sb g \<Longrightarrow> sector d2 l = sector d l" for l
    using bl by (simp_all only: d2(3) d1(3) bgd_lba_unat[OF assms(2)]) auto
  have "slice buf ?o BGD_SIZE = Inr (encode_bgd x)" using slice_splice_same[OF buf] assms(4) by simp
  then have "bgd_at sb (sector d2) g = x"
    using assms(4) s2(1) bl by (auto simp: bgd_at_def bytes_of_words_of slice_def split: if_splits)
  moreover have "ext2_write_bgd dv sb g x d = Inr d2"
    using d1(1) buf d2(1) by (simp add: ext2_write_bgd_def ext2_load_or_write_bgd_def Let_def unat_mod)
  ultimately show ?thesis using d2(2) s2(2) by blast
qed

lemma bgd_at_ok: "ok d \<Longrightarrow> bgd_ok (bgd_at sb (sector d) g)"
proof -
  assume "ok d"
  then have "length (bytes_of (sector d (bgd_lba sb g))) = 512" by (simp add: sector_length)
  moreover have "32 * (unat g mod 16) \<le> 480" using mod_less_divisor[of 16 "unat g"] by simp
  ultimately show ?thesis by (simp add: bgd_ok_def bgd_at_def decode_bgd_def BGD_SIZE_def)
qed

lemma alloc_new_block_far:
  assumes "ok d" "sb_ok sb" "bgd_lba sb g < limit"
    and "unallocated_blocks (bgd_at sb (sector d) g) \<noteq> 0" "block_bitmap (bgd_at sb (sector d) g) \<noteq> 0"
    and "on_disk sb (far_block sb (block_bitmap (bgd_at sb (sector d) g)))"
  shows "\<exists>d'. ext2_alloc_new_block dv sb g d = Some (Inr (- 1, d')) \<and> ok d' \<and>
    unallocated_blocks (bgd_at sb (sector d') g) = unallocated_blocks (bgd_at sb (sector d) g) - 1 \<and>
    (\<forall>c. c \<noteq> far_block sb (block_bitmap (bgd_at sb (sector d) g)) \<and>
        (bgd_lba sb g < sectors_per_block sb * unat c \<or> sectors_per_block sb * unat c + sectors_per_block sb \<le> bgd_lba sb g) \<longrightarrow>
      blk sb d' c = blk sb d c)"
proof -
  let ?x = "bgd_at sb (sector d) g" and ?n = "sectors_per_block sb"
  let ?far = "far_block sb (block_bitmap ?x)"
  obtain d1 where d1: "ext2_load_bgd dv sb g d = Inr (?x, d1)" "ok d1" "sector d1 = sector d"
    using load_bgd_ok[OF assms(1-3)] by blast
  obtain d2 where d2: "ext2_set_in_bitmap dv sb (block_bitmap ?x) (- 1) True d1 = Inr d2" "ok d2"
    "\<forall>c. c \<noteq> ?far \<longrightarrow> blk sb d2 c = blk sb d c"
    using set_in_bitmap_ok[OF d1(2) assms(2,6) last_index(3)[OF assms(2)], of True]
    by (auto simp: set_in_bitmap_far[OF assms(2)] blk_sector[OF d1(3)])
  let ?y = "?x\<lparr>unallocated_blocks := unallocated_blocks ?x - 1\<rparr>"
  have "bgd_ok ?y" using bgd_at_ok[OF assms(1)] by (simp add: bgd_ok_def)
  from write_bgd_ok[OF d2(2) assms(2,3) this] obtain d3 where
    d3: "ext2_write_bgd dv sb g ?y d2 = Inr d3" "ok d3" "bgd_at sb (sector d3) g = ?y"
      "\<forall>l. l \<noteq> bgd_lba sb g \<longrightarrow> sector d3 l = sector d2 l" by blast
  have "ext2_alloc_new_block dv sb g d = Some (Inr (- 1, d3))"
    using assms(4,5) d1(1) d2(1) d3(1)
    by (subst ext2_alloc_new_block.simps) (simp add: first_zero_bit_unlimited)
  moreover have "blk sb d3 c = blk sb d c"
    if "c \<noteq> ?far" "bgd_lba sb g < ?n * unat c \<or> ?n * unat c + ?n \<le> bgd_lba sb g" for c
  proof -
    have "blk sb d3 c = blk sb d2 c" using that(2) d3(4) by (intro blk_cong) auto
    then show ?thesis using d2(3) that(1) by simp
  qed
  ultimately show ?thesis using d3 by auto
qed

end

section \<open>The kernel's disk\<close>

interpretation ata_fs: fs_disk ata_ok "\<lambda>s. disk (dev s)" "2 ^ 28" "ata_ops ctl regs" for regs
proof
  show "length (disk (dev s) l) = 256" if "ata_ok s" for s l by (rule ata_disk.sector_length[OF that])
  show "\<exists>s'. d_read (ata_ops ctl regs) lba num s =
      Inr (concat (map (disk (dev s)) [unat lba..<unat lba + unat num]), s') \<and> ata_ok s' \<and> disk (dev s') = disk (dev s)"
    if "ata_ok s" "unat lba + unat num \<le> 2 ^ 28" for s lba num
    using ata_disk.rd_ok[OF that] by (simp add: ata_ops_def)
  show "\<exists>s'. d_write (ata_ops ctl regs) lba num ws s = Inr s' \<and> ata_ok s' \<and>
      disk (dev s') = (\<lambda>l. if unat lba \<le> l \<and> l < unat lba + unat num
        then take 256 (drop (256 * (l - unat lba)) ws) else disk (dev s) l)"
    if "ata_ok s" "unat lba + unat num \<le> 2 ^ 28" "length ws = 256 * unat num" for s lba num ws
    using ata_disk.wr_ok[OF that, of regs] by (simp add: ata_ops_def)
qed simp

text \<open>A small file system: blocks of 1024 bytes, one group of 8 inodes, every sector \<open>l\<close> filled with \<open>l\<close>.\<close>

definition tiny_sb :: ext2_superblock where
  "tiny_sb = (decode_superblock (replicate 84 0))\<lparr>total_inodes := 8, total_blocks := 64,
     blocks_per_block_group := 64, inodes_per_block_group := 8\<rparr>"

definition tiny_disk :: "controller ata" where
  "tiny_disk = blank_disk\<lparr>dev := (dev blank_disk)\<lparr>disk := \<lambda>l. replicate 256 (if l = 4 then 0 else of_nat l)\<rparr>\<rparr>"

lemma tiny_sb_ok: "sb_ok tiny_sb" "ext2_block_size tiny_sb = 1024" "sectors_per_block tiny_sb = 2"
  by (simp_all add: sb_ok_def tiny_sb_def decode_superblock_def d32_def join32_def ext2_block_size_def sectors_per_block_def)

lemma tiny_disk_ok: "ata_ok tiny_disk"
  using blank_disk_ok by (auto simp: ata_ok_def tiny_disk_def blank_disk_def)

lemma bytes_of_zeros: "bytes_of (replicate n 0) = replicate (2 * n) 0"
  by (induction n) (simp_all add: bytes_of_def le16_def)

lemma tiny_inode_on_disk:
  "number \<noteq> 0 \<Longrightarrow> number \<le> 8 \<Longrightarrow> inode_on_disk tiny_sb (disk (dev tiny_disk)) (2 ^ 28) number"
proof -
  assume n: "number \<noteq> 0" "number \<le> 8"
  have "(number - 1) < 8" using n by (simp add: word_less_nat_alt word_le_nat_alt unat_minus_one)
  then have "(number - 1) div 8 = 0" "(number - 1) mod 8 = number - 1"
    by (simp_all add: word_less_nat_alt word_unat_eq_iff unat_div unat_mod)
  moreover have "inodes_per_block_group tiny_sb = 8" by (simp add: tiny_sb_def)
  moreover have "unat ((number - 1) div 8) = 0" using calculation by simp
  ultimately show ?thesis
    using n
    by (simp add: inode_on_disk_def group_of_def bgd_lba_def tiny_sb_ok inode_blk_def bgd_at_def
       tiny_disk_def Let_def bytes_of_zeros decode_bgd_def d32_def join32_def INODE_SIZE_def BGD_SIZE_def)
qed

section \<open>The driver on the kernel's disk\<close>

text \<open>
  C26. An inode written by \<open>ext2_set_inode\<close> is read back by \<open>ext2_find_inode\<close>, whatever was on
  the disk, and no other inode of its block group changes.
\<close>

theorem ext2_set_then_find:
  assumes "ata_ok d" and "sb_ok sb" and "inode_on_disk sb (disk (dev d)) (2 ^ 28) number" and "inode_ok i"
  shows "\<exists>d1 d2. ext2_set_inode (ata_ops ctl regs) sb number i d = Inr (True, d1) \<and>
    ext2_find_inode (ata_ops ctl regs) sb number j d1 = Inr (True, i, d2) \<and>
    (\<forall>m. group_of sb m = group_of sb number \<and> m \<noteq> number \<and> inode_on_disk sb (disk (dev d)) (2 ^ 28) m \<longrightarrow>
      (\<exists>x d3 d4. ext2_find_inode (ata_ops ctl regs) sb m j d = Inr (True, x, d3) \<and>
        ext2_find_inode (ata_ops ctl regs) sb m j d1 = Inr (True, x, d4)))"
  by (rule ata_fs.set_then_find[OF assms])

definition tiny_inode :: ext2_inode where
  "tiny_inode = (decode_inode (replicate 128 0))\<lparr>i_mode := 0x81ed, i_size := 1030, i_blocks := [5, 7] @ replicate 13 0\<rparr>"

lemma tiny_inode_ok: "inode_ok tiny_inode"
  by (simp add: inode_ok_def tiny_inode_def decode_inode_def)

theorem ext2_set_then_find_witness:
  "\<exists>d1 d2. ext2_set_inode (ata_ops ctl no_registers) tiny_sb 3 tiny_inode tiny_disk = Inr (True, d1) \<and>
    ext2_find_inode (ata_ops ctl no_registers) tiny_sb 3 tiny_inode d1 = Inr (True, tiny_inode, d2)"
  using ext2_set_then_find[OF tiny_disk_ok tiny_sb_ok(1) tiny_inode_on_disk tiny_inode_ok, of 3 no_registers tiny_inode]
  by (simp del: split_paired_Ex) blast

text \<open>
  C29. \<open>ext2_read_inode\<close> fills the buffer with the file's bytes, up to the smaller of the file's
  size and the size asked for, from the full blocks and from a part of the last one, and
  leaves the rest of the buffer and the disk alone. The file's blocks are its direct ones.
\<close>

theorem ext2_read_inode_content:
  assumes "ata_ok d" and "sb_ok sb" and "length (i_blocks inode) = 15" and "k \<le> 12"
    and "\<forall>j<k. sectors_per_block sb * unat (i_blocks inode ! j) + sectors_per_block sb \<le> 2 ^ 28"
    and "unat (min (i_size inode) n) \<le> k * unat (ext2_block_size sb)" and "unat (min (i_size inode) n) \<le> length buf"
  shows "\<exists>d'. ext2_read_inode (ata_ops ctl regs) sb inode buf n d = Inr (min (i_size inode) n,
      take (unat (min (i_size inode) n))
        (concat (map (\<lambda>j. fs_block (disk (dev d)) (sectors_per_block sb) (unat (i_blocks inode ! j))) [0..<k])) @
      drop (unat (min (i_size inode) n)) buf, d') \<and> ata_ok d' \<and> disk (dev d') = disk (dev d)"
proof -
  have "ata_fs.blocks_on_disk sb inode k"
    unfolding ata_fs.blocks_on_disk_def ata_fs.on_disk_def using assms(3-5) by blast
  from ata_fs.read_inode_ok[OF assms(1,2) this assms(6,7)] show ?thesis
    by (simp only: ata_fs.file_blocks_def ata_fs.blk_def)
qed

lemma all_less_two: "(\<forall>j<2. P j) \<longleftrightarrow> P 0 \<and> P (1 :: nat)"
  using less_2_cases by (auto)

theorem ext2_read_inode_content_witness:
  "\<exists>d'. ext2_read_inode (ata_ops ctl no_registers) tiny_sb tiny_inode (replicate 2000 0) 4096 tiny_disk =
      Inr (1030, concat (replicate 256 [10, 0]) @ concat (replicate 256 [11, 0]) @ concat (replicate 3 [14, 0]) @ replicate 970 0, d')"
proof -
  let ?f = "\<lambda>j. fs_block (disk (dev tiny_disk)) 2 (unat (i_blocks tiny_inode ! j))"
  have s: "min (i_size tiny_inode) 4096 = 1030" by (simp add: tiny_inode_def)
  have i: "length (i_blocks tiny_inode) = 15" "i_blocks tiny_inode ! 0 = 5" "i_blocks tiny_inode ! Suc 0 = 7"
    by (simp_all add: tiny_inode_def)
  have l: "length (concat (replicate k [a, b])) = 2 * k" for k and a b :: u8 by (induction k) auto
  have r: "bytes_of (replicate k w) = concat (replicate k (le16 w))" for k w
    by (simp add: bytes_of_def)
  have b: "?f 0 = concat (replicate 256 [10, 0]) @ concat (replicate 256 [11, 0])"
    "?f (Suc 0) = concat (replicate 256 [14, 0]) @ concat (replicate 256 [15, 0])"
    by (simp_all add: fs_block_def tiny_disk_def i upt_rec bytes_of_append r le16_def)
  have t: "take 6 (concat (replicate 256 [14, 0 :: u8])) = concat (replicate 3 [14, 0])" by (simp add: eval_nat_numeral)
  have "take 1030 (concat (map ?f [0..<2])) = concat (replicate 256 [10, 0]) @ concat (replicate 256 [11, 0]) @ concat (replicate 3 [14, 0])"
    using b by (simp add: upt_rec l t)
  then show ?thesis
    using ext2_read_inode_content[OF tiny_disk_ok tiny_sb_ok(1) i(1), of 2 4096 "replicate 2000 0" no_registers]
    by (simp add: tiny_sb_ok s i less_2_cases_iff all_less_two del: split_paired_Ex) blast
qed

text \<open>
  \<open>ext2_set_in_bitmap\<close> with true sets the bit and no other, for an index up to the number of
  bytes of a block; with false it clears nothing: it sets the seven other bits of the byte.
\<close>

theorem ext2_set_in_bitmap_bits:
  assumes "ata_ok d" and "sb_ok sb" and "sectors_per_block sb * unat b + sectors_per_block sb \<le> 2 ^ 28"
    and "index \<le> ext2_block_size sb"
  shows "\<exists>d'. ext2_set_in_bitmap (ata_ops ctl regs) sb b index v d = Inr d' \<and> ata_ok d' \<and>
    (\<forall>j. bit_in (fs_block (disk (dev d')) (sectors_per_block sb) (unat b)) j \<longleftrightarrow>
      bit_in (fs_block (disk (dev d)) (sectors_per_block sb) (unat b)) j \<or>
      (if v then j = unat index else j div 8 = unat index div 8 \<and> j \<noteq> unat index))"
proof -
  have "ata_fs.on_disk sb b" using assms(3) by (simp only: ata_fs.on_disk_def)
  from ata_fs.set_in_bitmap_ok[OF assms(1,2) this assms(4), of regs v] show ?thesis
    unfolding ata_fs.blk_def by blast
qed

theorem ext2_set_in_bitmap_bits_witness:
  "\<exists>d'. ext2_set_in_bitmap (ata_ops ctl no_registers) tiny_sb 2 13 False tiny_disk = Inr d' \<and>
    bit_in (fs_block (disk (dev d')) 2 2) 12 \<and> \<not> bit_in (fs_block (disk (dev d')) 2 2) 13"
proof -
  have "bytes_of (replicate 256 0) = replicate 512 0" by (simp add: bytes_of_zeros)
  then have "\<not> bit_in (fs_block (disk (dev tiny_disk)) 2 2) 13"
    by (simp add: fs_block_def tiny_disk_def upt_rec bytes_of_append bit_in_def nth_append)
  then show ?thesis
    using ext2_set_in_bitmap_bits[OF tiny_disk_ok tiny_sb_ok(1), of 2 13 no_registers False]
    by (force simp: tiny_sb_ok)
qed

text \<open>
  \<open>ext2_first_zero_bit\<close> returns the least index whose bit is clear among all the bits of the
  bitmap's blocks, in the order of the bytes and of the bits in them, and \<open>-1\<close> when there is
  none; \<open>start_at\<close> has no effect.
\<close>

theorem ext2_first_zero_bit_correct:
  assumes "ata_ok d" and "sb_ok sb"
    and "\<forall>i<unat n. sectors_per_block sb * unat (b + of_nat i) + sectors_per_block sb \<le> 2 ^ 28"
    and "unat b + unat n < 2 ^ 32" and "8 * unat (ext2_block_size sb) * unat n < 2 ^ 32"
  shows "\<exists>r d'. ext2_first_zero_bit (ata_ops ctl regs) sb b n start_at d = Inr (r, d') \<and> ata_ok d' \<and>
    disk (dev d') = disk (dev d) \<and>
    (let bits = 8 * unat (ext2_block_size sb);
         used = (\<lambda>k. bit_in (fs_block (disk (dev d)) (sectors_per_block sb) (unat (b + of_nat (k div bits)))) (k mod bits)) in
     if \<forall>k<bits * unat n. used k then r = - 1
     else unat r < bits * unat n \<and> \<not> used (unat r) \<and> (\<forall>j<unat r. used j))"
proof -
  have "\<forall>i<unat n. ata_fs.on_disk sb (b + of_nat i)" using assms(3) by (simp only: ata_fs.on_disk_def)
  from ata_fs.first_zero_bit_ok[OF assms(1,2) this assms(4,5)] show ?thesis
    unfolding ata_fs.bitmap_used_def ata_fs.blk_def Let_def .
qed

theorem ext2_first_zero_bit_correct_witness:
  "\<exists>r d'. ext2_first_zero_bit (ata_ops ctl no_registers) tiny_sb 4 1 12 tiny_disk = Inr (r, d') \<and>
    unat r < 8 * 1024 \<and> \<not> bit_in (fs_block (disk (dev tiny_disk)) 2 4) (unat r)"
proof -
  have "replicate 256 [8, 0 :: u8] = [8, 0] # replicate 255 [8, 0]"
    using replicate_Suc[of 255 "[8, 0 :: u8]"] by simp
  then have "\<exists>k<8192. \<not> bit_in (fs_block (disk (dev tiny_disk)) 2 4) k"
    by (intro exI[of _ 0]) (simp add: fs_block_def tiny_disk_def bytes_of_append bytes_of_def le16_def upt_rec bit_in_def nth_append)
  then show ?thesis
    using ext2_first_zero_bit_correct[OF tiny_disk_ok tiny_sb_ok(1), of 1 4 no_registers 12]
    by (force simp: tiny_sb_ok Let_def split: if_splits)
qed

text \<open>
  \<open>ext2_alloc_new_block\<close> asks for a zero bit among \<open>~0\<close> blocks, which makes the end of the
  search wrap around to before its start: it always returns \<open>-1\<close>. It still takes one off the
  group's count of free blocks, and marks a bit in a block far from the bitmap; every other
  block but that of the descriptor is unchanged, so no bit of the bitmap is set.
\<close>

theorem ext2_alloc_new_block_fails:
  assumes "ata_ok d" and "sb_ok sb" and "bgd_lba sb g < 2 ^ 28" and "x = bgd_at sb (disk (dev d)) g"
    and "unallocated_blocks x \<noteq> 0" and "block_bitmap x \<noteq> 0" and "far = far_block sb (block_bitmap x)"
    and "sectors_per_block sb * unat far + sectors_per_block sb \<le> 2 ^ 28"
  shows "\<exists>d'. ext2_alloc_new_block (ata_ops ctl regs) sb g d = Some (Inr (- 1, d')) \<and>
    unallocated_blocks (bgd_at sb (disk (dev d')) g) = unallocated_blocks x - 1 \<and>
    (\<forall>c. c \<noteq> far \<and> (bgd_lba sb g < sectors_per_block sb * unat c \<or>
          sectors_per_block sb * unat c + sectors_per_block sb \<le> bgd_lba sb g) \<longrightarrow>
      fs_block (disk (dev d')) (sectors_per_block sb) (unat c) = fs_block (disk (dev d)) (sectors_per_block sb) (unat c))"
proof -
  have "ata_fs.on_disk sb far" using assms(8) by (simp only: ata_fs.on_disk_def)
  from ata_fs.alloc_new_block_far[OF assms(1-3) assms(5,6)[unfolded assms(4)] this[unfolded assms(7) assms(4)], of regs]
  show ?thesis unfolding ata_fs.blk_def assms(4,7) by blast
qed

theorem ext2_alloc_new_block_fails_witness:
  "\<exists>d'. ext2_alloc_new_block (ata_ops ctl no_registers) tiny_sb 16 tiny_disk = Some (Inr (- 1, d'))"
proof -
  have l: "bgd_lba tiny_sb 16 = 5" by (simp add: bgd_lba_def tiny_sb_ok)
  have "replicate 256 (5 :: u16) = replicate 16 5 @ replicate 240 5"
    by (simp add: replicate_add[symmetric])
  then have "bytes_of (replicate 256 5) = bytes_of (replicate 16 5) @ bytes_of (replicate 240 5)"
    by (simp add: bytes_of_append)
  then have b: "bgd_at tiny_sb (disk (dev tiny_disk)) 16 = decode_bgd (bytes_of (replicate 16 5))"
    by (simp add: bgd_at_def l tiny_disk_def BGD_SIZE_def)
  have x: "block_bitmap (decode_bgd (bytes_of (replicate 16 5))) = 0x50005" "unallocated_blocks (decode_bgd (bytes_of (replicate 16 5))) = 5"
    by code_simp+
  show ?thesis
    using ext2_alloc_new_block_fails[OF tiny_disk_ok tiny_sb_ok(1) _ refl _ _ refl, of 16 no_registers]
    by (simp add: l b x tiny_sb_ok far_block_def) blast
qed

text \<open>
  \<open>ext2_write_superblock\<close> gives the disk driver the structure of 84 bytes as the buffer for
  two sectors: after reading past its end, no write succeeds.
\<close>

theorem ext2_write_superblock_overreads:
  assumes "ata_ok d"
  shows "ext2_write_superblock (ata_ops ctl regs) sb d = Inl OutOfBounds"
proof -
  obtain y where "sm_wait (sy d) (ata_lock d) regs = Inr y"
    using assms wait_signal_ok[of "sy d" "ata_lock d"] unfolding ata_ok_def by blast
  moreover have "length (words_of (encode_superblock sb)) < 256" by (simp add: length_words_of)
  moreover have "write_loop ctl 2 2 (unat (2 :: u8)) ws (dev d) = Inl OutOfBounds" if "length ws < 256" for ws
  proof -
    have "unat (2 :: u8) = Suc 1" by simp
    moreover have "start_sector ctl ATA_CMD_WRITE msg 2 2 (dev d) =
        Inr ((addressed (dev d) 2 2)\<lparr>xfer := Writing (unat (2 :: u32)) [] (unat (2 :: u8))\<rparr>)" for msg
      using assms by (intro start_write_idle) (simp_all add: ata_ok_def)
    ultimately show ?thesis using that by (simp only: write_loop.simps res_bind_simps if_True)
  qed
  ultimately show ?thesis
    by (simp add: ext2_write_superblock_def ata_ops_def ata_pio_write_sectors_def del: write_loop.simps)
qed

theorem ext2_write_superblock_overreads_witness:
  "ext2_write_superblock (ata_ops ctl no_registers) tiny_sb tiny_disk = Inl OutOfBounds"
  by (rule ext2_write_superblock_overreads[OF tiny_disk_ok])

text \<open>
  What \<open>ext2_set_inode\<close> and \<open>ext2_write_bgd\<close> store and \<open>ext2_find_inode\<close> and
  \<open>ext2_load_bgd\<close> load agrees on every field: the layout of the three structures on disk is
  inverted by reading it, and has the size the code takes it to have.
\<close>

theorem ext2_layout_roundtrip:
  assumes "inode_ok i" and "bgd_ok g"
  shows "decode_superblock (encode_superblock s) = s \<and> decode_inode (encode_inode i) = i \<and> decode_bgd (encode_bgd g) = g \<and>
    length (encode_superblock s) = 84 \<and> length (encode_inode i) = INODE_SIZE \<and> length (encode_bgd g) = BGD_SIZE"
  using assms decode_encode_superblock[of s "[]"] by simp

theorem ext2_layout_roundtrip_witness:
  "decode_inode (encode_inode tiny_inode) = tiny_inode \<and> decode_bgd (encode_bgd no_bgd) = no_bgd"
  using ext2_layout_roundtrip[OF tiny_inode_ok, of no_bgd tiny_sb] by (simp add: bgd_ok_def no_bgd_def decode_bgd_def BGD_SIZE_def)

end
