(* ===== verification/Ext2_Dir.thy ===== *)
theory Ext2_Dir
  imports Ext2_Disk "HOL-Library.Sublist"
begin

text \<open>
  Directories of the ext2 driver: a directory block is the bytes of a list of entries. The
  lemmas say what listing, looking up and inserting do to that list.
\<close>

section \<open>Entries\<close>

text \<open>\<open>de_pad\<close> is what lies between the name and the next entry.\<close>

record dirent =
  de_ino :: u32
  de_type :: u8
  de_name :: "u8 list"
  de_pad :: "u8 list"

definition dirent_len :: "dirent \<Rightarrow> nat" where
  "dirent_len e = DIRENT_SIZE + length (de_name e) + length (de_pad e)"

definition dirent_bytes :: "dirent \<Rightarrow> u8 list" where
  "dirent_bytes e = le32 (de_ino e) @ le16 (of_nat (dirent_len e)) @ [of_nat (length (de_name e)), de_type e] @ de_name e @ de_pad e"

definition dirent_ok :: "dirent \<Rightarrow> bool" where
  "dirent_ok e \<longleftrightarrow> de_ino e \<noteq> 0 \<and> 0 \<notin> set (de_name e) \<and> length (de_name e) < 256 \<and> dirent_len e < 2 ^ 16 \<and> 4 dvd dirent_len e"

definition dir_block :: "dirent list \<Rightarrow> u8 list" where
  "dir_block es = concat (map dirent_bytes es)"

lemma dirent_bytes_length [simp]: "length (dirent_bytes e) = dirent_len e"
  by (simp add: dirent_bytes_def dirent_len_def DIRENT_SIZE_def)

lemma dir_block_simps [simp]:
  "dir_block [] = []"
  "dir_block (e # es) = dirent_bytes e @ dir_block es"
  "dir_block (xs @ ys) = dir_block xs @ dir_block ys"
  by (simp_all add: dir_block_def)

lemma dirent_pos [simp]: "0 < dirent_len e"
  by (simp add: dirent_len_def DIRENT_SIZE_def)

text \<open>What the code reads of the entry at offset \<open>length pre\<close>.\<close>

lemma dirent_fields:
  assumes "dirent_ok e" and "buf = pre @ dirent_bytes e @ post" and "p = length pre"
  shows "word_from buf p = Inr (de_ino e)"
    and "arr_get buf (int (p + 6)) = Inr (of_nat (length (de_name e)))"
    and "half_from buf (p + 4) = Inr (of_nat (dirent_len e))"
    and "slice buf (p + DIRENT_SIZE) (length (de_name e)) = Inr (de_name e)"
    and "unat (of_nat (length (de_name e)) :: u8) = length (de_name e)"
    and "unat (of_nat (dirent_len e) :: u16) = dirent_len e"
    and "p < length buf"
proof -
  show "word_from buf p = Inr (de_ino e)"
    unfolding assms dirent_bytes_def append_assoc by (rule word_from_append)
  let ?h = "pre @ le32 (de_ino e) @ le16 (of_nat (dirent_len e))"
  have h: "buf = ?h @ of_nat (length (de_name e)) # de_type e # de_name e @ de_pad e @ post" "p + 6 = length ?h + 0"
    by (simp_all add: assms dirent_bytes_def)
  show "arr_get buf (int (p + 6)) = Inr (of_nat (length (de_name e)))"
    unfolding h by (subst arr_get_append) (simp add: arr_get_def)
  have "d16 (pre @ dirent_bytes e @ post) (length pre + 4) = of_nat (dirent_len e)"
    by (simp add: dirent_bytes_def)
  then show "half_from buf (p + 4) = Inr (of_nat (dirent_len e))"
    unfolding assms by (subst half_from_in) (simp_all add: dirent_len_def DIRENT_SIZE_def)
  show "slice buf (p + DIRENT_SIZE) (length (de_name e)) = Inr (de_name e)"
    unfolding assms by (simp add: slice_def dirent_bytes_def DIRENT_SIZE_def)
  show "unat (of_nat (length (de_name e)) :: u8) = length (de_name e)"
    "unat (of_nat (dirent_len e) :: u16) = dirent_len e"
    using assms(1) by (simp_all add: dirent_ok_def unat_of_nat)
  show "p < length buf" using dirent_pos[of e] unfolding assms by (simp del: dirent_pos)
qed

section \<open>Listing\<close>

text \<open>A callback as a function of the entry; the flag says that the listing was ended by it.\<close>

fun walk :: "(u32 \<Rightarrow> u8 list \<Rightarrow> 'c \<Rightarrow> bool \<times> 'c) \<Rightarrow> dirent list \<Rightarrow> 'c \<Rightarrow> bool \<times> 'c" where
  "walk f [] c = (False, c)"
| "walk f (e # es) c = (case f (de_ino e) (de_name e) c of (go, c1) \<Rightarrow> if go then walk f es c1 else (True, c1))"

lemma walk_append:
  "walk f (xs @ ys) c = (case walk f xs c of (over, c1) \<Rightarrow> if over then (True, c1) else walk f ys c1)"
  by (induction xs arbitrary: c) (auto split: prod.splits)

definition cb_is :: "('c, 's) dir_cb \<Rightarrow> (u32 \<Rightarrow> u8 list \<Rightarrow> 'c \<Rightarrow> bool \<times> 'c) \<Rightarrow> bool" where
  "cb_is cb f \<longleftrightarrow> (\<forall>ino nm c d. 0 \<notin> set nm \<longrightarrow> cb ino (nm @ [0]) c d = Some (Inr (fst (f ino nm c), snd (f ino nm c), d)))"

lemma ls_block_entries:
  assumes "cb_is cb f" "\<forall>e\<in>set es. dirent_ok e"
  shows "ls_block cb (pre @ dir_block es) (length (pre @ dir_block es)) (length pre) c d =
    Some (Inr (fst (walk f es c), snd (walk f es c), d))"
  using assms(2)
proof (induction es arbitrary: pre c)
  case Nil
  then show ?case by (simp add: ls_block.simps)
next
  case (Cons e es)
  let ?buf = "pre @ dirent_bytes e @ dir_block es"
  have ok: "dirent_ok e" "0 \<notin> set (de_name e)" "de_ino e \<noteq> 0" using Cons.prems by (auto simp: dirent_ok_def)
  note field = dirent_fields[OF ok(1), of ?buf pre "dir_block es", OF refl refl]
  obtain go c1 where f: "f (de_ino e) (de_name e) c = (go, c1)" by force
  have cb: "cb (de_ino e) (de_name e @ [0]) c d = Some (Inr (go, c1, d))"
    using assms(1) ok(2) f by (simp add: cb_is_def)
  have rest: "ls_block cb ?buf (length ?buf) (length pre + dirent_len e) c1 d =
      Some (Inr (fst (walk f es c1), snd (walk f es c1), d))"
    using Cons.IH[of "pre @ dirent_bytes e" c1] Cons.prems by simp
  show ?case
    unfolding dir_block_simps
    by (subst ls_block.simps) (simp only: field cb rest f ok(3) walk.simps res_bind_simps sum.case option.case
      prod.case if_True if_False not_not simp_thms split: if_splits, simp)
qed

section \<open>Looking up\<close>

lemma take_min_prefix:
  "take (min (length a) (length b)) a = take (min (length a) (length b)) b \<longleftrightarrow> prefix a b \<or> prefix b a"
proof (cases "length a \<le> length b")
  case True
  then show ?thesis by (auto simp: min_def prefix_def) (metis append_take_drop_id)+
next
  case False
  then show ?thesis by (auto simp: min_def prefix_def) (metis append_take_drop_id)+
qed

lemma strncmp_shorter:
  assumes "0 \<notin> set nm" "0 \<notin> set s"
  shows "\<exists>r. strncmp (nm @ [0]) (s @ 0 # rest) (min (length nm) (length s)) = Inr r \<and> (r = 0 \<longleftrightarrow> prefix nm s \<or> prefix s nm)"
  using strncmp_cstring[OF cstringI[OF assms(1), of "[]"] cstringI[OF assms(2), of rest]] take_min_prefix[of nm s]
  by blast

lemma find_cb_is:
  assumes "0 \<notin> set s" "unat len = length s"
  shows "cb_is (ext2_dir_find_cb (s @ 0 # rest) len) (\<lambda>ino nm found. if prefix nm s \<or> prefix s nm then (False, ino) else (True, found))"
  unfolding cb_is_def
proof (intro allI impI)
  fix ino nm found d assume "(0 :: u8) \<notin> set nm"
  then obtain r where "strncmp (nm @ [0]) (s @ 0 # rest) (min (length nm) (length s)) = Inr r" "r = 0 \<longleftrightarrow> prefix nm s \<or> prefix s nm"
    using strncmp_shorter assms(1) by blast
  then show "ext2_dir_find_cb (s @ 0 # rest) len ino (nm @ [0]) found d =
      Some (Inr (fst (if prefix nm s \<or> prefix s nm then (False, ino) else (True, found)),
        snd (if prefix nm s \<or> prefix s nm then (False, ino) else (True, found)), d))"
    using assms(2) by (simp add: ext2_dir_find_cb_def)
qed

lemma contains_cb_is:
  assumes "0 \<notin> set s" "unat len = length s"
  shows "cb_is (ext2_dir_contains_cb (s @ 0 # rest) len) (\<lambda>ino nm found. if prefix nm s \<or> prefix s nm then (False, True) else (True, found))"
  unfolding cb_is_def
proof (intro allI impI)
  fix ino :: u32 and nm found d assume "(0 :: u8) \<notin> set nm"
  then obtain r where "strncmp (nm @ [0]) (s @ 0 # rest) (min (length nm) (length s)) = Inr r" "r = 0 \<longleftrightarrow> prefix nm s \<or> prefix s nm"
    using strncmp_shorter assms(1) by blast
  then show "ext2_dir_contains_cb (s @ 0 # rest) len ino (nm @ [0]) found d =
      Some (Inr (fst (if prefix nm s \<or> prefix s nm then (False, True) else (True, found)),
        snd (if prefix nm s \<or> prefix s nm then (False, True) else (True, found)), d))"
    using assms(2) by (simp add: ext2_dir_contains_cb_def)
qed

text \<open>The first entry whose name the driver takes for \<open>s\<close>.\<close>

definition first_match :: "u8 list \<Rightarrow> dirent list \<Rightarrow> dirent option" where
  "first_match s es = find (\<lambda>e. prefix (de_name e) s \<or> prefix s (de_name e)) es"

lemma walk_find:
  "walk (\<lambda>ino nm found. if prefix nm s \<or> prefix s nm then (False, ino) else (True, found)) es c =
    (case first_match s es of None \<Rightarrow> (False, c) | Some e \<Rightarrow> (True, de_ino e))"
  by (induction es) (auto simp: first_match_def)

lemma walk_contains:
  "walk (\<lambda>ino nm found. if prefix nm s \<or> prefix s nm then (False, True) else (True, found)) es c =
    (case first_match s es of None \<Rightarrow> (False, c) | Some e \<Rightarrow> (True, True))"
  by (induction es) (auto simp: first_match_def)

text \<open>A directory whose blocks hold the lists of entries \<open>ess\<close>.\<close>

definition dir_on_disk :: "ext2_superblock \<Rightarrow> (nat \<Rightarrow> u16 list) \<Rightarrow> nat \<Rightarrow> ext2_inode \<Rightarrow> dirent list list \<Rightarrow> bool" where
  "dir_on_disk sb sec limit dir ess \<longleftrightarrow> is_dir dir \<and> length (i_blocks dir) = 15 \<and> length ess \<le> 12 \<and>
     num_blocks dir = of_nat (length ess) \<and>
     (\<forall>i<length ess. sectors_per_block sb * unat (i_blocks dir ! i) + sectors_per_block sb \<le> limit \<and>
        fs_block sec (sectors_per_block sb) (unat (i_blocks dir ! i)) = dir_block (ess ! i) \<and>
        (\<forall>e\<in>set (ess ! i). dirent_ok e))"

context fs_disk begin

lemma dir_block_read:
  assumes "ok d" "sb_ok sb" "dir_on_disk sb (sector d) limit dir ess" "i < length ess"
  shows "\<exists>d'. ext2_read_inode_block dv sb dir (of_nat i) d = Inr (dir_block (ess ! i), d') \<and> ok d' \<and> sector d' = sector d"
    and "length (dir_block (ess ! i)) = unat (ext2_block_size sb)"
proof -
  have b: "blk sb d (i_blocks dir ! i) = dir_block (ess ! i)" using assms(3,4) by (simp add: dir_on_disk_def blk_def)
  have "on_disk sb (i_blocks dir ! i)" "i < 12" "length (i_blocks dir) = 15"
    using assms(3,4) by (simp_all add: dir_on_disk_def on_disk_def)
  then show "\<exists>d'. ext2_read_inode_block dv sb dir (of_nat i) d = Inr (dir_block (ess ! i), d') \<and> ok d' \<and> sector d' = sector d"
    using read_inode_block_ok[OF assms(1,2)] b by metis
  show "length (dir_block (ess ! i)) = unat (ext2_block_size sb)"
    using blk_length[OF assms(1,2)] b by metis
qed

lemma ls_blocks_entries:
  assumes "ok d" "sb_ok sb" "dir_on_disk sb (sector d) limit dir ess" "cb_is cb f" "i \<le> length ess"
  shows "\<exists>d'. ls_blocks cb dv sb dir (of_nat i) c d = Some (Inr (snd (walk f (concat (drop i ess)) c), d')) \<and>
    ok d' \<and> sector d' = sector d"
  using assms(1,3,5)
proof (induction "length ess - i" arbitrary: i c d)
  case 0
  then have "i = length ess" by simp
  then show ?case using 0 by (subst ls_blocks.simps) (simp add: dir_on_disk_def)
next
  case (Suc k)
  then have i: "i < length ess" "length ess \<le> 12" by (simp_all add: dir_on_disk_def)
  have lt: "of_nat i < num_blocks dir"
    using i Suc.prems(2) by (simp add: dir_on_disk_def word_less_nat_alt unat_of_nat)
  obtain d1 where d1: "ext2_read_inode_block dv sb dir (of_nat i) d = Inr (dir_block (ess ! i), d1)" "ok d1" "sector d1 = sector d"
    using dir_block_read(1)[OF Suc.prems(1) assms(2) Suc.prems(2) i(1)] by blast
  have es: "\<forall>e\<in>set (ess ! i). dirent_ok e" using Suc.prems(2) i(1) by (simp add: dir_on_disk_def)
  obtain over c1 where w: "walk f (ess ! i) c = (over, c1)" by force
  have ls: "ls_block cb (dir_block (ess ! i)) (unat (ext2_block_size sb)) 0 c d1 = Some (Inr (over, c1, d1))"
    using ls_block_entries[OF assms(4) es, of "[]" c d1] dir_block_read(2)[OF Suc.prems(1) assms(2) Suc.prems(2) i(1)] w
    by simp
  have drop: "concat (drop i ess) = ess ! i @ concat (drop (Suc i) ess)"
    using i(1) by (simp add: Cons_nth_drop_Suc[symmetric])
  have step: "ls_blocks cb dv sb dir (of_nat i) c d =
      (if over then Some (Inr (c1, d1)) else ls_blocks cb dv sb dir (of_nat (Suc i)) c1 d1)"
    by (subst ls_blocks.simps) (simp add: lt d1(1) ls add.commute)
  show ?case
  proof (cases over)
    case True
    then show ?thesis using step w d1 by (simp add: drop walk_append)
  next
    case False
    have "\<exists>d'. ls_blocks cb dv sb dir (of_nat (Suc i)) c1 d1 = Some (Inr (snd (walk f (concat (drop (Suc i) ess)) c1), d')) \<and>
        ok d' \<and> sector d' = sector d1"
      using Suc.hyps(2) Suc.prems(2) d1 i by (intro Suc.hyps(1)) simp_all
    then show ?thesis using False step w d1(3) by (simp add: drop walk_append)
  qed
qed

lemma dir_find_ok:
  assumes "ok d" "sb_ok sb" "dir_on_disk sb (sector d) limit dir ess" "0 \<notin> set s" "unat len = length s"
  shows "\<exists>d'. ext2_dir_find dv sb dir (s @ 0 # rest) len d =
      Some (Inr (case first_match s (concat ess) of None \<Rightarrow> 0 | Some e \<Rightarrow> de_ino e, d')) \<and> ok d' \<and> sector d' = sector d"
proof -
  obtain d' where "ls_blocks (ext2_dir_find_cb (s @ 0 # rest) len) dv sb dir (of_nat 0) 0 d =
      Some (Inr (snd (walk (\<lambda>ino nm found. if prefix nm s \<or> prefix s nm then (False, ino) else (True, found)) (concat (drop 0 ess)) 0), d'))"
    "ok d'" "sector d' = sector d"
    using ls_blocks_entries[OF assms(1-3) find_cb_is[OF assms(4,5)], of 0] by blast
  then show ?thesis
    using assms(3) by (auto simp: ext2_dir_find_def ext2_dir_ls_def dir_on_disk_def walk_find split: option.splits)
qed

lemma dir_contains_ok:
  assumes "ok d" "sb_ok sb" "dir_on_disk sb (sector d) limit dir ess" "0 \<notin> set s" "unat len = length s"
  shows "\<exists>d'. ext2_dir_contains dv sb dir (s @ 0 # rest) len d = Some (Inr (first_match s (concat ess) \<noteq> None, d')) \<and>
    ok d' \<and> sector d' = sector d"
proof -
  obtain d' where "ls_blocks (ext2_dir_contains_cb (s @ 0 # rest) len) dv sb dir (of_nat 0) False d =
      Some (Inr (snd (walk (\<lambda>ino nm found. if prefix nm s \<or> prefix s nm then (False, True) else (True, found)) (concat (drop 0 ess)) False), d'))"
    "ok d'" "sector d' = sector d"
    using ls_blocks_entries[OF assms(1-3) contains_cb_is[OF assms(4,5)], of 0] by blast
  then show ?thesis
    using assms(3) by (auto simp: ext2_dir_contains_def ext2_dir_ls_def dir_on_disk_def walk_contains split: option.splits)
qed

end

section \<open>Inserting\<close>

text \<open>The bytes an entry with a name of \<open>n\<close> bytes needs.\<close>

definition min_len :: "nat \<Rightarrow> nat" where
  "min_len n = (n + DIRENT_SIZE + 3) div 4 * 4"

definition room :: "nat \<Rightarrow> dirent \<Rightarrow> bool" where
  "room n e \<longleftrightarrow> min_len (length (de_name e)) + min_len n \<le> dirent_len e"

definition trimmed :: "dirent \<Rightarrow> dirent" where
  "trimmed e = e\<lparr>de_pad := take (min_len (length (de_name e)) - DIRENT_SIZE - length (de_name e)) (de_pad e)\<rparr>"

text \<open>The new entry takes the rest of \<open>e\<close>; what it does not overwrite is its padding.\<close>

definition inserted :: "dirent \<Rightarrow> u32 \<Rightarrow> u8 \<Rightarrow> u8 list \<Rightarrow> dirent" where
  "inserted e ino ty s = \<lparr>de_ino = ino, de_type = ty, de_name = s,
     de_pad = drop (min_len (length (de_name e)) - length (de_name e) + length s) (de_pad e)\<rparr>"

lemma min_len_bounds: "n + DIRENT_SIZE \<le> min_len n" "min_len n \<le> n + DIRENT_SIZE + 3" "4 dvd min_len n"
  unfolding min_len_def by presburger+

lemma min_len_le: "4 dvd m \<Longrightarrow> n + DIRENT_SIZE \<le> m \<Longrightarrow> min_len n \<le> m"
  by (auto simp: min_len_def elim!: dvdE)

lemma unat_PAD: "unat x + 3 < 2 ^ 32 \<Longrightarrow> unat (PAD x) = (unat x + 3) div 4 * 4"
proof -
  assume "unat x + 3 < 2 ^ 32"
  then have u: "unat (x + 3) = unat x + 3" by (subst unat_add_lem[THEN iffD1]) simp_all
  have "unat (x + 3) < 2 ^ LENGTH(32)" by (rule unsigned_less)
  then have l: "unat (x + 3) < 2 ^ 32" by simp
  have e: "Suc (Suc (n - 2)) = n" if "2 \<le> n" for n using that by simp
  have "(x + 3) AND NOT (mask 2) = push_bit 2 (drop_bit 2 (x + 3))"
    by (rule bit_word_eqI) (auto simp: bit_simps e not_less)
  then have "PAD x = push_bit 2 (drop_bit 2 (x + 3))" by (simp only: PAD_def) (simp add: mask_eq_exp_minus_1)
  then have "unat (PAD x) = take_bit 32 (unat (x + 3) div 4 * 4)"
    using take_bit_nat_eq_self[of "unat (x + 3)" 32] l
    by (simp only: unsigned_push_bit_eq unsigned_drop_bit_eq) (simp add: drop_bit_eq_div push_bit_eq_mult)
  moreover have "unat (x + 3) div 4 * 4 < 2 ^ 32" by (rule le_less_trans[OF div_times_less_eq_dividend l])
  ultimately show ?thesis by (simp only: take_bit_nat_eq_self u)
qed

lemma min_rec_len_nat: "n < 256 \<Longrightarrow> min_rec_len (of_nat n) = of_nat (min_len n)"
proof -
  assume n: "n < 256"
  then have u: "unat (of_nat n + of_nat DIRENT_SIZE :: u32) = n + DIRENT_SIZE"
    by (simp add: DIRENT_SIZE_def unat_word_ariths unat_of_nat)
  have "unat (min_rec_len (of_nat n)) = min_len n"
    unfolding min_rec_len_def min_len_def using n by (subst unat_PAD) (simp_all add: u[unfolded DIRENT_SIZE_def, simplified] DIRENT_SIZE_def)
  then have "of_nat (unat (min_rec_len (of_nat n))) = (of_nat (min_len n) :: u32)" by simp
  then show ?thesis by simp
qed

lemma splice_mid: "p = length x \<Longrightarrow> length old = length new \<Longrightarrow> splice (x @ old @ z) p new = Inr (x @ new @ z)"
  by (simp add: splice_def)

lemma put_dirent_ok:
  assumes "length h = 8" "length old = unat nl" "p = length x" "length s = unat nl"
  shows "put_dirent (x @ h @ old @ z) p ino rec_len (s @ rest) nl ty =
    Inr (x @ le32 ino @ le16 (ucast rec_len) @ [ucast nl, ty] @ s @ z)"
proof -
  obtain h0 h1 b c where h: "h = h0 @ h1 @ [b] @ [c]" "length h0 = 4" "length h1 = 2"
  proof
    show "h = take 4 h @ take 2 (drop 4 h) @ [h ! 6] @ [h ! 7]"
      using assms(1) by (auto intro!: nth_equalityI simp: nth_append less_Suc_eq eval_nat_numeral)
  qed (use assms(1) in simp_all)
  have 1: "splice (x @ h @ old @ z) (p + 4) (le16 (ucast rec_len)) = Inr ((x @ h0) @ le16 (ucast rec_len) @ ([b] @ [c] @ old @ z))"
    using splice_mid[of "p + 4" "x @ h0" h1 "le16 (ucast rec_len)" "[b] @ [c] @ old @ z"] h assms by simp
  have 2: "splice ((x @ h0) @ le16 (ucast rec_len) @ ([b] @ [c] @ old @ z)) (p + 6) [ucast nl] =
      Inr ((x @ h0 @ le16 (ucast rec_len)) @ [ucast nl] @ ([c] @ old @ z))"
    using splice_mid[of "p + 6" "x @ h0 @ le16 (ucast rec_len)" "[b]" "[ucast nl]" "[c] @ old @ z"] h assms by simp
  have 3: "splice ((x @ h0 @ le16 (ucast rec_len)) @ [ucast nl] @ ([c] @ old @ z)) p (le32 ino) =
      Inr (x @ le32 ino @ (le16 (ucast rec_len) @ [ucast nl] @ [c] @ old @ z))"
    using splice_mid[of p x h0 "le32 ino" "le16 (ucast rec_len) @ [ucast nl] @ [c] @ old @ z"] h assms by simp
  have 4: "splice (x @ le32 ino @ (le16 (ucast rec_len) @ [ucast nl] @ [c] @ old @ z)) (p + 7) [ty] =
      Inr ((x @ le32 ino @ le16 (ucast rec_len) @ [ucast nl]) @ [ty] @ (old @ z))"
    using splice_mid[of "p + 7" "x @ le32 ino @ le16 (ucast rec_len) @ [ucast nl]" "[c]" "[ty]" "old @ z"] assms by simp
  have 5: "splice ((x @ le32 ino @ le16 (ucast rec_len) @ [ucast nl]) @ [ty] @ (old @ z)) (p + DIRENT_SIZE) s =
      Inr ((x @ le32 ino @ le16 (ucast rec_len) @ [ucast nl, ty]) @ s @ z)"
    using splice_mid[of "p + DIRENT_SIZE" "x @ le32 ino @ le16 (ucast rec_len) @ [ucast nl, ty]" old s z] assms
    by (simp add: DIRENT_SIZE_def)
  have 6: "slice (s @ rest) 0 (unat nl) = Inr s" using assms(4) by (simp add: slice_def)
  show ?thesis
    using 1 2 3 4 5 6 unfolding put_dirent_def by (simp only: res_bind_simps append_assoc append.simps)
qed

lemma ucast_of_nat: "n < 2 ^ LENGTH('a) \<Longrightarrow> LENGTH('a) \<le> LENGTH('b) \<Longrightarrow> ucast (of_nat n :: 'a::len word) = (of_nat n :: 'b::len word)"
  by (simp add: word_unat_eq_iff unat_of_nat unsigned_ucast_eq take_bit_nat_eq_self take_bit_eq_mod)

lemma ucast_down_of_nat: "LENGTH('b) \<le> LENGTH('a) \<Longrightarrow> ucast (of_nat n :: 'a::len word) = (of_nat n :: 'b::len word)"
  by (simp add: word_unat_eq_iff unsigned_ucast_eq unat_of_nat take_bit_eq_mod[symmetric] min_def unsigned_of_nat)

lemma inserted_simps [simp]:
  "de_ino (inserted e ino ty s) = ino" "de_type (inserted e ino ty s) = ty" "de_name (inserted e ino ty s) = s"
  by (simp_all add: inserted_def)

lemma entry_sizes:
  assumes "dirent_ok e"
  shows "min_rec_len (ucast (of_nat (length (de_name e)) :: u8)) = of_nat (min_len (length (de_name e)))"
    and "ucast (of_nat (dirent_len e) :: u16) - of_nat (min_len (length (de_name e))) =
      (of_nat (dirent_len e - min_len (length (de_name e))) :: u32)"
    and "min_len (length (de_name e)) \<le> dirent_len e"
proof -
  have n: "length (de_name e) < 256" and l: "dirent_len e < 2 ^ 16" "4 dvd dirent_len e"
    using assms by (simp_all add: dirent_ok_def)
  show m: "min_len (length (de_name e)) \<le> dirent_len e"
    using l(2) by (rule min_len_le) (simp add: dirent_len_def)
  show "min_rec_len (ucast (of_nat (length (de_name e)) :: u8)) = of_nat (min_len (length (de_name e)))"
    using n by (simp add: ucast_of_nat min_rec_len_nat)
  show "ucast (of_nat (dirent_len e) :: u16) - of_nat (min_len (length (de_name e))) =
      (of_nat (dirent_len e - min_len (length (de_name e))) :: u32)"
    using l(1) m by (simp add: ucast_of_nat of_nat_diff)
qed

lemma room_word:
  assumes "dirent_ok e" "n < 256"
  shows "(of_nat (min_len n) :: u32) \<le> of_nat (dirent_len e - min_len (length (de_name e))) \<longleftrightarrow> room n e"
proof -
  have "min_len n < 2 ^ 32" "dirent_len e - min_len (length (de_name e)) < 2 ^ 32"
    using assms min_len_bounds(2)[of n] unfolding dirent_ok_def DIRENT_SIZE_def by auto
  moreover obtain k where "k = dirent_len e - min_len (length (de_name e))" by blast
  ultimately show ?thesis
    using entry_sizes(3)[OF assms(1)] by (auto simp: word_le_nat_alt unat_of_nat room_def simp del: of_nat_diff)
qed

lemma insert_next:
  assumes "dirent_ok e" "n < 256" "\<not> room n e"
  shows "insert_in_block name (of_nat n) ino ty (pre @ dirent_bytes e @ post) (length (pre @ dirent_bytes e @ post)) (length pre) =
    insert_in_block name (of_nat n) ino ty (pre @ dirent_bytes e @ post) (length (pre @ dirent_bytes e @ post)) (length pre + dirent_len e)"
proof -
  let ?buf = "pre @ dirent_bytes e @ post"
  note field = dirent_fields[OF assms(1), of ?buf pre post, OF refl refl]
  have "de_ino e \<noteq> 0" using assms(1) by (simp add: dirent_ok_def)
  then show ?thesis
    using room_word[OF assms(1,2)] assms(3)
    by (subst insert_in_block.simps) (simp only: field entry_sizes[OF assms(1)] min_rec_len_nat[OF assms(2)] Let_def
      res_bind_simps sum.case prod.case if_True if_False simp_thms)
qed

lemma splice_rec_len:
  "splice (pre @ dirent_bytes e @ post) (length pre + 4) (le16 (of_nat (dirent_len e'))) =
    Inr (pre @ le32 (de_ino e) @ le16 (of_nat (dirent_len e')) @ [of_nat (length (de_name e)), de_type e] @ de_name e @ de_pad e @ post)"
  using splice_mid[of "length pre + 4" "pre @ le32 (de_ino e)" "le16 (of_nat (dirent_len e))" "le16 (of_nat (dirent_len e'))"]
  by (simp add: dirent_bytes_def)

lemma trimmed_len: "dirent_ok e \<Longrightarrow> dirent_len (trimmed e) = min_len (length (de_name e))"
  using entry_sizes(3)[of e] min_len_bounds(1)[of "length (de_name e)"]
  by (auto simp: dirent_len_def trimmed_def min_def)

lemma inserted_len: "dirent_ok e \<Longrightarrow> room (length s) e \<Longrightarrow>
    dirent_len (inserted e ino ty s) = dirent_len e - min_len (length (de_name e))"
  using min_len_bounds(1)[of "length (de_name e)"] min_len_bounds(1)[of "length s"]
  by (simp add: dirent_len_def inserted_def room_def)

lemma insert_here:
  assumes "dirent_ok e" "length s < 256" "room (length s) e"
  shows "insert_in_block (s @ rest) (of_nat (length s)) ino ty (pre @ dirent_bytes e @ post)
      (length (pre @ dirent_bytes e @ post)) (length pre) =
    Some (Inr (Some (pre @ dirent_bytes (trimmed e) @ dirent_bytes (inserted e ino ty s) @ post)))"
proof -
  let ?buf = "pre @ dirent_bytes e @ post" and ?n = "length (de_name e)"
  let ?m = "min_len ?n" and ?k = "min_len ?n - DIRENT_SIZE - ?n"
  note field = dirent_fields[OF assms(1), of ?buf pre post, OF refl refl]
  have ino: "de_ino e \<noteq> 0" using assms(1) by (simp add: dirent_ok_def)
  have m: "?n + DIRENT_SIZE \<le> ?m" "length s + DIRENT_SIZE \<le> min_len (length s)" by (rule min_len_bounds(1))+
  have pad: "?k + 8 + length s \<le> length (de_pad e)" "drop (?m - ?n + length s) (de_pad e) = drop (length s) (drop 8 (drop ?k (de_pad e)))"
    using assms(3) m by (simp_all add: room_def dirent_len_def DIRENT_SIZE_def add.commute)
  let ?pre = "pre @ dirent_bytes (trimmed e)"
  define h where "h = take 8 (drop ?k (de_pad e))"
  define old where "old = take (length s) (drop 8 (drop ?k (de_pad e)))"
  have split: "de_pad e = take ?k (de_pad e) @ h @ old @ drop (length s) (drop 8 (drop ?k (de_pad e)))"
    unfolding h_def old_def by (metis append_take_drop_id)
  have len: "length h = 8" "length old = length s" "length ?pre = length pre + ?m"
    using pad(1) by (simp_all add: h_def old_def trimmed_len[OF assms(1)])
  have m16: "(ucast (of_nat ?m :: u32) :: u16) = of_nat (dirent_len (trimmed e))"
    by (simp add: trimmed_len[OF assms(1)] ucast_down_of_nat)
  have step1: "splice ?buf (length pre + 4) (le16 (of_nat (dirent_len (trimmed e)))) =
      Inr (?pre @ h @ old @ drop (length s) (drop 8 (drop ?k (de_pad e))) @ post)"
    unfolding splice_rec_len by (subst split) (simp add: dirent_bytes_def trimmed_def)
  have nl: "unat (of_nat (length s) :: u32) = length s" "(ucast (of_nat (length s) :: u32) :: u8) = of_nat (length s)"
    using assms(2) by (simp_all add: unat_of_nat ucast_down_of_nat)
  have L: "unat (of_nat ?m :: u32) = ?m"
    using entry_sizes(3)[OF assms(1)] assms(1) by (simp add: unat_of_nat dirent_ok_def)
  have inserted_pad: "de_pad (inserted e ino ty s) = drop (length s) (drop 8 (drop ?k (de_pad e)))"
    unfolding inserted_def using pad(2) by simp
  have step2: "put_dirent (?pre @ h @ old @ drop (length s) (drop 8 (drop ?k (de_pad e))) @ post)
      (length pre + unat (of_nat ?m :: u32)) ino (of_nat (dirent_len e - ?m)) (s @ rest) (of_nat (length s)) ty =
    Inr (?pre @ dirent_bytes (inserted e ino ty s) @ post)"
  proof -
    have bytes: "dirent_bytes (inserted e ino ty s) = le32 ino @ le16 (of_nat (dirent_len e - ?m)) @
        [of_nat (length s), ty] @ s @ drop (length s) (drop 8 (drop ?k (de_pad e)))"
      by (simp only: dirent_bytes_def inserted_simps inserted_len[OF assms(1,3)] inserted_pad)
    have r: "ucast (of_nat (dirent_len e - ?m) :: u32) = (of_nat (dirent_len e - ?m) :: u16)"
      by (rule ucast_down_of_nat) simp
    show ?thesis
      unfolding L using put_dirent_ok[OF len(1), of old "of_nat (length s)" "length pre + ?m" ?pre s] len(2,3)
      by (simp only: nl bytes r append_assoc append.simps)
  qed
  show ?thesis
    using room_word[OF assms(1,2)] assms(3) ino
    by (subst insert_in_block.simps) (simp only: field entry_sizes[OF assms(1)] min_rec_len_nat[OF assms(2)] Let_def m16
      step1 step2[unfolded append_assoc] res_bind_simps sum.case prod.case if_True if_False simp_thms append_assoc)
qed

text \<open>What an insertion does to the entries of one block.\<close>

fun insert_entry :: "u32 \<Rightarrow> u8 \<Rightarrow> u8 list \<Rightarrow> dirent list \<Rightarrow> dirent list option" where
  "insert_entry ino ty s [] = None"
| "insert_entry ino ty s (e # es) =
     (if room (length s) e then Some (trimmed e # inserted e ino ty s # es)
      else map_option ((#) e) (insert_entry ino ty s es))"

lemma insert_in_block_entries:
  assumes "\<forall>e\<in>set es. dirent_ok e" "length s < 256"
  shows "insert_in_block (s @ rest) (of_nat (length s)) ino ty (pre @ dir_block es) (length (pre @ dir_block es)) (length pre) =
    Some (Inr (map_option (\<lambda>es'. pre @ dir_block es') (insert_entry ino ty s es)))"
  using assms(1)
proof (induction es arbitrary: pre)
  case Nil
  then show ?case by (simp add: insert_in_block.simps)
next
  case (Cons e es)
  have ok: "dirent_ok e" using Cons.prems by simp
  show ?case
  proof (cases "room (length s) e")
    case True
    then show ?thesis using insert_here[OF ok assms(2) True, of rest ino ty pre "dir_block es"] by simp
  next
    case False
    have "insert_in_block (s @ rest) (of_nat (length s)) ino ty (pre @ dirent_bytes e @ dir_block es)
        (length (pre @ dirent_bytes e @ dir_block es)) (length pre + dirent_len e) =
      Some (Inr (map_option (\<lambda>es'. pre @ dirent_bytes e @ dir_block es') (insert_entry ino ty s es)))"
      using Cons.IH[of "pre @ dirent_bytes e"] Cons.prems by simp
    then show ?thesis
      using False insert_next[OF ok assms(2) False, of "s @ rest" ino ty pre "dir_block es"]
      by (simp add: option.map_comp comp_def)
  qed
qed

lemma insert_entry_ok:
  assumes "insert_entry ino ty s es = Some es'" "\<forall>e\<in>set es. dirent_ok e" "ino \<noteq> 0" "0 \<notin> set s" "length s < 256"
  shows "\<forall>e\<in>set es'. dirent_ok e" and "length (dir_block es') = length (dir_block es)"
proof -
  have one: "dirent_ok (trimmed e)" "dirent_ok (inserted e ino ty s)"
    "dirent_len (trimmed e) + dirent_len (inserted e ino ty s) = dirent_len e"
    if "dirent_ok e" "room (length s) e" for e
  proof -
    note len = trimmed_len[OF that(1)] inserted_len[OF that, of ino ty] entry_sizes(3)[OF that(1)]
    show "dirent_len (trimmed e) + dirent_len (inserted e ino ty s) = dirent_len e" using len by simp
    show "dirent_ok (trimmed e)" "dirent_ok (inserted e ino ty s)"
      using that len assms(3-5) min_len_bounds(3)[of "length (de_name e)"]
      by (auto simp: dirent_ok_def trimmed_def inserted_def intro: dvd_diff_nat)
  qed
  have "(\<forall>e\<in>set es'. dirent_ok e) \<and> length (dir_block es') = length (dir_block es)"
    using assms(1,2)
    by (induction es arbitrary: es') (auto simp: one split: if_splits dest: one)
  then show "\<forall>e\<in>set es'. dirent_ok e" "length (dir_block es') = length (dir_block es)" by blast+
qed

lemma insert_entry_found:
  assumes "insert_entry ino ty s es = Some es'" "first_match s es = None"
  shows "\<exists>e. first_match s es' = Some e \<and> de_ino e = ino \<and> de_name e = s"
  using assms
proof (induction es arbitrary: es')
  case (Cons e es)
  then have e: "\<not> (prefix (de_name e) s \<or> prefix s (de_name e))" "first_match s es = None"
    by (auto simp: first_match_def split: if_splits)
  show ?case
  proof (cases "room (length s) e")
    case True
    then show ?thesis using Cons.prems(1) e by (auto simp: first_match_def trimmed_def)
  next
    case False
    then obtain es2 where es2: "insert_entry ino ty s es = Some es2" "es' = e # es2" using Cons.prems(1) by auto
    then show ?thesis using Cons.IH[OF es2(1) e(2)] e(1) by (auto simp: first_match_def)
  qed
qed simp

lemma first_match_append: "first_match s (xs @ ys) = (case first_match s xs of None \<Rightarrow> first_match s ys | Some e \<Rightarrow> Some e)"
  by (induction xs) (auto simp: first_match_def)

lemma first_match_None: "first_match s (concat ess) = None \<longleftrightarrow> (\<forall>es\<in>set ess. first_match s es = None)"
  by (induction ess) (auto simp: first_match_append split: option.splits, simp add: first_match_def)

lemma first_match_insert:
  assumes "i < length ess" "first_match s (concat ess) = None" "insert_entry ino ty s (ess ! i) = Some es'"
  shows "\<exists>e. first_match s (concat (ess[i := es'])) = Some e \<and> de_ino e = ino \<and> de_name e = s"
proof -
  have "concat (ess[i := es']) = concat (take i ess) @ es' @ concat (drop (Suc i) ess)"
    using assms(1) by (simp add: upd_conv_take_nth_drop)
  moreover have "first_match s (concat (take i ess)) = None"
    using assms(2) by (auto simp: first_match_None dest: in_set_takeD)
  moreover have "first_match s (ess ! i) = None" using assms(1,2) by (simp add: first_match_None)
  ultimately show ?thesis using insert_entry_found[OF assms(3)] by (auto simp: first_match_append)
qed

context fs_disk begin

lemma insert_block_step:
  assumes "ok d" "sb_ok sb" "dir_on_disk sb (sector d) limit dir ess" "length s < 256" "i < length ess"
  shows "\<exists>d'. ok d' \<and> sector d' = sector d \<and>
    insert_in_blocks (s @ rest) (of_nat (length s)) ino ty dv sb dir (of_nat i) buf d =
      (case insert_entry ino ty s (ess ! i) of
         None \<Rightarrow> insert_in_blocks (s @ rest) (of_nat (length s)) ino ty dv sb dir (of_nat (Suc i)) (dir_block (ess ! i)) d'
       | Some es' \<Rightarrow> Some (Inr (dir_block es', of_nat i, d')))"
proof -
  have n: "length ess \<le> 12" "num_blocks dir = of_nat (length ess)" and es: "\<forall>e\<in>set (ess ! i). dirent_ok e"
    using assms(3,5) by (simp_all add: dir_on_disk_def)
  have lt: "of_nat i < num_blocks dir" using n assms(5) by (simp add: word_less_nat_alt unat_of_nat)
  obtain d1 where d1: "ext2_read_inode_block dv sb dir (of_nat i) d = Inr (dir_block (ess ! i), d1)" "ok d1" "sector d1 = sector d"
    using dir_block_read(1)[OF assms(1-3,5)] by blast
  have "insert_in_block (s @ rest) (of_nat (length s)) ino ty (dir_block (ess ! i)) (unat (ext2_block_size sb)) 0 =
      Some (Inr (map_option dir_block (insert_entry ino ty s (ess ! i))))"
    using insert_in_block_entries[OF es assms(4), of rest ino ty "[]"] dir_block_read(2)[OF assms(1-3,5)] by simp
  then have "insert_in_blocks (s @ rest) (of_nat (length s)) ino ty dv sb dir (of_nat i) buf d =
      (case insert_entry ino ty s (ess ! i) of
         None \<Rightarrow> insert_in_blocks (s @ rest) (of_nat (length s)) ino ty dv sb dir (of_nat (Suc i)) (dir_block (ess ! i)) d1
       | Some es' \<Rightarrow> Some (Inr (dir_block es', of_nat i, d1)))"
    by (subst insert_in_blocks.simps) (simp add: lt d1(1) add.commute split: option.split)
  then show ?thesis using d1(2,3) by blast
qed

lemma insert_blocks_skip:
  assumes "ok d" "sb_ok sb" "dir_on_disk sb (sector d) limit dir ess" "length s < 256"
    and "i \<le> length ess" "\<forall>k<i. insert_entry ino ty s (ess ! k) = None"
  shows "\<exists>d'. ok d' \<and> sector d' = sector d \<and>
    insert_in_blocks (s @ rest) (of_nat (length s)) ino ty dv sb dir 0 buf d =
    insert_in_blocks (s @ rest) (of_nat (length s)) ino ty dv sb dir (of_nat i) (if i = 0 then buf else dir_block (ess ! (i - 1))) d'"
  using assms(5,6)
proof (induction i)
  case 0
  then show ?case using assms(1) by auto
next
  case (Suc i)
  then obtain d1 where d1: "ok d1" "sector d1 = sector d"
    "insert_in_blocks (s @ rest) (of_nat (length s)) ino ty dv sb dir 0 buf d =
     insert_in_blocks (s @ rest) (of_nat (length s)) ino ty dv sb dir (of_nat i) (if i = 0 then buf else dir_block (ess ! (i - 1))) d1"
    by auto
  have "i < length ess" "dir_on_disk sb (sector d1) limit dir ess" using Suc.prems assms(3) d1(2) by simp_all
  from insert_block_step[OF d1(1) assms(2) this(2) assms(4) this(1), of rest ino ty "if i = 0 then buf else dir_block (ess ! (i - 1))"]
  show ?case using Suc.prems(2) d1(2,3) by (auto simp del: of_nat_Suc)
qed

lemma blocks_full:
  assumes "ok d" "sb_ok sb" "dir_on_disk sb (sector d) limit dir ess" "length s < 256"
    and "\<forall>k<length ess. insert_entry ino ty s (ess ! k) = None"
  shows "\<exists>d'. ok d' \<and> sector d' = sector d \<and>
    insert_in_blocks (s @ rest) (of_nat (length s)) ino ty dv sb dir 0 buf d =
      Some (Inr (if ess = [] then buf else dir_block (last ess), of_nat (length ess), d'))"
proof -
  obtain d1 where d1: "ok d1" "sector d1 = sector d"
    "insert_in_blocks (s @ rest) (of_nat (length s)) ino ty dv sb dir 0 buf d =
     insert_in_blocks (s @ rest) (of_nat (length s)) ino ty dv sb dir (of_nat (length ess))
       (if length ess = 0 then buf else dir_block (ess ! (length ess - 1))) d1"
    using insert_blocks_skip[OF assms(1-4) order_refl assms(5)] by blast
  have "num_blocks dir = of_nat (length ess)" using assms(3) by (simp add: dir_on_disk_def)
  then show ?thesis
    using d1 by (auto simp: last_conv_nth insert_in_blocks.simps[of _ _ _ _ _ _ _ "of_nat (length ess)"])
qed

lemma insert_into_dir_ok:
  assumes "ok d" "sb_ok sb" "dir_on_disk sb (sector d) limit dir ess" "distinct (take (length ess) (i_blocks dir))"
    and "0 \<notin> set s" "length s < 256" "ino \<noteq> 0" "i < length ess" "\<forall>k<i. insert_entry ino ty s (ess ! k) = None"
    and "insert_entry ino ty s (ess ! i) = Some es'"
  shows "\<exists>d'. ext2_insert_into_dir junk dv sb dir (s @ rest) (of_nat (length s)) ino ty d = Some (Inr d') \<and> ok d' \<and>
    dir_on_disk sb (sector d') limit dir (ess[i := es']) \<and>
    (\<forall>l. l < sectors_per_block sb * unat (i_blocks dir ! i) \<or>
         sectors_per_block sb * unat (i_blocks dir ! i) + sectors_per_block sb \<le> l \<longrightarrow> sector d' l = sector d l)"
proof -
  note dir = assms(3)[unfolded dir_on_disk_def]
  have es: "\<forall>e\<in>set (ess ! i). dirent_ok e" using dir assms(8) by blast
  obtain d1 where d1: "ok d1" "sector d1 = sector d"
    "insert_in_blocks (s @ rest) (of_nat (length s)) ino ty dv sb dir 0 junk d =
     insert_in_blocks (s @ rest) (of_nat (length s)) ino ty dv sb dir (of_nat i) (if i = 0 then junk else dir_block (ess ! (i - 1))) d1"
    using insert_blocks_skip[OF assms(1-3,6) _ assms(9)] assms(8) by (meson less_imp_le)
  have "dir_on_disk sb (sector d1) limit dir ess" using assms(3) d1(2) by simp
  from insert_block_step[OF d1(1) assms(2) this assms(6,8), of rest ino ty "if i = 0 then junk else dir_block (ess ! (i - 1))"] assms(10)
  obtain d2 where d2: "ok d2" "sector d2 = sector d"
    "insert_in_blocks (s @ rest) (of_nat (length s)) ino ty dv sb dir 0 junk d = Some (Inr (dir_block es', of_nat i, d2))"
    using d1(2,3) by auto
  have on: "on_disk sb (i_blocks dir ! i)" using dir assms(8) by (simp add: on_disk_def)
  have len: "length (dir_block es') = unat (ext2_block_size sb)"
    using insert_entry_ok(2)[OF assms(10) es assms(7,5,6)] dir_block_read(2)[OF assms(1-3,8)] by simp
  obtain d3 where d3: "ext2_write_block dv sb (dir_block es') (i_blocks dir ! i) d2 = Inr d3" "ok d3"
    "blk sb d3 (i_blocks dir ! i) = dir_block es'"
    "\<forall>l. l < sectors_per_block sb * unat (i_blocks dir ! i) \<or>
         sectors_per_block sb * unat (i_blocks dir ! i) + sectors_per_block sb \<le> l \<longrightarrow> sector d3 l = sector d2 l"
    using write_block_sector[OF d2(1) assms(2) on len] by blast
  have w: "ext2_write_inode_block dv sb dir (dir_block es') (of_nat i) d2 = Inr d3"
    using dir assms(8) d3(1)
    by (simp add: ext2_write_inode_block_def ext2_compute_absolute_block_def word_le_nat_alt unat_of_nat arr_get_uint)
  have run: "ext2_insert_into_dir junk dv sb dir (s @ rest) (of_nat (length s)) ino ty d = Some (Inr d3)"
  proof -
    have "min (of_nat (length s)) (255 :: u32) = of_nat (length s)"
      using assms(6) by (simp add: min_def word_le_nat_alt unat_of_nat)
    then show ?thesis using dir d2(3) w by (simp add: ext2_insert_into_dir_def)
  qed
  have same: "blk sb d3 b = (if b = i_blocks dir ! i then dir_block es' else blk sb d b)" for b
  proof (cases "b = i_blocks dir ! i")
    case False
    then have "blk sb d3 b = blk sb d2 b" using d3(4) blocks_apart[of "i_blocks dir ! i" b] by (intro blk_cong) auto
    then show ?thesis using False blk_sector[OF d2(2)] by simp
  qed (use d3(3) in simp)
  have "i_blocks dir ! k \<noteq> i_blocks dir ! i" if "k < length ess" "k \<noteq> i" for k
    using assms(4,8) that dir by (auto simp: distinct_conv_nth)
  then have "fs_block (sector d3) (sectors_per_block sb) (unat (i_blocks dir ! k)) = dir_block (ess[i := es'] ! k) \<and>
      (\<forall>e\<in>set (ess[i := es'] ! k). dirent_ok e)" if "k < length ess" for k
    using dir that same[of "i_blocks dir ! k"] insert_entry_ok(1)[OF assms(10) es assms(7,5,6)]
    by (cases "k = i") (simp_all add: blk_def)
  then have "dir_on_disk sb (sector d3) limit dir (ess[i := es'])"
    using dir by (simp add: dir_on_disk_def)
  then show ?thesis using run d3(2,4) d2(2) by auto
qed

end

lemma first_match_other:
  assumes "insert_entry ino ty s es = Some es'" "\<not> (prefix s t \<or> prefix t s)"
  shows "map_option de_ino (first_match t es') = map_option de_ino (first_match t es)"
  using assms(1)
proof (induction es arbitrary: es')
  case (Cons e es)
  then show ?case using assms(2) by (auto simp: first_match_def trimmed_def split: if_splits)
qed simp

lemma first_match_insert_other:
  assumes "i < length ess" "insert_entry ino ty s (ess ! i) = Some es'" "\<not> (prefix s t \<or> prefix t s)"
  shows "map_option de_ino (first_match t (concat (ess[i := es']))) = map_option de_ino (first_match t (concat ess))"
proof -
  have "concat (ess[i := es']) = concat (take i ess) @ es' @ concat (drop (Suc i) ess)"
    using assms(1) by (simp add: upd_conv_take_nth_drop)
  moreover have "concat ess = concat (take i ess) @ ess ! i @ concat (drop (Suc i) ess)"
    using assms(1) by (metis append_take_drop_id Cons_nth_drop_Suc concat.simps(2) concat_append)
  ultimately show ?thesis
    using first_match_other[OF assms(2,3)]
    by (auto simp: first_match_append split: option.splits)
qed

section \<open>A record length of 0\<close>

lemma ls_block_stuck:
  assumes "p < block_size" "word_from buf p = Inr ino" "ino \<noteq> 0" "arr_get buf (int (p + 6)) = Inr nl"
    and "slice buf (p + DIRENT_SIZE) (unat nl) = Inr nm" "half_from buf (p + 4) = Inr 0"
    and "cb ino (nm @ [0]) c d = Some (Inr (True, c, d))"
  shows "ls_block cb buf block_size p c d = None"
proof (rule ccontr)
  assume "ls_block cb buf block_size p c d \<noteq> None"
  then obtain y where y: "ls_block cb buf block_size p c d = Some y" by blast
  have "p < block_size \<longrightarrow> word_from buf p = Inr ino \<longrightarrow> arr_get buf (int (p + 6)) = Inr nl \<longrightarrow>
      slice buf (p + DIRENT_SIZE) (unat nl) = Inr nm \<longrightarrow> half_from buf (p + 4) = Inr 0 \<longrightarrow>
      cb ino (nm @ [0]) c d = Some (Inr (True, c, d)) \<longrightarrow> False"
    by (rule ls_block.raw_induct[where P = "\<lambda>cb buf block_size p c d y. p < block_size \<longrightarrow> word_from buf p = Inr ino \<longrightarrow>
      arr_get buf (int (p + 6)) = Inr nl \<longrightarrow> slice buf (p + DIRENT_SIZE) (unat nl) = Inr nm \<longrightarrow>
      half_from buf (p + 4) = Inr 0 \<longrightarrow> cb ino (nm @ [0]) c d = Some (Inr (True, c, d)) \<longrightarrow> False", OF _ y])
      (use assms(3) in clarsimp)
  then show False using assms by blast
qed

section \<open>Directories on the kernel's disk\<close>

text \<open>
  \<open>ext2_dir_find\<close> returns the inode number of the first entry, block after block, whose name
  is a prefix of the name looked up or has it as a prefix, and 0 when there is none: the
  lengths are not compared, so \<open>"lib"\<close> finds \<open>"lib64"\<close> and \<open>"lib64"\<close> finds \<open>"lib"\<close>.
\<close>

theorem ext2_dir_find_first_match:
  assumes "ata_ok d" and "sb_ok sb" and "dir_on_disk sb (disk (dev d)) (2 ^ 28) dir ess"
    and "0 \<notin> set s" and "unat len = length s"
  shows "\<exists>d'. ext2_dir_find (ata_ops ctl regs) sb dir (s @ 0 # rest) len d =
    Some (Inr (case find (\<lambda>e. prefix (de_name e) s \<or> prefix s (de_name e)) (concat ess) of None \<Rightarrow> 0 | Some e \<Rightarrow> de_ino e, d')) \<and>
    ata_ok d' \<and> disk (dev d') = disk (dev d)"
  using ata_fs.dir_find_ok[OF assms] unfolding first_match_def .

definition tiny_entries :: "dirent list" where
  "tiny_entries = [\<lparr>de_ino = 2, de_type = 2, de_name = [46], de_pad = [0, 0, 0]\<rparr>,
     \<lparr>de_ino = 11, de_type = 2, de_name = [108, 105, 98], de_pad = replicate (1012 - 11) 0\<rparr>]"

definition tiny_dir :: ext2_inode where
  "tiny_dir = (decode_inode (replicate 128 0))\<lparr>i_mode := 0x41ed, num_blocks := 1, i_blocks := 4 # replicate 14 0\<rparr>"

text \<open>The directory's block 4 is the sectors 8 and 9.\<close>

definition block_disk :: "u8 list \<Rightarrow> controller ata" where
  "block_disk bs = blank_disk\<lparr>dev := (dev blank_disk)\<lparr>disk := \<lambda>l.
     if l = 8 then take 256 (words_of bs) else if l = 9 then drop 256 (words_of bs) else replicate 256 0\<rparr>\<rparr>"

definition dir_disk :: "dirent list \<Rightarrow> controller ata" where
  "dir_disk es = block_disk (dir_block es)"

lemma block_disk_ok: "length bs = 1024 \<Longrightarrow> ata_ok (block_disk bs)"
  using blank_disk_ok by (auto simp: ata_ok_def block_disk_def blank_disk_def)

lemma dir_disk_ok: "length (dir_block es) = 1024 \<Longrightarrow> ata_ok (dir_disk es)"
  by (simp add: dir_disk_def block_disk_ok)

lemma block_disk_block: "length bs = 1024 \<Longrightarrow> fs_block (disk (dev (block_disk bs))) 2 4 = bs"
  by (simp add: fs_block_def block_disk_def upt_rec bytes_of_words_of)

lemma is_dir_tiny: "is_dir tiny_dir" "length (i_blocks tiny_dir) = 15" "i_blocks tiny_dir ! 0 = 4" "num_blocks tiny_dir = 1"
  "distinct (take (length [es]) (i_blocks tiny_dir))" "i_blocks tiny_dir ! length [es] = 0"
  by (simp_all add: is_dir_def tiny_dir_def EXT2_F_TYPE_def EXT2_S_IFDIR_def)

lemma dir_disk_on_disk:
  assumes "length (dir_block es) = 1024" "\<forall>e\<in>set es. dirent_ok e"
  shows "dir_on_disk tiny_sb (disk (dev (dir_disk es))) (2 ^ 28) tiny_dir [es]"
  using assms by (simp add: dir_on_disk_def is_dir_tiny tiny_sb_ok dir_disk_def block_disk_block)

lemma tiny_entries_ok: "length (dir_block tiny_entries) = 1024" "\<forall>e\<in>set tiny_entries. dirent_ok e"
  by (simp_all add: tiny_entries_def dirent_ok_def dirent_len_def DIRENT_SIZE_def)

lemmas tiny_disk_dir = dir_disk_ok[OF tiny_entries_ok(1)] tiny_sb_ok(1) dir_disk_on_disk[OF tiny_entries_ok]

theorem ext2_dir_find_first_match_witness:
  "\<exists>d'. ext2_dir_find (ata_ops ctl no_registers) tiny_sb tiny_dir ([108, 105, 98, 54, 52] @ 0 # []) 5 (dir_disk tiny_entries) = Some (Inr (11, d'))"
  using ext2_dir_find_first_match[OF tiny_disk_dir, of "[108, 105, 98, 54, 52]" 5 no_registers "[]"]
  by (auto simp: tiny_entries_def simp del: split_paired_Ex)



context fs_disk begin

lemma inode_at_ok:
  assumes "ok d" "sb_ok sb"
  shows "inode_ok (inode_at sb (sector d) number)"
proof -
  have "length (blk sb d (inode_blk sb (sector d) number)) = 512 * sectors_per_block sb"
    using blk_length[OF assms] sb_sizes(1)[OF assms(2)] by simp
  moreover have "128 * inode_index sb number + 128 \<le> 512 * sectors_per_block sb"
  proof -
    have "inode_index sb number < 4 * sectors_per_block sb"
      using sb_sizes(2)[OF assms(2)] by (simp add: inode_index_def)
    then show ?thesis by linarith
  qed
  ultimately show ?thesis by (simp add: inode_ok_def inode_at_def decode_inode_def blk_def[symmetric] INODE_SIZE_def)
qed

lemma bgd_at_cong:
  "sector d' (bgd_lba sb g) = sector d (bgd_lba sb g) \<Longrightarrow> bgd_at sb (sector d') g = bgd_at sb (sector d) g"
  by (simp add: bgd_at_def)

lemma inode_cong:
  assumes "sector d' (bgd_lba sb (group_of sb m)) = sector d (bgd_lba sb (group_of sb m))"
    and "blk sb d' (inode_blk sb (sector d) m) = blk sb d (inode_blk sb (sector d) m)"
  shows "inode_blk sb (sector d') m = inode_blk sb (sector d) m" and "inode_at sb (sector d') m = inode_at sb (sector d) m"
proof -
  show b: "inode_blk sb (sector d') m = inode_blk sb (sector d) m"
    using bgd_at_cong[OF assms(1)] by (simp add: inode_blk_def)
  show "inode_at sb (sector d') m = inode_at sb (sector d) m"
    using assms(2) by (simp add: inode_at_def b blk_def)
qed

text \<open>A write to block \<open>c\<close> leaves a directory alone that does not have it.\<close>

lemma dir_on_disk_cong:
  assumes "dir_on_disk sb (sector d) limit dir ess" "c \<notin> set (take (length ess) (i_blocks dir))"
    and "\<forall>l. l < sectors_per_block sb * unat c \<or> sectors_per_block sb * unat c + sectors_per_block sb \<le> l \<longrightarrow> sector d' l = sector d l"
  shows "dir_on_disk sb (sector d') limit dir ess"
proof -
  have "blk sb d' (i_blocks dir ! k) = blk sb d (i_blocks dir ! k)" if "k < length ess" for k
  proof -
    have "length ess \<le> length (i_blocks dir)" using assms(1) by (simp add: dir_on_disk_def)
    then have "c \<noteq> i_blocks dir ! k" using assms(2) that by (metis in_set_conv_nth length_take min.absorb2 nth_take)
    then show ?thesis using assms(3) blocks_apart[of c "i_blocks dir ! k"] by (intro blk_cong) auto
  qed
  then show ?thesis using assms(1) by (simp add: dir_on_disk_def blk_def)
qed

lemma hard_link_ok:
  assumes "ok d" "sb_ok sb" "dir_on_disk sb (sector d) limit dir ess" "distinct (take (length ess) (i_blocks dir))"
    and "0 \<notin> set s" "length s < 256" "first_match s (concat ess) = None"
    and "inode_on_disk sb (sector d) limit ino" "inode_blk sb (sector d) ino \<notin> set (take (length ess) (i_blocks dir))"
    and "i < length ess" "\<forall>k<i. insert_entry ino ty s (ess ! k) = None" "insert_entry ino ty s (ess ! i) = Some es'"
    and "EXT2_S_TO_FT (i_mode (inode_at sb (sector d) ino)) = Inr ty"
    and "bgd_lba sb (group_of sb ino) < sectors_per_block sb * unat (i_blocks dir ! i) \<or>
      sectors_per_block sb * unat (i_blocks dir ! i) + sectors_per_block sb \<le> bgd_lba sb (group_of sb ino)"
  shows "\<exists>d'. ext2_hard_link junk dv sb dir (s @ 0 # rest) (of_nat (length s)) ino d = Some (Inr (True, d')) \<and> ok d' \<and>
    dir_on_disk sb (sector d') limit dir (ess[i := es']) \<and> inode_on_disk sb (sector d') limit ino \<and>
    inode_at sb (sector d') ino = (inode_at sb (sector d) ino)\<lparr>links_count := links_count (inode_at sb (sector d) ino) + 1\<rparr>"
proof -
  let ?t = "inode_at sb (sector d) ino"
  let ?t' = "?t\<lparr>links_count := links_count ?t + 1\<rparr>" and ?c = "inode_blk sb (sector d) ino"
  have len: "unat (of_nat (length s) :: u32) = length s" using assms(6) by (simp add: unat_of_nat)
  obtain d1 where d1: "ext2_dir_contains dv sb dir (s @ 0 # rest) (of_nat (length s)) d = Some (Inr (False, d1))" "ok d1" "sector d1 = sector d"
    using dir_contains_ok[OF assms(1-3,5) len, of rest] assms(7) by auto
  obtain d2 where d2: "ext2_find_inode dv sb ino (decode_inode (replicate INODE_SIZE 0)) d1 = Inr (True, ?t, d2)" "ok d2" "sector d2 = sector d"
    using find_inode_ok[OF d1(2) assms(2)] assms(8) d1(3) by metis
  have on: "inode_on_disk sb (sector d2) limit ino" using assms(8) d2(3) by simp
  have t': "inode_ok ?t'" using inode_at_ok[OF assms(1,2)] by (simp add: inode_ok_def)
  obtain d3 where d3: "ext2_set_inode dv sb ino ?t' d2 = Inr (True, d3)" "ok d3"
    "\<forall>l. l < sectors_per_block sb * unat ?c \<or> sectors_per_block sb * unat ?c + sectors_per_block sb \<le> l \<longrightarrow> sector d3 l = sector d l"
    using write_inode_blk_ok[OF d2(2) assms(2) on t'] d2(3) by auto
  have at3: "inode_on_disk sb (sector d3) limit ino" "inode_at sb (sector d3) ino = ?t'"
    using set_inode_ok[OF d2(2) assms(2) on t'] d3(1) by auto
  have dir3: "dir_on_disk sb (sector d3) limit dir ess" by (rule dir_on_disk_cong[OF assms(3,9) d3(3)])
  have ino: "ino \<noteq> 0" using assms(8) by (simp add: inode_on_disk_def)
  obtain d4 where d4: "ext2_insert_into_dir junk dv sb dir (s @ 0 # rest) (of_nat (length s)) ino ty d3 = Some (Inr d4)" "ok d4"
    "dir_on_disk sb (sector d4) limit dir (ess[i := es'])"
    "\<forall>l. l < sectors_per_block sb * unat (i_blocks dir ! i) \<or>
         sectors_per_block sb * unat (i_blocks dir ! i) + sectors_per_block sb \<le> l \<longrightarrow> sector d4 l = sector d3 l"
    using insert_into_dir_ok[OF d3(2) assms(2) dir3 assms(4-6) ino assms(10-12)] by blast
  have "i_blocks dir ! i \<noteq> inode_blk sb (sector d3) ino"
  proof -
    have "sector d3 (bgd_lba sb (group_of sb ino)) = sector d (bgd_lba sb (group_of sb ino))"
      using d3(3) assms(8) by (auto simp: inode_on_disk_def Let_def)
    from bgd_at_cong[OF this] have "inode_blk sb (sector d3) ino = ?c" by (simp add: inode_blk_def)
    moreover have "i_blocks dir ! i \<in> set (take (length ess) (i_blocks dir))"
      using assms(3,10) by (auto simp: dir_on_disk_def in_set_conv_nth intro!: exI[of _ i])
    ultimately show ?thesis using assms(9) by metis
  qed
  then have b: "blk sb d4 (inode_blk sb (sector d3) ino) = blk sb d3 (inode_blk sb (sector d3) ino)"
    using d4(4) blocks_apart[of "i_blocks dir ! i" "inode_blk sb (sector d3) ino"] by (intro blk_cong) auto
  have "sector d4 (bgd_lba sb (group_of sb ino)) = sector d3 (bgd_lba sb (group_of sb ino))"
    using d4(4)[rule_format, OF assms(14)] .
  note same = inode_cong[OF this b]
  have "inode_on_disk sb (sector d4) limit ino" using at3(1) by (simp add: inode_on_disk_def same(1))
  moreover have "ext2_hard_link junk dv sb dir (s @ 0 # rest) (of_nat (length s)) ino d = Some (Inr (True, d4))"
  proof -
    have "is_dir dir" using assms(3) by (simp add: dir_on_disk_def)
    moreover have "EXT2_S_TO_FT (i_mode ?t') = Inr ty" using assms(13) by simp
    ultimately show ?thesis
      unfolding ext2_hard_link_def d1(1) Let_def
      by (simp only: d2(1) d3(1) d4(1) sum.case option.case prod.case bool.case if_True if_False simp_thms res_bind_simps)
  qed
  ultimately show ?thesis using d4(2,3) at3(2) same(2) by auto
qed

text \<open>With no room, the last block read is written where the directory's next block would be.\<close>

lemma insert_full:
  assumes "ok d" "sb_ok sb" "dir_on_disk sb (sector d) limit dir ess" "length s < 256" "length ess < 12" "ess \<noteq> []"
    and "\<forall>k<length ess. insert_entry ino ty s (ess ! k) = None" "on_disk sb (i_blocks dir ! length ess)"
  shows "\<exists>d'. ext2_insert_into_dir junk dv sb dir (s @ rest) (of_nat (length s)) ino ty d = Some (Inr d') \<and> ok d' \<and>
    blk sb d' = (blk sb d)(i_blocks dir ! length ess := dir_block (last ess))"
proof -
  note dir = assms(3)[unfolded dir_on_disk_def]
  obtain d1 where d1: "ok d1" "sector d1 = sector d"
    "insert_in_blocks (s @ rest) (of_nat (length s)) ino ty dv sb dir 0 junk d = Some (Inr (dir_block (last ess), of_nat (length ess), d1))"
    using blocks_full[OF assms(1-4,7), of rest junk] assms(6) by auto
  have "length (dir_block (last ess)) = unat (ext2_block_size sb)"
    using dir_block_read(2)[OF assms(1-3), of "length ess - 1"] assms(6) by (simp add: last_conv_nth)
  then obtain d2 where d2: "ext2_write_block dv sb (dir_block (last ess)) (i_blocks dir ! length ess) d1 = Inr d2" "ok d2"
    "blk sb d2 = (blk sb d1)(i_blocks dir ! length ess := dir_block (last ess))"
    using write_block_ok[OF d1(1) assms(2,8)] by blast
  have "ext2_write_inode_block dv sb dir (dir_block (last ess)) (of_nat (length ess)) d1 = Inr d2"
    using dir assms(5) d2(1)
    by (simp add: ext2_write_inode_block_def ext2_compute_absolute_block_def word_le_nat_alt unat_of_nat arr_get_uint)
  moreover have "min (of_nat (length s)) (255 :: u32) = of_nat (length s)"
    using assms(4) by (simp add: min_def word_le_nat_alt unat_of_nat)
  ultimately have "ext2_insert_into_dir junk dv sb dir (s @ rest) (of_nat (length s)) ino ty d = Some (Inr d2)"
    using dir d1(3) by (simp add: ext2_insert_into_dir_def)
  then show ?thesis using d2(2,3) blk_sector[OF d1(2)] by auto
qed

lemma find_stuck:
  assumes "ok d" "sb_ok sb" "is_dir dir" "num_blocks dir \<noteq> 0" "length (i_blocks dir) = 15" "on_disk sb (i_blocks dir ! 0)"
    and "blk sb d (i_blocks dir ! 0) = le32 ino @ le16 0 @ [of_nat (length nm), ty] @ nm @ rst"
    and "ino \<noteq> 0" "0 \<notin> set nm" "length nm < 256" "0 \<notin> set s" "unat len = length s" "\<not> (prefix nm s \<or> prefix s nm)"
  shows "ext2_dir_find dv sb dir (s @ 0 # rest) len d = None"
proof -
  let ?buf = "le32 ino @ le16 0 @ [of_nat (length nm), ty] @ nm @ rst"
  obtain d1 where d1: "ext2_read_inode_block dv sb dir (of_nat 0) d = Inr (?buf, d1)"
    using read_inode_block_ok[OF assms(1,2,5) _ assms(6)] assms(7) by auto
  have cb: "ext2_dir_find_cb (s @ 0 # rest) len ino (nm @ [0]) 0 d1 = Some (Inr (True, 0, d1))"
  proof -
    have "cb_is (ext2_dir_find_cb (s @ 0 # rest) len :: (u32, 's) dir_cb)
        (\<lambda>ino nm found. if prefix nm s \<or> prefix s nm then (False, ino) else (True, found))"
      by (rule find_cb_is[OF assms(11,12)])
    then show ?thesis using assms(9,13) by (simp add: cb_is_def)
  qed
  have "ls_block (ext2_dir_find_cb (s @ 0 # rest) len) ?buf (unat (ext2_block_size sb)) 0 0 d1 = None"
  proof (rule ls_block_stuck)
    show "0 < unat (ext2_block_size sb)" using sb_sizes(1,2)[OF assms(2)] by simp
    show "word_from ?buf 0 = Inr ino" using word_from_append[of "[]"] by simp
    show "arr_get ?buf (int (0 + 6)) = Inr (of_nat (length nm))"
      using arr_get_append[of "le32 ino @ le16 0" "[of_nat (length nm), ty] @ nm @ rst" 0] by (simp add: arr_get_def)
    show "slice ?buf (0 + DIRENT_SIZE) (unat (of_nat (length nm) :: u8)) = Inr nm"
      using assms(10) by (simp add: slice_def DIRENT_SIZE_def unat_of_nat)
    show "half_from ?buf (0 + 4) = Inr 0" by (subst half_from_in) simp_all
  qed (use assms(8) cb in simp_all)
  then have "ls_blocks (ext2_dir_find_cb (s @ 0 # rest) len) dv sb dir 0 0 d = None"
    using assms(4) d1 by (subst ls_blocks.simps) (simp add: word_gt_0)
  then show ?thesis using assms(3) by (simp add: ext2_dir_find_def ext2_dir_ls_def)
qed

end


lemma dir_disk_inode:
  "inode_on_disk tiny_sb (disk (dev (dir_disk es))) (2 ^ 28) 3" "inode_blk tiny_sb (disk (dev (dir_disk es))) 3 = 0"
  "i_mode (inode_at tiny_sb (disk (dev (dir_disk es))) 3) = 0" "bgd_lba tiny_sb (group_of tiny_sb 3) = 4"
proof -
  have g: "inodes_per_block_group tiny_sb = 8" by (simp add: tiny_sb_def)
  have g0: "group_of tiny_sb 3 = 0" by (simp add: group_of_def g)
  have i: "inode_index tiny_sb 3 = 2" by (simp add: inode_index_def g tiny_sb_ok)
  show l: "bgd_lba tiny_sb (group_of tiny_sb 3) = 4" by (simp add: bgd_lba_def g0 tiny_sb_ok)
  have d: "disk (dev (dir_disk es)) 4 = replicate 256 0" by (simp add: dir_disk_def block_disk_def)
  have "bgd_at tiny_sb (disk (dev (dir_disk es))) 0 = decode_bgd (replicate 32 0)"
    using l by (simp add: bgd_at_def g0 d bytes_of_zeros BGD_SIZE_def)
  moreover have "inode_table_start_block (decode_bgd (replicate 32 0)) = 0"
    by (simp add: decode_bgd_def d32_def join32_def)
  ultimately show b: "inode_blk tiny_sb (disk (dev (dir_disk es))) 3 = 0"
    by (simp add: inode_blk_def tiny_sb_ok g g0 INODE_SIZE_def)
  show "inode_on_disk tiny_sb (disk (dev (dir_disk es))) (2 ^ 28) 3"
    by (simp add: inode_on_disk_def l b tiny_sb_ok)
  show "i_mode (inode_at tiny_sb (disk (dev (dir_disk es))) 3) = 0"
  proof -
    have "fs_block (disk (dev (dir_disk es))) 2 0 = replicate 512 0 @ replicate 512 0"
      by (simp add: fs_block_def dir_disk_def block_disk_def upt_rec bytes_of_append bytes_of_zeros)
    then have "inode_at tiny_sb (disk (dev (dir_disk es))) 3 = decode_inode (replicate 128 0)"
      by (simp add: inode_at_def b tiny_sb_ok i INODE_SIZE_def)
    then show ?thesis by (simp add: decode_inode_def d16_def join16_def)
  qed
qed


text \<open>
  With no room for the name in any block of the directory, \<open>ext2_insert_into_dir\<close> still
  writes: a copy of the last directory block goes to the block whose number comes after the
  directory's own in its list. For a list that is filled up with zeros that is block 0, the
  start of the disk.
\<close>

theorem ext2_insert_full_overwrites:
  assumes "ata_ok d" and "sb_ok sb" and "dir_on_disk sb (disk (dev d)) (2 ^ 28) dir ess" and "length s < 256"
    and "length ess < 12" and "ess \<noteq> []" and "\<forall>k<length ess. insert_entry ino ty s (ess ! k) = None"
    and "i_blocks dir ! length ess = 0"
  shows "\<exists>d'. ext2_insert_into_dir junk (ata_ops ctl regs) sb dir (s @ rest) (of_nat (length s)) ino ty d = Some (Inr d') \<and>
    fs_block (disk (dev d')) (sectors_per_block sb) 0 = dir_block (last ess) \<and>
    (\<forall>b. b \<noteq> 0 \<longrightarrow> fs_block (disk (dev d')) (sectors_per_block sb) (unat (b :: u32)) = fs_block (disk (dev d)) (sectors_per_block sb) (unat b))"
proof -
  have "ata_fs.on_disk sb (i_blocks dir ! length ess)"
    unfolding ata_fs.on_disk_def assms(8) using sb_sizes(3)[OF assms(2)] by simp
  then obtain d' where d': "ext2_insert_into_dir junk (ata_ops ctl regs) sb dir (s @ rest) (of_nat (length s)) ino ty d = Some (Inr d')"
    "ata_fs.blk sb d' = (ata_fs.blk sb d)(i_blocks dir ! length ess := dir_block (last ess))"
    using ata_fs.insert_full[OF assms(1-7)] by blast
  have "ata_fs.blk sb d' b = (if b = 0 then dir_block (last ess) else ata_fs.blk sb d b)" for b
    using d'(2) assms(8) by simp
  from this[unfolded ata_fs.blk_def] have b: "fs_block (disk (dev d')) (sectors_per_block sb) (unat b) =
    (if b = 0 then dir_block (last ess) else fs_block (disk (dev d)) (sectors_per_block sb) (unat b))" for b :: u32 .
  show ?thesis using d'(1) b[of 0] b by auto
qed

lemma replicate_4: "replicate 4 x = [x, x, x, x]"
  by (simp add: numeral_eq_Suc)

definition full_entries :: "dirent list" where
  "full_entries = replicate 4 \<lparr>de_ino = 2, de_type = 2, de_name = replicate 248 97, de_pad = []\<rparr>"

theorem ext2_insert_full_overwrites_witness:
  "\<exists>d'. ext2_insert_into_dir [] (ata_ops ctl no_registers) tiny_sb tiny_dir ([101] @ [0]) 1 12 2 (dir_disk full_entries) = Some (Inr d') \<and>
    fs_block (disk (dev d')) 2 0 = dir_block full_entries"
proof -
  have e: "length (dir_block full_entries) = 1024" "\<forall>e\<in>set full_entries. dirent_ok e"
    by (simp_all add: full_entries_def dirent_ok_def dirent_len_def DIRENT_SIZE_def replicate_4)
  have "insert_entry 12 2 [101] full_entries = None"
    by (simp add: full_entries_def room_def min_len_def dirent_len_def DIRENT_SIZE_def replicate_4)
  then show ?thesis
    using ext2_insert_full_overwrites[OF dir_disk_ok[OF e(1)] tiny_sb_ok(1) dir_disk_on_disk[OF e], of "[101]" 12 2 "[]" no_registers "[0]"]
    by (simp add: is_dir_tiny(6)[simplified] tiny_sb_ok del: split_paired_Ex) blast
qed

text \<open>
  An entry whose record length is 0 and whose name is not the one looked for: the lookup stays
  at it and never returns.
\<close>

theorem ext2_dir_find_never_returns:
  assumes "ata_ok d" and "sb_ok sb" and "is_dir dir" and "num_blocks dir \<noteq> 0" and "length (i_blocks dir) = 15"
    and "sectors_per_block sb * unat (i_blocks dir ! 0) + sectors_per_block sb \<le> 2 ^ 28"
    and "fs_block (disk (dev d)) (sectors_per_block sb) (unat (i_blocks dir ! 0)) = le32 ino @ le16 0 @ [of_nat (length nm), ty] @ nm @ rst"
    and "ino \<noteq> 0" and "0 \<notin> set nm" and "length nm < 256" and "0 \<notin> set s" and "unat len = length s" and "\<not> (prefix nm s \<or> prefix s nm)"
  shows "ext2_dir_find (ata_ops ctl regs) sb dir (s @ 0 # rest) len d = None"
proof -
  have "ata_fs.on_disk sb (i_blocks dir ! 0)" using assms(6) by (simp only: ata_fs.on_disk_def)
  from ata_fs.find_stuck[OF assms(1-5) this assms(7)[folded ata_fs.blk_def] assms(8-13)] show ?thesis .
qed

definition stuck_block :: "u8 list" where
  "stuck_block = le32 5 @ le16 0 @ [of_nat (length [98 :: u8]), 1] @ [98] @ replicate 1015 0"

theorem ext2_dir_find_never_returns_witness:
  "ext2_dir_find (ata_ops ctl no_registers) tiny_sb tiny_dir ([97] @ 0 # []) 1 (block_disk stuck_block) = None"
proof -
  have l: "length stuck_block = 1024" by (simp add: stuck_block_def)
  show ?thesis
    using ext2_dir_find_never_returns[OF block_disk_ok[OF l] tiny_sb_ok(1) is_dir_tiny(1) _ is_dir_tiny(2), of 5 "[98]" 1
        "replicate 1015 0" "[97]" 1 no_registers "[]"] block_disk_block[OF l]
    by (simp add: is_dir_tiny tiny_sb_ok stuck_block_def)
qed

end
