(* ===== verification/Ext2_Vfs.thy ===== *)
theory Ext2_Vfs
  imports Ext2_Dir Vfs
begin

text \<open>
  The ext2 file system as nodes of the virtual file system
  (\<^verbatim>\<open>src/kernel/dri/fs/ext2/ext2_vfs.c\<close> and \<open>ext2_mount\<close> of \<^verbatim>\<open>ext2.c\<close>). The objects that the
  code allocates are numbered in the order of their allocation; what \<open>malloc\<close> leaves in an
  object is an argument, because the code does not set all of its fields.
\<close>

section \<open>State\<close>

text \<open>The disk and the semaphores are the kernel's, with a state of type \<open>'d\<close>.\<close>

record 'd kernel_ops =
  k_disk :: "'d disk_ops"
  k_sm_new :: "'d \<Rightarrow> (int \<times> 'd) res"
  k_sm_wait :: "int \<Rightarrow> 'd \<Rightarrow> 'd res"
  k_sm_signal :: "int \<Rightarrow> 'd \<Rightarrow> 'd res"

text \<open>The pointer \<open>in\<close>: null, to an object that was freed, or to the cached inode.\<close>

datatype cached = NullIn | FreedIn | Cached ext2_inode

record ext2_fs_data =
  fd_sb :: ext2_superblock
  fd_in :: cached
  fd_rc :: u32
  fd_lock :: int
  fd_dirent :: "nat option"

record ext2_fs_dirent =
  fe_node :: "node_ptr option"
  fe_name :: "u8 list"
  fe_name_len :: u32
  fe_inode :: u32
  fe_next :: "nat option"

record 'd ext2_fs = vfs +
  num_nodes :: nat
  fs_datas :: "ext2_fs_data list"
  fs_dents :: "ext2_fs_dirent list"
  kern :: 'd

record malloc_junk =
  junk_node :: fs_node
  junk_dirent :: ext2_fs_dirent

text \<open>The disk operations on the whole state.\<close>

definition fs_ops :: "'d kernel_ops \<Rightarrow> 'd ext2_fs disk_ops" where
  "fs_ops k = \<lparr>d_read = (\<lambda>lba n s. res_bind (d_read (k_disk k) lba n (kern s)) (\<lambda>(ws, d). Inr (ws, s\<lparr>kern := d\<rparr>))),
     d_write = (\<lambda>lba n ws s. res_bind (d_write (k_disk k) lba n ws (kern s)) (\<lambda>d. Inr (s\<lparr>kern := d\<rparr>)))\<rparr>"

text \<open>\<open>node->dri_res_p\<close>.\<close>

definition fs_data_of :: "'d ext2_fs \<Rightarrow> fs_node \<Rightarrow> ext2_fs_data res" where
  "fs_data_of s n = arr_get (fs_datas s) (uint (dri_res_i n))"

definition put_fs_data :: "'d ext2_fs \<Rightarrow> fs_node \<Rightarrow> ext2_fs_data \<Rightarrow> 'd ext2_fs" where
  "put_fs_data s n fd = s\<lparr>fs_datas := (fs_datas s)[unat (dri_res_i n) := fd]\<rparr>"

definition cached_inode :: "ext2_fs_data \<Rightarrow> ext2_inode res" where
  "cached_inode fd = (case fd_in fd of NullIn \<Rightarrow> Inl NullDeref | FreedIn \<Rightarrow> Inl OutOfBounds | Cached i \<Rightarrow> Inr i)"

section \<open>Files\<close>

text \<open>\<open>p\<close> is how far \<open>buffer\<close> has moved; the size is not compared with that of the file.\<close>

function file_read_loop ::
    "'s disk_ops \<Rightarrow> ext2_superblock \<Rightarrow> ext2_inode \<Rightarrow> u8 list \<Rightarrow> nat \<Rightarrow> u32 \<Rightarrow> u32 \<Rightarrow> u32 \<Rightarrow> u32 \<Rightarrow> 's \<Rightarrow> (u32 \<times> u8 list \<times> 's) res" where
  "file_read_loop dv sb i buffer p sz block_start block_offset num_read d =
     (let to_read = min (ext2_block_size sb - block_offset) sz in
      res_bind (ext2_read_inode_block dv sb i block_start d) (\<lambda>(tmp, d1).
      res_bind (slice tmp (unat block_offset) (unat to_read)) (\<lambda>part.
      res_bind (splice buffer p part) (\<lambda>buf.
      if 0 < sint to_read then
        file_read_loop dv sb i buf (p + unat to_read) (sz - to_read) (block_start + 1) 0 (num_read + to_read) d1
      else Inr (num_read + to_read, buf, d1)))))"
  by pat_completeness auto
termination
proof (relation "measure (\<lambda>(dv, sb, i, buffer, p, sz, block_start, block_offset, num_read, d). unat sz)", goal_cases)
  case (2 dv sb i buffer p sz block_start block_offset num_read d to_read)
  have le: "to_read \<le> sz" by (simp add: 2(1))
  have "to_read \<noteq> 0" using 2 by auto
  then have "0 < unat to_read" by (simp add: unat_gt_0)
  moreover have "unat to_read \<le> unat sz" using le by (simp add: word_le_nat_alt)
  ultimately show ?case using le by (simp add: unat_sub)
qed simp

declare file_read_loop.simps [simp del]

definition ext2_file_read :: "'d kernel_ops \<Rightarrow> 'd ext2_fs \<Rightarrow> node_ptr \<Rightarrow> u32 \<Rightarrow> u32 \<Rightarrow> u8 list option \<Rightarrow> (u32 \<times> u8 list \<times> 'd ext2_fs) res" where
  "ext2_file_read k s p ofs sz buffer =
     res_bind (deref s p) (\<lambda>node.
     res_bind (fs_data_of s node) (\<lambda>fd.
     let block_size = ext2_block_size (fd_sb fd) in
     case buffer of
       None \<Rightarrow> Inr (0, [], s)
     | Some buf \<Rightarrow>
         if block_size = 0 then Inl DivByZero
         else
           res_bind (cached_inode fd) (\<lambda>i.
           file_read_loop (fs_ops k) (fd_sb fd) i buf 0 sz (ofs div block_size) (ofs mod block_size) 0 s)))"

definition ext2_file_open :: "'d kernel_ops \<Rightarrow> 'd ext2_fs \<Rightarrow> node_ptr \<Rightarrow> 'd ext2_fs res" where
  "ext2_file_open k s p =
     res_bind (deref s p) (\<lambda>node.
     res_bind (fs_data_of s node) (\<lambda>fd.
     res_bind (k_sm_wait k (fd_lock fd) (kern s)) (\<lambda>d1.
     let fd1 = fd\<lparr>fd_rc := fd_rc fd + 1\<rparr>; s1 = s\<lparr>kern := d1\<rparr> in
     res_bind
       (if fd_rc fd = 0 then
          res_bind (ext2_find_inode (fs_ops k) (fd_sb fd) (inode node) (decode_inode (replicate INODE_SIZE 0)) s1) (\<lambda>(found, i, s2).
          Inr (put_fs_data s2 node (fd1\<lparr>fd_in := if found then Cached i else FreedIn\<rparr>)))
        else Inr (put_fs_data s1 node fd1)) (\<lambda>s3.
     res_bind (k_sm_signal k (fd_lock fd) (kern s3)) (\<lambda>d4. Inr (s3\<lparr>kern := d4\<rparr>))))))"

text \<open>Freeing what is not allocated is an access outside of every object.\<close>

definition ext2_file_close :: "'d kernel_ops \<Rightarrow> 'd ext2_fs \<Rightarrow> node_ptr \<Rightarrow> 'd ext2_fs res" where
  "ext2_file_close k s p =
     res_bind (deref s p) (\<lambda>node.
     res_bind (fs_data_of s node) (\<lambda>fd.
     res_bind (k_sm_wait k (fd_lock fd) (kern s)) (\<lambda>d1.
     let fd1 = fd\<lparr>fd_rc := fd_rc fd - 1\<rparr> in
     res_bind (if fd_rc fd1 = 0 then res_bind (cached_inode fd) (\<lambda>_. Inr (fd1\<lparr>fd_in := NullIn\<rparr>)) else Inr fd1) (\<lambda>fd2.
     res_bind (k_sm_signal k (fd_lock fd) d1) (\<lambda>d2. Inr (put_fs_data (s\<lparr>kern := d2\<rparr>) node fd2))))))"

definition ext2_file_vfs_vt :: "'d kernel_ops \<Rightarrow> 'd ext2_fs fs_vtable" where
  "ext2_file_vfs_vt k = \<lparr>v_read = Some (\<lambda>s p ofs sz buf. ext2_file_read k s p ofs sz (Some buf)), v_write = None,
     v_open = Some (ext2_file_open k), v_close = Some (ext2_file_close k), v_readdir = None, v_finddir = None\<rparr>"

section \<open>Directories\<close>

text \<open>The \<open>n\<close>-th entry from \<open>dent\<close> on.\<close>

fun skip_dents :: "'d ext2_fs \<Rightarrow> nat \<Rightarrow> nat option \<Rightarrow> nat option res" where
  "skip_dents s 0 dent = Inr dent"
| "skip_dents s (Suc n) None = Inr None"
| "skip_dents s (Suc n) (Some e) = res_bind (arr_get (fs_dents s) (int e)) (\<lambda>x. skip_dents s n (fe_next x))"

definition ext2_dir_readdir :: "'d ext2_fs \<Rightarrow> node_ptr \<Rightarrow> u32 \<Rightarrow> fs_dirent \<Rightarrow> (bool \<times> fs_dirent) res" where
  "ext2_dir_readdir s p index out =
     res_bind (deref s p) (\<lambda>node.
     res_bind (fs_data_of s node) (\<lambda>fd.
     res_bind (skip_dents s (unat index) (fd_dirent fd)) (\<lambda>dent.
     case dent of
       None \<Rightarrow> Inr (False, out)
     | Some e \<Rightarrow>
         res_bind (arr_get (fs_dents s) (int e)) (\<lambda>x.
         res_bind (memcpy (d_name out) (fe_name x) (max (unat (fe_name_len x)) FS_MAX_NAME_LEN)) (\<lambda>nm.
         Inr (True, out\<lparr>d_name := nm, d_name_len := fe_name_len x, d_inode := fe_inode x\<rparr>))))))"

partial_function (option) find_dent :: "'d ext2_fs \<Rightarrow> u8 list \<Rightarrow> nat \<Rightarrow> nat option \<Rightarrow> node_ptr option res option" where
  "find_dent s nm nl dent =
     (case dent of
        None \<Rightarrow> Some (Inr None)
      | Some e \<Rightarrow>
          (case res_bind (arr_get (fs_dents s) (int e)) (\<lambda>x. res_bind (strncmp (fe_name x) nm nl) (\<lambda>r. Inr (r, x))) of
             Inl f \<Rightarrow> Some (Inl f)
           | Inr (r, x) \<Rightarrow> if r = 0 then Some (Inr (fe_node x)) else find_dent s nm nl (fe_next x)))"

definition ext2_dir_finddir :: "'d ext2_fs \<Rightarrow> node_ptr \<Rightarrow> u8 list \<Rightarrow> u32 \<Rightarrow> (node_ptr option \<times> 'd ext2_fs) res" where
  "ext2_dir_finddir s p nm nl =
     res_bind (deref s p) (\<lambda>node.
     res_bind (fs_data_of s node) (\<lambda>fd.
     res_bind (returns (find_dent s nm (min (unat nl) 256) (fd_dirent fd))) (\<lambda>r. Inr (r, s))))"

definition ext2_dir_vfs_vt :: "'d ext2_fs fs_vtable" where
  "ext2_dir_vfs_vt = \<lparr>v_read = None, v_write = None, v_open = None, v_close = None,
     v_readdir = Some ext2_dir_readdir, v_finddir = Some ext2_dir_finddir\<rparr>"

section \<open>From inodes to nodes\<close>

text \<open>
  The callback of the listing: \<open>load\<close> makes the node of an inode, \<open>parent\<close> is the number of the
  directory's data and \<open>lst\<close> that of the entry linked last.
\<close>

definition link_dent :: "nat option \<Rightarrow> nat \<Rightarrow> nat \<Rightarrow> 'd ext2_fs \<Rightarrow> 'd ext2_fs" where
  "link_dent lst parent e s =
     (case lst of
        Some l \<Rightarrow> s\<lparr>fs_dents := (fs_dents s)[l := (fs_dents s ! l)\<lparr>fe_next := Some e\<rparr>]\<rparr>
      | None \<Rightarrow> s\<lparr>fs_datas := (fs_datas s)[parent := (fs_datas s ! parent)\<lparr>fd_dirent := Some e\<rparr>]\<rparr>)"

definition ext2_dirent_to_fs_node_cb ::
    "malloc_junk \<Rightarrow> (u32 \<Rightarrow> u8 list \<Rightarrow> u32 \<Rightarrow> 'd ext2_fs \<Rightarrow> (node_ptr option \<times> 'd ext2_fs) res option) \<Rightarrow> nat \<Rightarrow> (nat option, 'd ext2_fs) dir_cb" where
  "ext2_dirent_to_fs_node_cb junk load parent ino nm lst s =
     (let name_len = length nm - 1; e = length (fs_dents s); s1 = s\<lparr>fs_dents := fs_dents s @ [junk_dirent junk]\<rparr> in
      case res_bind (strncmp [46, 0] nm name_len) (\<lambda>r. if r = 0 then Inr 0 else strncmp [46, 46, 0] nm name_len) of
        Inl f \<Rightarrow> Some (Inl f)
      | Inr r \<Rightarrow>
          if r = 0 then Some (Inr (True, lst, s1))
          else
            (case load ino nm (of_nat name_len) s1 of
               None \<Rightarrow> None
             | Some (Inl f) \<Rightarrow> Some (Inl f)
             | Some (Inr (n, s2)) \<Rightarrow>
                 Some
                   (res_bind (memcpy (fe_name (junk_dirent junk)) nm (min name_len 256)) (\<lambda>enm.
                    let s3 = s2\<lparr>fs_dents := (fs_dents s2)[e := (junk_dirent junk)\<lparr>fe_node := n,
                          fe_name_len := of_nat name_len, fe_name := enm, fe_inode := ino\<rparr>]\<rparr> in
                    Inr (True, Some e, link_dent lst parent e s3)))))"

text \<open>
  A directory is read with all the directories below it; the first argument bounds the depth,
  \<open>None\<close> is a tree that is deeper.
\<close>

fun ext2_inode2vfs ::
    "nat \<Rightarrow> 'd kernel_ops \<Rightarrow> malloc_junk \<Rightarrow> ext2_superblock \<Rightarrow> u32 \<Rightarrow> u8 list \<Rightarrow> u32 \<Rightarrow> 'd ext2_fs \<Rightarrow> (node_ptr option \<times> 'd ext2_fs) res option" where
  "ext2_inode2vfs 0 k junk sb ino nm nl s = None"
| "ext2_inode2vfs (Suc depth) k junk sb ino nm nl s =
     (case ext2_find_inode (fs_ops k) sb ino (decode_inode (replicate INODE_SIZE 0)) s of
        Inl f \<Rightarrow> Some (Inl f)
      | Inr (False, i, s1) \<Rightarrow> Some (Inr (None, s1))
      | Inr (True, i, s1) \<Rightarrow>
          (case res_bind (k_sm_new k (kern s1)) (\<lambda>(l, d).
                res_bind (memcpy (name (junk_node junk)) nm (min (unat nl) FS_MAX_NAME_LEN)) (\<lambda>m. Inr (l, d, m))) of
             Inl f \<Rightarrow> Some (Inl f)
           | Inr (l, d, m) \<Rightarrow>
               let parent = length (fs_datas s1); p = HeapNode (num_nodes s1);
                   n = (junk_node junk)\<lparr>name_len := min nl (of_nat FS_MAX_NAME_LEN), name := m, inode := ino,
                         dri_res_i := of_nat parent, perm_mask := ucast (i_mode i AND 0xfff), gid := ucast (i_gid i),
                         uid := ucast (i_uid i), fsize := i_size i\<rparr>;
                   s2 = s1\<lparr>kern := d, num_nodes := num_nodes s1 + 1,
                         fs_datas := fs_datas s1 @ [\<lparr>fd_sb = sb, fd_in = NullIn, fd_rc = 0, fd_lock = l, fd_dirent = None\<rparr>]\<rparr> in
               if i_mode i AND EXT2_F_TYPE = EXT2_S_IFREG then
                 Some (Inr (Some p, set_node s2 p (n\<lparr>flags := FS_FILE, vtable := Some Ext2FileVtable\<rparr>)))
               else if i_mode i AND EXT2_F_TYPE = EXT2_S_IFDIR then
                 (case ext2_dir_ls (fs_ops k) sb i
                       (ext2_dirent_to_fs_node_cb junk (ext2_inode2vfs depth k junk sb) parent) None
                       (set_node s2 p (n\<lparr>flags := FS_DIRECTORY, vtable := Some Ext2DirVtable\<rparr>)) of
                    None \<Rightarrow> None
                  | Some (Inl f) \<Rightarrow> Some (Inl f)
                  | Some (Inr (_, _, s3)) \<Rightarrow> Some (Inr (Some p, s3)))
               else Some (res_bind (EXT2_S_TO_FT (i_mode i)) (\<lambda>_. Inl (Panic ''Unimplemented'')))))"

definition ext2_mount :: "nat \<Rightarrow> 'd kernel_ops \<Rightarrow> malloc_junk \<Rightarrow> node_ptr \<Rightarrow> 'd ext2_fs \<Rightarrow> (u32 \<times> 'd ext2_fs) res option" where
  "ext2_mount depth k junk whr s =
     (case ext2_read_superblock (fs_ops k) s of
        Inl f \<Rightarrow> Some (Inl f)
      | Inr (sb, s1) \<Rightarrow>
          (case ext2_inode2vfs depth k junk sb 2 [47, 0] 1 s1 of
             None \<Rightarrow> None
           | Some (Inl f) \<Rightarrow> Some (Inl f)
           | Some (Inr (None, s2)) \<Rightarrow> Some (Inl NullDeref)
           | Some (Inr (Some p, s2)) \<Rightarrow> Some (fs_mount s2 whr p)))"

definition ext2_drivers :: "'d kernel_ops \<Rightarrow> 'd ext2_fs drivers" where
  "ext2_drivers k v = (case v of Ext2FileVtable \<Rightarrow> ext2_file_vfs_vt k | Ext2DirVtable \<Rightarrow> ext2_dir_vfs_vt | _ \<Rightarrow> empty_vtable)"

section \<open>Reading a file\<close>

context fs_disk begin

lemma file_blocks_at:
  assumes "ok d" "sb_ok sb" "b < k" "x + n \<le> unat (ext2_block_size sb)"
  shows "take n (drop x (blk sb d (i_blocks i ! b))) = take n (drop (b * unat (ext2_block_size sb) + x) (file_blocks sb d i 0 k))"
proof -
  let ?bs = "unat (ext2_block_size sb)"
  have split: "file_blocks sb d i 0 k = file_blocks sb d i 0 b @ blk sb d (i_blocks i ! b) @ file_blocks sb d i (Suc b) k"
    using file_blocks_split[of 0 b k] file_blocks_Cons[of b k] assms(3) by simp
  have len: "length (file_blocks sb d i 0 b) = b * ?bs" "length (blk sb d (i_blocks i ! b)) = ?bs"
    using file_blocks_length[OF assms(1,2)] blk_length[OF assms(1,2)] by simp_all
  have "drop (b * ?bs + x) (file_blocks sb d i 0 k) = drop x (blk sb d (i_blocks i ! b)) @ file_blocks sb d i (Suc b) k"
    using assms(4) len unfolding split by simp
  then show ?thesis using assms(4) len by simp
qed

lemma read_loop_round:
  assumes "ok d" "sb_ok sb" "blocks_on_disk sb i k" "unat off < unat (ext2_block_size sb)" "b < k" "p + unat sz \<le> length buf"
    and n: "n = min (ext2_block_size sb - off) sz"
  shows "\<exists>d' part. part = take (unat n) (drop (b * unat (ext2_block_size sb) + unat off) (file_blocks sb d i 0 k)) \<and>
    length part = unat n \<and> ok d' \<and> sector d' = sector d \<and>
    file_read_loop dv sb i buf p sz (of_nat b) off nr d =
      (if 0 < unat n then file_read_loop dv sb i (take p buf @ part @ drop (p + unat n) buf) (p + unat n) (sz - n) (of_nat (b + 1)) 0 (nr + n) d'
       else Inr (nr + n, take p buf @ part @ drop (p + unat n) buf, d'))"
proof -
  let ?bs = "unat (ext2_block_size sb)"
  have bs: "?bs = 512 * sectors_per_block sb" "2 \<le> sectors_per_block sb" "sectors_per_block sb \<le> 128"
    using sb_sizes[OF assms(2)] by simp_all
  have i: "length (i_blocks i) = 15" "b < 12" "on_disk sb (i_blocks i ! b)"
    using assms(3,5) by (auto simp: blocks_on_disk_def)
  have un: "unat n = min (?bs - unat off) (unat sz)"
    using assms(4) by (simp add: n min_def word_le_nat_alt unat_sub)
  have "unat n \<le> 65536" using un bs by linarith
  then have "sint n = int (unat n)" by (intro sint_eq_unat) simp
  then have sn: "0 < sint n \<longleftrightarrow> 0 < unat n" by (simp only: of_nat_0_less_iff)
  obtain d1 where d1: "ext2_read_inode_block dv sb i (of_nat b) d = Inr (blk sb d (i_blocks i ! b), d1)" "ok d1" "sector d1 = sector d"
    using read_inode_block_ok[OF assms(1,2) i] by blast
  have len: "length (blk sb d (i_blocks i ! b)) = ?bs" by (rule blk_length[OF assms(1,2)])
  have fit: "unat off + unat n \<le> ?bs" using un assms(4) by linarith
  let ?part = "take (unat n) (drop (b * ?bs + unat off) (file_blocks sb d i 0 k))"
  have eq: "take (unat n) (drop (unat off) (blk sb d (i_blocks i ! b))) = ?part"
    by (rule file_blocks_at[OF assms(1,2,5) fit])
  have part: "slice (blk sb d (i_blocks i ! b)) (unat off) (unat n) = Inr ?part" using fit len eq by (simp add: slice_def)
  have "length (take (unat n) (drop (unat off) (blk sb d (i_blocks i ! b)))) = unat n" using fit len by simp
  then have plen: "length ?part = unat n" by (simp only: eq)
  have "p + length ?part \<le> length buf" unfolding plen using assms(6) un by linarith
  from splice_Inr[OF this] have "splice buf p ?part = Inr (take p buf @ ?part @ drop (p + unat n) buf)"
    by (simp only: plen)
  then have "file_read_loop dv sb i buf p sz (of_nat b) off nr d =
      (if 0 < unat n then file_read_loop dv sb i (take p buf @ ?part @ drop (p + unat n) buf) (p + unat n) (sz - n) (of_nat (b + 1)) 0 (nr + n) d1
       else Inr (nr + n, take p buf @ ?part @ drop (p + unat n) buf, d1))"
    by (subst file_read_loop.simps) (simp add: n[symmetric] d1(1) part sn add.commute Let_def)
  then show ?thesis using d1(2,3) plen by blast
qed

lemma file_read_loop_ok:
  assumes "ok d" "sb_ok sb" "blocks_on_disk sb i k" "unat off < unat (ext2_block_size sb)" "b < k"
    and "b * unat (ext2_block_size sb) + unat off + unat sz \<le> (k - 1) * unat (ext2_block_size sb)" "p + unat sz \<le> length buf"
  shows "\<exists>d'. file_read_loop dv sb i buf p sz (of_nat b) off nr d = Inr (nr + sz,
      take p buf @ take (unat sz) (drop (b * unat (ext2_block_size sb) + unat off) (file_blocks sb d i 0 k)) @ drop (p + unat sz) buf, d') \<and>
    ok d' \<and> sector d' = sector d"
  using assms(1,4-)
proof (induction "unat sz" arbitrary: sz b off p buf nr d rule: less_induct)
  case less
  let ?bs = "unat (ext2_block_size sb)" and ?c = "file_blocks sb d i 0 k"
  define n where "n = min (ext2_block_size sb - off) sz"
  obtain d1 part where r: "part = take (unat n) (drop (b * ?bs + unat off) ?c)" "length part = unat n" "ok d1" "sector d1 = sector d"
    "file_read_loop dv sb i buf p sz (of_nat b) off nr d =
      (if 0 < unat n then file_read_loop dv sb i (take p buf @ part @ drop (p + unat n) buf) (p + unat n) (sz - n) (of_nat (b + 1)) 0 (nr + n) d1
       else Inr (nr + n, take p buf @ part @ drop (p + unat n) buf, d1))"
    using read_loop_round[OF less.prems(1) assms(2,3) less.prems(2,3,5) n_def] by blast
  have un: "unat n = min (?bs - unat off) (unat sz)"
    using less.prems(2) by (simp add: n_def min_def word_le_nat_alt unat_sub)
  show ?case
  proof (cases "unat n = 0")
    case True
    then have "unat sz = 0" using un less.prems(2) by linarith
    then have "sz = 0" "n = 0" using True by (simp_all add: unat_eq_zero)
    then show ?thesis using r True by auto
  next
    case False
    let ?buf = "take p buf @ part @ drop (p + unat n) buf"
    have usz: "unat (sz - n) = unat sz - unat n" using un by (simp add: unat_sub word_le_nat_alt)
    have "b * ?bs + 0 < (k - 1) * ?bs" using False un less.prems(4) by linarith
    then have bk: "b + 1 < k" by auto
    then have k1: "(b + 1) * ?bs \<le> (k - 1) * ?bs" by (intro mult_le_mono1) simp
    have pos: "(b + 1) * ?bs + unat (0 :: u32) + unat (sz - n) \<le> (k - 1) * ?bs"
    proof (cases "unat sz \<le> ?bs - unat off")
      case True
      then show ?thesis using usz un k1 by simp
    next
      case False
      then show ?thesis using usz un less.prems(2,4) by (simp add: algebra_simps)
    qed
    have pl: "p \<le> length buf" "unat n \<le> unat sz" using less.prems(5) un by simp_all
    have plen: "length ?buf = length buf" "p + unat n + unat (sz - n) \<le> length ?buf"
      using less.prems(5) r(2) usz pl by simp_all
    have "\<exists>d'. file_read_loop dv sb i ?buf (p + unat n) (sz - n) (of_nat (b + 1)) 0 (nr + n) d1 = Inr (nr + n + (sz - n),
        take (p + unat n) ?buf @ take (unat (sz - n)) (drop ((b + 1) * ?bs + unat (0 :: u32)) (file_blocks sb d1 i 0 k)) @
        drop (p + unat n + unat (sz - n)) ?buf, d') \<and> ok d' \<and> sector d' = sector d1"
      using usz False pl(2) less.prems(2) by (intro less.hyps r(3) bk pos plen(2)) auto
    then obtain d' where d': "file_read_loop dv sb i ?buf (p + unat n) (sz - n) (of_nat (b + 1)) 0 (nr + n) d1 = Inr (nr + sz,
        take (p + unat n) ?buf @ take (unat sz - unat n) (drop ((b + 1) * ?bs) ?c) @ drop (p + unat sz) ?buf, d')"
      "ok d'" "sector d' = sector d"
      using usz pl(2) r(4) blk_sector[OF r(4)] by (auto simp: file_blocks_def)
    have "take (unat sz) (drop (b * ?bs + unat off) ?c) = part @ take (unat sz - unat n) (drop ((b + 1) * ?bs) ?c)"
    proof (cases "unat sz \<le> ?bs - unat off")
      case True
      then show ?thesis using un r(1) by simp
    next
      case False
      then have e: "unat n + (b * ?bs + unat off) = (b + 1) * ?bs" using un less.prems(2) by simp
      have "take (unat n + (unat sz - unat n)) (drop (b * ?bs + unat off) ?c) =
          part @ take (unat sz - unat n) (drop (unat n) (drop (b * ?bs + unat off) ?c))"
        unfolding r(1) by (rule take_add)
      then show ?thesis by (simp only: drop_drop e le_add_diff_inverse[OF pl(2)])
    qed
    moreover have "take (p + unat n) ?buf = take p buf @ part" "drop (p + unat sz) ?buf = drop (p + unat sz) buf"
      using pl r(2) by (simp_all add: add.commute)
    ultimately show ?thesis using d' r(5) False by simp
  qed
qed

text \<open>A read that reaches into the twelfth block goes on to ask for the next one.\<close>

lemma file_read_loop_panic:
  assumes "ok d" "sb_ok sb" "blocks_on_disk sb i 12" "unat off < unat (ext2_block_size sb)" "b < 12"
    and "11 * unat (ext2_block_size sb) < b * unat (ext2_block_size sb) + unat off + unat sz" "0 < unat sz" "p + unat sz \<le> length buf"
  shows "file_read_loop dv sb i buf p sz (of_nat b) off nr d = Inl (Panic ''Invalid inode block'')"
  using assms(1,4-)
proof (induction "unat sz" arbitrary: sz b off p buf nr d rule: less_induct)
  case less
  let ?bs = "unat (ext2_block_size sb)"
  define n where "n = min (ext2_block_size sb - off) sz"
  obtain d1 part where r: "length part = unat n" "ok d1"
    "file_read_loop dv sb i buf p sz (of_nat b) off nr d =
      (if 0 < unat n then file_read_loop dv sb i (take p buf @ part @ drop (p + unat n) buf) (p + unat n) (sz - n) (of_nat (b + 1)) 0 (nr + n) d1
       else Inr (nr + n, take p buf @ part @ drop (p + unat n) buf, d1))"
    using read_loop_round[OF less.prems(1) assms(2,3) less.prems(2,3,6) n_def] by blast
  have un: "unat n = min (?bs - unat off) (unat sz)"
    using less.prems(2) by (simp add: n_def min_def word_le_nat_alt unat_sub)
  have usz: "unat (sz - n) = unat sz - unat n" using un by (simp add: unat_sub word_le_nat_alt)
  have n0: "0 < unat n" using un less.prems(2,5) by linarith
  show ?case
  proof (cases "b = 11")
    case True
    then show ?thesis using r(3) n0
      by (subst (asm) (2) file_read_loop.simps)
        (simp add: ext2_read_inode_block_def ext2_compute_absolute_block_def)
  next
    case False
    have "(b + 1) * ?bs \<le> 11 * ?bs" using False less.prems(3) by (intro mult_le_mono1) simp
    then have b11: "b * ?bs + ?bs \<le> 11 * ?bs" by (simp only: add_mult_distrib mult_1)
    then have "?bs - unat off < unat sz" using less.prems(2,4) by linarith
    then have un2: "unat n = ?bs - unat off" using un by simp
    then have pos: "11 * ?bs < (b + 1) * ?bs + unat (0 :: u32) + unat (sz - n)"
      using usz less.prems(2,4) by simp
    moreover have "0 < unat (sz - n)" using un2 usz \<open>?bs - unat off < unat sz\<close> by simp
    moreover have "p + unat n + unat (sz - n) \<le> length (take p buf @ part @ drop (p + unat n) buf)"
      using less.prems(6) r(1) usz un by simp
    ultimately have "file_read_loop dv sb i (take p buf @ part @ drop (p + unat n) buf) (p + unat n) (sz - n) (of_nat (b + 1)) 0 (nr + n) d1 =
        Inl (Panic ''Invalid inode block'')"
      using usz n0 un less.prems(2,3) False by (intro less.hyps r(2)) auto
    then show ?thesis using r(3) n0 by simp
  qed
qed

end

section \<open>The kernel's interface\<close>

text \<open>
  What the nodes need of the kernel besides the disk: semaphores, of which \<open>left\<close> can still be
  made; a wait and the signal after it, with any disk accesses in between, leave the
  semaphores as they were.
\<close>

lemma kern_update: "s = s0\<lparr>kern := kern s\<rparr> \<Longrightarrow> s\<lparr>kern := d\<rparr> = s0\<lparr>kern := d\<rparr>"
  by (cases s; cases s0) simp

locale fs_kernel = fs_disk ok sector limit "k_disk k"
  for ok :: "'d \<Rightarrow> bool" and sector :: "'d \<Rightarrow> nat \<Rightarrow> u16 list" and limit :: nat and k :: "'d kernel_ops" +
  fixes sem :: "'d \<Rightarrow> 'y" and valid :: "'y \<Rightarrow> int \<Rightarrow> bool" and left :: "'y \<Rightarrow> nat"
  assumes read_sem: "ok d \<Longrightarrow> d_read (k_disk k) lba num d = Inr (ws, d') \<Longrightarrow> sem d' = sem d"
    and write_sem: "ok d \<Longrightarrow> d_write (k_disk k) lba num ws d = Inr d' \<Longrightarrow> sem d' = sem d"
    and new_ok: "ok d \<Longrightarrow> 0 < left (sem d) \<Longrightarrow> \<exists>l d'. k_sm_new k d = Inr (l, d') \<and> ok d' \<and> sector d' = sector d \<and>
      left (sem d') = left (sem d) - 1 \<and> valid (sem d') l \<and> (\<forall>m. valid (sem d) m \<longrightarrow> valid (sem d') m)"
    and wait_ok: "ok d \<Longrightarrow> valid (sem d) l \<Longrightarrow> \<exists>d'. k_sm_wait k l d = Inr d' \<and> ok d' \<and> sector d' = sector d"
    and signal_ok: "ok d \<Longrightarrow> valid (sem d) l \<Longrightarrow> k_sm_wait k l d = Inr d1 \<Longrightarrow> ok d2 \<Longrightarrow> sem d2 = sem d1 \<Longrightarrow>
      \<exists>d3. k_sm_signal k l d2 = Inr d3 \<and> ok d3 \<and> sector d3 = sector d2 \<and> sem d3 = sem d"
begin

text \<open>\<open>s\<close> differs from \<open>s0\<close> only in what disk accesses change.\<close>

definition after_io :: "'d ext2_fs \<Rightarrow> 'd ext2_fs \<Rightarrow> bool" where
  "after_io s0 s \<longleftrightarrow> ok (kern s) \<and> sem (kern s) = sem (kern s0) \<and> s = s0\<lparr>kern := kern s\<rparr>"

lemma after_io_refl [simp]: "ok (kern s) \<Longrightarrow> after_io s s"
  by (simp add: after_io_def)

end

sublocale fs_kernel \<subseteq> lifted: fs_disk "after_io s0" "\<lambda>s. sector (kern s)" limit "fs_ops k" for s0
proof
  fix s s0 :: "'d ext2_fs" and lba :: u32 and num :: u8 and ws
  assume s: "after_io s0 s"
  show "length (sector (kern s) l) = 256" for l using s sector_length by (simp add: after_io_def)
  assume l: "unat lba + unat num \<le> limit"
  show "\<exists>s'. d_read (fs_ops k) lba num s = Inr (concat (map (sector (kern s)) [unat lba..<unat lba + unat num]), s') \<and>
      after_io s0 s' \<and> sector (kern s') = sector (kern s)"
  proof -
    have ok: "ok (kern s)" using s by (simp add: after_io_def)
    obtain d' where d': "d_read (k_disk k) lba num (kern s) = Inr (concat (map (sector (kern s)) [unat lba..<unat lba + unat num]), d')"
      "ok d'" "sector d' = sector (kern s)" using rd_ok[OF ok l] by blast
    have "s\<lparr>kern := d'\<rparr> = s0\<lparr>kern := d'\<rparr>" using s by (auto simp: after_io_def intro: kern_update)
    then show ?thesis
      using s d' read_sem[OF ok d'(1)] by (auto simp: fs_ops_def after_io_def intro!: exI[of _ "s\<lparr>kern := d'\<rparr>"])
  qed
  show "\<exists>s'. d_write (fs_ops k) lba num ws s = Inr s' \<and> after_io s0 s' \<and>
      sector (kern s') = (\<lambda>l. if unat lba \<le> l \<and> l < unat lba + unat num
        then take 256 (drop (256 * (l - unat lba)) ws) else sector (kern s) l)" if w: "length ws = 256 * unat num"
  proof -
    have ok: "ok (kern s)" using s by (simp add: after_io_def)
    obtain d' where d': "d_write (k_disk k) lba num ws (kern s) = Inr d'" "ok d'"
      "sector d' = (\<lambda>l. if unat lba \<le> l \<and> l < unat lba + unat num
        then take 256 (drop (256 * (l - unat lba)) ws) else sector (kern s) l)" using wr_ok[OF ok l w] by blast
    have "s\<lparr>kern := d'\<rparr> = s0\<lparr>kern := d'\<rparr>" using s by (auto simp: after_io_def intro: kern_update)
    then show ?thesis
      using s d' write_sem[OF ok d'(1)] by (auto simp: fs_ops_def after_io_def intro!: exI[of _ "s\<lparr>kern := d'\<rparr>"])
  qed
qed (rule limit_le)

text \<open>The data of the node at \<open>p\<close>.\<close>

definition node_data :: "'d ext2_fs \<Rightarrow> node_ptr \<Rightarrow> fs_node \<Rightarrow> ext2_fs_data \<Rightarrow> bool" where
  "node_data s p n fd \<longleftrightarrow> nodes s p = Some n \<and> unat (dri_res_i n) < length (fs_datas s) \<and> fs_datas s ! unat (dri_res_i n) = fd"

lemma node_dataD:
  assumes "node_data s p n fd"
  shows "deref s p = Inr n" and "fs_data_of s n = Inr fd"
  using assms by (simp_all add: node_data_def deref_def fs_data_of_def arr_get_uint)

lemma node_data_put:
  "node_data s p n fd \<Longrightarrow> node_data (put_fs_data (s\<lparr>kern := d\<rparr>) n fd') p n fd'"
  by (simp add: node_data_def put_fs_data_def)

lemma put_fs_data_twice: "put_fs_data (put_fs_data s n a\<lparr>kern := d\<rparr>) n b = put_fs_data (s\<lparr>kern := d\<rparr>) n b"
  by (simp add: put_fs_data_def)

lemma kern_put [simp]: "kern (put_fs_data s n fd) = kern s" "(put_fs_data s n fd)\<lparr>kern := d\<rparr> = put_fs_data (s\<lparr>kern := d\<rparr>) n fd"
  by (simp_all add: put_fs_data_def)

context fs_kernel begin

lemma file_read_ok:
  assumes "ok (kern s)" "node_data s p n fd" "fd_in fd = Cached i" "sb_ok (fd_sb fd)" "blocks_on_disk (fd_sb fd) i c" "0 < c"
    and "unat ofs + unat sz \<le> (c - 1) * unat (ext2_block_size (fd_sb fd))" "unat sz \<le> length buf"
  shows "\<exists>s'. ext2_file_read k s p ofs sz (Some buf) = Inr (sz,
      take (unat sz) (drop (unat ofs) (file_blocks (fd_sb fd) (kern s) i 0 c)) @ drop (unat sz) buf, s') \<and> after_io s s'"
proof -
  let ?sb = "fd_sb fd" and ?bs = "unat (ext2_block_size (fd_sb fd))"
  have pos: "0 < ?bs" using sb_sizes(1,2)[OF assms(4)] by simp
  then have bs0: "ext2_block_size ?sb \<noteq> 0" by (metis unat_0 less_numeral_extra(3))
  have d: "unat (ofs div ext2_block_size ?sb) = unat ofs div ?bs" "unat (ofs mod ext2_block_size ?sb) = unat ofs mod ?bs"
    by (simp_all add: unat_div unat_mod)
  have "unat ofs \<le> (c - 1) * ?bs" using assms(7) by linarith
  then have "unat ofs div ?bs \<le> (c - 1) * ?bs div ?bs" by (rule div_le_mono)
  then have b: "unat ofs div ?bs < c" using pos assms(6) by simp
  have m: "unat ofs div ?bs * ?bs + unat ofs mod ?bs = unat ofs" by (rule div_mult_mod_eq)
  have "lifted.blocks_on_disk ?sb i c" using assms(5) unfolding blocks_on_disk_def lifted.blocks_on_disk_def on_disk_def lifted.on_disk_def .
  moreover have "unat (ofs mod ext2_block_size ?sb) < ?bs" using d(2) pos by simp
  ultimately have "\<exists>s'. file_read_loop (fs_ops k) ?sb i buf 0 sz (of_nat (unat ofs div ?bs)) (ofs mod ext2_block_size ?sb) 0 s =
      Inr (0 + sz, take 0 buf @ take (unat sz) (drop (unat ofs div ?bs * ?bs + unat (ofs mod ext2_block_size ?sb))
        (lifted.file_blocks ?sb s i 0 c)) @ drop (0 + unat sz) buf, s') \<and> after_io s s' \<and> sector (kern s') = sector (kern s)"
    using assms(1,7,8) b m d(2) by (intro lifted.file_read_loop_ok assms(4)) simp_all
  moreover have "lifted.file_blocks ?sb s i 0 c = file_blocks ?sb (kern s) i 0 c"
    by (simp only: lifted.file_blocks_def file_blocks_def lifted.blk_def blk_def)
  moreover have "(of_nat (unat ofs div ?bs) :: u32) = ofs div ext2_block_size ?sb" by (simp add: d(1)[symmetric] del: d)
  ultimately show ?thesis
    using bs0 m d(2) node_dataD[OF assms(2)] assms(3)
    by (auto simp: ext2_file_read_def cached_inode_def Let_def)
qed

lemma file_open_ok:
  assumes "ok (kern s)" "node_data s p n fd" "valid (sem (kern s)) (fd_lock fd)" "sb_ok (fd_sb fd)"
    and "inode_on_disk (fd_sb fd) (sector (kern s)) limit (inode n)"
  shows "\<exists>d'. ext2_file_open k s p = Inr (put_fs_data (s\<lparr>kern := d'\<rparr>) n (fd\<lparr>fd_rc := fd_rc fd + 1,
      fd_in := if fd_rc fd = 0 then Cached (inode_at (fd_sb fd) (sector (kern s)) (inode n)) else fd_in fd\<rparr>)) \<and>
    ok d' \<and> sector d' = sector (kern s) \<and> sem d' = sem (kern s)"
proof -
  obtain d1 where d1: "k_sm_wait k (fd_lock fd) (kern s) = Inr d1" "ok d1" "sector d1 = sector (kern s)"
    using wait_ok[OF assms(1,3)] by blast
  show ?thesis
  proof (cases "fd_rc fd = 0")
    case True
    let ?s1 = "s\<lparr>kern := d1\<rparr>"
    have "after_io ?s1 ?s1" "inode_on_disk (fd_sb fd) (sector (kern ?s1)) limit (inode n)" using d1 assms(5) by simp_all
    then obtain s2 where s2: "ext2_find_inode (fs_ops k) (fd_sb fd) (inode n) (decode_inode (replicate INODE_SIZE 0)) ?s1 =
        Inr (True, inode_at (fd_sb fd) (sector (kern ?s1)) (inode n), s2)" "after_io ?s1 s2" "sector (kern s2) = sector (kern ?s1)"
      using lifted.find_inode_ok[OF _ assms(4)] by blast
    have k2: "ok (kern s2)" "sem (kern s2) = sem d1" "s2 = s\<lparr>kern := kern s2\<rparr>"
      using s2(2) by (simp_all add: after_io_def)
    obtain d3 where d3: "k_sm_signal k (fd_lock fd) (kern s2) = Inr d3" "ok d3" "sector d3 = sector (kern s2)" "sem d3 = sem (kern s)"
      using signal_ok[OF assms(1,3) d1(1) k2(1,2)] by blast
    have "s2\<lparr>kern := d3\<rparr> = s\<lparr>kern := d3\<rparr>" using k2(3) by (rule kern_update)
    then show ?thesis
      using True node_dataD[OF assms(2)] d1 s2 d3 by (auto simp: ext2_file_open_def Let_def)
  next
    case False
    obtain d3 where "k_sm_signal k (fd_lock fd) d1 = Inr d3" "ok d3" "sector d3 = sector d1" "sem d3 = sem (kern s)"
      using signal_ok[OF assms(1,3) d1(1,2) refl] by blast
    then show ?thesis using False node_dataD[OF assms(2)] d1 by (auto simp: ext2_file_open_def Let_def)
  qed
qed

lemma file_close_ok:
  assumes "ok (kern s)" "node_data s p n fd" "valid (sem (kern s)) (fd_lock fd)" "fd_rc fd = 1 \<Longrightarrow> \<exists>i. fd_in fd = Cached i"
  shows "\<exists>d'. ext2_file_close k s p = Inr (put_fs_data (s\<lparr>kern := d'\<rparr>) n (fd\<lparr>fd_rc := fd_rc fd - 1,
      fd_in := if fd_rc fd = 1 then NullIn else fd_in fd\<rparr>)) \<and>
    ok d' \<and> sector d' = sector (kern s) \<and> sem d' = sem (kern s)"
proof -
  obtain d1 where d1: "k_sm_wait k (fd_lock fd) (kern s) = Inr d1" "ok d1" "sector d1 = sector (kern s)"
    using wait_ok[OF assms(1,3)] by blast
  obtain d2 where d2: "k_sm_signal k (fd_lock fd) d1 = Inr d2" "ok d2" "sector d2 = sector d1" "sem d2 = sem (kern s)"
    using signal_ok[OF assms(1,3) d1(1,2) refl] by blast
  moreover have "fd_rc fd - 1 = 0 \<longleftrightarrow> fd_rc fd = 1" by simp
  ultimately have "ext2_file_close k s p = Inr (put_fs_data (s\<lparr>kern := d2\<rparr>) n (fd\<lparr>fd_rc := fd_rc fd - 1,
      fd_in := if fd_rc fd = 1 then NullIn else fd_in fd\<rparr>))"
    using assms(4) node_dataD[OF assms(2)] d1 by (auto simp: ext2_file_close_def Let_def cached_inode_def)
  then show ?thesis using d1 d2 by auto
qed

text \<open>A file opened, read and closed through the virtual file system.\<close>

lemma open_read_close:
  assumes "ok (kern s)" "node_data s p n fd" "valid (sem (kern s)) (fd_lock fd)" "sb_ok (fd_sb fd)" "fd_rc fd = 0"
    and "inode_on_disk (fd_sb fd) (sector (kern s)) limit (inode n)" "vtable n = Some Ext2FileVtable" "mount n = None"
    and "i = inode_at (fd_sb fd) (sector (kern s)) (inode n)" "blocks_on_disk (fd_sb fd) i c" "0 < c"
    and "unat ofs + unat sz \<le> (c - 1) * unat (ext2_block_size (fd_sb fd))" "unat sz \<le> length buf"
  shows "\<exists>s1 s2 s3. fs_open (ext2_drivers k) s p = Inr s1 \<and>
    fs_read (ext2_drivers k) s1 p ofs sz buf = Inr (sz,
      take (unat sz) (drop (unat ofs) (file_blocks (fd_sb fd) (kern s) i 0 c)) @ drop (unat sz) buf, s2) \<and>
    fs_close (ext2_drivers k) s2 p = Inr s3 \<and> node_data s3 p n (fd\<lparr>fd_in := NullIn\<rparr>)"
proof -
  have drv: "follow_mount t p = Inr (p, n)" if "node_data t p n x" for t x
    using node_dataD(1)[OF that] assms(8) by (simp add: follow_mount_def)
  let ?fd = "fd\<lparr>fd_rc := 1, fd_in := Cached i\<rparr>"
  obtain d1 where d1: "ext2_file_open k s p = Inr (put_fs_data (s\<lparr>kern := d1\<rparr>) n ?fd)"
    "ok d1" "sector d1 = sector (kern s)" "sem d1 = sem (kern s)"
    using file_open_ok[OF assms(1-4,6)] assms(5,9) by auto
  let ?s1 = "put_fs_data (s\<lparr>kern := d1\<rparr>) n ?fd"
  have nd1: "node_data ?s1 p n ?fd" by (rule node_data_put[OF assms(2)])
  obtain s2 where s2: "ext2_file_read k ?s1 p ofs sz (Some buf) = Inr (sz,
      take (unat sz) (drop (unat ofs) (file_blocks (fd_sb ?fd) (kern ?s1) i 0 c)) @ drop (unat sz) buf, s2)" "after_io ?s1 s2"
    using file_read_ok[OF _ nd1, of i c ofs sz buf] d1(2) assms(4,10-13) by auto
  have fb: "file_blocks (fd_sb ?fd) (kern ?s1) i 0 c = file_blocks (fd_sb fd) (kern s) i 0 c"
    using d1(3) by (simp add: file_blocks_def blk_def)
  have k2: "ok (kern s2)" "sem (kern s2) = sem (kern s)" "s2 = put_fs_data (s\<lparr>kern := kern s2\<rparr>) n ?fd"
    using s2(2) d1(4) by (simp_all add: after_io_def)
  have nd2: "node_data s2 p n ?fd" by (subst k2(3)) (rule node_data_put[OF assms(2)])
  obtain d3 where d3: "ext2_file_close k s2 p = Inr (put_fs_data (s2\<lparr>kern := d3\<rparr>) n (?fd\<lparr>fd_rc := 0, fd_in := NullIn\<rparr>))"
    using file_close_ok[OF k2(1) nd2] assms(3) k2(2) by auto
  have nd3: "node_data (put_fs_data (s2\<lparr>kern := d3\<rparr>) n (?fd\<lparr>fd_rc := 0, fd_in := NullIn\<rparr>)) p n (?fd\<lparr>fd_rc := 0, fd_in := NullIn\<rparr>)"
    by (rule node_data_put[OF nd2])
  have "?fd\<lparr>fd_rc := 0, fd_in := NullIn\<rparr> = fd\<lparr>fd_in := NullIn\<rparr>" using assms(5) by (cases fd) simp
  then show ?thesis
    using drv[OF assms(2)] drv[OF nd1] drv[OF nd2] d1(1) s2(1) d3 nd3 fb assms(7)
    by (simp add: fs_open_def fs_read_def fs_close_def driver_op_def ext2_drivers_def ext2_file_vfs_vt_def)
qed

end

section \<open>Listing with a callback that changes the state\<close>

fun list_entries :: "('c, 's) dir_cb \<Rightarrow> dirent list \<Rightarrow> 'c \<Rightarrow> 's \<Rightarrow> (bool \<times> 'c \<times> 's) res option" where
  "list_entries cb [] c d = Some (Inr (False, c, d))"
| "list_entries cb (e # es) c d =
     (case cb (de_ino e) (de_name e @ [0]) c d of
        None \<Rightarrow> None
      | Some (Inl f) \<Rightarrow> Some (Inl f)
      | Some (Inr (go, c1, d1)) \<Rightarrow> if \<not> go then Some (Inr (True, c1, d1)) else list_entries cb es c1 d1)"

lemma ls_block_list:
  assumes "\<forall>e\<in>set es. dirent_ok e"
  shows "ls_block cb (pre @ dir_block es) (length (pre @ dir_block es)) (length pre) c d = list_entries cb es c d"
  using assms
proof (induction es arbitrary: pre c d)
  case Nil
  then show ?case by (simp add: ls_block.simps)
next
  case (Cons e es)
  let ?buf = "pre @ dirent_bytes e @ dir_block es"
  have ok: "dirent_ok e" "de_ino e \<noteq> 0" using Cons.prems by (auto simp: dirent_ok_def)
  note field = dirent_fields[OF ok(1), of ?buf pre "dir_block es", OF refl refl]
  have rest: "ls_block cb ?buf (length ?buf) (length pre + dirent_len e) c1 d1 = list_entries cb es c1 d1" for c1 d1
    using Cons.IH[of "pre @ dirent_bytes e" c1 d1] Cons.prems by simp
  show ?case
    unfolding dir_block_simps
    by (subst ls_block.simps) (simp only: field rest ok(2) list_entries.simps res_bind_simps sum.case if_True if_False simp_thms cong: option.case_cong)
qed

context fs_kernel begin

lemma list_run:
  assumes step: "\<And>j c s. j < length es \<Longrightarrow> I j c s \<Longrightarrow>
      \<exists>c' s'. cb (de_ino (es ! j)) (de_name (es ! j) @ [0]) c s = Some (Inr (True, c', s')) \<and> I (Suc j) c' s'"
    and "I 0 c s"
  shows "\<exists>c' s'. list_entries cb es c s = Some (Inr (False, c', s')) \<and> I (length es) c' s'"
  using assms
proof (induction es arbitrary: I c s)
  case (Cons e es)
  obtain c1 s1 where 1: "cb (de_ino e) (de_name e @ [0]) c s = Some (Inr (True, c1, s1))" "I (Suc 0) c1 s1"
    using Cons.prems(1)[of 0 c s] Cons.prems(2) by auto
  have "\<exists>c' s'. list_entries cb es c1 s1 = Some (Inr (False, c', s')) \<and> I (Suc (length es)) c' s'"
  proof (rule Cons.IH[of "\<lambda>j. I (Suc j)"])
    show "\<exists>c' s'. cb (de_ino (es ! j)) (de_name (es ! j) @ [0]) c s = Some (Inr (True, c', s')) \<and> I (Suc (Suc j)) c' s'"
      if "j < length es" "I (Suc j) c s" for j c s
      using Cons.prems(1)[of "Suc j" c s] that by simp
  qed (rule 1(2))
  then show ?case using 1(1) by auto
qed auto

text \<open>
  \<open>I j\<close> holds after \<open>j\<close> entries, survives the reading of a block, and every call of the
  callback goes from \<open>I j\<close> to \<open>I (j + 1)\<close>.
\<close>

lemma ls_blocks_run:
  assumes "sb_ok sb" "dir_on_disk sb S limit dir ess"
    and inv: "\<And>j c s. I j c s \<Longrightarrow> ok (kern s) \<and> sector (kern s) = S"
    and io: "\<And>j c s s'. I j c s \<Longrightarrow> after_io s s' \<Longrightarrow> sector (kern s') = sector (kern s) \<Longrightarrow> I j c s'"
    and step: "\<And>j c s. j < length (concat ess) \<Longrightarrow> I j c s \<Longrightarrow>
      \<exists>c' s'. cb (de_ino (concat ess ! j)) (de_name (concat ess ! j) @ [0]) c s = Some (Inr (True, c', s')) \<and> I (Suc j) c' s'"
    and "I (length (concat (take i ess))) c s" "i \<le> length ess"
  shows "\<exists>c' s'. ls_blocks cb (fs_ops k) sb dir (of_nat i) c s = Some (Inr (c', s')) \<and> I (length (concat ess)) c' s'"
  using assms(6,7)
proof (induction "length ess - i" arbitrary: i c s)
  case 0
  then have "i = length ess" by simp
  moreover have "num_blocks dir = of_nat (length ess)" using assms(2) by (simp add: dir_on_disk_def)
  ultimately show ?case using 0 by (subst ls_blocks.simps) auto
next
  case (Suc m)
  then have i: "i < length ess" "length ess \<le> 12" using assms(2) by (simp_all add: dir_on_disk_def)
  have lt: "of_nat i < num_blocks dir"
    using i assms(2) by (simp add: dir_on_disk_def word_less_nat_alt unat_of_nat)
  let ?n = "length (concat (take i ess))"
  have k: "ok (kern s)" "sector (kern s) = S" using inv[OF Suc.prems(1)] by auto
  have d: "dir_on_disk sb (sector (kern s)) limit dir ess" using assms(2) k(2) by simp
  note rd = lifted.dir_block_read[OF after_io_refl[OF k(1)] assms(1) d i(1)]
  obtain s1 where s1: "ext2_read_inode_block (fs_ops k) sb dir (of_nat i) s = Inr (dir_block (ess ! i), s1)"
    "after_io s s1" "sector (kern s1) = sector (kern s)" using rd(1) by blast
  have I1: "I ?n c s1" by (rule io[OF Suc.prems(1) s1(2,3)])
  have es: "\<forall>e\<in>set (ess ! i). dirent_ok e" using assms(2) i(1) by (simp add: dir_on_disk_def)
  have split: "concat ess = concat (take i ess) @ ess ! i @ concat (drop (Suc i) ess)"
    using i(1) by (metis append_take_drop_id Cons_nth_drop_Suc concat.simps(2) concat_append)
  obtain c2 s2 where 2: "list_entries cb (ess ! i) c s1 = Some (Inr (False, c2, s2))" "I (?n + length (ess ! i)) c2 s2"
  proof -
    have "\<exists>c' s'. list_entries cb (ess ! i) c s1 = Some (Inr (False, c', s')) \<and> I (?n + length (ess ! i)) c' s'"
    proof (rule list_run[of "ess ! i" "\<lambda>j. I (?n + j)"])
      show "\<exists>c' s'. cb (de_ino (ess ! i ! j)) (de_name (ess ! i ! j) @ [0]) c s = Some (Inr (True, c', s')) \<and> I (?n + Suc j) c' s'"
        if "j < length (ess ! i)" "I (?n + j) c s" for j c s
      proof -
        have "concat ess ! (?n + j) = ess ! i ! j" unfolding split using that(1) by (simp add: nth_append)
        moreover have "?n + j < length (concat ess)" unfolding split using that(1) by simp
        ultimately show ?thesis using step[OF _ that(2)] by simp
      qed
    qed (use I1 in simp)
    then show ?thesis using that by blast
  qed
  have ls: "ls_block cb (dir_block (ess ! i)) (unat (ext2_block_size sb)) 0 c s1 = Some (Inr (False, c2, s2))"
    using ls_block_list[OF es, of cb "[]" c s1] rd(2) 2(1) by simp
  have "concat (take (Suc i) ess) = concat (take i ess) @ ess ! i" using i(1) by (simp add: take_Suc_conv_app_nth)
  then have "\<exists>c' s'. ls_blocks cb (fs_ops k) sb dir (of_nat (Suc i)) c2 s2 = Some (Inr (c', s')) \<and> I (length (concat ess)) c' s'"
    using Suc.hyps(2) 2(2) i by (intro Suc.hyps(1)) simp_all
  then show ?case by (subst ls_blocks.simps) (simp add: lt s1(1) ls add.commute)
qed

end

section \<open>Trees\<close>

text \<open>
  A tree of inodes: a directory with the entries of its blocks and the trees of the entries
  that the driver does not leave out, in their order.
\<close>

datatype fs_tree = FileT u32 | DirT u32 "dirent list list" "fs_tree list"

definition left_out :: "dirent \<Rightarrow> bool" where
  "left_out e \<longleftrightarrow> de_name e \<in> {[], [46], [46, 46]}"

definition visible :: "dirent list list \<Rightarrow> dirent list" where
  "visible ess = filter (\<lambda>e. \<not> left_out e) (concat ess)"

fun tree_ino :: "fs_tree \<Rightarrow> u32" where
  "tree_ino (FileT ino) = ino"
| "tree_ino (DirT ino ess ts) = ino"

fun tree_nodes :: "fs_tree \<Rightarrow> nat" where
  "tree_nodes (FileT ino) = 1"
| "tree_nodes (DirT ino ess ts) = Suc (sum_list (map tree_nodes ts))"

fun tree_depth :: "fs_tree \<Rightarrow> nat" where
  "tree_depth (FileT ino) = 1"
| "tree_depth (DirT ino ess ts) = Suc (fold max (map tree_depth ts) 0)"

fun tree_on_disk :: "ext2_superblock \<Rightarrow> (nat \<Rightarrow> u16 list) \<Rightarrow> nat \<Rightarrow> fs_tree \<Rightarrow> bool" where
  "tree_on_disk sb sec limit (FileT ino) \<longleftrightarrow> inode_on_disk sb sec limit ino \<and>
     i_mode (inode_at sb sec ino) AND EXT2_F_TYPE = EXT2_S_IFREG"
| "tree_on_disk sb sec limit (DirT ino ess ts) \<longleftrightarrow> inode_on_disk sb sec limit ino \<and>
     dir_on_disk sb sec limit (inode_at sb sec ino) ess \<and> map tree_ino ts = map de_ino (visible ess) \<and>
     (\<forall>t\<in>set ts. tree_on_disk sb sec limit t)"

section \<open>Nodes that show a tree\<close>

fun linked :: "'d ext2_fs \<Rightarrow> nat option \<Rightarrow> nat list \<Rightarrow> bool" where
  "linked s dent [] \<longleftrightarrow> dent = None"
| "linked s dent (x # xs) \<longleftrightarrow> dent = Some x \<and> x < length (fs_dents s) \<and> linked s (fe_next (fs_dents s ! x)) xs"

text \<open>The entry object of the virtual file system for an entry on disk.\<close>

definition shows_entry :: "ext2_fs_dirent \<Rightarrow> dirent \<Rightarrow> bool" where
  "shows_entry x e \<longleftrightarrow> fe_inode x = de_ino e \<and> fe_name_len x = of_nat (length (de_name e)) \<and>
     length (fe_name x) = 256 \<and> take (length (de_name e)) (fe_name x) = de_name e"

definition node_of :: "fs_node \<Rightarrow> ext2_inode \<Rightarrow> u32 \<Rightarrow> bool" where
  "node_of n i ino \<longleftrightarrow> inode n = ino \<and> fsize n = i_size i \<and> perm_mask n = ucast (i_mode i AND 0xfff) \<and>
     gid n = ucast (i_gid i) \<and> uid n = ucast (i_uid i) \<and> mount n = None"

text \<open>The node at \<open>p\<close> shows the tree, with data in \<open>D\<close> and entries in \<open>E\<close>.\<close>

inductive mirrors :: "'d ext2_fs \<Rightarrow> ext2_superblock \<Rightarrow> (nat \<Rightarrow> u16 list) \<Rightarrow> nat set \<Rightarrow> nat set \<Rightarrow> node_ptr \<Rightarrow> fs_tree \<Rightarrow> bool"
  for s sb sec D E where
  mirrors_file: "node_data s p n fd \<Longrightarrow> unat (dri_res_i n) \<in> D \<Longrightarrow> node_of n (inode_at sb sec ino) ino \<Longrightarrow>
      flags n = FS_FILE \<Longrightarrow> vtable n = Some Ext2FileVtable \<Longrightarrow> fd_rc fd = 0 \<Longrightarrow> fd_sb fd = sb \<Longrightarrow> mirrors s sb sec D E p (FileT ino)"
| mirrors_dir: "node_data s p n fd \<Longrightarrow> unat (dri_res_i n) \<in> D \<Longrightarrow> node_of n (inode_at sb sec ino) ino \<Longrightarrow>
      flags n = FS_DIRECTORY \<Longrightarrow> vtable n = Some Ext2DirVtable \<Longrightarrow>
      linked s (fd_dirent fd) ids \<Longrightarrow> set ids \<subseteq> E \<Longrightarrow> length ids = length ts \<Longrightarrow> length ids = length (visible ess) \<Longrightarrow>
      (\<forall>j<length ids. shows_entry (fs_dents s ! (ids ! j)) (visible ess ! j) \<and>
        (\<exists>q. fe_node (fs_dents s ! (ids ! j)) = Some q \<and> mirrors s sb sec D E q (ts ! j))) \<Longrightarrow>
      mirrors s sb sec D E p (DirT ino ess ts)"

text \<open>Objects in \<open>D\<close> and \<open>E\<close> are as before, and so is every node.\<close>

definition same_on :: "nat set \<Rightarrow> nat set \<Rightarrow> 'd ext2_fs \<Rightarrow> 'd ext2_fs \<Rightarrow> bool" where
  "same_on D E s s' \<longleftrightarrow> (\<forall>p n. nodes s p = Some n \<longrightarrow> nodes s' p = Some n) \<and>
     (\<forall>i\<in>D. i < length (fs_datas s) \<longrightarrow> i < length (fs_datas s') \<and> fs_datas s' ! i = fs_datas s ! i) \<and>
     (\<forall>i\<in>E. i < length (fs_dents s) \<longrightarrow> i < length (fs_dents s') \<and> fs_dents s' ! i = fs_dents s ! i)"

lemma same_on_refl: "same_on D E s s"
  by (simp add: same_on_def)

lemma same_on_trans: "same_on D E s t \<Longrightarrow> same_on D E t u \<Longrightarrow> same_on D E s u"
  unfolding same_on_def by (metis (no_types, lifting))

lemma same_on_kern [simp]: "same_on D E s (s\<lparr>kern := d\<rparr>)" "same_on D E (s\<lparr>kern := d\<rparr>) t = same_on D E s t"
  by (simp_all add: same_on_def)

lemma same_on_mono: "same_on D E s t \<Longrightarrow> D' \<subseteq> D \<Longrightarrow> E' \<subseteq> E \<Longrightarrow> same_on D' E' s t"
  unfolding same_on_def by blast

lemma linked_same:
  "linked s dent ids \<Longrightarrow> set ids \<subseteq> E \<Longrightarrow> same_on D E s s' \<Longrightarrow> linked s' dent ids"
  by (induction ids arbitrary: dent) (auto simp: same_on_def)

lemma linked_less: "linked s dent ids \<Longrightarrow> \<forall>x\<in>set ids. x < length (fs_dents s)"
  by (induction ids arbitrary: dent) auto

lemma node_data_same:
  assumes "node_data s p n fd" "same_on D E s s'" "unat (dri_res_i n) \<in> D"
  shows "node_data s' p n fd"
  using assms by (auto simp: node_data_def same_on_def)

lemma mirrors_same:
  assumes "mirrors s sb sec D E p t" "same_on D E s s'" "D \<subseteq> D'" "E \<subseteq> E'"
  shows "mirrors s' sb sec D' E' p t"
  using assms
proof (induction rule: mirrors.induct)
  case (mirrors_file p n fd ino)
  then show ?case using node_data_same by (intro mirrors.mirrors_file) blast+
next
  case (mirrors_dir p n fd ino ids ts ess)
  note m = mirrors_dir
  have x: "fs_dents s' ! (ids ! j) = fs_dents s ! (ids ! j)" if "j < length ids" for j
    using linked_less[OF m(6)] m(7,11) that unfolding same_on_def by (meson nth_mem subsetD)
  show ?case
  proof (rule mirrors.mirrors_dir[OF node_data_same[OF m(1,11,2)] _ m(3-5) linked_same[OF m(6,7,11)]])
    show "unat (dri_res_i n) \<in> D'" "set ids \<subseteq> E'" using m(2,7,12,13) by auto
    show "\<forall>j<length ids. shows_entry (fs_dents s' ! (ids ! j)) (visible ess ! j) \<and>
        (\<exists>q. fe_node (fs_dents s' ! (ids ! j)) = Some q \<and> mirrors s' sb sec D' E' q (ts ! j))"
      using m(10-13) x by fastforce
  qed (use m(8,9) in simp_all)
qed

text \<open>Names that are left out, as the callback compares them.\<close>

lemma left_out_cmp:
  assumes "0 \<notin> set nm"
  shows "\<exists>r. res_bind (strncmp [46, 0] (nm @ [0]) (length nm)) (\<lambda>r. if r = 0 then Inr 0 else strncmp [46, 46, 0] (nm @ [0]) (length nm)) = Inr r \<and>
    (r = 0 \<longleftrightarrow> nm \<in> {[], [46], [46, 46]})"
proof -
  have t: "take (length nm) xs = nm \<longleftrightarrow> prefix nm xs" for xs
    by (auto simp: prefix_def) (metis append_take_drop_id)
  obtain r1 where r1: "strncmp [46, 0] (nm @ [0]) (length nm) = Inr r1" "r1 = 0 \<longleftrightarrow> prefix nm [46]"
    using strncmp_cstring[OF cstringI[of "[46]" "[]"] cstringI[OF assms, of "[]"], of "length nm"] t[of "[46]"] by auto
  obtain r2 where r2: "strncmp [46, 46, 0] (nm @ [0]) (length nm) = Inr r2" "r2 = 0 \<longleftrightarrow> prefix nm [46, 46]"
    using strncmp_cstring[OF cstringI[of "[46, 46]" "[]"] cstringI[OF assms, of "[]"], of "length nm"] t[of "[46, 46]"] by auto
  have "prefix nm [46] \<longleftrightarrow> nm \<in> {[], [46]}" "prefix nm [46, 46] \<longleftrightarrow> nm \<in> {[], [46], [46, 46]}"
    by (auto simp: prefix_Cons)
  then show ?thesis using r1 r2 by auto
qed

lemma memcpy_name:
  assumes "length nm < 256" "length buf = 256"
  shows "memcpy buf (nm @ [0]) (min (length nm) 256) = Inr (nm @ drop (length nm) buf)"
  using assms by (simp add: memcpy_append min_def)

section \<open>Loading a tree\<close>

text \<open>
  What \<open>malloc\<close> must have left for the rest to work: the link of a new entry and the mount
  point of a new node are null.
\<close>

definition junk_ok :: "malloc_junk \<Rightarrow> bool" where
  "junk_ok junk \<longleftrightarrow> fe_next (junk_dirent junk) = None \<and> length (fe_name (junk_dirent junk)) = 256 \<and>
     mount (junk_node junk) = None \<and> length (name (junk_node junk)) = 128"

lemma linked_kern [simp]: "linked (s\<lparr>kern := d\<rparr>) dent ids = linked s dent ids"
  by (induction ids arbitrary: dent) auto

lemma mirrors_kern [simp]: "mirrors (s\<lparr>kern := d\<rparr>) sb sec D E p t = mirrors s sb sec D E p t"
proof
  assume "mirrors (s\<lparr>kern := d\<rparr>) sb sec D E p t"
  then show "mirrors s sb sec D E p t" by (rule mirrors_same) (simp_all add: same_on_refl)
next
  assume "mirrors s sb sec D E p t"
  then show "mirrors (s\<lparr>kern := d\<rparr>) sb sec D E p t" by (rule mirrors_same) simp_all
qed

lemma linked_append:
  assumes "linked s dent ids" "ids \<noteq> []" "distinct ids" "e < length (fs_dents s)" "fe_next (fs_dents s ! e) = None" "e \<notin> set ids"
  shows "linked (s\<lparr>fs_dents := (fs_dents s)[last ids := (fs_dents s ! last ids)\<lparr>fe_next := Some e\<rparr>]\<rparr>) dent (ids @ [e])"
  using assms(1-3,6)
proof (induction ids arbitrary: dent)
  case (Cons x xs)
  show ?case
  proof (cases "xs = []")
    case True
    then show ?thesis using Cons.prems assms(4,5) by auto
  next
    case False
    then have "x \<noteq> last xs" using Cons.prems(3) by (metis distinct.simps(2) last_in_set)
    then show ?thesis using Cons.IH[of "fe_next (fs_dents s ! x)"] Cons.prems False by auto
  qed
qed simp

lemma sum_take_Suc: "v < length ts \<Longrightarrow> sum_list (map f (take (Suc v) ts)) = sum_list (map f (take v ts)) + (f (ts ! v) :: nat)"
  by (simp add: take_Suc_conv_app_nth)

lemma sum_take_le: "sum_list (map f (take v ts)) \<le> sum_list (map (f :: _ \<Rightarrow> nat) ts)"
  by (metis append_take_drop_id le_add1 map_append sum_list_append)

text \<open>
  The first \<open>v\<close> entries of a directory: \<open>ids\<close> are their objects, linked from the data of number
  \<open>P\<close>, the trees below them lie in later objects.
\<close>

definition shown_so_far ::
    "ext2_superblock \<Rightarrow> (nat \<Rightarrow> u16 list) \<Rightarrow> nat \<Rightarrow> nat \<Rightarrow> ext2_fs_data \<Rightarrow> dirent list \<Rightarrow> fs_tree list \<Rightarrow> nat \<Rightarrow> nat option \<Rightarrow> nat list \<Rightarrow> 'd ext2_fs \<Rightarrow> bool" where
  "shown_so_far sb sec P E fd0 vis ts v lst ids s \<longleftrightarrow>
     length ids = v \<and> set ids \<subseteq> {E..<length (fs_dents s)} \<and> distinct ids \<and>
     fs_datas s ! P = fd0\<lparr>fd_dirent := if ids = [] then None else Some (hd ids)\<rparr> \<and>
     linked s (fd_dirent (fs_datas s ! P)) ids \<and> lst = (if ids = [] then None else Some (last ids)) \<and>
     (\<forall>j<v. shows_entry (fs_dents s ! (ids ! j)) (vis ! j) \<and>
       (\<exists>q. fe_node (fs_dents s ! (ids ! j)) = Some q \<and>
         mirrors s sb sec {P<..<length (fs_datas s)} ({E..<length (fs_dents s)} - set ids) q (ts ! j)))"

lemma shown_kern [simp]:
  "shown_so_far sb sec P E fd0 vis ts v lst ids (s\<lparr>kern := d\<rparr>) = shown_so_far sb sec P E fd0 vis ts v lst ids s"
  by (simp add: shown_so_far_def)

context fs_kernel begin

definition ready :: "'d ext2_fs \<Rightarrow> bool" where
  "ready s \<longleftrightarrow> ok (kern s) \<and> (\<forall>q\<ge>num_nodes s. nodes s (HeapNode q) = None)"

definition loaded :: "ext2_superblock \<Rightarrow> 'd ext2_fs \<Rightarrow> fs_tree \<Rightarrow> node_ptr \<Rightarrow> 'd ext2_fs \<Rightarrow> bool" where
  "loaded sb s t p s' \<longleftrightarrow> ready s' \<and> sector (kern s') = sector (kern s) \<and>
     left (sem (kern s')) = left (sem (kern s)) - tree_nodes t \<and> length (fs_datas s') = length (fs_datas s) + tree_nodes t \<and>
     length (fs_dents s) \<le> length (fs_dents s') \<and> num_nodes s \<le> num_nodes s' \<and>
     same_on {..<length (fs_datas s)} {..<length (fs_dents s)} s s' \<and>
     mirrors s' sb (sector (kern s)) {length (fs_datas s)..<length (fs_datas s')} {length (fs_dents s)..<length (fs_dents s')} p t"

definition partly_loaded :: "ext2_superblock \<Rightarrow> 'd ext2_fs \<Rightarrow> nat \<Rightarrow> dirent list \<Rightarrow> fs_tree list \<Rightarrow> nat \<Rightarrow> nat option \<Rightarrow> 'd ext2_fs \<Rightarrow> bool" where
  "partly_loaded sb s0 P vis ts v lst s \<longleftrightarrow> ready s \<and> sector (kern s) = sector (kern s0) \<and>
     left (sem (kern s)) = left (sem (kern s0)) - sum_list (map tree_nodes (take v ts)) \<and>
     length (fs_datas s) = Suc P + sum_list (map tree_nodes (take v ts)) \<and>
     length (fs_dents s0) \<le> length (fs_dents s) \<and> num_nodes s0 \<le> num_nodes s \<and>
     same_on {..<P} {..<length (fs_dents s0)} s0 s \<and>
     (\<exists>ids. shown_so_far sb (sector (kern s0)) P (length (fs_dents s0)) (fs_datas s0 ! P) vis ts v lst ids s)"

lemma partly_loaded_io:
  assumes "partly_loaded sb s0 P vis ts v lst s" "after_io s s'" "sector (kern s') = sector (kern s)"
  shows "partly_loaded sb s0 P vis ts v lst s'"
proof -
  have e: "s' = s\<lparr>kern := kern s'\<rparr>" "sem (kern s') = sem (kern s)" "ok (kern s')" using assms(2) by (simp_all add: after_io_def)
  have "partly_loaded sb s0 P vis ts v lst (s\<lparr>kern := kern s'\<rparr>)"
    using assms(1,3) e(2,3) by (simp add: partly_loaded_def ready_def same_on_def)
  then show ?thesis by (simp only: e(1)[symmetric])
qed

end

lemma shown_grow:
  assumes "shown_so_far sb sec P E fd0 vis ts v lst ids s" "P < length (fs_datas s)"
    and "same_on {P..<length (fs_datas s)} {E..<length (fs_dents s)} s s'"
    and "length (fs_dents s) \<le> length (fs_dents s')" "length (fs_datas s) \<le> length (fs_datas s')"
  shows "shown_so_far sb sec P E fd0 vis ts v lst ids s'"
proof -
  note a = assms(1)[unfolded shown_so_far_def]
  have P: "fs_datas s' ! P = fs_datas s ! P" using assms(2,3) by (simp add: same_on_def)
  have own: "fs_dents s' ! (ids ! j) = fs_dents s ! (ids ! j)" if "j < v" for j
  proof -
    have "ids ! j \<in> {E..<length (fs_dents s)}" using a that by (metis nth_mem subsetD)
    then show ?thesis using assms(3) by (simp add: same_on_def)
  qed
  have "linked s' (fd_dirent (fs_datas s' ! P)) ids"
    unfolding P using a by (intro linked_same[OF _ _ assms(3)]) auto
  moreover have "mirrors s' sb sec {P<..<length (fs_datas s')} ({E..<length (fs_dents s')} - set ids) q t"
    if "mirrors s sb sec {P<..<length (fs_datas s)} ({E..<length (fs_dents s)} - set ids) q t" for q t
    using assms(4,5) by (intro mirrors_same[OF that same_on_mono[OF assms(3)]]) auto
  ultimately show ?thesis
    using a P own assms(4) unfolding shown_so_far_def by (auto simp: P) 
qed

lemma shows_entry_next [simp]: "shows_entry (x\<lparr>fe_next := n\<rparr>) e = shows_entry x e"
  by (simp add: shows_entry_def)

lemma link_dent_simps [simp]:
  "kern (link_dent lst P e s) = kern s" "nodes (link_dent lst P e s) = nodes s" "num_nodes (link_dent lst P e s) = num_nodes s"
  "length (fs_datas (link_dent lst P e s)) = length (fs_datas s)" "length (fs_dents (link_dent lst P e s)) = length (fs_dents s)"
  by (simp_all add: link_dent_def split: option.split)

lemma link_dent_dents:
  "fs_dents (link_dent lst P e s) = (case lst of None \<Rightarrow> fs_dents s | Some l \<Rightarrow> (fs_dents s)[l := (fs_dents s ! l)\<lparr>fe_next := Some e\<rparr>])"
  by (simp add: link_dent_def split: option.split)

lemma link_dent_datas:
  "fs_datas (link_dent lst P e s) = (case lst of None \<Rightarrow> (fs_datas s)[P := (fs_datas s ! P)\<lparr>fd_dirent := Some e\<rparr>] | Some l \<Rightarrow> fs_datas s)"
  by (simp add: link_dent_def split: option.split)

text \<open>A child has been loaded into \<open>s2\<close>; its entry is filled in as number \<open>e\<close> and linked.\<close>

lemma shown_step:
  assumes shown: "shown_so_far sb sec P E fd0 vis ts v lst ids s" and P: "P < length (fs_datas s)"
    and e: "e = length (fs_dents s)" "e < length (fs_dents s2)" "E \<le> e" and len: "length (fs_datas s) \<le> length (fs_datas s2)"
    and same: "same_on {..<length (fs_datas s)} {..<length (fs_dents s)} s s2"
    and child: "mirrors s2 sb sec {length (fs_datas s)..<length (fs_datas s2)} {Suc e..<length (fs_dents s2)} q (ts ! v)"
    and x: "shows_entry x (vis ! v)" "fe_node x = Some q" "fe_next x = None"
    and s4: "s4 = link_dent lst P e (s2\<lparr>fs_dents := (fs_dents s2)[e := x]\<rparr>)"
  shows "shown_so_far sb sec P E fd0 vis ts (Suc v) (Some e) (ids @ [e]) s4" and "same_on {..<P} {..<E} s s4"
proof -
  note a = shown[unfolded shown_so_far_def]
  let ?s3 = "s2\<lparr>fs_dents := (fs_dents s2)[e := x]\<rparr>"
  have ids: "set ids \<subseteq> {E..<e}" "distinct ids" "length ids = v" using a e(1) by auto
  have lst: "lst = (if ids = [] then None else Some (last ids))" using a by blast
  have last: "last ids \<in> set ids" "last ids < e" "E \<le> last ids" if "ids \<noteq> []" using that subsetD[OF ids(1) last_in_set[OF that]] by auto
  have dent: "fs_dents s4 ! i = (if i = e then x else if ids \<noteq> [] \<and> i = last ids then (fs_dents s2 ! i)\<lparr>fe_next := Some e\<rparr> else fs_dents s2 ! i)"
    if "i < length (fs_dents s2)" for i
    using that e(2) ids(1) last unfolding s4 link_dent_dents lst by (auto simp: nth_list_update)
  have old: "i < e \<Longrightarrow> fs_dents s2 ! i = fs_dents s ! i" for i using same e(1) by (simp add: same_on_def)
  have dat: "fs_datas s4 ! i = fs_datas s2 ! i" if "i \<noteq> P" for i
    using that unfolding s4 link_dent_datas by (simp split: option.split)
  have dat2: "i < length (fs_datas s) \<Longrightarrow> fs_datas s2 ! i = fs_datas s ! i" for i using same by (simp add: same_on_def)
  have l4: "length (fs_dents s4) = length (fs_dents s2)" "length (fs_datas s4) = length (fs_datas s2)" "nodes s4 = nodes s2"
    unfolding s4 by simp_all
  have nodes: "nodes s p = Some n \<Longrightarrow> nodes s4 p = Some n" for p n using same l4(3) by (simp add: same_on_def)
  show "same_on {..<P} {..<E} s s4"
    using nodes dat dat2 dent old l4 P e len ids(1) last unfolding same_on_def by auto
  have sameold: "same_on {P<..<length (fs_datas s)} ({E..<length (fs_dents s)} - set ids) s s4"
    using nodes dat dat2 dent old l4 P e len last unfolding same_on_def by auto
  have samenew: "same_on {length (fs_datas s)..<length (fs_datas s2)} {Suc e..<length (fs_dents s2)} s2 s4"
    using dat dent l4 P ids(1) last unfolding same_on_def by auto
  have link: "linked s4 (fd_dirent (fs_datas s4 ! P)) (ids @ [e]) \<and> fs_datas s4 ! P = fd0\<lparr>fd_dirent := Some (hd (ids @ [e]))\<rparr>"
  proof (cases "ids = []")
    case True
    then have "fs_datas s4 ! P = fd0\<lparr>fd_dirent := Some e\<rparr>"
      using a dat2[OF P] P len lst unfolding s4 link_dent_datas by simp
    then show ?thesis using True dent[OF e(2)] x(3) e(2) l4 by simp
  next
    case False
    have d: "fs_datas s4 ! P = fd0\<lparr>fd_dirent := Some (hd ids)\<rparr>"
      using a dat2[OF P] lst False unfolding s4 link_dent_datas by simp
    have "linked s (fd_dirent (fs_datas s ! P)) ids" using a by blast
    moreover have "fs_datas s ! P = fd0\<lparr>fd_dirent := Some (hd ids)\<rparr>" using a False by simp
    ultimately have "linked s (Some (hd ids)) ids" by simp
    moreover have "same_on {} (set ids) s ?s3"
      using nodes l4(3) old e unfolding same_on_def by (auto simp: nth_list_update)
    ultimately have "linked ?s3 (Some (hd ids)) ids" by (rule linked_same[OF _ subset_refl])
    then have "linked (?s3\<lparr>fs_dents := (fs_dents ?s3)[last ids := (fs_dents ?s3 ! last ids)\<lparr>fe_next := Some e\<rparr>]\<rparr>) (Some (hd ids)) (ids @ [e])"
      using e(2) x(3) ids False by (intro linked_append) auto
    then have "linked s4 (Some (hd ids)) (ids @ [e])" unfolding s4 link_dent_def using lst False by simp
    then show ?thesis using d False by simp
  qed
  have each: "shows_entry (fs_dents s4 ! ((ids @ [e]) ! j)) (vis ! j) \<and>
      (\<exists>q. fe_node (fs_dents s4 ! ((ids @ [e]) ! j)) = Some q \<and>
        mirrors s4 sb sec {P<..<length (fs_datas s4)} ({E..<length (fs_dents s4)} - set (ids @ [e])) q (ts ! j))" if j: "j < Suc v" for j
  proof (cases "j < v")
    case True
    have i: "(ids @ [e]) ! j = ids ! j" "ids ! j < e" using True ids by (auto simp: nth_append dest: nth_mem)
    have "fs_dents s4 ! (ids ! j) = fs_dents s ! (ids ! j) \<or> fs_dents s4 ! (ids ! j) = (fs_dents s ! (ids ! j))\<lparr>fe_next := Some e\<rparr>"
      using dent[of "ids ! j"] old i(2) e(2) by auto
    moreover obtain q where q: "shows_entry (fs_dents s ! (ids ! j)) (vis ! j)" "fe_node (fs_dents s ! (ids ! j)) = Some q"
      "mirrors s sb sec {P<..<length (fs_datas s)} ({E..<length (fs_dents s)} - set ids) q (ts ! j)" using a True by blast
    moreover have "mirrors s4 sb sec {P<..<length (fs_datas s4)} ({E..<length (fs_dents s4)} - set (ids @ [e])) q (ts ! j)"
      using l4 len e by (intro mirrors_same[OF q(3) sameold]) auto
    ultimately show ?thesis unfolding i(1) by auto
  next
    case False
    then have i: "j = v" "(ids @ [e]) ! v = e" using j ids(3) by (simp_all add: nth_append)
    have "mirrors s4 sb sec {P<..<length (fs_datas s4)} ({E..<length (fs_dents s4)} - set (ids @ [e])) q (ts ! v)"
      using l4 P e ids(1) by (intro mirrors_same[OF child samenew]) auto
    then show ?thesis unfolding i using dent[OF e(2)] x by simp
  qed
  show "shown_so_far sb sec P E fd0 vis ts (Suc v) (Some e) (ids @ [e]) s4"
    unfolding shown_so_far_def using link each ids e l4 by auto
qed

lemma tree_nodes_pos [simp]: "0 < tree_nodes t"
  by (cases t) simp_all

lemma fold_max_le: "fold max xs (b :: nat) \<le> n \<longleftrightarrow> b \<le> n \<and> (\<forall>x\<in>set xs. x \<le> n)"
  by (induction xs arbitrary: b) auto

lemma filter_take_nth:
  assumes "j < length xs" "P (xs ! j)"
  shows "length (filter P (take j xs)) < length (filter P xs)" and "filter P xs ! length (filter P (take j xs)) = xs ! j"
proof -
  have "xs = take j xs @ xs ! j # drop (Suc j) xs" by (rule id_take_nth_drop[OF assms(1)])
  then have f: "filter P xs = filter P (take j xs) @ xs ! j # filter P (drop (Suc j) xs)"
    using assms(2) by (metis filter.simps(2) filter_append)
  show "length (filter P (take j xs)) < length (filter P xs)" "filter P xs ! length (filter P (take j xs)) = xs ! j"
    unfolding f by simp_all
qed

lemma filter_take_Suc: "j < length xs \<Longrightarrow> filter P (take (Suc j) xs) = filter P (take j xs) @ (if P (xs ! j) then [xs ! j] else [])"
  by (simp add: take_Suc_conv_app_nth)

context fs_kernel begin

lemma cb_left_out:
  assumes "dirent_ok e" "left_out e" "partly_loaded sb s0 P vis ts v lst s" "P < length (fs_datas s)"
  shows "\<exists>s'. ext2_dirent_to_fs_node_cb junk load P (de_ino e) (de_name e @ [0]) lst s = Some (Inr (True, lst, s')) \<and>
    partly_loaded sb s0 P vis ts v lst s'"
proof -
  let ?s = "s\<lparr>fs_dents := fs_dents s @ [junk_dirent junk]\<rparr>"
  note p = assms(3)[unfolded partly_loaded_def]
  have "0 \<notin> set (de_name e)" using assms(1) by (simp add: dirent_ok_def)
  then have "ext2_dirent_to_fs_node_cb junk load P (de_ino e) (de_name e @ [0]) lst s = Some (Inr (True, lst, ?s))"
    using left_out_cmp[of "de_name e"] assms(2) by (auto simp: ext2_dirent_to_fs_node_cb_def Let_def left_out_def)
  moreover have "partly_loaded sb s0 P vis ts v lst ?s"
  proof -
    obtain ids where "shown_so_far sb (sector (kern s0)) P (length (fs_dents s0)) (fs_datas s0 ! P) vis ts v lst ids s"
      using p by blast
    from shown_grow[OF this assms(4), of ?s]
    have "shown_so_far sb (sector (kern s0)) P (length (fs_dents s0)) (fs_datas s0 ! P) vis ts v lst ids ?s"
      by (simp add: same_on_def nth_append)
    moreover have "same_on {..<P} {..<length (fs_dents s0)} s0 ?s"
      using p by (auto simp: same_on_def nth_append)
    ultimately show ?thesis using p by (auto simp: partly_loaded_def ready_def)
  qed
  ultimately show ?thesis by blast
qed

lemma cb_visible:
  assumes e: "dirent_ok e" "\<not> left_out e" "e = vis ! v" "v < length ts" "tree_ino (ts ! v) = de_ino e"
    and pl: "partly_loaded sb s0 P vis ts v lst s" and P: "P < length (fs_datas s)" and j: "junk_ok junk"
    and room: "tree_nodes (ts ! v) \<le> left (sem (kern s))"
    and load: "\<And>s1. ready s1 \<Longrightarrow> sector (kern s1) = sector (kern s0) \<Longrightarrow> left (sem (kern s1)) = left (sem (kern s)) \<Longrightarrow>
      length (fs_datas s1) = length (fs_datas s) \<Longrightarrow>
      \<exists>p s2. load (de_ino e) (de_name e @ [0]) (of_nat (length (de_name e))) s1 = Some (Inr (Some p, s2)) \<and> loaded sb s1 (ts ! v) p s2"
  shows "\<exists>lst' s'. ext2_dirent_to_fs_node_cb junk load P (de_ino e) (de_name e @ [0]) lst s = Some (Inr (True, lst', s')) \<and>
    partly_loaded sb s0 P vis ts (Suc v) lst' s'"
proof -
  let ?e = "length (fs_dents s)" and ?nm = "de_name e"
  let ?s1 = "s\<lparr>fs_dents := fs_dents s @ [junk_dirent junk]\<rparr>"
  note p = pl[unfolded partly_loaded_def]
  have nm: "0 \<notin> set ?nm" "length ?nm < 256" using e(1) by (simp_all add: dirent_ok_def)
  obtain r where r: "res_bind (strncmp [46, 0] (?nm @ [0]) (length ?nm)) (\<lambda>r. if r = 0 then Inr 0 else strncmp [46, 46, 0] (?nm @ [0]) (length ?nm)) = Inr r"
    "r \<noteq> 0" using left_out_cmp[OF nm(1)] e(2) by (auto simp: left_out_def)
  obtain q s2 where s2: "load (de_ino e) (?nm @ [0]) (of_nat (length ?nm)) ?s1 = Some (Inr (Some q, s2))" "loaded sb ?s1 (ts ! v) q s2"
    using load[of ?s1] p by (auto simp: ready_def)
  note l = s2(2)[unfolded loaded_def]
  define x where "x = (junk_dirent junk)\<lparr>fe_node := Some q, fe_name_len := of_nat (length ?nm),
    fe_name := ?nm @ drop (length ?nm) (fe_name (junk_dirent junk)), fe_inode := de_ino e\<rparr>"
  have mc: "memcpy (fe_name (junk_dirent junk)) (?nm @ [0]) (min (length ?nm) 256) = Inr (?nm @ drop (length ?nm) (fe_name (junk_dirent junk)))"
    using nm(2) j by (intro memcpy_name) (simp_all add: junk_ok_def)
  define s4 where "s4 = link_dent lst P ?e (s2\<lparr>fs_dents := (fs_dents s2)[?e := x]\<rparr>)"
  have run: "ext2_dirent_to_fs_node_cb junk load P (de_ino e) (?nm @ [0]) lst s = Some (Inr (True, Some ?e, s4))"
    using r s2(1) mc by (simp add: ext2_dirent_to_fs_node_cb_def Let_def s4_def x_def)
  have x: "shows_entry x (vis ! v)" "fe_node x = Some q" "fe_next x = None"
    using j nm(2) by (simp_all add: x_def shows_entry_def junk_ok_def e(3)[symmetric])
  obtain ids where sh: "shown_so_far sb (sector (kern s0)) P (length (fs_dents s0)) (fs_datas s0 ! P) vis ts v lst ids s"
    using p by blast
  have same: "same_on {..<length (fs_datas s)} {..<length (fs_dents s)} s s2"
  proof (rule same_on_trans)
    show "same_on {..<length (fs_datas s)} {..<length (fs_dents s)} s ?s1" by (simp add: same_on_def nth_append)
    show "same_on {..<length (fs_datas s)} {..<length (fs_dents s)} ?s1 s2"
      using l by (auto intro: same_on_mono)
  qed
  have el: "?e < length (fs_dents s2)" "length (fs_dents s0) \<le> ?e" "length (fs_datas s) \<le> length (fs_datas s2)" using l p by simp_all
  have child: "mirrors s2 sb (sector (kern s0)) {length (fs_datas s)..<length (fs_datas s2)} {Suc ?e..<length (fs_dents s2)} q (ts ! v)"
  proof -
    have "sector (kern s) = sector (kern s0)" using p by simp
    moreover have "mirrors s2 sb (sector (kern ?s1)) {length (fs_datas ?s1)..<length (fs_datas s2)} {length (fs_dents ?s1)..<length (fs_dents s2)} q (ts ! v)"
      using l by blast
    ultimately show ?thesis by simp
  qed
  note step = shown_step[OF sh P refl el same child x s4_def]
  have "same_on {..<P} {..<length (fs_dents s0)} s0 s4" using p step(2) by (blast intro: same_on_trans)
  moreover have "ready s4" "num_nodes s0 \<le> num_nodes s4" "length (fs_dents s0) \<le> length (fs_dents s4)"
    using l p el by (simp_all add: s4_def ready_def)
  moreover have "sector (kern s4) = sector (kern s0)" using l p by (simp add: s4_def)
  moreover have "left (sem (kern s4)) = left (sem (kern s0)) - sum_list (map tree_nodes (take (Suc v) ts))"
    using l p by (simp add: s4_def sum_take_Suc[OF e(4)])
  moreover have "length (fs_datas s4) = Suc P + sum_list (map tree_nodes (take (Suc v) ts))"
    using l p by (simp add: s4_def sum_take_Suc[OF e(4)])
  ultimately have "partly_loaded sb s0 P vis ts (Suc v) (Some ?e) s4"
    using step(1) by (auto simp: partly_loaded_def)
  then show ?thesis using run by blast
qed

end

lemma set_node_simps [simp]:
  "kern (set_node s p n) = kern s" "nodes (set_node s p n) = (nodes s)(p \<mapsto> n)"
  "num_nodes (set_node s p n) = num_nodes s" "fs_datas (set_node s p n) = fs_datas s" "fs_dents (set_node s p n) = fs_dents s"
  by (simp_all add: set_node_def)

lemma junk_name:
  assumes "junk_ok junk" "length nm < 256"
  shows "\<exists>m. memcpy (name (junk_node junk)) (nm @ [0]) (min (length nm) FS_MAX_NAME_LEN) = Inr m"
  using assms memcpy_append[of "min (length nm) FS_MAX_NAME_LEN" "name (junk_node junk)" "nm @ [0]"]
  by (simp add: junk_ok_def FS_MAX_NAME_LEN_def)

context fs_kernel begin

text \<open>The part that files and directories share: the data, the node and its lock.\<close>

lemma inode2vfs_start:
  assumes "ready s" "sb_ok sb" "inode_on_disk sb (sector (kern s)) limit ino" "0 < left (sem (kern s))"
    "junk_ok junk" "length nm < 256"
  shows "\<exists>s1 l d m. ext2_find_inode (fs_ops k) sb ino (decode_inode (replicate INODE_SIZE 0)) s = Inr (True, inode_at sb (sector (kern s)) ino, s1) \<and>
    after_io s s1 \<and> sector (kern s1) = sector (kern s) \<and>
    res_bind (k_sm_new k (kern s1)) (\<lambda>(l, d). res_bind (memcpy (name (junk_node junk)) (nm @ [0]) (min (unat (of_nat (length nm) :: u32)) FS_MAX_NAME_LEN)) (\<lambda>m. Inr (l, d, m)))
      = Inr (l, d, m) \<and> ok d \<and> sector d = sector (kern s) \<and> left (sem d) = left (sem (kern s)) - 1"
proof -
  have k: "ok (kern s)" using assms(1) by (simp add: ready_def)
  obtain s1 where s1: "ext2_find_inode (fs_ops k) sb ino (decode_inode (replicate INODE_SIZE 0)) s = Inr (True, inode_at sb (sector (kern s)) ino, s1)"
    "after_io s s1" "sector (kern s1) = sector (kern s)"
    using lifted.find_inode_ok[OF after_io_refl[OF k] assms(2,3)] by blast
  have k1: "ok (kern s1)" "sem (kern s1) = sem (kern s)" using s1(2) by (simp_all add: after_io_def)
  obtain l d where "k_sm_new k (kern s1) = Inr (l, d)" "ok d" "sector d = sector (kern s1)" "left (sem d) = left (sem (kern s1)) - 1"
    using new_ok[OF k1(1)] assms(4) k1(2) by auto
  moreover obtain m where "memcpy (name (junk_node junk)) (nm @ [0]) (min (length nm) FS_MAX_NAME_LEN) = Inr m"
    using junk_name[OF assms(5,6)] by blast
  moreover have "unat (of_nat (length nm) :: u32) = length nm" using assms(6) by (simp add: unat_of_nat)
  ultimately show ?thesis using s1 k1 by auto
qed

end

context fs_kernel begin

text \<open>The state after the node \<open>n\<close> and its data were made.\<close>

definition with_node :: "ext2_superblock \<Rightarrow> 'd ext2_fs \<Rightarrow> 'd \<Rightarrow> int \<Rightarrow> fs_node \<Rightarrow> 'd ext2_fs" where
  "with_node sb s d l n = set_node (s\<lparr>kern := d, num_nodes := num_nodes s + 1,
     fs_datas := fs_datas s @ [\<lparr>fd_sb = sb, fd_in = NullIn, fd_rc = 0, fd_lock = l, fd_dirent = None\<rparr>]\<rparr>) (HeapNode (num_nodes s)) n"

lemma with_node_same:
  assumes "ready s" shows "same_on D E s (with_node sb s d l n)"
  using assms by (fastforce simp: with_node_def same_on_def ready_def nth_append)

lemma with_node_data:
  assumes "dri_res_i n = of_nat (length (fs_datas s))" "length (fs_datas s) < 2 ^ 32"
  shows "node_data (with_node sb s d l n) (HeapNode (num_nodes s)) n \<lparr>fd_sb = sb, fd_in = NullIn, fd_rc = 0, fd_lock = l, fd_dirent = None\<rparr>"
  using assms by (simp add: node_data_def with_node_def unat_of_nat)

lemma with_node_ready:
  assumes "ready s" "ok d" shows "ready (with_node sb s d l n)"
  using assms by (auto simp: with_node_def ready_def)

lemma with_node_simps [simp]:
  "kern (with_node sb s d l n) = d" "num_nodes (with_node sb s d l n) = Suc (num_nodes s)"
  "fs_datas (with_node sb s d l n) = fs_datas s @ [\<lparr>fd_sb = sb, fd_in = NullIn, fd_rc = 0, fd_lock = l, fd_dirent = None\<rparr>]"
  "fs_dents (with_node sb s d l n) = fs_dents s" "nodes (with_node sb s d l n) (HeapNode (num_nodes s)) = Some n"
  by (simp_all add: with_node_def)

text \<open>One level: the listing of a directory loads its children.\<close>

lemma load_dir:
  assumes load: "\<And>t nm s. t \<in> set ts \<Longrightarrow> ready s \<Longrightarrow> sector (kern s) = S \<Longrightarrow> tree_nodes t \<le> left (sem (kern s)) \<Longrightarrow>
      length (fs_datas s) + tree_nodes t < 2 ^ 32 \<Longrightarrow> 0 \<notin> set nm \<Longrightarrow> length nm < 256 \<Longrightarrow>
      \<exists>p s'. load (tree_ino t) (nm @ [0]) (of_nat (length nm)) s = Some (Inr (Some p, s')) \<and> loaded sb s t p s'"
    and d: "sb_ok sb" "dir_on_disk sb S limit i ess" "map tree_ino ts = map de_ino (visible ess)" "junk_ok junk"
    and s: "ready s" "sector (kern s) = S" "length (fs_datas s) = Suc P" "fd_dirent (fs_datas s ! P) = None"
      "sum_list (map tree_nodes ts) \<le> left (sem (kern s))" "Suc P + sum_list (map tree_nodes ts) < 2 ^ 32"
  shows "\<exists>c s'. ext2_dir_ls (fs_ops k) sb i (ext2_dirent_to_fs_node_cb junk load P) None s = Some (Inr (True, c, s')) \<and>
    partly_loaded sb s P (visible ess) ts (length ts) c s'"
proof -
  let ?es = "concat ess" and ?cb = "ext2_dirent_to_fs_node_cb junk load P"
  define cnt where "cnt j = length (filter (\<lambda>e. \<not> left_out e) (take j ?es))" for j
  define I where "I j = partly_loaded sb s P (visible ess) ts (cnt j)" for j
  have len: "length ts = length (visible ess)" using d(3) by (metis length_map)
  have full: "cnt (length ?es) = length ts" using len by (simp add: cnt_def visible_def)
  have okes: "dirent_ok (?es ! j)" if "j < length ?es" for j
  proof -
    have "?es ! j \<in> set (concat ess)" using that by (rule nth_mem)
    then obtain b where "b < length ess" "?es ! j \<in> set (ess ! b)" by (metis UN_E set_concat in_set_conv_nth)
    then show ?thesis using d(2) by (simp add: dir_on_disk_def)
  qed
  have "\<exists>c' s'. ls_blocks ?cb (fs_ops k) sb i (of_nat 0) None s = Some (Inr (c', s')) \<and> I (length ?es) c' s'"
  proof (rule ls_blocks_run[OF d(1,2), where I = I])
    show "ok (kern s) \<and> sector (kern s) = S" if "I j c s" for j c s
      using that by (simp add: I_def partly_loaded_def ready_def assms)
    show "I j c s'" if "I j c s" "after_io s s'" "sector (kern s') = sector (kern s)" for j c s s'
      using partly_loaded_io that unfolding I_def by blast
    show "I (length (concat (take 0 ess))) None s"
      using s(1-5) by (auto simp: I_def cnt_def partly_loaded_def shown_so_far_def same_on_refl intro!: exI[of _ "[]"])
    show "\<exists>c' s'. ?cb (de_ino (?es ! j)) (de_name (?es ! j) @ [0]) c sx = Some (Inr (True, c', s')) \<and> I (Suc j) c' s'"
      if j: "j < length ?es" and I: "I j c sx" for j c sx
    proof -
      note pl = I[unfolded I_def]
      have P: "P < length (fs_datas sx)" "ready sx" "sector (kern sx) = S"
        using pl s(2) by (simp_all add: partly_loaded_def)
      show ?thesis
      proof (cases "left_out (?es ! j)")
        case True
        then have "cnt (Suc j) = cnt j" using j by (simp add: cnt_def filter_take_Suc)
        then show ?thesis using cb_left_out[OF okes[OF j] True pl P(1), of junk load] unfolding I_def by metis
      next
        case False
        have vis: "cnt j < length (visible ess)" "visible ess ! cnt j = ?es ! j"
          using filter_take_nth[of j ?es "\<lambda>e. \<not> left_out e"] j False by (simp_all add: cnt_def visible_def)
        then have v: "cnt j < length ts" using len by simp
        have ino: "tree_ino (ts ! cnt j) = de_ino (?es ! j)" using d(3) vis v by (metis nth_map)
        have Suc: "cnt (Suc j) = Suc (cnt j)" using j False by (simp add: cnt_def filter_take_Suc)
        have sum: "sum_list (map tree_nodes (take (cnt j) ts)) + tree_nodes (ts ! cnt j) \<le> sum_list (map tree_nodes ts)"
          using sum_take_Suc[OF v, of tree_nodes] sum_take_le[of tree_nodes "Suc (cnt j)" ts] by simp
        have room: "tree_nodes (ts ! cnt j) \<le> left (sem (kern sx))"
          using pl s(5) sum by (simp add: partly_loaded_def)
        have "\<exists>p s2. load (de_ino (?es ! j)) (de_name (?es ! j) @ [0]) (of_nat (length (de_name (?es ! j)))) s1 = Some (Inr (Some p, s2)) \<and>
            loaded sb s1 (ts ! cnt j) p s2"
          if 1: "ready s1" "sector (kern s1) = sector (kern s)" "left (sem (kern s1)) = left (sem (kern sx))" "length (fs_datas s1) = length (fs_datas sx)" for s1
        proof (rule load[of "ts ! cnt j" s1, unfolded ino])
          show "ts ! cnt j \<in> set ts" using v by simp
          show "length (fs_datas s1) + tree_nodes (ts ! cnt j) < 2 ^ 32"
            using pl 1(4) s(6) sum by (simp add: partly_loaded_def)
          show "0 \<notin> set (de_name (?es ! j))" "length (de_name (?es ! j)) < 256" using okes[OF j] by (simp_all add: dirent_ok_def)
        qed (use 1 s(2) room in simp_all)
        then show ?thesis
          unfolding I_def Suc by (intro cb_visible[OF okes[OF j] False vis(2)[symmetric] v ino pl P(1) d(4) room])
      qed
    qed
  qed simp
  then show ?thesis using d(2) full by (auto simp: ext2_dir_ls_def dir_on_disk_def I_def)
qed

end

lemma linked_of_last: "ids \<noteq> [] \<Longrightarrow> linked s (Some (hd ids)) ids \<Longrightarrow> linked s dent ids \<longleftrightarrow> dent = Some (hd ids)"
  by (cases ids) auto

lemma dir_not_file [simp]: "EXT2_S_IFDIR \<noteq> EXT2_S_IFREG"
  by (simp add: EXT2_S_IFDIR_def EXT2_S_IFREG_def)

context fs_kernel begin

lemma after_io_with_node:
  assumes "after_io s s1"
  shows "num_nodes s1 = num_nodes s" "fs_datas s1 = fs_datas s"
    "set_node (s1\<lparr>kern := d, num_nodes := num_nodes s + 1,
        fs_datas := fs_datas s @ [\<lparr>fd_sb = sb, fd_in = NullIn, fd_rc = 0, fd_lock = l, fd_dirent = None\<rparr>]\<rparr>) (HeapNode (num_nodes s)) n
      = with_node sb s d l n"
proof -
  have s1: "s1 = s\<lparr>kern := kern s1\<rparr>" using assms by (simp add: after_io_def)
  show "num_nodes s1 = num_nodes s" "fs_datas s1 = fs_datas s" by (subst s1, simp)+
  show "set_node (s1\<lparr>kern := d, num_nodes := num_nodes s + 1,
        fs_datas := fs_datas s @ [\<lparr>fd_sb = sb, fd_in = NullIn, fd_rc = 0, fd_lock = l, fd_dirent = None\<rparr>]\<rparr>) (HeapNode (num_nodes s)) n
      = with_node sb s d l n" by (subst s1) (simp add: with_node_def)
qed

lemma inode2vfs_file:
  assumes "ready s" "sb_ok sb" "inode_on_disk sb (sector (kern s)) limit ino" "0 < left (sem (kern s))"
    and "i_mode (inode_at sb (sector (kern s)) ino) AND EXT2_F_TYPE = EXT2_S_IFREG"
    and "junk_ok junk" "length nm < 256" "Suc (length (fs_datas s)) < 2 ^ 32"
  shows "\<exists>p s'. ext2_inode2vfs (Suc dp) k junk sb ino (nm @ [0]) (of_nat (length nm)) s = Some (Inr (Some p, s')) \<and> loaded sb s (FileT ino) p s'"
proof -
  let ?i = "inode_at sb (sector (kern s)) ino"
  obtain s1 l d m where 1: "ext2_find_inode (fs_ops k) sb ino (decode_inode (replicate INODE_SIZE 0)) s = Inr (True, ?i, s1)"
    "after_io s s1" "sector (kern s1) = sector (kern s)"
    "res_bind (k_sm_new k (kern s1)) (\<lambda>(l, d). res_bind (memcpy (name (junk_node junk)) (nm @ [0]) (min (unat (of_nat (length nm) :: u32)) FS_MAX_NAME_LEN)) (\<lambda>m. Inr (l, d, m))) = Inr (l, d, m)"
    "ok d" "sector d = sector (kern s)" "left (sem d) = left (sem (kern s)) - 1"
    using inode2vfs_start[OF assms(1-4,6,7)] by blast
  define n where "n = (junk_node junk)\<lparr>name_len := min (of_nat (length nm)) (of_nat FS_MAX_NAME_LEN), name := m, inode := ino,
    dri_res_i := of_nat (length (fs_datas s)), perm_mask := ucast (i_mode ?i AND 0xfff), gid := ucast (i_gid ?i),
    uid := ucast (i_uid ?i), fsize := i_size ?i, flags := FS_FILE, vtable := Some Ext2FileVtable\<rparr>"
  let ?s = "with_node sb s d l n"
  have "ext2_inode2vfs (Suc dp) k junk sb ino (nm @ [0]) (of_nat (length nm)) s = Some (Inr (Some (HeapNode (num_nodes s)), ?s))"
    unfolding ext2_inode2vfs.simps 1(1) n_def
    by (simp only: sum.case prod.case bool.case 1(4) Let_def assms(5) if_True after_io_with_node[OF 1(2)]) simp
  moreover have "mirrors ?s sb (sector (kern s)) {length (fs_datas s)..<length (fs_datas ?s)} {length (fs_dents s)..<length (fs_dents ?s)} (HeapNode (num_nodes s)) (FileT ino)"
    using assms(6,8) by (intro mirrors_file[OF with_node_data]) (simp_all add: n_def node_of_def junk_ok_def unat_of_nat)
  ultimately show ?thesis
    using 1(5-7) with_node_ready[OF assms(1)] with_node_same[OF assms(1)] by (auto simp: loaded_def)
qed

lemma inode2vfs_dir:
  assumes "ready s" "sb_ok sb" "tree_on_disk sb (sector (kern s)) limit (DirT ino ess ts)" "tree_nodes (DirT ino ess ts) \<le> left (sem (kern s))"
    and "junk_ok junk" "length nm < 256" "length (fs_datas s) + tree_nodes (DirT ino ess ts) < 2 ^ 32"
    and load: "\<And>t nm s1. t \<in> set ts \<Longrightarrow> ready s1 \<Longrightarrow> sector (kern s1) = sector (kern s) \<Longrightarrow> tree_nodes t \<le> left (sem (kern s1)) \<Longrightarrow>
      length (fs_datas s1) + tree_nodes t < 2 ^ 32 \<Longrightarrow> 0 \<notin> set nm \<Longrightarrow> length nm < 256 \<Longrightarrow>
      \<exists>p s'. ext2_inode2vfs dp k junk sb (tree_ino t) (nm @ [0]) (of_nat (length nm)) s1 = Some (Inr (Some p, s')) \<and> loaded sb s1 t p s'"
  shows "\<exists>p s'. ext2_inode2vfs (Suc dp) k junk sb ino (nm @ [0]) (of_nat (length nm)) s = Some (Inr (Some p, s')) \<and> loaded sb s (DirT ino ess ts) p s'"
proof -
  let ?i = "inode_at sb (sector (kern s)) ino" and ?P = "length (fs_datas s)"
  have on: "inode_on_disk sb (sector (kern s)) limit ino" "dir_on_disk sb (sector (kern s)) limit ?i ess"
    "map tree_ino ts = map de_ino (visible ess)" using assms(3) by simp_all
  have dir: "i_mode ?i AND EXT2_F_TYPE = EXT2_S_IFDIR" using on(2) by (simp add: dir_on_disk_def is_dir_def)
  have pos: "0 < left (sem (kern s))" using assms(4) by simp
  obtain s1 l d m where 1: "ext2_find_inode (fs_ops k) sb ino (decode_inode (replicate INODE_SIZE 0)) s = Inr (True, ?i, s1)"
    "after_io s s1" "sector (kern s1) = sector (kern s)"
    "res_bind (k_sm_new k (kern s1)) (\<lambda>(l, d). res_bind (memcpy (name (junk_node junk)) (nm @ [0]) (min (unat (of_nat (length nm) :: u32)) FS_MAX_NAME_LEN)) (\<lambda>m. Inr (l, d, m))) = Inr (l, d, m)"
    "ok d" "sector d = sector (kern s)" "left (sem d) = left (sem (kern s)) - 1"
    using inode2vfs_start[OF assms(1,2) on(1) pos assms(5,6)] by blast
  define n where "n = (junk_node junk)\<lparr>name_len := min (of_nat (length nm)) (of_nat FS_MAX_NAME_LEN), name := m, inode := ino,
    dri_res_i := of_nat (length (fs_datas s)), perm_mask := ucast (i_mode ?i AND 0xfff), gid := ucast (i_gid ?i),
    uid := ucast (i_uid ?i), fsize := i_size ?i, flags := FS_DIRECTORY, vtable := Some Ext2DirVtable\<rparr>"
  define s2 where "s2 = with_node sb s d l n"
  have s2: "ready s2" "sector (kern s2) = sector (kern s)" "length (fs_datas s2) = Suc ?P" "fd_dirent (fs_datas s2 ! ?P) = None"
    using 1(5,6) with_node_ready[OF assms(1)] by (simp_all add: s2_def)
  have sum: "sum_list (map tree_nodes ts) \<le> left (sem (kern s2))" "Suc ?P + sum_list (map tree_nodes ts) < 2 ^ 32"
    using assms(4,7) 1(7) by (simp_all add: s2_def)
  obtain c s3 where 3: "ext2_dir_ls (fs_ops k) sb ?i (ext2_dirent_to_fs_node_cb junk (ext2_inode2vfs dp k junk sb) ?P) None s2 = Some (Inr (True, c, s3))"
    "partly_loaded sb s2 ?P (visible ess) ts (length ts) c s3"
    using load_dir[where load = "ext2_inode2vfs dp k junk sb", OF load assms(2) on(2,3) assms(5) s2(1,2,3,4) sum] by blast
  have run: "ext2_inode2vfs (Suc dp) k junk sb ino (nm @ [0]) (of_nat (length nm)) s = Some (Inr (Some (HeapNode (num_nodes s)), s3))"
    unfolding ext2_inode2vfs.simps 1(1)
    by (simp only: sum.case prod.case bool.case 1(4) Let_def dir dir_not_file if_True if_False after_io_with_node[OF 1(2)])
      (simp add: n_def[symmetric] s2_def[symmetric] 3(1))
  note p = 3(2)[unfolded partly_loaded_def]
  have len: "length ts = length (visible ess)" using on(3) by (metis length_map)
  obtain ids where ids: "shown_so_far sb (sector (kern s2)) ?P (length (fs_dents s2)) (fs_datas s2 ! ?P) (visible ess) ts (length ts) c ids s3"
    using p by blast
  note sh = ids[unfolded shown_so_far_def]
  have same: "same_on {..<?P} {..<length (fs_dents s)} s s3"
    using same_on_trans[OF with_node_same[OF assms(1)], of _ _ sb d l n s3] p by (simp add: s2_def)
  have P: "?P < length (fs_datas s3)" using p by simp
  define fd where "fd = fs_datas s3 ! ?P"
  have data: "node_data s3 (HeapNode (num_nodes s)) n fd"
  proof -
    have "nodes s2 (HeapNode (num_nodes s)) = Some n" by (simp add: s2_def)
    then have "nodes s3 (HeapNode (num_nodes s)) = Some n" using p by (simp add: same_on_def)
    moreover have "unat (dri_res_i n) = ?P" using assms(7) by (simp add: n_def unat_of_nat)
    ultimately show ?thesis using P by (simp add: node_data_def fd_def)
  qed
  have u: "unat (dri_res_i n) = ?P" using assms(7) by (simp add: n_def unat_of_nat)
  have ds: "length (fs_dents s2) = length (fs_dents s)" by (simp add: s2_def)
  have "mirrors s3 sb (sector (kern s)) {?P..<length (fs_datas s3)} {length (fs_dents s)..<length (fs_dents s3)} (HeapNode (num_nodes s)) (DirT ino ess ts)"
  proof (rule mirrors_dir[OF data])
    show "unat (dri_res_i n) \<in> {?P..<length (fs_datas s3)}" using u P by simp
    show "node_of n ?i ino" "flags n = FS_DIRECTORY" "vtable n = Some Ext2DirVtable" using assms(5) by (simp_all add: n_def node_of_def junk_ok_def)
    show "linked s3 (fd_dirent fd) ids" unfolding fd_def using sh by blast
    show "set ids \<subseteq> {length (fs_dents s)..<length (fs_dents s3)}" using sh ds by simp
    show "length ids = length ts" "length ids = length (visible ess)" using sh len by auto
    show "\<forall>j<length ids. shows_entry (fs_dents s3 ! (ids ! j)) (visible ess ! j) \<and>
        (\<exists>q. fe_node (fs_dents s3 ! (ids ! j)) = Some q \<and>
          mirrors s3 sb (sector (kern s)) {?P..<length (fs_datas s3)} {length (fs_dents s)..<length (fs_dents s3)} q (ts ! j))"
    proof (intro allI impI)
      fix j assume "j < length ids"
      then have "j < length ts" using sh by simp
      then obtain q where q: "shows_entry (fs_dents s3 ! (ids ! j)) (visible ess ! j)" "fe_node (fs_dents s3 ! (ids ! j)) = Some q"
        "mirrors s3 sb (sector (kern s2)) {?P<..<length (fs_datas s3)} ({length (fs_dents s2)..<length (fs_dents s3)} - set ids) q (ts ! j)"
        using sh by blast
      have "mirrors s3 sb (sector (kern s2)) {?P..<length (fs_datas s3)} {length (fs_dents s)..<length (fs_dents s3)} q (ts ! j)"
        using ds by (intro mirrors_same[OF q(3) same_on_refl]) auto
      then show "shows_entry (fs_dents s3 ! (ids ! j)) (visible ess ! j) \<and>
          (\<exists>q. fe_node (fs_dents s3 ! (ids ! j)) = Some q \<and>
            mirrors s3 sb (sector (kern s)) {?P..<length (fs_datas s3)} {length (fs_dents s)..<length (fs_dents s3)} q (ts ! j))"
        using q(1,2) s2(2) by simp
    qed
  qed
  moreover have "left (sem (kern s3)) = left (sem (kern s)) - tree_nodes (DirT ino ess ts)"
    "length (fs_datas s3) = ?P + tree_nodes (DirT ino ess ts)" "num_nodes s \<le> num_nodes s3" "length (fs_dents s) \<le> length (fs_dents s3)"
    using p 1(7) ds by (simp_all add: s2_def)
  ultimately have "loaded sb s (DirT ino ess ts) (HeapNode (num_nodes s)) s3"
    using p s2(2) same by (simp add: loaded_def)
  then show ?thesis using run by blast
qed

text \<open>A tree on the disk becomes nodes that show it.\<close>

theorem inode2vfs_ok:
  assumes "tree_depth t \<le> dp" "tree_on_disk sb (sector (kern s)) limit t" "sb_ok sb" "ready s" "tree_nodes t \<le> left (sem (kern s))"
    and "length (fs_datas s) + tree_nodes t < 2 ^ 32" "junk_ok junk" "length nm < 256"
  shows "\<exists>p s'. ext2_inode2vfs dp k junk sb (tree_ino t) (nm @ [0]) (of_nat (length nm)) s = Some (Inr (Some p, s')) \<and> loaded sb s t p s'"
  using assms(1,2,4,5,6,8)
proof (induction dp arbitrary: t s nm)
  case 0
  then show ?case by (cases t) simp_all
next
  case (Suc dp)
  show ?case
  proof (cases t)
    case (FileT ino)
    then show ?thesis using Suc.prems assms(3,7) inode2vfs_file[of s sb ino junk nm dp] by simp
  next
    case (DirT ino ess ts)
    have "\<exists>p s'. ext2_inode2vfs dp k junk sb (tree_ino u) (nm' @ [0]) (of_nat (length nm')) s1 = Some (Inr (Some p, s')) \<and> loaded sb s1 u p s'"
      if "u \<in> set ts" "ready s1" "sector (kern s1) = sector (kern s)" "tree_nodes u \<le> left (sem (kern s1))"
        "length (fs_datas s1) + tree_nodes u < 2 ^ 32" "length nm' < 256" for u nm' s1
      using that Suc.prems(1,2) DirT by (intro Suc.IH) (simp_all add: fold_max_le)
    then show ?thesis
      unfolding DirT tree_ino.simps
      using Suc.prems assms(3,7) DirT by (intro inode2vfs_dir) simp_all
  qed
qed

end

section \<open>Directories of nodes\<close>

lemma skip_dents_linked: "linked s dent ids \<Longrightarrow> skip_dents s n dent = Inr (if n < length ids then Some (ids ! n) else None)"
proof (induction ids arbitrary: dent n)
  case Nil
  then show ?case by (cases n) simp_all
next
  case (Cons x xs)
  then show ?case by (cases n) (simp_all add: arr_get_def)
qed

lemma readdir_entry:
  assumes "node_data s p n fd" "linked s (fd_dirent fd) ids" "unat index < length ids" "shows_entry (fs_dents s ! (ids ! unat index)) e"
    and "length (de_name e) \<le> 128" "length (d_name out) = 128"
  shows "\<exists>nm. ext2_dir_readdir s p index out = Inr (True, out\<lparr>d_name := nm, d_name_len := of_nat (length (de_name e)), d_inode := de_ino e\<rparr>) \<and>
    length nm = 128 \<and> take (length (de_name e)) nm = de_name e"
proof -
  let ?x = "fs_dents s ! (ids ! unat index)"
  have x: "arr_get (fs_dents s) (int (ids ! unat index)) = Inr ?x"
    using linked_less[OF assms(2)] assms(3) by (simp add: arr_get_def)
  have u: "unat (fe_name_len ?x) = length (de_name e)" using assms(4,5) by (simp add: shows_entry_def unat_of_nat)
  have m: "memcpy (d_name out) (fe_name ?x) 128 = Inr (take 128 (fe_name ?x) @ drop 128 (d_name out))"
    using assms(4,6) by (intro memcpy_append) (simp_all add: shows_entry_def)
  have "take (length (de_name e)) (take 128 (fe_name ?x)) = de_name e" using assms(4,5) by (simp add: shows_entry_def min_def)
  moreover have "max (length (de_name e)) FS_MAX_NAME_LEN = 128" using assms(5) by (simp add: FS_MAX_NAME_LEN_def)
  ultimately show ?thesis
    using node_dataD[OF assms(1)] skip_dents_linked[OF assms(2), of "unat index"] x u m assms(3,4,6)
    by (intro exI[of _ "take 128 (fe_name ?x)"]) (simp add: ext2_dir_readdir_def shows_entry_def)
qed

lemma memcpy_short: "length b < k \<Longrightarrow> memcpy b src k = Inl OutOfBounds"
  by (induction b src k rule: memcpy.induct) simp_all

text \<open>A longer name does not fit the caller's object.\<close>

lemma readdir_long_name:
  assumes "node_data s p n fd" "linked s (fd_dirent fd) ids" "unat index < length ids" "shows_entry (fs_dents s ! (ids ! unat index)) e"
    and "128 < length (de_name e)" "length (de_name e) < 256" "length (d_name out) = 128"
  shows "ext2_dir_readdir s p index out = Inl OutOfBounds"
proof -
  let ?x = "fs_dents s ! (ids ! unat index)"
  have x: "arr_get (fs_dents s) (int (ids ! unat index)) = Inr ?x"
    using linked_less[OF assms(2)] assms(3) by (simp add: arr_get_def)
  have u: "unat (fe_name_len ?x) = length (de_name e)" using assms(4,6) by (simp add: shows_entry_def unat_of_nat)
  have "max (length (de_name e)) FS_MAX_NAME_LEN = length (de_name e)" using assms(5) by (simp add: FS_MAX_NAME_LEN_def)
  then show ?thesis
    using node_dataD[OF assms(1)] skip_dents_linked[OF assms(2), of "unat index"] x u memcpy_short[of "d_name out" "length (de_name e)"] assms(3-7)
    by (simp add: ext2_dir_readdir_def shows_entry_def)
qed

lemma readdir_end:
  assumes "node_data s p n fd" "linked s (fd_dirent fd) ids" "length ids \<le> unat index"
  shows "ext2_dir_readdir s p index out = Inr (False, out)"
  using assms(3) node_dataD[OF assms(1)] skip_dents_linked[OF assms(2), of "unat index"] by (simp add: ext2_dir_readdir_def)

lemma strnlen_le: "n < length a \<Longrightarrow> \<exists>k\<le>n. strnlen a n = Inr k \<and> (k = n \<longleftrightarrow> 0 \<notin> set (take n a))"
proof (induction a arbitrary: n)
  case (Cons c a)
  show ?case
  proof (cases n)
    case (Suc m)
    then show ?thesis using Cons.IH[of m] Cons.prems by (cases "c = 0") auto
  qed simp
qed simp

lemma strncmp_word:
  assumes "0 \<notin> set w" "length w < length a"
  shows "\<exists>r. strncmp a (w @ 0 # rest) (length w) = Inr r \<and> (r = 0 \<longleftrightarrow> take (length w) a = w)"
proof -
  obtain k where k: "strnlen a (length w) = Inr k" "k \<le> length w" "k = length w \<longleftrightarrow> 0 \<notin> set (take (length w) a)"
    using strnlen_le[OF assms(2)] by blast
  have w: "strnlen (w @ 0 # rest) (length w) = Inr (length w)"
    using strnlen_le[of "length w" "w @ 0 # rest"] assms(1) by auto
  show ?thesis
  proof (cases "k = length w")
    case True
    then show ?thesis using k(1) w assms(2) by (simp add: strncmp_def bytes_differ_take)
  next
    case False
    then show ?thesis using k w assms(1) by (auto simp: strncmp_def)
  qed
qed

lemma find_dent_linked:
  assumes "linked s dent ids" "0 \<notin> set w" "length w < 256" "length ids = length es"
    and "\<forall>j<length ids. shows_entry (fs_dents s ! (ids ! j)) (es ! j)"
    and "j < length es" "prefix w (de_name (es ! j))" "\<forall>i<j. \<not> prefix w (de_name (es ! i)) \<and> \<not> prefix (de_name (es ! i)) w"
  shows "find_dent s (w @ 0 # rest) (length w) dent = Some (Inr (fe_node (fs_dents s ! (ids ! j))))"
  using assms
proof (induction ids arbitrary: dent es j)
  case Nil
  then show ?case by simp
next
  case (Cons x xs)
  obtain e es' where es: "es = e # es'" using Cons.prems(4) by (cases es) auto
  let ?x = "fs_dents s ! x"
  have sh: "shows_entry ?x e" using Cons.prems(5) es by auto
  have x: "x < length (fs_dents s)" "dent = Some x" "linked s (fe_next ?x) xs" using Cons.prems(1) by auto
  obtain r where r: "strncmp (fe_name ?x) (w @ 0 # rest) (length w) = Inr r" "r = 0 \<longleftrightarrow> take (length w) (fe_name ?x) = w"
    using strncmp_word[OF Cons.prems(2), of "fe_name ?x"] Cons.prems(3) sh by (auto simp: shows_entry_def)
  have split: "fe_name ?x = de_name e @ drop (length (de_name e)) (fe_name ?x)"
    using sh by (metis shows_entry_def append_take_drop_id)
  have here: "take (length w) (fe_name ?x) = w \<longleftrightarrow> prefix w (fe_name ?x)"
    by (auto simp: prefix_def) (metis append_take_drop_id)
  show ?case
  proof (cases j)
    case 0
    then have "prefix w (fe_name ?x)" using Cons.prems(7) es split by (metis nth_Cons_0 prefix_prefix)
    then show ?thesis using r here x 0 by (subst find_dent.simps) (simp add: arr_get_def)
  next
    case (Suc i)
    have "\<not> prefix w (de_name e) \<and> \<not> prefix (de_name e) w" using Cons.prems(8) Suc es by auto
    then have "\<not> prefix w (fe_name ?x)" using split by (metis prefix_append prefix_same_cases prefix_def)
    then have "r \<noteq> 0" using r here by simp
    moreover have "find_dent s (w @ 0 # rest) (length w) (fe_next ?x) = Some (Inr (fe_node (fs_dents s ! (xs ! i))))"
    proof (rule Cons.IH[OF x(3) Cons.prems(2,3), of es' i])
      show "length xs = length es'" "i < length es'" "prefix w (de_name (es' ! i))" using Cons.prems Suc es by auto
      show "\<forall>j<length xs. shows_entry (fs_dents s ! (xs ! j)) (es' ! j)" using Cons.prems(5) es by auto
      show "\<forall>k<i. \<not> prefix w (de_name (es' ! k)) \<and> \<not> prefix (de_name (es' ! k)) w" using Cons.prems(8) Suc es by auto
    qed
    ultimately show ?thesis using r x Suc by (subst find_dent.simps) (simp add: arr_get_def)
  qed
qed

lemma mirrors_dirE:
  assumes "mirrors s sb sec D E p (DirT ino ess ts)"
  obtains n fd ids where "node_data s p n fd" "linked s (fd_dirent fd) ids" "length ids = length (visible ess)"
    "\<forall>j<length ids. shows_entry (fs_dents s ! (ids ! j)) (visible ess ! j)"
    "\<forall>j<length ids. \<exists>q. fe_node (fs_dents s ! (ids ! j)) = Some q \<and> mirrors s sb sec D E q (ts ! j)"
    "mount n = None" "flags n = FS_DIRECTORY" "vtable n = Some Ext2DirVtable"
  using assms by (rule mirrors.cases) (auto simp: node_of_def)

text \<open>What the two operations return for a directory that shows a tree.\<close>

lemma readdir_mirrors:
  assumes "mirrors s sb sec D E p (DirT ino ess ts)" "\<forall>e\<in>set (visible ess). length (de_name e) \<le> 128" "length (d_name out) = 128"
  shows "if unat index < length (visible ess)
    then \<exists>nm. fs_readdir (ext2_drivers k) s p index out = Inr (True, out\<lparr>d_name := nm,
        d_name_len := of_nat (length (de_name (visible ess ! unat index))), d_inode := de_ino (visible ess ! unat index)\<rparr>) \<and>
      take (length (de_name (visible ess ! unat index))) nm = de_name (visible ess ! unat index)
    else fs_readdir (ext2_drivers k) s p index out = Inr (False, out)"
proof -
  obtain n fd ids where 1: "node_data s p n fd" "linked s (fd_dirent fd) ids" "length ids = length (visible ess)"
    "\<forall>j<length ids. shows_entry (fs_dents s ! (ids ! j)) (visible ess ! j)"
    "\<forall>j<length ids. \<exists>q. fe_node (fs_dents s ! (ids ! j)) = Some q \<and> mirrors s sb sec D E q (ts ! j)"
    "mount n = None" "flags n = FS_DIRECTORY" "vtable n = Some Ext2DirVtable"
    by (rule mirrors_dirE[OF assms(1)])
  have vfs: "fs_readdir (ext2_drivers k) s p index out = ext2_dir_readdir s p index out"
    using node_dataD(1)[OF 1(1)] 1(6-8)
    by (simp add: fs_readdir_def follow_mount_def driver_op_def ext2_drivers_def ext2_dir_vfs_vt_def FS_DIRECTORY_def)
  show ?thesis
  proof (cases "unat index < length (visible ess)")
    case True
    then show ?thesis
      using readdir_entry[OF 1(1,2), of index "visible ess ! unat index" out] 1(3,4) assms(2,3) unfolding vfs by auto
  next
    case False
    then show ?thesis using readdir_end[OF 1(1,2)] 1(3) unfolding vfs by simp
  qed
qed

lemma finddir_mirrors:
  assumes "mirrors s sb sec D E p (DirT ino ess ts)" "0 \<notin> set w" "length w < 256"
    and "j < length (visible ess)" "prefix w (de_name (visible ess ! j))"
    and "\<forall>i<j. \<not> prefix w (de_name (visible ess ! i)) \<and> \<not> prefix (de_name (visible ess ! i)) w"
  shows "\<exists>q. fs_finddir (ext2_drivers k) s p (w @ 0 # rest) (of_nat (length w)) = Inr (Some q, s) \<and> mirrors s sb sec D E q (ts ! j)"
proof -
  obtain n fd ids where 1: "node_data s p n fd" "linked s (fd_dirent fd) ids" "length ids = length (visible ess)"
    "\<forall>j<length ids. shows_entry (fs_dents s ! (ids ! j)) (visible ess ! j)"
    "\<forall>j<length ids. \<exists>q. fe_node (fs_dents s ! (ids ! j)) = Some q \<and> mirrors s sb sec D E q (ts ! j)"
    "mount n = None" "flags n = FS_DIRECTORY" "vtable n = Some Ext2DirVtable"
    by (rule mirrors_dirE[OF assms(1)])
  have u: "unat (of_nat (length w) :: u32) = length w" using assms(3) by (simp add: unat_of_nat)
  have "find_dent s (w @ 0 # rest) (length w) (fd_dirent fd) = Some (Inr (fe_node (fs_dents s ! (ids ! j))))"
    using 1 assms by (intro find_dent_linked) auto
  then show ?thesis
    using node_dataD[OF 1(1)] 1(3,5) assms(3,4) u 1(6-8)
    by (auto simp: ext2_dir_finddir_def returns_def fs_finddir_def follow_mount_def driver_op_def ext2_drivers_def ext2_dir_vfs_vt_def FS_DIRECTORY_def)
qed

section \<open>On the ATA driver and the kernel's semaphores\<close>

definition ata_kernel :: "'c ports \<Rightarrow> semaphore list \<Rightarrow> registers \<Rightarrow> 'c ata kernel_ops" where
  "ata_kernel io junk regs = \<lparr>k_disk = ata_ops io regs,
     k_sm_new = (\<lambda>d. res_bind (sm_new junk (sy d)) (\<lambda>(l, y). Inr (l, d\<lparr>sy := y\<rparr>))),
     k_sm_wait = (\<lambda>l d. res_bind (sm_wait (sy d) l regs) (\<lambda>y. Inr (d\<lparr>sy := y\<rparr>))),
     k_sm_signal = (\<lambda>l d. res_bind (sm_signal (sy d) l) (\<lambda>y. Inr (d\<lparr>sy := y\<rparr>)))\<rparr>"

text \<open>The semaphores and which of them the disk driver uses.\<close>

definition ata_sem :: "'c ata \<Rightarrow> sync \<times> int" where
  "ata_sem d = (sy d, ata_lock d)"

definition sem_usable :: "sync \<times> int \<Rightarrow> int \<Rightarrow> bool" where
  "sem_usable yl l = (case yl of (y, al) \<Rightarrow>
     \<exists>ci m. sm_from_id y 0 l = Inr ci \<and> sm_from_id y 0 al \<noteq> Inr ci \<and> get_sm y ci = Inr m \<and> sm_val m \<noteq> 0)"

definition sems_left :: "sync \<times> int \<Rightarrow> nat" where
  "sems_left yl = (case yl of (y, al) \<Rightarrow>
     if map length (sm_lists y) = [1024] \<and> al < int (unat (sm_num y)) then 1024 - unat (sm_num y) else 0)"

lemma get_sm_put_other:
  assumes "get_sm y ci = Inr m" "get_sm y cj = Inr m'" "ci \<noteq> cj"
  shows "get_sm (put_sm y ci x) cj = Inr m'"
  using assms by (cases ci; cases cj) (auto simp: get_sm_def put_sm_def arr_get_def nth_list_update split: if_splits)

lemma put_sm_same: "get_sm y ci = Inr m \<Longrightarrow> put_sm (put_sm y ci x) ci m = y"
  by (cases ci) (auto simp: get_sm_def put_sm_def arr_get_def list_update_id split: if_splits)

lemma sm_from_id_low: "0 \<le> i \<Longrightarrow> i < 1024 \<Longrightarrow> sm_from_id y 0 i = Inr (0, i)"
  by (subst sm_from_id.simps) (simp add: SM_PER_LIST_def)

lemma sm_from_id_num: "sm_from_id (y\<lparr>sm_num := n\<rparr>) c i = sm_from_id y c i"
  by (induction y c i rule: sm_from_id.induct) (subst (1 2) sm_from_id.simps, simp)

lemma get_sm_num [simp]: "get_sm (y\<lparr>sm_num := n\<rparr>) ci = get_sm y ci"
  by (simp add: get_sm_def split: prod.split)

lemma wait_usable:
  assumes "get_sm y ci = Inr m" "sm_from_id y 0 l = Inr ci"
  shows "sm_wait y l regs = Inr (put_sm y ci (m\<lparr>sm_val := sm_val m - 1\<rparr>))"
  using assms by (simp add: sm_wait_def sm_unsafe_wait_def Let_def)

lemma signal_usable:
  assumes "get_sm y ci = Inr m" "sm_from_id y 0 l = Inr ci" "sm_val m \<noteq> 0"
  shows "sm_signal (put_sm y ci (m\<lparr>sm_val := sm_val m - 1\<rparr>)) l = Inr y"
proof -
  have "\<not> uint (sm_val m) \<le> 0"
    using assms(3) uint_ge_0[of "sm_val m"] by (auto simp: order_antisym_conv word_uint_eq_iff)
  moreover have "m\<lparr>sm_val := sm_val m\<rparr> = m" by simp
  ultimately show ?thesis
    using assms get_put_sm[OF assms(1), of "m\<lparr>sm_val := sm_val m - 1\<rparr>"] put_sm_same[OF assms(1)]
    by (simp add: sm_signal_def sm_unsafe_signal_def Let_def sm_from_id_put)
qed

lemma ata_ok_put:
  assumes "ata_ok d" "sm_from_id (sy d) 0 (ata_lock d) \<noteq> Inr ci" "get_sm (sy d) ci = Inr m"
  shows "ata_ok (d\<lparr>sy := put_sm (sy d) ci x\<rparr>)"
  using assms get_sm_put_other[OF assms(3)] by (fastforce simp: ata_ok_def sm_from_id_put)

lemma ata_ok_sm_num: "ata_ok (d\<lparr>sy := y\<lparr>sm_num := n\<rparr>\<rparr>) = ata_ok (d\<lparr>sy := y\<rparr>)"
  by (simp add: ata_ok_def sm_from_id_num)

lemma sm_new_first_chunk:
  assumes "sm_lists y = [c]" "length c = 1024" "unat (sm_num y) < 1024"
  shows "\<exists>m. get_sm y (0, uint (sm_num y)) = Inr m \<and>
    sm_new junk y = Inr (int (unat (sm_num y)), (put_sm y (0, uint (sm_num y)) \<lparr>task_lock = 0, sm_head = 0, sm_last = 0, sm_val = 1\<rparr>)\<lparr>sm_num := sm_num y + 1\<rparr>)"
proof -
  have pl: "sm_place junk (y\<lparr>sm_num := sm_num y + 1\<rparr>) 0 (sm_num y) = Inr (0, sm_num y, y\<lparr>sm_num := sm_num y + 1\<rparr>)"
    using assms(3) by (subst sm_place.simps) (simp add: SM_PER_LIST_def word_le_nat_alt)
  have g: "get_sm y (0, uint (sm_num y)) = Inr (c ! unat (sm_num y))"
    using assms by (simp add: get_sm_def arr_get_uint)
  have "sint (sm_num y) = int (unat (sm_num y))" using assms(3) by (intro sint_eq_unat) simp
  then show ?thesis
    using assms(1) pl g by (cases "c ! unat (sm_num y)") (simp add: sm_new_def Let_def sl_new_def put_sm_def)
qed

interpretation ata_kern: fs_kernel ata_ok "\<lambda>d. disk (dev d)" "2 ^ 28" "ata_kernel ctl sjunk regs" ata_sem sem_usable sems_left
  for sjunk regs
proof (intro fs_kernel.intro fs_kernel_axioms.intro)
  show "fs_disk ata_ok (\<lambda>d. disk (dev d)) (2 ^ 28) (k_disk (ata_kernel ctl sjunk regs))"
    using ata_fs.fs_disk_axioms by (simp add: ata_kernel_def)
  fix d d1 d2 d' :: "controller ata" and l lba num ws
  show "ata_sem d' = ata_sem d" if "ata_ok d" "d_read (k_disk (ata_kernel ctl sjunk regs)) lba num d = Inr (ws, d')"
    using that by (auto simp: ata_kernel_def ata_ops_def ata_pio_read_sectors_def ata_sem_def ata_ok_def wait_usable signal_usable res_bind_eq_Inr)
  show "ata_sem d' = ata_sem d" if "ata_ok d" "d_write (k_disk (ata_kernel ctl sjunk regs)) lba num ws d = Inr d'"
    using that by (auto simp: ata_kernel_def ata_ops_def ata_pio_write_sectors_def ata_sem_def ata_ok_def wait_usable signal_usable res_bind_eq_Inr)
  assume ok: "ata_ok d"
  show "\<exists>d'. k_sm_wait (ata_kernel ctl sjunk regs) l d = Inr d' \<and> ata_ok d' \<and> disk (dev d') = disk (dev d)"
    if v: "sem_usable (ata_sem d) l"
    using that ok wait_usable[of "sy d" _ _ l regs] ata_ok_put[OF ok]
    by (fastforce simp: ata_kernel_def sem_usable_def ata_sem_def)
  show "\<exists>d3. k_sm_signal (ata_kernel ctl sjunk regs) l d2 = Inr d3 \<and> ata_ok d3 \<and> disk (dev d3) = disk (dev d2) \<and> ata_sem d3 = ata_sem d"
    if v: "sem_usable (ata_sem d) l" and w: "k_sm_wait (ata_kernel ctl sjunk regs) l d = Inr d1" and ok2: "ata_ok d2" and s: "ata_sem d2 = ata_sem d1"
  proof -
    obtain ci m where m: "sm_from_id (sy d) 0 l = Inr ci" "get_sm (sy d) ci = Inr m" "sm_val m \<noteq> 0"
      using v by (auto simp: sem_usable_def ata_sem_def)
    have "sy d2 = put_sm (sy d) ci (m\<lparr>sm_val := sm_val m - 1\<rparr>)" "ata_lock d2 = ata_lock d"
      using w s m wait_usable[OF m(2,1)] by (auto simp: ata_kernel_def ata_sem_def)
    then show ?thesis
      using ok ok2 signal_usable[OF m(2,1,3)] by (auto simp: ata_kernel_def ata_sem_def ata_ok_def)
  qed
  show "\<exists>l d'. k_sm_new (ata_kernel ctl sjunk regs) d = Inr (l, d') \<and> ata_ok d' \<and> disk (dev d') = disk (dev d) \<and>
      sems_left (ata_sem d') = sems_left (ata_sem d) - 1 \<and> sem_usable (ata_sem d') l \<and>
      (\<forall>m. sem_usable (ata_sem d) m \<longrightarrow> sem_usable (ata_sem d') m)"
    if left: "0 < sems_left (ata_sem d)"
  proof -
    let ?n = "sm_num (sy d)" and ?M = "\<lparr>task_lock = 0, sm_head = 0, sm_last = 0, sm_val = 1\<rparr>"
    obtain c where c: "sm_lists (sy d) = [c]" "length c = 1024" "ata_lock d < int (unat ?n)" "unat ?n < 1024"
      using left by (auto simp: sems_left_def ata_sem_def split: if_splits)
    obtain m where m: "get_sm (sy d) (0, uint ?n) = Inr m"
      "sm_new sjunk (sy d) = Inr (int (unat ?n), (put_sm (sy d) (0, uint ?n) ?M)\<lparr>sm_num := ?n + 1\<rparr>)"
      using sm_new_first_chunk[OF c(1,2,4)] by blast
    let ?y = "(put_sm (sy d) (0, uint ?n) ?M)\<lparr>sm_num := ?n + 1\<rparr>"
    have al: "sm_from_id (sy d) 0 (ata_lock d) = Inr (0, ata_lock d)"
    proof -
      have "ata_lock d < 1024" using c(3,4) by linarith
      then show ?thesis by (subst sm_from_id.simps) (simp add: SM_PER_LIST_def)
    qed
    have ne: "(0, ata_lock d) \<noteq> (0, uint ?n)" using c(3) by simp
    have ok': "ata_ok (d\<lparr>sy := ?y\<rparr>)"
      unfolding ata_ok_sm_num by (rule ata_ok_put[OF ok _ m(1)]) (simp only: al ne sum.inject not_False_eq_True)
    have g: "get_sm (put_sm (sy d) (0, uint ?n) ?M) (0, uint ?n) = Inr ?M" by (rule get_put_sm[OF m(1)])
    have n1: "unat (?n + 1) = Suc (unat ?n)" using c(4) by (intro unat_plus_one) simp
    have "int (unat (?n + 1)) = int (Suc (unat ?n))" by (simp only: n1)
    then have n2: "ata_lock d < uint (?n + 1)" using c(3) by (simp only: of_nat_Suc of_nat_unat)
    have "sm_lists ?y = [c[unat ?n := ?M]]" using c(1) by (simp add: put_sm_def)
    then have left': "sems_left (ata_sem (d\<lparr>sy := ?y\<rparr>)) = sems_left (ata_sem d) - 1"
      using c n1 n2 by (simp add: sems_left_def ata_sem_def)
    have "int (unat ?n) < 1024" using c(4) by linarith
    then have "sm_from_id (sy d) 0 (uint ?n) = Inr (0, uint ?n)" by (intro sm_from_id_low) simp_all
    then have "sem_usable (ata_sem (d\<lparr>sy := ?y\<rparr>)) (int (unat ?n))"
      using al ne g
      by (auto simp: sem_usable_def ata_sem_def sm_from_id_num sm_from_id_put)
    moreover have "sem_usable (ata_sem (d\<lparr>sy := ?y\<rparr>)) i" if u: "sem_usable (ata_sem d) i" for i
    proof -
      obtain ci m' where i: "sm_from_id (sy d) 0 i = Inr ci" "sm_from_id (sy d) 0 (ata_lock d) \<noteq> Inr ci" "get_sm (sy d) ci = Inr m'" "sm_val m' \<noteq> 0"
        using u by (auto simp: sem_usable_def ata_sem_def)
      have "\<exists>m''. get_sm (put_sm (sy d) (0, uint ?n) ?M) ci = Inr m'' \<and> sm_val m'' \<noteq> 0"
        using g i get_sm_put_other[OF m(1) i(3)] by (cases "ci = (0, uint ?n)") auto
      then show ?thesis using i(1,2) by (cases ci) (auto simp: sem_usable_def ata_sem_def sm_from_id_num sm_from_id_put)
    qed
    ultimately show ?thesis using m(2) ok' left' by (auto simp: ata_kernel_def)
  qed
qed

section \<open>A small disk\<close>

text \<open>
  The inode table is block 0, the root directory's block is block 4, and the file
  \<open>a\<close>, inode 3, has the blocks 5 and 6.
\<close>

definition root_entries :: "dirent list" where
  "root_entries = [\<lparr>de_ino = 2, de_type = 2, de_name = [46], de_pad = [0, 0, 0]\<rparr>,
     \<lparr>de_ino = 2, de_type = 2, de_name = [46, 46], de_pad = [0, 0]\<rparr>,
     \<lparr>de_ino = 3, de_type = 1, de_name = [97], de_pad = replicate 991 0\<rparr>]"

definition small_file :: ext2_inode where
  "small_file = (decode_inode (replicate 128 0))\<lparr>i_mode := 0x81a4, i_size := 1500, i_blocks := 5 # 6 # replicate 13 0\<rparr>"

definition inode_table :: "u8 list" where
  "inode_table = replicate 128 0 @ encode_inode tiny_dir @ encode_inode small_file @ replicate 640 0"

definition tree_disk :: "controller ata" where
  "tree_disk = blank_disk\<lparr>dev := (dev blank_disk)\<lparr>disk := \<lambda>l.
     if l = 0 then take 256 (words_of inode_table) else if l = 1 then drop 256 (words_of inode_table)
     else if l = 8 then take 256 (words_of (dir_block root_entries)) else if l = 9 then drop 256 (words_of (dir_block root_entries))
     else if l = 4 then replicate 256 0 else replicate 256 0x4141\<rparr>\<rparr>"

lemma tree_disk_blocks:
  "length inode_table = 1024" "length (dir_block root_entries) = 1024" "\<forall>e\<in>set root_entries. dirent_ok e"
  "inode_ok tiny_dir" "inode_ok small_file"
  by (simp_all add: inode_table_def root_entries_def dirent_ok_def dirent_len_def DIRENT_SIZE_def INODE_SIZE_def inode_ok_def
    tiny_dir_def small_file_def decode_inode_def)

lemma tree_disk_ok: "ata_ok tree_disk"
  using blank_disk_ok tree_disk_blocks(1,2) by (auto simp: ata_ok_def tree_disk_def blank_disk_def)

lemma tree_disk_fs_block:
  "fs_block (disk (dev tree_disk)) 2 0 = inode_table" "fs_block (disk (dev tree_disk)) 2 4 = dir_block root_entries"
  using tree_disk_blocks(1,2) by (simp_all add: fs_block_def tree_disk_def upt_rec bytes_of_words_of)

lemma tree_disk_table:
  assumes "g = 0"
  shows "bgd_lba tiny_sb g = 4" "inode_table_start_block (bgd_at tiny_sb (disk (dev tree_disk)) g) = 0"
proof -
  show l: "bgd_lba tiny_sb g = 4" by (simp add: bgd_lba_def assms tiny_sb_ok)
  have "bgd_at tiny_sb (disk (dev tree_disk)) g = decode_bgd (replicate 32 0)"
    using l by (simp add: bgd_at_def assms tree_disk_def bytes_of_zeros BGD_SIZE_def)
  then show "inode_table_start_block (bgd_at tiny_sb (disk (dev tree_disk)) g) = 0"
    by (simp add: decode_bgd_def d32_def join32_def)
qed

lemma tree_disk_inodes:
  "inode_on_disk tiny_sb (disk (dev tree_disk)) (2 ^ 28) 2" "inode_on_disk tiny_sb (disk (dev tree_disk)) (2 ^ 28) 3"
  "inode_at tiny_sb (disk (dev tree_disk)) 2 = tiny_dir" "inode_at tiny_sb (disk (dev tree_disk)) 3 = small_file"
proof -
  have g: "inodes_per_block_group tiny_sb = 8" by (simp add: tiny_sb_def)
  have g0: "group_of tiny_sb 2 = 0" "group_of tiny_sb 3 = 0" by (simp_all add: group_of_def g)
  have i: "inode_index tiny_sb 2 = 1" "inode_index tiny_sb 3 = 2" by (simp_all add: inode_index_def g tiny_sb_ok)
  have b: "inode_blk tiny_sb (disk (dev tree_disk)) 2 = 0" "inode_blk tiny_sb (disk (dev tree_disk)) 3 = 0"
    by (simp_all add: inode_blk_def tiny_sb_ok g g0 INODE_SIZE_def tree_disk_table(2))
  show "inode_on_disk tiny_sb (disk (dev tree_disk)) (2 ^ 28) 2" "inode_on_disk tiny_sb (disk (dev tree_disk)) (2 ^ 28) 3"
    by (simp_all add: inode_on_disk_def g0 tree_disk_table b tiny_sb_ok)
  have d: "decode_inode (encode_inode tiny_dir) = tiny_dir" "decode_inode (encode_inode small_file) = small_file"
    using tree_disk_blocks(4,5) by (simp_all add: decode_encode_inode)
  show "inode_at tiny_sb (disk (dev tree_disk)) 2 = tiny_dir" "inode_at tiny_sb (disk (dev tree_disk)) 3 = small_file"
    using tree_disk_blocks(4,5) d by (simp_all add: inode_at_def b tiny_sb_ok i INODE_SIZE_def tree_disk_fs_block inode_table_def)
qed

definition small_tree :: fs_tree where
  "small_tree = DirT 2 [root_entries] [FileT 3]"

lemma small_visible: "visible [root_entries] = [\<lparr>de_ino = 3, de_type = 1, de_name = [97], de_pad = replicate 991 0\<rparr>]"
  by (simp add: visible_def root_entries_def left_out_def)

lemma small_tree_on_disk: "tree_on_disk tiny_sb (disk (dev tree_disk)) (2 ^ 28) small_tree"
proof -
  have "dir_on_disk tiny_sb (disk (dev tree_disk)) (2 ^ 28) tiny_dir [root_entries]"
    using tree_disk_blocks(3) by (simp add: dir_on_disk_def is_dir_tiny tiny_sb_ok tree_disk_fs_block)
  moreover have "i_mode small_file AND EXT2_F_TYPE = EXT2_S_IFREG" by (simp add: small_file_def EXT2_F_TYPE_def EXT2_S_IFREG_def)
  ultimately show ?thesis
    using tree_disk_inodes by (simp add: small_tree_def small_visible)
qed

definition no_junk :: malloc_junk where
  "no_junk = \<lparr>junk_node = plain_node 0, junk_dirent = \<lparr>fe_node = None, fe_name = replicate 256 0, fe_name_len = 0, fe_inode = 0, fe_next = None\<rparr>\<rparr>"

definition no_nodes :: "controller ata ext2_fs" where
  "no_nodes = \<lparr>nodes = Map.empty, num_nodes = 0, fs_datas = [], fs_dents = [], kern = tree_disk\<rparr>"

context fs_kernel begin

lemma file_read_panic:
  assumes "ok (kern s)" "node_data s p n fd" "fd_in fd = Cached i" "sb_ok (fd_sb fd)" "blocks_on_disk (fd_sb fd) i 12"
    and "11 * unat (ext2_block_size (fd_sb fd)) < unat ofs + unat sz" "unat ofs < 12 * unat (ext2_block_size (fd_sb fd))"
    and "0 < unat sz" "unat sz \<le> length buf"
  shows "ext2_file_read k s p ofs sz (Some buf) = Inl (Panic ''Invalid inode block'')"
proof -
  let ?sb = "fd_sb fd" and ?bs = "unat (ext2_block_size (fd_sb fd))"
  have pos: "0 < ?bs" using sb_sizes(1,2)[OF assms(4)] by simp
  then have bs0: "ext2_block_size ?sb \<noteq> 0" by (metis unat_0 less_numeral_extra(3))
  have d: "unat (ofs div ext2_block_size ?sb) = unat ofs div ?bs" "unat (ofs mod ext2_block_size ?sb) = unat ofs mod ?bs"
    by (simp_all add: unat_div unat_mod)
  have b: "unat ofs div ?bs < 12" using assms(7) pos by (simp add: div_less_iff_less_mult)
  have m: "unat ofs div ?bs * ?bs + unat ofs mod ?bs = unat ofs" by (rule div_mult_mod_eq)
  have "lifted.blocks_on_disk ?sb i 12" using assms(5) unfolding blocks_on_disk_def lifted.blocks_on_disk_def on_disk_def lifted.on_disk_def .
  moreover have "unat (ofs mod ext2_block_size ?sb) < ?bs" using d(2) pos by simp
  ultimately have "file_read_loop (fs_ops k) ?sb i buf 0 sz (of_nat (unat ofs div ?bs)) (ofs mod ext2_block_size ?sb) 0 s = Inl (Panic ''Invalid inode block'')"
    using assms(6,8,9) b m d(2) by (intro lifted.file_read_loop_panic[OF after_io_refl[OF assms(1)] assms(4)]) simp_all
  moreover have "(of_nat (unat ofs div ?bs) :: u32) = ofs div ext2_block_size ?sb" by (simp add: d(1)[symmetric] del: d)
  ultimately show ?thesis
    using bs0 node_dataD[OF assms(2)] assms(3) by (auto simp: ext2_file_read_def cached_inode_def Let_def)
qed

end

section \<open>Properties\<close>


lemma no_nodes_ok:
  "ata_ok (kern no_nodes)" "\<forall>q\<ge>num_nodes no_nodes. nodes no_nodes (HeapNode q) = None" "sems_left (ata_sem (kern no_nodes)) = 1023"
  "kern no_nodes = tree_disk" "fs_datas no_nodes = []" "junk_ok no_junk"
  using tree_disk_ok
  by (simp_all add: no_nodes_def sems_left_def ata_sem_def tree_disk_def blank_disk_def one_semaphore_def junk_ok_def no_junk_def plain_node_def)

lemma small_tree_sizes: "tree_depth small_tree = 2" "tree_nodes small_tree = 2" "tree_ino small_tree = 2"
  by (simp_all add: small_tree_def)


text \<open>The nodes of the small disk, for the properties of the operations.\<close>

lemma small_tree_loaded:
  "\<exists>p s. mirrors s tiny_sb (disk (dev tree_disk)) {..<length (fs_datas s)} {..<length (fs_dents s)} p small_tree \<and>
    (\<exists>s0. ext2_inode2vfs 2 (ata_kernel ctl [] no_registers) no_junk tiny_sb 2 [47, 0] 1 s0 = Some (Inr (Some p, s)))"
proof -
  have "ata_kern.ready no_nodes" using no_nodes_ok by (simp add: ata_kern.ready_def)
  then obtain p s where
    r: "ext2_inode2vfs 2 (ata_kernel ctl [] no_registers) no_junk tiny_sb 2 ([47] @ [0]) (of_nat (length [47 :: u8])) no_nodes = Some (Inr (Some p, s))"
    and l: "ata_kern.loaded tiny_sb no_nodes small_tree p s"
    using ata_kern.inode2vfs_ok[of small_tree 2 tiny_sb no_nodes no_junk "[47]" "[]" no_registers] small_tree_on_disk no_nodes_ok small_tree_sizes tiny_sb_ok(1)
    by fastforce
  have "mirrors s tiny_sb (disk (dev tree_disk)) {..<length (fs_datas s)} {..<length (fs_dents s)} p small_tree"
    using l no_nodes_ok(4) unfolding ata_kern.loaded_def by (auto intro: mirrors_same[OF _ same_on_refl])
  then show ?thesis using r by auto
qed



text \<open>
  C16. Looking a name up in a directory's node finds the node of the first entry whose name
  starts with it, as long as the names before that one are not themselves the start of it.
\<close>

theorem ext2_finddir_finds_child:
  assumes "mirrors s sb sec D E p (DirT ino ess ts)" and "0 \<notin> set w" and "length w < 256"
    and "j < length (visible ess)" and "prefix w (de_name (visible ess ! j))"
    and "\<forall>i<j. \<not> prefix w (de_name (visible ess ! i)) \<and> \<not> prefix (de_name (visible ess ! i)) w"
  shows "\<exists>q. fs_finddir (ext2_drivers k) s p (w @ 0 # rest) (of_nat (length w)) = Inr (Some q, s) \<and> mirrors s sb sec D E q (ts ! j)"
  by (rule finddir_mirrors[OF assms])

theorem ext2_finddir_finds_child_witness:
  "\<exists>s p q. fs_finddir (ext2_drivers (ata_kernel ctl [] no_registers)) s p [97, 0] 1 = Inr (Some q, s) \<and>
    mirrors s tiny_sb (disk (dev tree_disk)) {..<length (fs_datas s)} {..<length (fs_dents s)} q (FileT 3)"
proof -
  obtain p and s :: "controller ata ext2_fs" where m: "mirrors s tiny_sb (disk (dev tree_disk)) {..<length (fs_datas s)} {..<length (fs_dents s)} p (DirT 2 [root_entries] [FileT 3])"
    using small_tree_loaded unfolding small_tree_def by blast
  show ?thesis
    using ext2_finddir_finds_child[OF m, of "[97]" 0 "ata_kernel ctl [] no_registers" "[]"] by (simp add: small_visible) blast
qed

text \<open>
  C17. A file that nobody has open is opened, read and closed through the virtual file system:
  the read gives the bytes of the file's blocks from the offset on, and afterwards the node's
  data are as before, with no inode cached.
\<close>

theorem ext2_open_read_close:
  assumes "ata_ok (kern s)" and "node_data s p n fd" and "sem_usable (ata_sem (kern s)) (fd_lock fd)" and "sb_ok (fd_sb fd)" and "fd_rc fd = 0"
    and "inode_on_disk (fd_sb fd) (disk (dev (kern s))) (2 ^ 28) (inode n)" and "vtable n = Some Ext2FileVtable" and "mount n = None"
    and "i = inode_at (fd_sb fd) (disk (dev (kern s))) (inode n)" and "length (i_blocks i) = 15" and "0 < c" and "c \<le> 12"
    and "\<forall>j<c. sectors_per_block (fd_sb fd) * unat (i_blocks i ! j) + sectors_per_block (fd_sb fd) \<le> 2 ^ 28"
    and "unat ofs + unat sz \<le> (c - 1) * unat (ext2_block_size (fd_sb fd))" and "unat sz \<le> length buf"
  shows "\<exists>s1 s2 s3. fs_open (ext2_drivers (ata_kernel ctl sjunk regs)) s p = Inr s1 \<and>
    fs_read (ext2_drivers (ata_kernel ctl sjunk regs)) s1 p ofs sz buf = Inr (sz, take (unat sz) (drop (unat ofs)
      (concat (map (\<lambda>j. fs_block (disk (dev (kern s))) (sectors_per_block (fd_sb fd)) (unat (i_blocks i ! j))) [0..<c]))) @ drop (unat sz) buf, s2) \<and>
    fs_close (ext2_drivers (ata_kernel ctl sjunk regs)) s2 p = Inr s3 \<and> node_data s3 p n (fd\<lparr>fd_in := NullIn\<rparr>)"
proof -
  have "ata_kern.blocks_on_disk (fd_sb fd) i c"
    using assms(10,12,13) unfolding ata_kern.blocks_on_disk_def ata_kern.on_disk_def by blast
  from ata_kern.open_read_close[OF assms(1-9) this assms(11,14,15), of sjunk regs]
  show ?thesis unfolding ata_kern.file_blocks_def ata_kern.blk_def .
qed

definition one_file :: "controller ata ext2_fs" where
  "one_file = \<lparr>nodes = [HeapNode 0 \<mapsto> (plain_node 1)\<lparr>inode := 3, vtable := Some Ext2FileVtable\<rparr>], num_nodes = 1,
     fs_datas = [\<lparr>fd_sb = tiny_sb, fd_in = NullIn, fd_rc = 0, fd_lock = 1, fd_dirent = None\<rparr>], fs_dents = [], kern = tree_disk\<rparr>"

lemma one_file_ok:
  "node_data one_file (HeapNode 0) ((plain_node 1)\<lparr>inode := 3, vtable := Some Ext2FileVtable\<rparr>)
    \<lparr>fd_sb = tiny_sb, fd_in = NullIn, fd_rc = 0, fd_lock = 1, fd_dirent = None\<rparr>"
  "sem_usable (ata_sem (kern one_file)) 1" "kern one_file = tree_disk"
proof -
  show "node_data one_file (HeapNode 0) ((plain_node 1)\<lparr>inode := 3, vtable := Some Ext2FileVtable\<rparr>)
    \<lparr>fd_sb = tiny_sb, fd_in = NullIn, fd_rc = 0, fd_lock = 1, fd_dirent = None\<rparr>"
    by (simp add: node_data_def one_file_def plain_node_def)
  have "sm_from_id one_semaphore 0 1 = Inr (0, 1)" "sm_from_id one_semaphore 0 0 = Inr (0, 0)" by (simp_all add: sm_from_id_low)
  then show "sem_usable (ata_sem (kern one_file)) 1"
    by (simp add: sem_usable_def ata_sem_def one_file_def tree_disk_def blank_disk_def)
      (simp add: get_sm_def one_semaphore_def arr_get_def)
  show "kern one_file = tree_disk" by (simp add: one_file_def)
qed

lemma bytes_of_41: "bytes_of (replicate n 0x4141) = replicate (2 * n) 0x41"
  by (induction n) (simp_all add: bytes_of_def le16_def)

theorem ext2_open_read_close_witness:
  "\<exists>s1 s2 s3. fs_open (ext2_drivers (ata_kernel ctl [] no_registers)) one_file (HeapNode 0) = Inr s1 \<and>
    fs_read (ext2_drivers (ata_kernel ctl [] no_registers)) s1 (HeapNode 0) 1021 3 (replicate 4 0) = Inr (3, replicate 3 0x41 @ [0], s2) \<and>
    fs_close (ext2_drivers (ata_kernel ctl [] no_registers)) s2 (HeapNode 0) = Inr s3"
proof -
  have b: "fs_block (disk (dev tree_disk)) 2 5 = replicate 1024 0x41" "fs_block (disk (dev tree_disk)) 2 6 = replicate 1024 0x41"
    by (simp_all add: fs_block_def tree_disk_def upt_rec bytes_of_append bytes_of_41 replicate_add[symmetric])
  have f: "length (i_blocks small_file) = 15" "\<forall>j<2. sectors_per_block tiny_sb * unat (i_blocks small_file ! j) + sectors_per_block tiny_sb \<le> 2 ^ 28"
    "i_blocks small_file ! 0 = 5" "i_blocks small_file ! 1 = 6"
    by (simp_all add: small_file_def tiny_sb_ok less_2_cases_iff)
  note n = one_file_ok(1)
  show ?thesis
    using ext2_open_read_close[OF _ n, of small_file 2 1021 3 "replicate 4 0" "[]" no_registers]
      one_file_ok(2,3) tree_disk_ok tree_disk_inodes[simplified] tiny_sb_ok f
    by (simp add: b f upt_rec plain_node_def del: split_paired_Ex) blast
qed

text \<open>
  C18. A read of a file that reaches into the twelfth block never returns its bytes: once the
  size is used up the loop asks for one more block, and the thirteenth is refused with a panic.
\<close>

theorem ext2_read_last_block_panics:
  assumes "ata_ok (kern s)" and "node_data s p n fd" and "fd_in fd = Cached i" and "sb_ok (fd_sb fd)" and "length (i_blocks i) = 15"
    and "\<forall>j<12. sectors_per_block (fd_sb fd) * unat (i_blocks i ! j) + sectors_per_block (fd_sb fd) \<le> 2 ^ 28"
    and "11 * unat (ext2_block_size (fd_sb fd)) < unat ofs + unat sz" and "unat ofs < 12 * unat (ext2_block_size (fd_sb fd))"
    and "0 < unat sz" and "unat sz \<le> length buf"
  shows "ext2_file_read (ata_kernel ctl sjunk regs) s p ofs sz (Some buf) = Inl (Panic ''Invalid inode block'')"
proof -
  have "ata_kern.blocks_on_disk (fd_sb fd) i 12"
    using assms(5,6) unfolding ata_kern.blocks_on_disk_def ata_kern.on_disk_def by blast
  from ata_kern.file_read_panic[OF assms(1-4) this assms(7-10)] show ?thesis .
qed

definition twelve_blocks :: ext2_inode where
  "twelve_blocks = small_file\<lparr>i_size := 12288, i_blocks := replicate 12 5 @ [0, 0, 0]\<rparr>"

theorem ext2_read_last_block_panics_witness:
  "ext2_file_read (ata_kernel ctl [] no_registers) (one_file\<lparr>fs_datas := [\<lparr>fd_sb = tiny_sb, fd_in = Cached twelve_blocks, fd_rc = 1, fd_lock = 1, fd_dirent = None\<rparr>]\<rparr>)
    (HeapNode 0) 12287 1 (Some [0]) = Inl (Panic ''Invalid inode block'')"
proof -
  let ?fd = "\<lparr>fd_sb = tiny_sb, fd_in = Cached twelve_blocks, fd_rc = 1, fd_lock = 1, fd_dirent = None\<rparr>"
  let ?s = "one_file\<lparr>fs_datas := [?fd]\<rparr>"
  have n: "node_data ?s (HeapNode 0) ((plain_node 1)\<lparr>inode := 3, vtable := Some Ext2FileVtable\<rparr>) ?fd"
    by (simp add: node_data_def one_file_def plain_node_def)
  have b: "\<forall>j<12. sectors_per_block tiny_sb * unat (i_blocks twelve_blocks ! j) + sectors_per_block tiny_sb \<le> 2 ^ 28"
    by (simp add: twelve_blocks_def tiny_sb_ok nth_append)
  have k: "ata_ok (kern ?s)" using tree_disk_ok by (simp add: one_file_ok(3))
  have l: "length (i_blocks twelve_blocks) = 15" by (simp add: twelve_blocks_def)
  show ?thesis
    by (rule ext2_read_last_block_panics[OF k n]) (use b l tiny_sb_ok in \<open>simp_all\<close>)
qed

end
