(* ===== verification/Lisp_Values.thy ===== *)
theory Lisp_Values
  imports Kstring
begin

text \<open>
  The values of the Lisp system and the operations on its lists
  (\<^verbatim>\<open>src/lisp/lisp.h\<close>, \<^verbatim>\<open>src/lisp/lisp.c\<close>). A value is a word whose low bits say what it is;
  a heap value is the address of an object, behind a header of 16 bytes that links all
  objects into one list. The heap maps the address of a header to the header and the object;
  an access to an address where there is no such object is the fault \<open>OutOfBounds\<close>.
\<close>

section \<open>Calls that may not return\<close>

text \<open>\<open>None\<close> is a loop or recursion that never ends.\<close>

definition run_bind :: "'a res option \<Rightarrow> ('a \<Rightarrow> 'b res option) \<Rightarrow> 'b res option" where
  "run_bind m f = Option.bind m (\<lambda>r. case r of Inl e \<Rightarrow> Some (Inl e) | Inr x \<Rightarrow> f x)"

lemma run_bind_simps [simp]:
  "run_bind None f = None"
  "run_bind (Some (Inl e)) f = Some (Inl e)"
  "run_bind (Some (Inr x)) f = f x"
  by (simp_all add: run_bind_def)

lemma run_bind_mono [partial_function_mono]:
  assumes "mono_option m" and "\<And>x. mono_option (\<lambda>g. f x g)"
  shows "mono_option (\<lambda>g. run_bind (m g) (\<lambda>x. f x g))"
proof -
  have "mono_option (\<lambda>g. case r of Inl e \<Rightarrow> Some (Inl e) | Inr x \<Rightarrow> f x g)" for r
    using assms(2) by (cases r) (simp_all add: monotone_def flat_ord_def fun_ord_def)
  then show ?thesis unfolding run_bind_def by (rule bind_mono[OF assms(1)])
qed

lemma run_bind_cong [fundef_cong]:
  assumes "m = m'" and "\<And>x. m' = Some (Inr x) \<Longrightarrow> f x = g x"
  shows "run_bind m f = run_bind m' g"
  using assms by (cases m' rule: option.exhaust; force simp: run_bind_def split: sum.splits)

lemma run_bind_eq_Some: "run_bind m f = Some (Inr y) \<longleftrightarrow> (\<exists>x. m = Some (Inr x) \<and> f x = Some (Inr y))"
  by (cases m) (auto simp: run_bind_def split: sum.splits)

section \<open>Values\<close>

type_synonym value_t = u32

definition INT_MASK :: u32 where "INT_MASK = 3"
definition INT_TAG :: u32 where "INT_TAG = 0"
definition HEAP_MASK :: u32 where "HEAP_MASK = 7"
definition CONS_TAG :: u32 where "CONS_TAG = 1"
definition CLASS_TAG :: u32 where "CLASS_TAG = 2"
definition STRING_TAG :: u32 where "STRING_TAG = 3"
definition SYMBOL_TAG :: u32 where "SYMBOL_TAG = 5"
definition CLOSURE_TAG :: u32 where "CLOSURE_TAG = 6"

lemmas tag_defs = INT_MASK_def INT_TAG_def HEAP_MASK_def CONS_TAG_def CLASS_TAG_def STRING_TAG_def SYMBOL_TAG_def CLOSURE_TAG_def

text \<open>The constants \<open>nil\<close> and \<open>t\<close>.\<close>

definition nil :: value_t where "nil = 0x2f"
definition lisp_t :: value_t where "lisp_t = push_bit 3 1"

definition integerp :: "value_t \<Rightarrow> bool" where "integerp v \<longleftrightarrow> v AND INT_MASK = INT_TAG"
definition symbolp :: "value_t \<Rightarrow> bool" where "symbolp v \<longleftrightarrow> v AND HEAP_MASK = SYMBOL_TAG"
definition stringp :: "value_t \<Rightarrow> bool" where "stringp v \<longleftrightarrow> v AND HEAP_MASK = STRING_TAG"
definition consp :: "value_t \<Rightarrow> bool" where "consp v \<longleftrightarrow> v AND HEAP_MASK = CONS_TAG"
definition classp :: "value_t \<Rightarrow> bool" where "classp v \<longleftrightarrow> v AND HEAP_MASK = CLASS_TAG"
definition closurep :: "value_t \<Rightarrow> bool" where "closurep v \<longleftrightarrow> v AND HEAP_MASK = CLOSURE_TAG"
definition heapp :: "value_t \<Rightarrow> bool" where "heapp v \<longleftrightarrow> consp v \<or> stringp v \<or> symbolp v \<or> closurep v"
definition nilp :: "value_t \<Rightarrow> bool" where "nilp v \<longleftrightarrow> v = nil"

text \<open>\<open>int\<close> is a word of 32 bits; the shift in \<open>valint\<close> is that of the unsigned \<open>value_t\<close>.\<close>

definition intval :: "u32 \<Rightarrow> value_t" where
  "intval i = push_bit 2 i OR INT_TAG"

definition valint :: "value_t \<Rightarrow> u32" where
  "valint i = (if \<not> integerp i then 0 else drop_bit 2 i)"

section \<open>Objects\<close>

text \<open>\<open>struct cons\<close>, with a null \<open>name\<close> as \<open>None\<close>; \<open>struct args\<close>, \<open>struct closure\<close>, \<open>struct class\<close>.\<close>

record cons_cell =
  c_car :: value_t
  c_cdr :: value_t
  c_line :: u32
  c_name :: "u8 list option"

record args =
  num_required :: u32
  num_optional :: u32
  variadic :: bool
  optional_arguments :: "(value_t \<times> value_t) list"

record closure =
  cl_args :: args
  cl_function :: u32
  cl_data :: "value_t list"

record class_object =
  cs_type :: value_t
  cs_cdata :: u32
  cs_members :: "value_t list"

text \<open>What follows a header: for symbols and strings the bytes of the buffer.\<close>

datatype body = ConsBody cons_cell | TextBody "u8 list" | ClosureBody closure | ClassBody class_object

record alloc =
  a_tag :: u32
  a_prev :: u32
  a_next :: u32
  a_pool :: u8
  a_mark :: "24 word"
  a_body :: body

definition ALLOC_SIZE :: u32 where "ALLOC_SIZE = 16"

text \<open>\<open>free_addrs\<close> are the addresses that the C library's \<open>malloc\<close> and \<open>realloc\<close> return next.\<close>

record lisp =
  heap :: "u32 \<rightharpoonup> alloc"
  first_a :: u32
  last_a :: u32
  max_pool :: u8
  current_pool :: u8
  free_addrs :: "u32 list"

text \<open>Every caller writes through the pointer it gets, whether or not it is null.\<close>

definition malloc_aligned :: "lisp \<Rightarrow> (u32 \<times> lisp) res" where
  "malloc_aligned s = (case free_addrs s of [] \<Rightarrow> Inl NullDeref | a # as \<Rightarrow> Inr (a, s\<lparr>free_addrs := as\<rparr>))"

text \<open>The new object's contents are put in place together with its header.\<close>

definition add_this_alloc :: "u32 \<Rightarrow> u32 \<Rightarrow> body \<Rightarrow> lisp \<Rightarrow> lisp res" where
  "add_this_alloc a tag b s =
     (let al = \<lparr>a_tag = tag, a_prev = 0, a_next = 0, a_pool = current_pool s, a_mark = - 1, a_body = b\<rparr> in
      if last_a s \<noteq> 0 then
        (case heap s (last_a s) of
           None \<Rightarrow> Inl OutOfBounds
         | Some l \<Rightarrow>
             Inr (s\<lparr>heap := (heap s)(last_a s \<mapsto> l\<lparr>a_next := a\<rparr>, a \<mapsto> al\<lparr>a_prev := last_a s\<rparr>), last_a := a\<rparr>))
      else Inr (s\<lparr>heap := (heap s)(a \<mapsto> al), first_a := a, last_a := a\<rparr>))"

text \<open>A value of an object, and the header of a heap value with tag \<open>tag\<close>.\<close>

definition mk_ptr :: "u32 \<Rightarrow> u32 \<Rightarrow> value_t" where
  "mk_ptr a tag = (a + ALLOC_SIZE) OR tag"

definition hdr_of :: "value_t \<Rightarrow> u32 \<Rightarrow> u32" where
  "hdr_of v tag = (v XOR tag) - ALLOC_SIZE"

definition new_object :: "u32 \<Rightarrow> body \<Rightarrow> lisp \<Rightarrow> (value_t \<times> lisp) res" where
  "new_object tag b s =
     res_bind (malloc_aligned s) (\<lambda>(a, s1).
     res_bind (add_this_alloc a tag b s1) (\<lambda>s2. Inr (mk_ptr a tag, s2)))"

definition lisp_cons :: "value_t \<Rightarrow> value_t \<Rightarrow> lisp \<Rightarrow> (value_t \<times> lisp) res" where
  "lisp_cons x y s = new_object CONS_TAG (ConsBody \<lparr>c_car = x, c_cdr = y, c_line = 0, c_name = None\<rparr>) s"

text \<open>The object behind \<open>v ^ tag\<close>, taken for one of the kind that is asked for.\<close>

definition object_at :: "value_t \<Rightarrow> u32 \<Rightarrow> lisp \<Rightarrow> alloc res" where
  "object_at v tag s = (case heap s (hdr_of v tag) of None \<Rightarrow> Inl OutOfBounds | Some al \<Rightarrow> Inr al)"

definition cons_at :: "value_t \<Rightarrow> lisp \<Rightarrow> cons_cell res" where
  "cons_at v s = res_bind (object_at v CONS_TAG s) (\<lambda>al. case a_body al of ConsBody c \<Rightarrow> Inr c | _ \<Rightarrow> Inl OutOfBounds)"

definition text_at :: "value_t \<Rightarrow> u32 \<Rightarrow> lisp \<Rightarrow> u8 list res" where
  "text_at v tag s = res_bind (object_at v tag s) (\<lambda>al. case a_body al of TextBody b \<Rightarrow> Inr b | _ \<Rightarrow> Inl OutOfBounds)"

definition closure_at :: "value_t \<Rightarrow> lisp \<Rightarrow> closure res" where
  "closure_at v s = res_bind (object_at v CLOSURE_TAG s) (\<lambda>al. case a_body al of ClosureBody c \<Rightarrow> Inr c | _ \<Rightarrow> Inl OutOfBounds)"

definition class_at :: "value_t \<Rightarrow> lisp \<Rightarrow> class_object res" where
  "class_at v s = res_bind (object_at v CLASS_TAG s) (\<lambda>al. case a_body al of ClassBody c \<Rightarrow> Inr c | _ \<Rightarrow> Inl OutOfBounds)"

text \<open>An assignment to the object of a value.\<close>

definition put_body :: "value_t \<Rightarrow> u32 \<Rightarrow> body \<Rightarrow> lisp \<Rightarrow> lisp" where
  "put_body v tag b s = s\<lparr>heap := (heap s)(hdr_of v tag := map_option (\<lambda>al. al\<lparr>a_body := b\<rparr>) (heap s (hdr_of v tag)))\<rparr>"

section \<open>Lists\<close>

definition car :: "value_t \<Rightarrow> lisp \<Rightarrow> value_t res" where
  "car v s = (if \<not> consp v then Inr nil else res_bind (cons_at v s) (\<lambda>c. Inr (c_car c)))"

definition cdr :: "value_t \<Rightarrow> lisp \<Rightarrow> value_t res" where
  "cdr v s = (if \<not> consp v then Inr nil else res_bind (cons_at v s) (\<lambda>c. Inr (c_cdr c)))"

text \<open>\<open>*carref(v) = x\<close> and \<open>*cdrref(v) = x\<close>: the references are null for what is no cons.\<close>

definition set_car :: "value_t \<Rightarrow> value_t \<Rightarrow> lisp \<Rightarrow> lisp res" where
  "set_car v x s = (if \<not> consp v then Inl NullDeref else res_bind (cons_at v s) (\<lambda>c. Inr (put_body v CONS_TAG (ConsBody (c\<lparr>c_car := x\<rparr>)) s)))"

definition set_cdr :: "value_t \<Rightarrow> value_t \<Rightarrow> lisp \<Rightarrow> lisp res" where
  "set_cdr v x s = (if \<not> consp v then Inl NullDeref else res_bind (cons_at v s) (\<lambda>c. Inr (put_body v CONS_TAG (ConsBody (c\<lparr>c_cdr := x\<rparr>)) s)))"

definition set_cons_info :: "value_t \<Rightarrow> u32 \<Rightarrow> u8 list option \<Rightarrow> lisp \<Rightarrow> lisp res" where
  "set_cons_info v line nm s =
     (if \<not> consp v then Inr s
      else res_bind (cons_at v s) (\<lambda>c. Inr (put_body v CONS_TAG (ConsBody (c\<lparr>c_line := line, c_name := nm\<rparr>)) s)))"

definition cons_line :: "value_t \<Rightarrow> lisp \<Rightarrow> u32 res" where
  "cons_line v s = (if \<not> consp v then Inr 0 else res_bind (cons_at v s) (\<lambda>c. Inr (c_line c)))"

definition cons_file :: "value_t \<Rightarrow> lisp \<Rightarrow> u8 list option res" where
  "cons_file v s = (if \<not> consp v then Inr None else res_bind (cons_at v s) (\<lambda>c. Inr (c_name c)))"

partial_function (option) listp :: "value_t \<Rightarrow> lisp \<Rightarrow> bool res option" where
  "listp v s = (if consp v then run_bind (Some (cdr v s)) (\<lambda>n. listp n s) else Some (Inr (nilp v)))"

partial_function (option) length_from :: "u32 \<Rightarrow> value_t \<Rightarrow> lisp \<Rightarrow> u32 res option" where
  "length_from i v s = (if nilp v then Some (Inr i) else run_bind (Some (cdr v s)) (\<lambda>n. length_from (i + 1) n s))"

definition lisp_length :: "value_t \<Rightarrow> lisp \<Rightarrow> u32 res option" where
  "lisp_length v s = length_from 0 v s"

text \<open>\<open>v = cdr(v)\<close>, \<open>n\<close> times.\<close>

fun cdrs :: "nat \<Rightarrow> value_t \<Rightarrow> lisp \<Rightarrow> value_t res" where
  "cdrs 0 v s = Inr v"
| "cdrs (Suc n) v s = res_bind (cdr v s) (\<lambda>w. cdrs n w s)"

text \<open>The counter is signed: for an index below 0 the loop does not run.\<close>

definition elt :: "value_t \<Rightarrow> u32 \<Rightarrow> lisp \<Rightarrow> value_t res" where
  "elt v index s = res_bind (cdrs (nat (sint index)) v s) (\<lambda>w. car w s)"

definition cxdr :: "value_t \<Rightarrow> u32 \<Rightarrow> lisp \<Rightarrow> value_t res option" where
  "cxdr v index s =
     run_bind (listp v s) (\<lambda>l.
     if \<not> l then Some (Inr nil)
     else
       run_bind (lisp_length v s) (\<lambda>n.
       if sint n \<le> sint index then Some (Inr nil) else Some (cdrs (nat (sint index)) v s)))"

text \<open>A \<open>value_t *\<close>: null, the caller's variable, or the \<open>cdr\<close> field of a cons.\<close>

datatype val_ref = NullRef | VarRef | CdrRef value_t

definition cxdrref :: "value_t \<Rightarrow> u32 \<Rightarrow> lisp \<Rightarrow> val_ref res option" where
  "cxdrref v index s =
     run_bind (listp v s) (\<lambda>l.
     if \<not> l then Some (Inr NullRef)
     else
       run_bind (lisp_length v s) (\<lambda>n.
       if sint n \<le> sint index then Some (Inr NullRef)
       else if sint index \<le> 0 then Some (Inr VarRef)
       else Some (res_bind (cdrs (nat (sint index) - 1) v s) (\<lambda>w. Inr (CdrRef w)))))"

partial_function (option) last_cons :: "value_t \<Rightarrow> lisp \<Rightarrow> value_t res option" where
  "last_cons v s =
     (if \<not> consp v then Some (Inl NullDeref)
      else run_bind (Some (cdr v s)) (\<lambda>n. if nilp n then Some (Inr v) else last_cons n s))"

definition nilptr :: "value_t \<Rightarrow> lisp \<Rightarrow> val_ref res option" where
  "nilptr v s =
     run_bind (listp v s) (\<lambda>l.
     if \<not> l then Some (Inr NullRef)
     else if nilp v then Some (Inr VarRef)
     else run_bind (last_cons v s) (\<lambda>w. Some (Inr (CdrRef w))))"

text \<open>The result is the caller's variable after the assignment, and the state.\<close>

definition assign_ref :: "val_ref \<Rightarrow> value_t \<Rightarrow> value_t \<Rightarrow> lisp \<Rightarrow> (value_t \<times> lisp) res" where
  "assign_ref r var x s =
     (case r of NullRef \<Rightarrow> Inl NullDeref | VarRef \<Rightarrow> Inr (x, s) | CdrRef w \<Rightarrow> res_bind (set_cdr w x s) (\<lambda>s1. Inr (var, s1)))"

definition merge2 :: "value_t \<Rightarrow> value_t \<Rightarrow> lisp \<Rightarrow> (value_t \<times> lisp) res option" where
  "merge2 front back s =
     run_bind (listp front s) (\<lambda>lf.
     run_bind (listp back s) (\<lambda>lb.
     if \<not> lf \<and> lb then Some (lisp_cons front back s)
     else
       run_bind (Some (if lf \<and> \<not> lb then lisp_cons back nil s else Inr (back, s))) (\<lambda>(back1, s1).
       run_bind (nilptr front s1) (\<lambda>r. Some (assign_ref r front back1 s1)))))"

section \<open>Symbols, strings and closures\<close>

text \<open>The header always gets the symbol tag.\<close>

definition strptrval :: "u8 list \<Rightarrow> u32 \<Rightarrow> lisp \<Rightarrow> (value_t \<times> lisp) res" where
  "strptrval str tag s =
     res_bind (strlen str) (\<lambda>n.
     res_bind (malloc_aligned s) (\<lambda>(a, s1).
     res_bind (add_this_alloc a SYMBOL_TAG (TextBody (take (n + 1) str)) s1) (\<lambda>s2. Inr (mk_ptr a tag, s2))))"

definition strval :: "u8 list \<Rightarrow> lisp \<Rightarrow> (value_t \<times> lisp) res" where
  "strval str s = strptrval str STRING_TAG s"

definition symval :: "u8 list \<Rightarrow> lisp \<Rightarrow> (value_t \<times> lisp) res" where
  "symval str s = strptrval str SYMBOL_TAG s"

definition symstreq :: "value_t \<Rightarrow> u8 list \<Rightarrow> lisp \<Rightarrow> bool res" where
  "symstreq v str s =
     (if v AND HEAP_MASK \<noteq> SYMBOL_TAG then Inr False
      else res_bind (text_at v SYMBOL_TAG s) (\<lambda>b. res_bind (strcmp b str) (\<lambda>r. Inr (r = 0))))"

text \<open>The captured values are what \<open>malloc\<close> left there; they are set one by one.\<close>

definition create_closure :: "value_t list \<Rightarrow> u32 \<Rightarrow> args \<Rightarrow> nat \<Rightarrow> lisp \<Rightarrow> (value_t \<times> lisp) res" where
  "create_closure junk code ar ncaptures s =
     new_object CLOSURE_TAG (ClosureBody \<lparr>cl_args = ar, cl_function = code, cl_data = take ncaptures junk\<rparr>) s"

definition set_closure_capture_variable :: "int \<Rightarrow> value_t \<Rightarrow> value_t \<Rightarrow> lisp \<Rightarrow> lisp res" where
  "set_closure_capture_variable index x v s =
     (if \<not> closurep v then Inr s
      else
        res_bind (closure_at v s) (\<lambda>c.
        res_bind (arr_set (cl_data c) index x) (\<lambda>d. Inr (put_body v CLOSURE_TAG (ClosureBody (c\<lparr>cl_data := d\<rparr>)) s))))"

text \<open>
  A deep copy; the values of a list are copied in order. For a cons, whose fields are
  arguments of one call, C leaves the order open: the \<open>car\<close> is copied first here.
\<close>

partial_function (option) deep_copies :: "value_t list \<Rightarrow> value_t list \<Rightarrow> lisp \<Rightarrow> (value_t list \<times> lisp) res option" where
  "deep_copies junk vs s =
     (case vs of
        [] \<Rightarrow> Some (Inr ([], s))
      | v # rest \<Rightarrow>
          run_bind
            (if integerp v \<or> v = nil \<or> v = lisp_t then Some (Inr (v, s))
             else if symbolp v then Some (res_bind (text_at v SYMBOL_TAG s) (\<lambda>b. symval b s))
             else if stringp v then Some (res_bind (text_at v STRING_TAG s) (\<lambda>b. strval b s))
             else if consp v then
               run_bind (Some (car v s)) (\<lambda>a.
               run_bind (Some (cdr v s)) (\<lambda>d.
               run_bind (deep_copies junk [a, d] s) (\<lambda>(cs, s1).
               Some (lisp_cons (cs ! 0) (cs ! 1) s1))))
             else if closurep v then
               run_bind (Some (closure_at v s)) (\<lambda>c.
               run_bind (Some (create_closure junk (cl_function c) (cl_args c) (length (cl_data c)) s)) (\<lambda>(w, s1).
               run_bind (deep_copies junk (cl_data c) s1) (\<lambda>(ds, s2).
               Some (Inr (w, put_body w CLOSURE_TAG (ClosureBody (c\<lparr>cl_data := ds\<rparr>)) s2)))))
             else Some (Inr (nil, s))) (\<lambda>(x, s3).
          run_bind (deep_copies junk rest s3) (\<lambda>(xs, s4). Some (Inr (x # xs, s4)))))"

definition deep_copy :: "value_t list \<Rightarrow> value_t \<Rightarrow> lisp \<Rightarrow> (value_t \<times> lisp) res option" where
  "deep_copy junk v s = run_bind (deep_copies junk [v] s) (\<lambda>(xs, s1). Some (Inr (hd xs, s1)))"

section \<open>Pools\<close>

definition make_pool :: "lisp \<Rightarrow> u8 \<times> lisp" where
  "make_pool s = (max_pool s + 1, s\<lparr>max_pool := max_pool s + 1\<rparr>)"

definition push_pool :: "u8 \<Rightarrow> lisp \<Rightarrow> u8 \<times> lisp" where
  "push_pool p s = (current_pool s, s\<lparr>current_pool := p\<rparr>)"

definition pop_pool :: "u8 \<Rightarrow> lisp \<Rightarrow> lisp" where
  "pop_pool p s = s\<lparr>current_pool := p\<rparr>"

definition pool_alive :: "u8 \<Rightarrow> bool" where
  "pool_alive p \<longleftrightarrow> p \<noteq> 0"

definition add_to_pool :: "value_t \<Rightarrow> lisp \<Rightarrow> lisp res" where
  "add_to_pool form s =
     (if \<not> heapp form then Inr s
      else
        let a = (form AND NOT 7) - ALLOC_SIZE in
        case heap s a of None \<Rightarrow> Inl OutOfBounds | Some al \<Rightarrow> Inr (s\<lparr>heap := (heap s)(a \<mapsto> al\<lparr>a_pool := current_pool s\<rparr>)\<rparr>))"

section \<open>Tags\<close>

lemma aligned_add:
  assumes "(a :: u32) AND 7 = 0"
  shows "(a + ALLOC_SIZE) AND 7 = 0"
proof -
  have 7: "(7 :: u32) = mask 3" by (simp add: mask_eq_exp_minus_1)
  have low: "w AND 7 = 0 \<longleftrightarrow> unat w mod 8 = 0" for w :: u32
    unfolding 7 take_bit_eq_mask[symmetric] by (simp add: take_bit_eq_mod word_unat_eq_iff unat_mod)
  have "unat (a + 16) mod 8 = (unat a + 16) mod 8" by (simp add: unat_word_ariths mod_mod_cancel)
  moreover have "(unat a + 16) mod 8 = unat a mod 8" using mod_mult_self2[of "unat a" 8 2] by simp
  ultimately show ?thesis using assms by (simp only: low ALLOC_SIZE_def)
qed

lemma or_tag:
  fixes x tag :: u32
  assumes "x AND 7 = 0" "tag AND 7 = tag"
  shows "(x OR tag) AND 7 = tag" "(x OR tag) XOR tag = x" "(x OR tag) AND NOT 7 = x"
proof -
  have 7: "(7 :: u32) = mask 3" by (simp add: mask_eq_exp_minus_1)
  have x: "n < 3 \<Longrightarrow> \<not> bit x n" and t: "\<not> n < 3 \<Longrightarrow> \<not> bit tag n" for n
    using arg_cong[OF assms(1)[unfolded 7], of "\<lambda>w. bit w n"] arg_cong[OF assms(2)[unfolded 7], of "\<lambda>w. bit w n"]
    by (auto simp: bit_and_iff bit_mask_iff dest: bit_imp_le_length)
  show "(x OR tag) AND 7 = tag" "(x OR tag) XOR tag = x" "(x OR tag) AND NOT 7 = x"
    unfolding 7
  proof (rule_tac [!] bit_word_eqI)
    fix n assume "n < LENGTH(32)"
    then show "bit ((x OR tag) AND mask 3) n = bit tag n" "bit ((x OR tag) XOR tag) n = bit x n" "bit ((x OR tag) AND NOT (mask 3)) n = bit x n"
      using x[of n] t[of n] by (cases "n < 3"; simp add: bit_and_iff bit_or_iff bit_xor_iff bit_not_iff bit_mask_iff)+
  qed
qed

lemma mk_ptr_simps:
  assumes "a AND 7 = 0" "tag AND 7 = tag"
  shows "mk_ptr a tag AND HEAP_MASK = tag" "hdr_of (mk_ptr a tag) tag = a" "(mk_ptr a tag AND NOT 7) - ALLOC_SIZE = a"
  using or_tag[OF aligned_add[OF assms(1)] assms(2)] by (simp_all add: mk_ptr_def hdr_of_def HEAP_MASK_def)

lemma tag_and [simp]:
  "CONS_TAG AND 7 = CONS_TAG" "CLASS_TAG AND 7 = CLASS_TAG" "STRING_TAG AND 7 = STRING_TAG"
  "SYMBOL_TAG AND 7 = SYMBOL_TAG" "CLOSURE_TAG AND 7 = CLOSURE_TAG"
  by (simp_all add: tag_defs)

lemmas predicate_defs = symbolp_def stringp_def consp_def classp_def closurep_def

text \<open>At most one of the predicates holds.\<close>

lemma nil_simps [simp]:
  "nilp nil" "\<not> consp nil" "\<not> symbolp nil" "\<not> stringp nil" "\<not> closurep nil" "\<not> classp nil" "\<not> integerp nil"
  by (simp_all add: nilp_def predicate_defs integerp_def nil_def tag_defs)

lemma consp_other:
  assumes "consp v"
  shows "\<not> symbolp v" "\<not> stringp v" "\<not> closurep v" "\<not> classp v" "\<not> nilp v" "v \<noteq> nil"
  using assms by (auto simp: predicate_defs nilp_def nil_def tag_defs)

lemma and_3_7: "(v AND 7) AND 3 = v AND (3 :: u32)"
proof -
  have "v AND (7 AND 3) = v AND (3 :: u32)" by simp
  then show ?thesis by (simp only: and.assoc)
qed

lemma not_integerp:
  assumes "consp v \<or> symbolp v \<or> stringp v \<or> closurep v \<or> classp v"
  shows "\<not> integerp v"
  using assms and_3_7[of v] by (auto simp: integerp_def predicate_defs tag_defs)

lemma integerp_other:
  assumes "integerp v"
  shows "\<not> consp v" "\<not> symbolp v" "\<not> stringp v" "\<not> closurep v" "\<not> classp v" "v \<noteq> nil"
  using assms not_integerp[of v] nil_simps(7) by auto

section \<open>Integers\<close>

lemma intval_integerp [simp]: "integerp (intval i)"
proof -
  have "push_bit 2 i AND mask 2 = 0" by (auto intro!: bit_word_eqI simp: bit_and_iff bit_push_bit_iff bit_mask_iff)
  moreover have "(3 :: u32) = mask 2" by (simp add: mask_eq_exp_minus_1)
  ultimately show ?thesis by (simp add: integerp_def intval_def INT_MASK_def INT_TAG_def)
qed

text \<open>The value of an integer is what is left of it in 30 bits, without its sign.\<close>

lemma valint_intval: "valint (intval i) = take_bit 30 i"
proof -
  have "drop_bit 2 (push_bit 2 i) = take_bit 30 i"
    by (auto intro!: bit_word_eqI simp: bit_drop_bit_eq bit_push_bit_iff bit_take_bit_iff dest: bit_imp_le_length)
  then show ?thesis using intval_integerp[of i] by (simp add: valint_def intval_def INT_TAG_def)
qed

lemma valint_small: "unat i < 2 ^ 30 \<Longrightarrow> valint (intval i) = i"
  by (simp add: valint_intval word_unat_eq_iff unsigned_take_bit_eq take_bit_nat_eq_self)

lemma intval_shift: "unat i < 2 ^ 30 \<Longrightarrow> drop_bit 2 (intval i) = i"
  using valint_small[of i] by (simp add: valint_def)

section \<open>Well-formed heaps\<close>

text \<open>The objects at \<open>xs\<close>, and no others, are linked in this order.\<close>

definition linked_heap :: "lisp \<Rightarrow> u32 list \<Rightarrow> bool" where
  "linked_heap s xs \<longleftrightarrow> distinct xs \<and> 0 \<notin> set xs \<and> dom (heap s) = set xs \<and>
     first_a s = (if xs = [] then 0 else hd xs) \<and> last_a s = (if xs = [] then 0 else last xs) \<and>
     (\<forall>i<length xs. \<exists>al. heap s (xs ! i) = Some al \<and> a_prev al = (if i = 0 then 0 else xs ! (i - 1)) \<and>
        a_next al = (if Suc i < length xs then xs ! Suc i else 0))"

text \<open>What \<open>malloc\<close> will return: distinct aligned addresses where nothing is.\<close>

definition avail :: "lisp \<Rightarrow> bool" where
  "avail s \<longleftrightarrow> distinct (free_addrs s) \<and> (\<forall>a\<in>set (free_addrs s). a AND 7 = 0 \<and> a \<noteq> 0 \<and> heap s a = None)"

definition wf_lisp :: "lisp \<Rightarrow> bool" where
  "wf_lisp s \<longleftrightarrow> (\<exists>xs. linked_heap s xs) \<and> avail s"

text \<open>Objects stay where they are and what they are.\<close>

definition keeps :: "lisp \<Rightarrow> lisp \<Rightarrow> bool" where
  "keeps s s' \<longleftrightarrow> (\<forall>a al. heap s a = Some al \<longrightarrow> (\<exists>al'. heap s' a = Some al' \<and> a_tag al' = a_tag al \<and> a_body al' = a_body al))"

lemma keeps_refl [simp]: "keeps s s"
  by (simp add: keeps_def)

lemma keeps_trans: "keeps s s' \<Longrightarrow> keeps s' s'' \<Longrightarrow> keeps s s''"
  unfolding keeps_def by (metis (no_types, lifting))

text \<open>\<open>n\<close> addresses were taken for new objects.\<close>

definition grown :: "lisp \<Rightarrow> nat \<Rightarrow> lisp \<Rightarrow> bool" where
  "grown s n s' \<longleftrightarrow> wf_lisp s' \<and> keeps s s' \<and> free_addrs s' = drop n (free_addrs s) \<and>
     current_pool s' = current_pool s \<and> max_pool s' = max_pool s"

lemma grown_refl: "wf_lisp s \<Longrightarrow> grown s 0 s"
  by (simp add: grown_def)

lemma grown_trans: "grown s m s' \<Longrightarrow> grown s' n s'' \<Longrightarrow> grown s (m + n) s''"
  by (auto simp: grown_def add.commute intro: keeps_trans)

lemma grownD: "grown s n s' \<Longrightarrow> wf_lisp s'" "grown s n s' \<Longrightarrow> keeps s s'"
  "grown s n s' \<Longrightarrow> length (free_addrs s') = length (free_addrs s) - n"
  by (simp_all add: grown_def)

section \<open>Allocation\<close>

lemma linked_heap_last: "linked_heap s xs \<Longrightarrow> xs \<noteq> [] \<Longrightarrow> \<exists>l. heap s (last_a s) = Some l \<and> last_a s \<noteq> 0"
  unfolding linked_heap_def by (metis domIff last_in_set option.exhaust)

lemma add_this_alloc_ok:
  assumes l: "linked_heap s xs" and a: "heap s a = None" "a \<noteq> 0"
  shows "\<exists>s' al. add_this_alloc a tag b s = Inr s' \<and> linked_heap s' (xs @ [a]) \<and> keeps s s' \<and>
    heap s' a = Some al \<and> a_tag al = tag \<and> a_body al = b \<and> free_addrs s' = free_addrs s \<and> dom (heap s') = insert a (dom (heap s)) \<and>
    current_pool s' = current_pool s \<and> max_pool s' = max_pool s"
proof (cases "xs = []")
  case True
  then show ?thesis
    using l a by (auto simp: add_this_alloc_def linked_heap_def keeps_def Let_def)
next
  case False
  note L = l[unfolded linked_heap_def]
  obtain y where y: "heap s (last_a s) = Some y" "last_a s \<noteq> 0" using linked_heap_last[OF l False] by blast
  have last: "last_a s = last xs" "last xs \<in> set xs" using L False by simp_all
  have ne: "a \<notin> set xs" using L a(1) by auto
  let ?al = "\<lparr>a_tag = tag, a_prev = last_a s, a_next = 0, a_pool = current_pool s, a_mark = - 1, a_body = b\<rparr>"
  let ?s = "s\<lparr>heap := (heap s)(last_a s \<mapsto> y\<lparr>a_next := a\<rparr>, a \<mapsto> ?al), last_a := a\<rparr>"
  have run: "add_this_alloc a tag b s = Inr ?s" using y by (simp add: add_this_alloc_def)
  have "\<exists>al. heap ?s ((xs @ [a]) ! i) = Some al \<and> a_prev al = (if i = 0 then 0 else (xs @ [a]) ! (i - 1)) \<and>
      a_next al = (if Suc i < length (xs @ [a]) then (xs @ [a]) ! Suc i else 0)" if i: "i < length (xs @ [a])" for i
  proof (cases "i < length xs")
    case True
    obtain al where al: "heap s (xs ! i) = Some al" "a_prev al = (if i = 0 then 0 else xs ! (i - 1))"
      "a_next al = (if Suc i < length xs then xs ! Suc i else 0)" using L True by blast
    have na: "xs ! i \<noteq> a" using True ne by (metis nth_mem)
    have eq: "xs ! i = last_a s \<longleftrightarrow> Suc i = length xs"
    proof -
      have "last xs = xs ! (length xs - 1)" using False by (rule last_conv_nth)
      moreover have "xs ! i = xs ! (length xs - 1) \<longleftrightarrow> i = length xs - 1"
        using L True by (intro nth_eq_iff_index_eq) auto
      ultimately show ?thesis using last(1) True by auto
    qed
    show ?thesis using al na eq y True by (auto simp: nth_append)
  next
    case False
    then have "i = length xs" using i by simp
    then show ?thesis using last(1) \<open>xs \<noteq> []\<close> by (simp add: nth_append last_conv_nth)
  qed
  moreover have "dom (heap ?s) = set (xs @ [a])" using L last by auto
  moreover have "distinct (xs @ [a])" "0 \<notin> set (xs @ [a])" using L ne a(2) by auto
  moreover have "first_a ?s = hd (xs @ [a])" "last_a ?s = last (xs @ [a])" using L False by simp_all
  ultimately have "linked_heap ?s (xs @ [a])" by (simp add: linked_heap_def)
  moreover have "keeps s ?s" using a(1) y by (auto simp: keeps_def)
  moreover have "dom (heap ?s) = insert a (dom (heap s))" using L last by auto
  ultimately show ?thesis using run by auto
qed

lemma new_object_ok:
  assumes "wf_lisp s" "free_addrs s = a # as"
  shows "\<exists>s' al. new_object tag b s = Inr (mk_ptr a tag, s') \<and> grown s 1 s' \<and> heap s' a = Some al \<and> a_tag al = tag \<and> a_body al = b \<and> a AND 7 = 0"
proof -
  obtain xs where xs: "linked_heap s xs" using assms(1) by (auto simp: wf_lisp_def)
  let ?s = "s\<lparr>free_addrs := as\<rparr>"
  have a: "heap s a = None" "a \<noteq> 0" "a AND 7 = 0" using assms by (auto simp: wf_lisp_def avail_def)
  have "linked_heap ?s xs" using xs by (simp add: linked_heap_def)
  from add_this_alloc_ok[OF this, of a tag b] a obtain s' al where s': "add_this_alloc a tag b ?s = Inr s'" "linked_heap s' (xs @ [a])"
    "keeps ?s s'" "heap s' a = Some al" "a_tag al = tag" "a_body al = b" "free_addrs s' = as" "dom (heap s') = insert a (dom (heap s))"
    "current_pool s' = current_pool s" "max_pool s' = max_pool s" by auto
  have "avail s'"
  proof -
    have "heap s' x = None" if "x \<in> set as" for x
    proof -
      have "x \<noteq> a" "heap s x = None" using assms that by (auto simp: wf_lisp_def avail_def)
      then have "x \<notin> dom (heap s')" using s'(8) by auto
      then show ?thesis by (simp add: domIff)
    qed
    then show ?thesis using assms s'(7) by (auto simp: wf_lisp_def avail_def)
  qed
  moreover have "keeps s s'" using s'(3) by (simp add: keeps_def)
  ultimately have "grown s 1 s'" using s' assms(2) by (auto simp: grown_def wf_lisp_def)
  then show ?thesis using s' a(3) assms(2) by (auto simp: new_object_def malloc_aligned_def)
qed

section \<open>Objects of values\<close>

lemma object_at_keeps: "object_at v tag s = Inr al \<Longrightarrow> keeps s s' \<Longrightarrow> \<exists>al'. object_at v tag s' = Inr al' \<and> a_body al' = a_body al"
  by (fastforce simp: object_at_def keeps_def split: option.splits)

lemma cons_at_keeps: "cons_at v s = Inr c \<Longrightarrow> keeps s s' \<Longrightarrow> cons_at v s' = Inr c"
  using object_at_keeps unfolding cons_at_def by (fastforce simp: res_bind_eq_Inr)

lemma text_at_keeps: "text_at v tag s = Inr c \<Longrightarrow> keeps s s' \<Longrightarrow> text_at v tag s' = Inr c"
  using object_at_keeps unfolding text_at_def by (fastforce simp: res_bind_eq_Inr)

lemma cons_ok:
  assumes "wf_lisp s" "free_addrs s \<noteq> []"
  shows "\<exists>v s'. lisp_cons x y s = Inr (v, s') \<and> grown s 1 s' \<and> consp v \<and> cons_at v s' = Inr \<lparr>c_car = x, c_cdr = y, c_line = 0, c_name = None\<rparr>"
proof -
  obtain a as where "free_addrs s = a # as" using assms(2) by (cases "free_addrs s") auto
  from new_object_ok[OF assms(1) this, of CONS_TAG "ConsBody \<lparr>c_car = x, c_cdr = y, c_line = 0, c_name = None\<rparr>"]
  show ?thesis
    by (auto simp: lisp_cons_def consp_def cons_at_def object_at_def mk_ptr_simps)
qed

lemma strptrval_ok:
  assumes "wf_lisp s" "free_addrs s \<noteq> []" "cstring str cs" "tag AND 7 = tag"
  shows "\<exists>v s'. strptrval str tag s = Inr (v, s') \<and> grown s 1 s' \<and> v AND HEAP_MASK = tag \<and> text_at v tag s' = Inr (cs @ [0])"
proof -
  obtain a as where a: "free_addrs s = a # as" using assms(2) by (cases "free_addrs s") auto
  have n: "strlen str = Inr (length cs)" "take (length cs + 1) str = cs @ [0]"
    using strlen_cstring[OF assms(3)] assms(3) by (auto simp: cstring_def)
  obtain s' al where s': "new_object SYMBOL_TAG (TextBody (cs @ [0])) s = Inr (mk_ptr a SYMBOL_TAG, s')" "grown s 1 s'" "heap s' a = Some al"
    "a_body al = TextBody (cs @ [0])" "a AND 7 = 0" using new_object_ok[OF assms(1) a] by blast
  then have "strptrval str tag s = Inr (mk_ptr a tag, s')"
    using n a by (auto simp: strptrval_def new_object_def malloc_aligned_def res_bind_eq_Inr)
  then show ?thesis
    using s' mk_ptr_simps[OF s'(5) assms(4)] by (auto simp: text_at_def object_at_def)
qed

section \<open>Lists in the heap\<close>

fun list_at :: "lisp \<Rightarrow> value_t \<Rightarrow> value_t list \<Rightarrow> bool" where
  "list_at s v [] \<longleftrightarrow> v = nil"
| "list_at s v (x # xs) \<longleftrightarrow> consp v \<and> (\<exists>c. cons_at v s = Inr c \<and> c_car c = x \<and> list_at s (c_cdr c) xs)"

lemma list_at_keeps: "list_at s v xs \<Longrightarrow> keeps s s' \<Longrightarrow> list_at s' v xs"
  by (induction xs arbitrary: v) (auto dest: cons_at_keeps)

lemma list_at_nilp: "list_at s v xs \<Longrightarrow> nilp v \<longleftrightarrow> xs = []"
  by (cases xs) (auto simp: consp_other)

lemma car_list: "list_at s v xs \<Longrightarrow> car v s = Inr (case xs of [] \<Rightarrow> nil | x # _ \<Rightarrow> x)"
  by (cases xs) (auto simp: car_def)

lemma cdr_list: "list_at s v xs \<Longrightarrow> \<exists>w. cdr v s = Inr w \<and> list_at s w (tl xs)"
  by (cases xs) (auto simp: cdr_def)

lemma cdr_list_Cons: "list_at s v (x # xs) \<Longrightarrow> \<exists>w. cdr v s = Inr w \<and> list_at s w xs"
  using cdr_list[of s v "x # xs"] by simp

lemma listp_list: "list_at s v xs \<Longrightarrow> listp v s = Some (Inr True)"
proof (induction xs arbitrary: v)
  case Nil
  then show ?case by (subst listp.simps) simp
next
  case (Cons x xs)
  then obtain w where w: "cdr v s = Inr w" "list_at s w xs" using cdr_list_Cons by blast
  have "consp v" using Cons.prems by simp
  then show ?case using Cons.IH[OF w(2)] w(1) by (subst listp.simps) simp
qed

text \<open>A value whose chain of conses does not end in \<open>nil\<close> is no list.\<close>

lemma listp_False:
  "\<not> consp v \<Longrightarrow> v \<noteq> nil \<Longrightarrow> listp v s = Some (Inr False)"
  by (subst listp.simps) (simp add: nilp_def)

lemma listp_cons: "consp v \<Longrightarrow> cdr v s = Inr w \<Longrightarrow> listp v s = listp w s"
  by (subst listp.simps) simp

lemma length_from_list: "list_at s v xs \<Longrightarrow> length_from i v s = Some (Inr (i + of_nat (length xs)))"
proof (induction xs arbitrary: v i)
  case Nil
  then show ?case by (subst length_from.simps) simp
next
  case (Cons x xs)
  then obtain w where w: "cdr v s = Inr w" "list_at s w xs" using cdr_list_Cons by blast
  have "\<not> nilp v" using Cons.prems by (simp add: consp_other)
  then show ?case using Cons.IH[OF w(2), of "i + 1"] w(1) by (subst length_from.simps) (simp add: algebra_simps)
qed

lemma length_list: "list_at s v xs \<Longrightarrow> lisp_length v s = Some (Inr (of_nat (length xs)))"
  using length_from_list[of s v xs 0] by (simp add: lisp_length_def)

lemma cdrs_list: "list_at s v xs \<Longrightarrow> \<exists>w. cdrs n v s = Inr w \<and> list_at s w (drop n xs)"
proof (induction n arbitrary: v xs)
  case (Suc n)
  obtain w where w: "cdr v s = Inr w" "list_at s w (tl xs)" using cdr_list[OF Suc.prems] by blast
  then show ?case using Suc.IH[OF w(2)] by (simp add: drop_Suc)
qed simp

lemma elt_list:
  assumes "list_at s v xs" "unat i < 2 ^ 31"
  shows "elt v i s = Inr (if unat i < length xs then xs ! unat i else nil)"
proof -
  have i: "nat (sint i) = unat i" using sint_eq_unat[OF assms(2)] by simp
  obtain w where w: "cdrs (unat i) v s = Inr w" "list_at s w (drop (unat i) xs)" using cdrs_list[OF assms(1)] by blast
  have "(case drop (unat i) xs of [] \<Rightarrow> nil | x # _ \<Rightarrow> x) = (if unat i < length xs then xs ! unat i else nil)"
    by (cases "unat i < length xs") (auto simp: Cons_nth_drop_Suc[symmetric])
  then show ?thesis using car_list[OF w(2)] w(1) i by (simp add: elt_def)
qed

lemma cxdr_list:
  assumes "list_at s v xs" "unat i < 2 ^ 31" "length xs < 2 ^ 31"
  shows "\<exists>w. cxdr v i s = Some (Inr w) \<and> list_at s w (drop (unat i) xs)"
proof -
  have i: "sint i = int (unat i)" using sint_eq_unat[OF assms(2)] .
  have n: "sint (of_nat (length xs) :: u32) = int (length xs)"
    using sint_eq_unat[of "of_nat (length xs)"] assms(3) by (simp add: unat_of_nat)
  obtain w where w: "cdrs (unat i) v s = Inr w" "list_at s w (drop (unat i) xs)" using cdrs_list[OF assms(1)] by blast
  have cmp: "sint (of_nat (length xs) :: u32) \<le> sint i \<longleftrightarrow> length xs \<le> unat i" "nat (sint i) = unat i"
    unfolding i n by (rule of_nat_le_iff) simp
  show ?thesis
  proof (cases "length xs \<le> unat i")
    case True
    then show ?thesis using listp_list[OF assms(1)] length_list[OF assms(1)] by (simp add: cxdr_def cmp)
  next
    case False
    then show ?thesis using listp_list[OF assms(1)] length_list[OF assms(1)] w by (simp add: cxdr_def cmp)
  qed
qed

lemma list_cons_ok:
  assumes "wf_lisp s" "free_addrs s \<noteq> []" "list_at s v xs"
  shows "\<exists>w s'. lisp_cons x v s = Inr (w, s') \<and> grown s 1 s' \<and> list_at s' w (x # xs)"
proof -
  obtain w s' where w: "lisp_cons x v s = Inr (w, s')" "grown s 1 s'" "consp w" "cons_at w s' = Inr \<lparr>c_car = x, c_cdr = v, c_line = 0, c_name = None\<rparr>"
    using cons_ok[OF assms(1,2)] by blast
  then show ?thesis using list_at_keeps[OF assms(3) grownD(2)[OF w(2)]] by auto
qed

section \<open>Changing the end of a list\<close>

text \<open>The conses of a list, in order.\<close>

fun conses_of :: "lisp \<Rightarrow> value_t \<Rightarrow> value_t list \<Rightarrow> value_t list" where
  "conses_of s v [] = []"
| "conses_of s v (x # xs) = v # (case cons_at v s of Inl e \<Rightarrow> [] | Inr c \<Rightarrow> conses_of s (c_cdr c) xs)"

lemma last_cons_list:
  assumes "list_at s v xs" "xs \<noteq> []"
  shows "last_cons v s = Some (Inr (last (conses_of s v xs)))"
  using assms
proof (induction xs arbitrary: v)
  case (Cons x xs)
  then obtain c where c: "consp v" "cons_at v s = Inr c" "list_at s (c_cdr c) xs" by auto
  show ?case
  proof (cases "xs = []")
    case True
    then show ?thesis using c by (subst last_cons.simps) (simp add: cdr_def)
  next
    case False
    then have "\<not> nilp (c_cdr c)" "conses_of s (c_cdr c) xs \<noteq> []" using list_at_nilp[OF c(3)] by (cases xs; simp)+
    then show ?thesis using c Cons.IH[OF c(3) False] by (subst last_cons.simps) (simp add: cdr_def)
  qed
qed simp

lemma object_at_put:
  "object_at w tag (put_body v tag' b s) = (if hdr_of w tag = hdr_of v tag' then res_bind (object_at w tag s) (\<lambda>al. Inr (al\<lparr>a_body := b\<rparr>)) else object_at w tag s)"
  by (auto simp: object_at_def put_body_def split: option.splits)

lemma hdr_inj: "hdr_of v tag = hdr_of w tag \<longleftrightarrow> v = w"
proof -
  have "v = w" if "v XOR tag = w XOR tag"
  proof -
    have "(v XOR tag) XOR tag = (w XOR tag) XOR tag" using that by simp
    then show ?thesis by (simp add: xor.assoc)
  qed
  then show ?thesis by (auto simp: hdr_of_def)
qed

lemma cons_at_put:
  assumes "cons_at v s = Inr c"
  shows "cons_at w (put_body v CONS_TAG (ConsBody d) s) = (if w = v then Inr d else cons_at w s)"
  using assms by (auto simp: cons_at_def object_at_put hdr_inj res_bind_eq_Inr)

text \<open>A list whose last \<open>cdr\<close> is set to a list with other conses becomes the two appended.\<close>

lemma set_last_cdr:
  assumes "list_at s v xs" "xs \<noteq> []" "list_at s w ys" "distinct (conses_of s v xs)" "last (conses_of s v xs) \<notin> set (conses_of s w ys)"
  shows "\<exists>s'. set_cdr (last (conses_of s v xs)) w s = Inr s' \<and> list_at s' v (xs @ ys)"
proof -
  let ?l = "last (conses_of s v xs)"
  have el: "consp u \<and> (\<exists>c. cons_at u s = Inr c)" if "u \<in> set (conses_of s v xs)" for u
    using that assms(1) by (induction xs arbitrary: v) auto
  have "conses_of s v xs \<noteq> []" using assms(2) by (cases xs) simp_all
  then have "?l \<in> set (conses_of s v xs)" by (rule last_in_set)
  then obtain c where c: "consp ?l" "cons_at ?l s = Inr c" using el by blast
  let ?s = "put_body ?l CONS_TAG (ConsBody (c\<lparr>c_cdr := w\<rparr>)) s"
  note at = cons_at_put[OF c(2), of _ "c\<lparr>c_cdr := w\<rparr>"]
  have rest: "list_at ?s u zs" if "list_at s u zs" "?l \<notin> set (conses_of s u zs)" for u zs
    using that
  proof (induction zs arbitrary: u)
    case (Cons z zs)
    then show ?case using at[of u] by auto
  qed simp
  have "list_at ?s u (zs @ ys)" if "list_at s u zs" "zs \<noteq> []" "distinct (conses_of s u zs)" "last (conses_of s u zs) = ?l" for u zs
    using that
  proof (induction zs arbitrary: u)
    case (Cons z zs)
    then obtain d where d: "consp u" "cons_at u s = Inr d" "c_car d = z" "list_at s (c_cdr d) zs" by auto
    show ?case
    proof (cases "zs = []")
      case True
      then have "u = ?l" using Cons.prems(4) d(2) by simp
      moreover have "list_at ?s w ys" by (rule rest[OF assms(3,5)])
      ultimately show ?thesis using True d(1-3) c(2) at[of u] by auto
    next
      case False
      then have ne: "conses_of s (c_cdr d) zs \<noteq> []" by (cases zs) simp_all
      then have "u \<noteq> ?l" using Cons.prems(3,4) d(2) by (metis conses_of.simps(2) distinct.simps(2) last_ConsR last_in_set sum.case(2))
      then show ?thesis using Cons.IH[OF d(4) False] Cons.prems(3,4) d ne at[of u] by auto
    qed
  qed simp
  from this[OF assms(1,2,4) refl] have "list_at ?s v (xs @ ys)" .
  then show ?thesis using c by (simp add: set_cdr_def)
qed

lemma conses_of_keeps: "list_at s v xs \<Longrightarrow> keeps s s' \<Longrightarrow> conses_of s' v xs = conses_of s v xs"
proof (induction xs arbitrary: v)
  case (Cons x xs)
  then obtain c where c: "cons_at v s = Inr c" "list_at s (c_cdr c) xs" by auto
  then show ?case using Cons.IH[OF c(2) Cons.prems(2)] cons_at_keeps[OF c(1) Cons.prems(2)] by simp
qed simp

section \<open>Appending\<close>

lemma nilptr_list:
  assumes "list_at s v xs"
  shows "nilptr v s = Some (Inr (if xs = [] then VarRef else CdrRef (last (conses_of s v xs))))"
  using assms list_at_nilp[OF assms] last_cons_list[OF assms] by (simp add: nilptr_def listp_list)

lemma merge2_lists:
  assumes "list_at s v xs" "list_at s w ys" "distinct (conses_of s v xs)" "set (conses_of s v xs) \<inter> set (conses_of s w ys) = {}"
  shows "\<exists>r s'. merge2 v w s = Some (Inr (r, s')) \<and> list_at s' r (xs @ ys)"
proof (cases "xs = []")
  case True
  then show ?thesis
    using assms(2) nilptr_list[OF assms(1)] listp_list[OF assms(1)] listp_list[OF assms(2)] by (simp add: merge2_def assign_ref_def)
next
  case False
  then have ne: "conses_of s v xs \<noteq> []" by (cases xs) simp_all
  then have "last (conses_of s v xs) \<notin> set (conses_of s w ys)" using assms(4) last_in_set by blast
  from set_last_cdr[OF assms(1) False assms(2,3) this]
  show ?thesis using False nilptr_list[OF assms(1)] assms(1,2) by (auto simp: merge2_def listp_list assign_ref_def)
qed

text \<open>A value that is no list is put in front of a list.\<close>

lemma merge2_item:
  assumes "wf_lisp s" "free_addrs s \<noteq> []" "listp x s = Some (Inr False)" "list_at s w ys"
  shows "\<exists>r s'. merge2 x w s = Some (Inr (r, s')) \<and> grown s 1 s' \<and> list_at s' r (x # ys)"
  using list_cons_ok[OF assms(1,2,4), of x] assms(3,4) by (auto simp: merge2_def listp_list)

section \<open>S-expressions\<close>

datatype sexp = SInt nat | SSym "u8 list" | SStr "u8 list" | SNil | SPair sexp sexp

fun rep :: "lisp \<Rightarrow> value_t \<Rightarrow> sexp \<Rightarrow> bool" where
  "rep s v (SInt n) \<longleftrightarrow> v = intval (of_nat n) \<and> n < 2 ^ 30"
| "rep s v (SSym cs) \<longleftrightarrow> symbolp v \<and> (\<exists>b. text_at v SYMBOL_TAG s = Inr b \<and> cstring b cs)"
| "rep s v (SStr cs) \<longleftrightarrow> stringp v \<and> (\<exists>b. text_at v STRING_TAG s = Inr b \<and> cstring b cs)"
| "rep s v SNil \<longleftrightarrow> v = nil"
| "rep s v (SPair a d) \<longleftrightarrow> consp v \<and> (\<exists>c. cons_at v s = Inr c \<and> rep s (c_car c) a \<and> rep s (c_cdr c) d)"

lemma rep_keeps: "rep s v e \<Longrightarrow> keeps s s' \<Longrightarrow> rep s' v e"
  by (induction e arbitrary: v) (auto dest: cons_at_keeps text_at_keeps)

text \<open>How many objects hold an expression.\<close>

fun objects :: "sexp \<Rightarrow> nat" where
  "objects (SInt n) = 0"
| "objects (SSym cs) = 1"
| "objects (SStr cs) = 1"
| "objects SNil = 0"
| "objects (SPair a d) = Suc (objects a + objects d)"

lemma deep_copies_Nil [simp]: "deep_copies junk [] s = Some (Inr ([], s))"
  by (subst deep_copies.simps) simp

lemma deep_copies_step:
  "\<exists>C. \<forall>vs. deep_copies junk (v # vs) s = run_bind C (\<lambda>(x, s3). run_bind (deep_copies junk vs s3) (\<lambda>(xs, s4). Some (Inr (x # xs, s4))))"
  by (intro exI allI, subst deep_copies.simps, unfold list.case, rule refl)

lemma deep_copies_Cons:
  assumes "deep_copies junk [v] s = Some (Inr ([w], s1))" "deep_copies junk vs s1 = Some (Inr (ws, s2))"
  shows "deep_copies junk (v # vs) s = Some (Inr (w # ws, s2))"
proof -
  obtain C where C: "\<forall>vs. deep_copies junk (v # vs) s = run_bind C (\<lambda>(x, s3). run_bind (deep_copies junk vs s3) (\<lambda>(xs, s4). Some (Inr (x # xs, s4))))"
    using deep_copies_step by blast
  from assms(1) have "C = Some (Inr (w, s1))" using C by (auto simp: run_bind_eq_Some)
  then show ?thesis using C assms(2) by simp
qed

lemma string_symbol_tags: "symbolp v \<Longrightarrow> v AND 7 = 5" "stringp v \<Longrightarrow> v AND 7 = 3" "consp v \<Longrightarrow> v AND 7 = 1"
  by (simp_all add: predicate_defs tag_defs)

lemma deep_copies_rep:
  assumes "rep s v e" "wf_lisp s" "objects e \<le> length (free_addrs s)"
  shows "\<exists>w s'. deep_copies junk [v] s = Some (Inr ([w], s')) \<and> grown s (objects e) s' \<and> rep s' w e"
  using assms
proof (induction e arbitrary: s v)
  case (SInt n)
  then show ?case
    by (intro exI[of _ v] exI[of _ s]) (subst deep_copies.simps, simp add: grown_refl)
next
  case SNil
  then show ?case
    by (intro exI[of _ v] exI[of _ s]) (subst deep_copies.simps, simp add: grown_refl)
next
  case (SSym cs)
  then obtain b where b: "symbolp v" "text_at v SYMBOL_TAG s = Inr b" "cstring b cs" by auto
  have ne: "free_addrs s \<noteq> []" using SSym by auto
  have "\<not> integerp v" "v \<noteq> nil" "v \<noteq> lisp_t" using b(1) not_integerp[of v] by (auto simp: lisp_t_def predicate_defs tag_defs nil_def)
  moreover obtain w s' where "symval b s = Inr (w, s')" "grown s 1 s'" "w AND HEAP_MASK = SYMBOL_TAG" "text_at w SYMBOL_TAG s' = Inr (cs @ [0])"
    using strptrval_ok[OF SSym.prems(2) ne b(3) tag_and(4)] unfolding symval_def by blast
  moreover have "0 \<notin> set cs" using b(3) by (simp add: cstring_def)
  ultimately show ?case
    using b by (intro exI[of _ w] exI[of _ s'])
      (subst deep_copies.simps, simp add: symbolp_def cstring_def)
next
  case (SStr cs)
  then obtain b where b: "stringp v" "text_at v STRING_TAG s = Inr b" "cstring b cs" by auto
  have ne: "free_addrs s \<noteq> []" using SStr by auto
  have "\<not> integerp v" "v \<noteq> nil" "v \<noteq> lisp_t" "\<not> symbolp v"
    using b(1) not_integerp[of v] by (auto simp: lisp_t_def predicate_defs tag_defs nil_def)
  moreover obtain w s' where "strval b s = Inr (w, s')" "grown s 1 s'" "w AND HEAP_MASK = STRING_TAG" "text_at w STRING_TAG s' = Inr (cs @ [0])"
    using strptrval_ok[OF SStr.prems(2) ne b(3) tag_and(3)] unfolding strval_def by blast
  moreover have "0 \<notin> set cs" using b(3) by (simp add: cstring_def)
  ultimately show ?case
    using b by (intro exI[of _ w] exI[of _ s'])
      (subst deep_copies.simps, simp add: stringp_def cstring_def)
next
  case (SPair a d)
  then obtain c where c: "consp v" "cons_at v s = Inr c" "rep s (c_car c) a" "rep s (c_cdr c) d" by auto
  have la: "objects a \<le> length (free_addrs s)" using SPair.prems(3) by simp
  obtain x s1 where 1: "deep_copies junk [c_car c] s = Some (Inr ([x], s1))" "grown s (objects a) s1" "rep s1 x a"
    using SPair.IH(1)[OF c(3) SPair.prems(2) la] by blast
  have ld: "objects d \<le> length (free_addrs s1)" using SPair.prems(3) grownD(3)[OF 1(2)] by simp
  obtain y s2 where 2: "deep_copies junk [c_cdr c] s1 = Some (Inr ([y], s2))" "grown s1 (objects d) s2" "rep s2 y d"
    using SPair.IH(2)[OF rep_keeps[OF c(4) grownD(2)[OF 1(2)]] grownD(1)[OF 1(2)] ld] by blast
  have both: "deep_copies junk [c_car c, c_cdr c] s = Some (Inr ([x, y], s2))" by (rule deep_copies_Cons[OF 1(1) 2(1)])
  have "free_addrs s2 \<noteq> []" using SPair.prems(3) grownD(3)[OF 1(2)] grownD(3)[OF 2(2)] by auto
  then obtain w s3 where w: "lisp_cons x y s2 = Inr (w, s3)" "grown s2 1 s3" "consp w" "cons_at w s3 = Inr \<lparr>c_car = x, c_cdr = y, c_line = 0, c_name = None\<rparr>"
    using cons_ok[OF grownD(1)[OF 2(2)]] by blast
  have "rep s3 w (SPair a d)"
    using w rep_keeps[OF rep_keeps[OF 1(3) grownD(2)[OF 2(2)]] grownD(2)[OF w(2)]] rep_keeps[OF 2(3) grownD(2)[OF w(2)]] by simp
  moreover have "grown s (objects (SPair a d)) s3"
    using grown_trans[OF grown_trans[OF 1(2) 2(2)] w(2)] by simp
  moreover have "deep_copies junk [v] s = Some (Inr ([w], s3))"
  proof -
    have "\<not> integerp v" "v \<noteq> nil" "v \<noteq> lisp_t" "\<not> symbolp v" "\<not> stringp v"
      using c(1) not_integerp[of v] by (auto simp: lisp_t_def predicate_defs tag_defs nil_def)
    then show ?thesis using c(1,2) both w(1) by (subst deep_copies.simps) (simp add: car_def cdr_def)
  qed
  ultimately show ?case by blast
qed

lemma deep_copy_rep:
  assumes "rep s v e" "wf_lisp s" "objects e \<le> length (free_addrs s)"
  shows "\<exists>w s'. deep_copy junk v s = Some (Inr (w, s')) \<and> grown s (objects e) s' \<and> rep s' w e"
  using deep_copies_rep[OF assms, of junk] by (auto simp: deep_copy_def)

section \<open>Properties\<close>

text \<open>A start: no objects, and \<open>n\<close> addresses to come.\<close>

definition lisp_start :: "nat \<Rightarrow> lisp" where
  "lisp_start n = \<lparr>heap = Map.empty, first_a = 0, last_a = 0, max_pool = 0, current_pool = 0, free_addrs = map (\<lambda>i. of_nat (4096 + 64 * i)) [0..<n]\<rparr>"

lemma low_bits_zero: "(w :: u32) AND 7 = 0 \<longleftrightarrow> unat w mod 8 = 0"
proof -
  have 7: "(7 :: u32) = mask 3" by (simp add: mask_eq_exp_minus_1)
  show ?thesis unfolding 7 take_bit_eq_mask[symmetric] by (simp add: take_bit_eq_mod word_unat_eq_iff unat_mod)
qed

lemma lisp_start_64: "wf_lisp (lisp_start 64)" "length (free_addrs (lisp_start 64)) = 64"
proof -
  have "linked_heap (lisp_start 64) []" by (simp add: linked_heap_def lisp_start_def)
  moreover have at: "unat (of_nat (4096 + 64 * i) :: u32) = 4096 + 64 * i" if "i < 64" for i using that by (subst unat_of_nat) simp
  then have "inj_on (\<lambda>i. of_nat (4096 + 64 * i) :: u32) {0..<64}" unfolding inj_on_def by (metis add_left_cancel atLeastLessThan_iff mult_cancel1 zero_neq_numeral)
  then have "distinct (free_addrs (lisp_start 64))" by (simp add: lisp_start_def distinct_map)
  moreover have "a AND 7 = 0 \<and> a \<noteq> 0" if "a \<in> set (free_addrs (lisp_start 64))" for a
  proof -
    have "a \<in> (\<lambda>i. of_nat (4096 + 64 * i)) ` {0..<64}" using that by (simp only: lisp_start_def lisp.simps set_map set_upt)
    then obtain i where i: "i < 64" "a = of_nat (4096 + 64 * i)" by auto
    then have "unat a = 4096 + 64 * i" using at by simp
    moreover have "unat a mod 8 = 0" unfolding calculation by presburger
    ultimately show ?thesis using low_bits_zero by fastforce
  qed
  ultimately show "wf_lisp (lisp_start 64)" by (auto simp: wf_lisp_def avail_def lisp_start_def)
qed (simp add: lisp_start_def)

text \<open>
  C3. The allocating constructors give values of their own kind and of no other, that hold
  what was put in; objects stay what they are, and the heap stays linked.
\<close>

theorem lisp_constructors_typed:
  assumes "wf_lisp s" "free_addrs s \<noteq> []" "cstring str cs"
  shows "(\<exists>v s'. lisp_cons x y s = Inr (v, s') \<and> consp v \<and> \<not> (integerp v \<or> symbolp v \<or> stringp v \<or> closurep v \<or> classp v \<or> nilp v) \<and>
        car v s' = Inr x \<and> cdr v s' = Inr y \<and> wf_lisp s' \<and> keeps s s')
    \<and> (\<exists>v s'. symval str s = Inr (v, s') \<and> symbolp v \<and> \<not> (integerp v \<or> consp v \<or> stringp v \<or> closurep v \<or> classp v \<or> nilp v) \<and>
        text_at v SYMBOL_TAG s' = Inr (cs @ [0]) \<and> wf_lisp s' \<and> keeps s s')
    \<and> (\<exists>v s'. strval str s = Inr (v, s') \<and> stringp v \<and> \<not> (integerp v \<or> consp v \<or> symbolp v \<or> closurep v \<or> classp v \<or> nilp v) \<and>
        text_at v STRING_TAG s' = Inr (cs @ [0]) \<and> wf_lisp s' \<and> keeps s s')"
proof -
  obtain v s' where 1: "lisp_cons x y s = Inr (v, s')" "grown s 1 s'" "consp v" "cons_at v s' = Inr \<lparr>c_car = x, c_cdr = y, c_line = 0, c_name = None\<rparr>"
    using cons_ok[OF assms(1,2)] by blast
  obtain w t' where 2: "symval str s = Inr (w, t')" "grown s 1 t'" "w AND HEAP_MASK = SYMBOL_TAG" "text_at w SYMBOL_TAG t' = Inr (cs @ [0])"
    using strptrval_ok[OF assms tag_and(4)] unfolding symval_def by blast
  obtain u r' where 3: "strval str s = Inr (u, r')" "grown s 1 r'" "u AND HEAP_MASK = STRING_TAG" "text_at u STRING_TAG r' = Inr (cs @ [0])"
    using strptrval_ok[OF assms tag_and(3)] unfolding strval_def by blast
  have w: "symbolp w" "\<not> (consp w \<or> stringp w \<or> closurep w \<or> classp w \<or> nilp w)" and u: "stringp u" "\<not> (consp u \<or> symbolp u \<or> closurep u \<or> classp u \<or> nilp u)"
    using 2(3) 3(3) by (auto simp: predicate_defs nilp_def nil_def tag_defs)
  show ?thesis
    using 1 2(1,4) 3(1,4) grownD(1,2)[OF 1(2)] grownD(1,2)[OF 2(2)] grownD(1,2)[OF 3(2)] consp_other[OF 1(3)] not_integerp[of v] not_integerp[of w] not_integerp[of u] w u
    by (simp add: car_def cdr_def)
qed

lemma lisp_constructors_typed_witness:
  "\<exists>v s'. lisp_cons nil nil (lisp_start 64) = Inr (v, s') \<and> consp v \<and> \<not> (integerp v \<or> symbolp v \<or> stringp v \<or> closurep v \<or> classp v \<or> nilp v) \<and>
     car v s' = Inr nil \<and> cdr v s' = Inr nil \<and> wf_lisp s' \<and> keeps (lisp_start 64) s'"
proof -
  have "free_addrs (lisp_start 64) \<noteq> []" using lisp_start_64(2) by auto
  moreover have "cstring [97, 0] [97]" by (simp add: cstring_def)
  ultimately show ?thesis using lisp_constructors_typed[OF lisp_start_64(1), of "[97, 0]" "[97]" nil nil] by blast
qed

lemma sint_u32: "sint (c :: u32) = (if unat c < 2 ^ 31 then int (unat c) else int (unat c) - 2 ^ 32)"
proof (cases "unat c < 2 ^ 31")
  case True
  then show ?thesis using sint_eq_unat[of c] by simp
next
  case False
  obtain k where k: "unat c = k" "uint c = int k" by (metis of_nat_unat)
  have "uint c < 2 ^ 32" using uint_lt2p[of c] by simp
  then have lt: "k < 2 ^ 32" using k by simp
  have s: "sint c = (int k + 2 ^ 31) mod 2 ^ 32 - 2 ^ 31"
    by (simp add: sint_uint signed_take_bit_eq_take_bit_shift take_bit_eq_mod k)
  have "(int k - 2 ^ 31) mod 2 ^ 32 = int k - 2 ^ 31" using False lt k by (intro mod_pos_pos_trivial) auto
  moreover have "(int k + 2 ^ 31) mod 2 ^ 32 = (int k - 2 ^ 31) mod 2 ^ 32"
    using mod_add_self2[of "int k - 2 ^ 31" "2 ^ 32"] by (simp add: add.commute)
  ultimately show ?thesis using False unfolding s k by simp
qed

text \<open>
  \<open>valint\<close> reads the 30 bits that \<open>intval\<close> keeps of a number, without a sign: it gives the
  number back exactly if that is at least 0 and below \<open>2 ^ 30\<close>, and never anything from \<open>2 ^ 30\<close> on.
\<close>

theorem valint_bounds:
  "unat (valint v) < 2 ^ 30 \<and> valint (intval i) = i mod 2 ^ 30 \<and> (valint (intval i) = i \<longleftrightarrow> 0 \<le> sint i \<and> sint i < 2 ^ 30)"
proof -
  have mod: "take_bit 30 i = i mod 2 ^ 30" by (simp add: take_bit_eq_mod)
  have small: "unat (valint v) < 2 ^ 30"
  proof -
    have "unat v < 2 ^ LENGTH(32)" by (rule unsigned_less)
    then have "unat v div 4 < 2 ^ 30" by simp
    then show ?thesis by (simp add: valint_def drop_bit_eq_div unat_div)
  qed
  have "take_bit 30 i = i \<longleftrightarrow> unat i < 2 ^ 30"
  proof
    assume "take_bit 30 i = i"
    then have "unat i = take_bit 30 (unat i)" by (metis unsigned_take_bit_eq)
    then show "unat i < 2 ^ 30" using take_bit_nat_less_exp[of 30 "unat i"] by simp
  qed (simp add: word_unat_eq_iff unsigned_take_bit_eq take_bit_nat_eq_self)
  moreover have "unat i < 2 ^ 30 \<longleftrightarrow> 0 \<le> sint i \<and> sint i < 2 ^ 30"
  proof (cases "unat i < 2 ^ 31")
    case True
    obtain k where k: "unat i = k" by blast
    have "sint i = int k" using sint_eq_unat[OF True] k by simp
    then show ?thesis unfolding k by auto
  next
    case False
    then have "sint i < 0" using sint_u32[of i] unsigned_less[of i] by (auto simp: not_less)
    then show ?thesis using False by auto
  qed
  ultimately show ?thesis using small mod valint_intval[of i] by simp
qed


definition a_cons :: "value_t \<Rightarrow> value_t \<Rightarrow> alloc" where
  "a_cons x y = \<lparr>a_tag = CONS_TAG, a_prev = 0, a_next = 0, a_pool = 0, a_mark = - 1,
     a_body = ConsBody \<lparr>c_car = x, c_cdr = y, c_line = 0, c_name = None\<rparr>\<rparr>"

definition two_lists :: lisp where
  "two_lists = (lisp_start 0)\<lparr>heap := [4096 \<mapsto> a_cons 4 4177, 4160 \<mapsto> a_cons 8 nil, 4224 \<mapsto> a_cons 12 nil]\<rparr>"

lemma two_lists_at:
  "consp 4113" "consp 4177" "consp 4241"
  "cons_at 4113 two_lists = Inr \<lparr>c_car = 4, c_cdr = 4177, c_line = 0, c_name = None\<rparr>"
  "cons_at 4177 two_lists = Inr \<lparr>c_car = 8, c_cdr = nil, c_line = 0, c_name = None\<rparr>"
  "cons_at 4241 two_lists = Inr \<lparr>c_car = 12, c_cdr = nil, c_line = 0, c_name = None\<rparr>"
proof -
  have hdr: "hdr_of 4113 CONS_TAG = 4096" "hdr_of 4177 CONS_TAG = 4160" "hdr_of 4241 CONS_TAG = 4224"
    by (simp_all add: hdr_of_def tag_defs ALLOC_SIZE_def)
  show "consp 4113" "consp 4177" "consp 4241" by (simp_all add: consp_def tag_defs)
  show "cons_at 4113 two_lists = Inr \<lparr>c_car = 4, c_cdr = 4177, c_line = 0, c_name = None\<rparr>"
    "cons_at 4177 two_lists = Inr \<lparr>c_car = 8, c_cdr = nil, c_line = 0, c_name = None\<rparr>"
    "cons_at 4241 two_lists = Inr \<lparr>c_car = 12, c_cdr = nil, c_line = 0, c_name = None\<rparr>"
    by (simp_all add: cons_at_def object_at_def hdr two_lists_def a_cons_def lisp_start_def)
qed


text \<open>
  C13. \<open>deep_copy\<close> of the objects of an expression makes new objects of the same expression, takes
  one address for each object and leaves the old ones what they are.
\<close>

theorem deep_copy_copies:
  assumes "rep s v e" "wf_lisp s" "objects e \<le> length (free_addrs s)"
  shows "\<exists>w s'. deep_copy junk v s = Some (Inr (w, s')) \<and> rep s' w e \<and> rep s' v e \<and> wf_lisp s' \<and> free_addrs s' = drop (objects e) (free_addrs s)"
proof -
  obtain w s' where w: "deep_copy junk v s = Some (Inr (w, s'))" "grown s (objects e) s'" "rep s' w e" using deep_copy_rep[OF assms] by blast
  then show ?thesis using rep_keeps[OF assms(1) grownD(2)[OF w(2)]] by (auto simp: grown_def)
qed

lemma deep_copy_copies_witness:
  "\<exists>v s w s'. rep s v (SPair (SInt 1) (SSym [97])) \<and> deep_copy [] v s = Some (Inr (w, s')) \<and> rep s' w (SPair (SInt 1) (SSym [97]))"
proof -
  have ne: "free_addrs (lisp_start 64) \<noteq> []" using lisp_start_64(2) by auto
  have "cstring [97, 0] [97 :: u8]" by (simp add: cstring_def)
  from strptrval_ok[OF lisp_start_64(1) ne this tag_and(4)] obtain u s1 where 1: "grown (lisp_start 64) 1 s1" "u AND HEAP_MASK = SYMBOL_TAG" "text_at u SYMBOL_TAG s1 = Inr ([97] @ [0])" by blast
  then have u: "rep s1 u (SSym [97])" by (simp add: symbolp_def cstring_def)
  have l1: "length (free_addrs s1) = 63" using grownD(3)[OF 1(1)] lisp_start_64(2) by simp
  then have "free_addrs s1 \<noteq> []" by auto
  from cons_ok[OF grownD(1)[OF 1(1)] this] obtain v s2 where 2: "grown s1 1 s2" "consp v"
    "cons_at v s2 = Inr \<lparr>c_car = intval (of_nat 1), c_cdr = u, c_line = 0, c_name = None\<rparr>" by blast
  then have v: "rep s2 v (SPair (SInt 1) (SSym [97]))" using rep_keeps[OF u grownD(2)[OF 2(1)]] by simp
  have "objects (SPair (SInt 1) (SSym [97])) \<le> length (free_addrs s2)" using grownD(3)[OF 2(1)] l1 by simp
  from deep_copy_copies[OF v grownD(1)[OF 2(1)] this, of "[]"] show ?thesis using v by blast
qed

end
