(* ===== verification/Lisp_Stream.thy ===== *)
theory Lisp_Stream
  imports Lisp_Values
begin

text \<open>
  Input streams of the Lisp reader (\<^verbatim>\<open>src/lisp/istream.h\<close>, \<^verbatim>\<open>src/lisp/istream.c\<close>): an interface
  of functions on a stream, and its two implementations, on a string and on a file of the C
  library. The library's \<open>FILE\<close> is the list of the bytes that are still to be read.
\<close>

section \<open>The interface\<close>

text \<open>\<open>int\<close>s are integers: a stream has fewer than \<open>2 ^ 31\<close> characters.\<close>

record 's istream =
  is_peek :: "'s \<Rightarrow> (int \<times> 's) res"
  is_get :: "'s \<Rightarrow> (int \<times> 's) res"
  is_read :: "u8 list \<Rightarrow> int \<Rightarrow> 's \<Rightarrow> (int \<times> u8 list \<times> 's) res"
  is_showpos :: "'s \<Rightarrow> u8 list res"
  is_getpos :: "'s \<Rightarrow> int \<times> u8 list"

text \<open>The characters of a message, and a number in decimal.\<close>

definition bytes_of_string :: "string \<Rightarrow> u8 list" where
  "bytes_of_string cs = map (\<lambda>c. of_nat (of_char c)) cs"

fun dec_nat :: "nat \<Rightarrow> u8 list" where
  "dec_nat n = (if n < 10 then [of_nat (48 + n)] else dec_nat (n div 10) @ [of_nat (48 + n mod 10)])"

declare dec_nat.simps [simp del]

definition dec_int :: "int \<Rightarrow> u8 list" where
  "dec_int i = (if i < 0 then 45 # dec_nat (nat (- i)) else dec_nat (nat i))"

definition MIN_of :: "int \<Rightarrow> int \<Rightarrow> int" where
  "MIN_of a b = (if b < a then b else a)"

section \<open>Strings\<close>

record stristream =
  ss_val :: "u8 list"
  ss_i :: int
  ss_length :: int
  ss_line :: int
  ss_fromleft :: int
  ss_linestart :: int

text \<open>A \<open>char\<close> is signed: a byte of 128 or more gives a negative number, 255 gives -1.\<close>

definition stristream_peek :: "stristream \<Rightarrow> (int \<times> stristream) res" where
  "stristream_peek p =
     (if ss_i p < ss_length p then res_bind (arr_get (ss_val p) (ss_i p)) (\<lambda>c. Inr (sint c, p)) else Inr (- 1, p))"

definition stristream_get :: "stristream \<Rightarrow> (int \<times> stristream) res" where
  "stristream_get p =
     (if ss_i p < ss_length p then
        res_bind (arr_get (ss_val p) (ss_i p)) (\<lambda>c.
        let p1 = p\<lparr>ss_i := ss_i p + 1, ss_fromleft := ss_fromleft p + 1\<rparr> in
        Inr (sint c,
          if c = 10 then p1\<lparr>ss_fromleft := 1, ss_line := ss_line p1 + 1, ss_linestart := ss_i p1\<rparr> else p1))
      else Inr (- 1, p))"

text \<open>The copy starts at the start of the string, and the position stays.\<close>

definition stristream_read :: "u8 list \<Rightarrow> int \<Rightarrow> stristream \<Rightarrow> (int \<times> u8 list \<times> stristream) res" where
  "stristream_read buffer sz p =
     (let len = MIN_of sz (ss_length p - ss_i p) in
      res_bind (memcpy buffer (ss_val p) (nat len)) (\<lambda>b. Inr (len, b, p)))"

fun line_end :: "u8 list \<Rightarrow> int \<Rightarrow> nat \<Rightarrow> int \<Rightarrow> int res" where
  "line_end val i 0 stop = Inr stop"
| "line_end val i (Suc n) stop = res_bind (arr_get val i) (\<lambda>c. if c = 10 then Inr i else line_end val (i + 1) n stop)"

text \<open>\<open>%.*s\<close> stops at a zero byte.\<close>

definition stristream_showpos :: "stristream \<Rightarrow> u8 list res" where
  "stristream_showpos p =
     res_bind (line_end (ss_val p) (ss_linestart p) (nat (ss_length p - ss_linestart p)) (ss_length p)) (\<lambda>e.
     Inr (bytes_of_string ''line: '' @ dec_int (ss_line p) @ bytes_of_string '', char '' @ dec_int (ss_fromleft p) @ [10] @
       bytes_of_string ''  | '' @ takeWhile (\<lambda>c. c \<noteq> 0) (take (nat (e - ss_linestart p)) (drop (nat (ss_linestart p)) (ss_val p))) @ [10] @
       bytes_of_string ''  | '' @ replicate (nat (ss_fromleft p - 1)) 32 @
       27 # bytes_of_string ''[31m^'' @ 27 # bytes_of_string ''[0m'' @ [10]))"

definition stristream_getpos :: "stristream \<Rightarrow> int \<times> u8 list" where
  "stristream_getpos p = (ss_line p, bytes_of_string ''<input literal>'')"

text \<open>The library's \<open>strndup\<close>: at most \<open>n\<close> bytes, up to a zero byte, and a zero byte.\<close>

definition strndup :: "u8 list \<Rightarrow> nat \<Rightarrow> u8 list res" where
  "strndup str n =
     (let p = takeWhile (\<lambda>c. c \<noteq> 0) (take n str) in
      if length p = length str \<and> length p < n then Inl OutOfBounds else Inr (p @ [0]))"

definition new_stristream :: "u8 list \<Rightarrow> int \<Rightarrow> stristream res" where
  "new_stristream str len =
     res_bind (strndup str (nat (len mod 2 ^ 32))) (\<lambda>v.
     Inr \<lparr>ss_val = v, ss_i = 0, ss_length = len, ss_line = 1, ss_fromleft = 1, ss_linestart = 0\<rparr>)"

definition new_stristream_nt :: "u8 list \<Rightarrow> stristream res" where
  "new_stristream_nt str = res_bind (strlen str) (\<lambda>n. new_stristream str (int n))"

definition str_io :: "stristream istream" where
  "str_io = \<lparr>is_peek = stristream_peek, is_get = stristream_get, is_read = stristream_read,
     is_showpos = stristream_showpos, is_getpos = stristream_getpos\<rparr>"

section \<open>Files\<close>

record fistream =
  fi_file :: "u8 list"
  fi_next :: int
  fi_has_next :: bool
  fi_line :: int
  fi_path :: "u8 list"

text \<open>The library's \<open>fgetc\<close>: an unsigned byte, or -1 at the end.\<close>

definition fgetc :: "u8 list \<Rightarrow> int \<times> u8 list" where
  "fgetc f = (case f of [] \<Rightarrow> (- 1, []) | c # r \<Rightarrow> (uint c, r))"

definition fistream_peek :: "fistream \<Rightarrow> (int \<times> fistream) res" where
  "fistream_peek p =
     (if fi_has_next p then Inr (fi_next p, p)
      else let (c, f) = fgetc (fi_file p) in Inr (c, p\<lparr>fi_file := f, fi_next := c, fi_has_next := True\<rparr>))"

text \<open>The character goes through a \<open>char\<close>, so its sign changes from that of \<open>peek\<close>.\<close>

definition fistream_get :: "fistream \<Rightarrow> (int \<times> fistream) res" where
  "fistream_get p =
     (let (c, p1) = (if fi_has_next p then (word_of_int (fi_next p) :: u8, p\<lparr>fi_has_next := False\<rparr>)
                     else let (c, f) = fgetc (fi_file p) in (word_of_int c, p\<lparr>fi_file := f\<rparr>)) in
      Inr (sint c, if c = 10 then p1\<lparr>fi_line := fi_line p1 + 1\<rparr> else p1))"

text \<open>A character that was peeked goes into the buffer first.\<close>

definition fistream_read :: "u8 list \<Rightarrow> int \<Rightarrow> fistream \<Rightarrow> (int \<times> u8 list \<times> fistream) res" where
  "fistream_read buffer sz p =
     (let pre = (if fi_has_next p then [word_of_int (fi_next p)] else []);
          want = nat ((sz - int (length pre)) mod 2 ^ 32);
          got = take want (fi_file p);
          new = pre @ got in
      if length buffer < length new then Inl OutOfBounds
      else
        Inr (int (length new), new @ drop (length new) buffer,
          p\<lparr>fi_file := drop want (fi_file p), fi_has_next := False,
            fi_line := fi_line p + int (length (filter (\<lambda>c. c = 10) new))\<rparr>))"

definition fistream_showpos :: "fistream \<Rightarrow> u8 list res" where
  "fistream_showpos p =
     Inr (bytes_of_string ''At '' @ takeWhile (\<lambda>c. c \<noteq> 0) (fi_path p) @ bytes_of_string '':'' @ dec_int (fi_line p) @ [10])"

definition fistream_getpos :: "fistream \<Rightarrow> int \<times> u8 list" where
  "fistream_getpos p = (fi_line p, fi_path p)"

text \<open>\<open>fopen\<close> is the table of the files that can be opened.\<close>

definition new_fistream :: "(u8 list \<Rightarrow> u8 list option) \<Rightarrow> u8 list \<Rightarrow> fistream option" where
  "new_fistream fopen path =
     (case fopen path of None \<Rightarrow> None
      | Some f \<Rightarrow> Some \<lparr>fi_file = f, fi_next = 0, fi_has_next = False, fi_line = 1, fi_path = path\<rparr>)"

definition file_io :: "fistream istream" where
  "file_io = \<lparr>is_peek = fistream_peek, is_get = fistream_get, is_read = fistream_read,
     is_showpos = fistream_showpos, is_getpos = fistream_getpos\<rparr>"

text \<open>\<open>startswith\<close> of \<^verbatim>\<open>lisp.c\<close>.\<close>

definition startswith :: "'s istream \<Rightarrow> u8 list \<Rightarrow> 's \<Rightarrow> (bool \<times> 's) res" where
  "startswith io pattern s =
     res_bind (strlen pattern) (\<lambda>n.
     res_bind (is_read io (take (n + 1) pattern) (int n) s) (\<lambda>(_, check, s1).
     res_bind (strcmp check pattern) (\<lambda>r. Inr (r = 0, s1))))"

section \<open>Characters that are left\<close>

text \<open>
  An interface that two streams share: \<open>left\<close> are the characters that are still to come; \<open>ok\<close>
  holds of every stream that was opened and only read from.
\<close>

locale char_stream =
  fixes ok :: "'s \<Rightarrow> bool" and io :: "'s istream" and left :: "'s \<Rightarrow> u8 list"
  assumes peek_end: "ok s \<Longrightarrow> left s = [] \<Longrightarrow> \<exists>s'. is_peek io s = Inr (- 1, s') \<and> ok s' \<and> left s' = []"
    and peek_char: "ok s \<Longrightarrow> left s = c # cs \<Longrightarrow> \<exists>i s'. is_peek io s = Inr (i, s') \<and> word_of_int i = c \<and>
      - 128 \<le> i \<and> i < 256 \<and> (unat c < 128 \<longrightarrow> i = int (unat c)) \<and> (128 \<le> unat c \<longrightarrow> i \<notin> {0..<128}) \<and> ok s' \<and> left s' = c # cs"
    and get_end: "ok s \<Longrightarrow> left s = [] \<Longrightarrow> \<exists>s'. is_get io s = Inr (- 1, s') \<and> ok s' \<and> left s' = []"
    and get_char: "ok s \<Longrightarrow> left s = c # cs \<Longrightarrow> \<exists>s'. is_get io s = Inr (sint c, s') \<and> ok s' \<and> left s' = cs"

text \<open>A string stream between its start and its end.\<close>

definition str_ok :: "stristream \<Rightarrow> bool" where
  "str_ok p \<longleftrightarrow> 0 \<le> ss_i p \<and> ss_i p \<le> ss_length p \<and> ss_length p < int (length (ss_val p))"

definition str_left :: "stristream \<Rightarrow> u8 list" where
  "str_left p = take (nat (ss_length p - ss_i p)) (drop (nat (ss_i p)) (ss_val p))"

lemma str_left_Nil: "str_ok p \<Longrightarrow> str_left p = [] \<longleftrightarrow> ss_i p = ss_length p"
  by (auto simp: str_ok_def str_left_def)

lemma str_left_Cons:
  assumes "str_ok p" "str_left p = c # cs"
  shows "ss_i p < ss_length p" "arr_get (ss_val p) (ss_i p) = Inr c" "str_left (p\<lparr>ss_i := ss_i p + 1\<rparr>) = cs"
proof -
  show lt: "ss_i p < ss_length p" using str_left_Nil[OF assms(1)] assms by (auto simp: str_ok_def)
  have n: "nat (ss_i p) < length (ss_val p)" "nat (ss_length p - ss_i p) = Suc (nat (ss_length p - (ss_i p + 1)))" "nat (ss_i p + 1) = Suc (nat (ss_i p))"
    using lt assms(1) by (auto simp: str_ok_def)
  then have "str_left p = ss_val p ! nat (ss_i p) # take (nat (ss_length p - (ss_i p + 1))) (drop (Suc (nat (ss_i p))) (ss_val p))"
    unfolding str_left_def by (simp add: Cons_nth_drop_Suc[symmetric])
  then show "arr_get (ss_val p) (ss_i p) = Inr c" "str_left (p\<lparr>ss_i := ss_i p + 1\<rparr>) = cs"
    using assms n by (auto simp: arr_get_def str_ok_def str_left_def)
qed

lemma sint_char: "unat (c :: u8) < 128 \<Longrightarrow> sint c = int (unat c)" "128 \<le> unat c \<Longrightarrow> sint c < 0" "- 128 \<le> sint c" "sint c < 128"
proof -
  have "unat c < 2 ^ LENGTH(8)" by (rule unsigned_less)
  then have "unat c < 256" by simp
  moreover obtain k where k: "unat c = k" by blast
  ultimately show "unat c < 128 \<Longrightarrow> sint c = int (unat c)" "128 \<le> unat c \<Longrightarrow> sint c < 0" "- 128 \<le> sint c" "sint c < 128"
    unfolding sint_u8 k by auto
qed

interpretation str_stream: char_stream str_ok str_io str_left
proof
  fix s c cs assume ok: "str_ok s"
  show "\<exists>s'. is_peek str_io s = Inr (- 1, s') \<and> str_ok s' \<and> str_left s' = []" "\<exists>s'. is_get str_io s = Inr (- 1, s') \<and> str_ok s' \<and> str_left s' = []"
    if "str_left s = []" using that ok str_left_Nil[OF ok] by (simp_all add: str_io_def stristream_peek_def stristream_get_def)
  assume l: "str_left s = c # cs"
  note c = str_left_Cons[OF ok l]
  show "\<exists>i s'. is_peek str_io s = Inr (i, s') \<and> word_of_int i = c \<and> - 128 \<le> i \<and> i < 256 \<and> (unat c < 128 \<longrightarrow> i = int (unat c)) \<and>
      (128 \<le> unat c \<longrightarrow> i \<notin> {0..<128}) \<and> str_ok s' \<and> str_left s' = c # cs"
    using c(1,2) ok l sint_char[of c] by (intro exI[of _ "sint c"] exI[of _ s]) (auto simp: str_io_def stristream_peek_def)
  show "\<exists>s'. is_get str_io s = Inr (sint c, s') \<and> str_ok s' \<and> str_left s' = cs"
    using c ok by (auto simp: str_io_def stristream_get_def Let_def str_ok_def str_left_def)
qed

text \<open>A file stream: the character that was peeked is still to come.\<close>

definition file_ok :: "fistream \<Rightarrow> bool" where
  "file_ok p \<longleftrightarrow> fi_has_next p \<longrightarrow> (fi_next p = - 1 \<and> fi_file p = []) \<or> (0 \<le> fi_next p \<and> fi_next p < 256)"

definition file_left :: "fistream \<Rightarrow> u8 list" where
  "file_left p = (if fi_has_next p then (if fi_next p = - 1 then [] else [word_of_int (fi_next p)]) else []) @ fi_file p"

lemma uint_u8: "uint (c :: u8) = int (unat c)" "uint (c :: u8) < 256"
  using uint_lt2p[of c] by simp_all

interpretation file_stream: char_stream file_ok file_io file_left
proof
  fix s c cs assume ok: "file_ok s"
  show "\<exists>s'. is_peek file_io s = Inr (- 1, s') \<and> file_ok s' \<and> file_left s' = []" "\<exists>s'. is_get file_io s = Inr (- 1, s') \<and> file_ok s' \<and> file_left s' = []"
    if "file_left s = []"
    using that ok by (auto simp: file_left_def file_ok_def file_io_def fistream_peek_def fistream_get_def fgetc_def split: if_splits)
  assume l: "file_left s = c # cs"
  have w: "unat (word_of_int i :: u8) = nat i" if "0 \<le> i" "i < 256" for i
    using that by (simp add: unat_eq_nat_uint uint_word_of_int)
  have w': "uint (word_of_int i :: u8) = i" if "0 \<le> i" "i < 256" for i using that by (simp add: uint_word_of_int)
  show "\<exists>i s'. is_peek file_io s = Inr (i, s') \<and> word_of_int i = c \<and> - 128 \<le> i \<and> i < 256 \<and> (unat c < 128 \<longrightarrow> i = int (unat c)) \<and>
      (128 \<le> unat c \<longrightarrow> i \<notin> {0..<128}) \<and> file_ok s' \<and> file_left s' = c # cs"
  proof (cases "fi_has_next s")
    case True
    then show ?thesis using l ok w[of "fi_next s"] w'[of "fi_next s"] by (auto simp: file_left_def file_ok_def file_io_def fistream_peek_def)
  next
    case False
    let ?s = "s\<lparr>fi_file := cs, fi_next := uint c, fi_has_next := True\<rparr>"
    obtain k where k: "unat c = k" "uint c = int k" "k < 256" using uint_u8[of c] by (metis of_nat_less_numeral_iff)
    have f: "fi_file s = c # cs" using False l by (simp add: file_left_def)
    have 1: "is_peek file_io s = Inr (uint c, ?s)" using False f by (simp add: file_io_def fistream_peek_def fgetc_def)
    have 2: "- 128 \<le> uint c" "uint c < 256" "unat c < 128 \<longrightarrow> uint c = int (unat c)" "128 \<le> unat c \<longrightarrow> uint c \<notin> {0..<128}" "uint c \<noteq> - 1"
      unfolding k(1,2) using k(3) by auto
    have 3: "file_ok ?s" "file_left ?s = c # cs" using uint_u8(2)[of c] 2(5) by (simp_all add: file_ok_def file_left_def)
    have 4: "word_of_int (uint c) = c" by (rule word_of_int_uint)
    show ?thesis by (rule exI[of _ "uint c"], rule exI[of _ ?s], intro conjI) (fact 1 2 3 4)+
  qed
  show "\<exists>s'. is_get file_io s = Inr (sint c, s') \<and> file_ok s' \<and> file_left s' = cs"
  proof (cases "fi_has_next s")
    case True
    then have "fi_next s \<noteq> - 1" using l ok by (auto simp: file_left_def file_ok_def)
    then have "word_of_int (fi_next s) = c" "fi_file s = cs" using True l by (simp_all add: file_left_def)
    then show ?thesis using True by (simp add: file_io_def fistream_get_def file_left_def file_ok_def)
  next
    case False
    then have "fi_file s = c # cs" using l by (simp add: file_left_def)
    moreover have "word_of_int (uint c) = c" by (rule word_of_int_uint)
    ultimately show ?thesis using False by (simp add: file_io_def fistream_get_def fgetc_def file_left_def file_ok_def)
  qed
qed

end
