(* ===== verification/Lisp_Reader.thy ===== *)
theory Lisp_Reader
  imports Lisp_Stream
begin

text \<open>
  The Lisp reader and printer (\<^verbatim>\<open>src/lisp/lisp.c\<close>, with the errors of \<^verbatim>\<open>src/lisp/error.h\<close>).
  The reader works on any input stream; it returns an error or a value, with the stream and
  the heap after it.
\<close>

section \<open>Errors\<close>

datatype error_code = EEXPECTED | EINVALID | EMALFORMED | EARGS | ENOTFOUND | EUNIMPL

text \<open>An \<open>eloc\<close> with line 0 or a null file is no location.\<close>

type_synonym eloc = "int \<times> u8 list option"

record error =
  e_code :: error_code
  safe_state :: bool
  e_loc :: eloc
  e_message :: "u8 list option"

definition no_loc :: eloc where "no_loc = (0, None)"

definition NEARIS :: "'s istream \<Rightarrow> 's \<Rightarrow> eloc" where
  "NEARIS io st = (case is_getpos io st of (line, file) \<Rightarrow> (line, Some file))"

definition THROWSAFE :: "error_code \<Rightarrow> eloc \<Rightarrow> error" where
  "THROWSAFE c loc = \<lparr>e_code = c, safe_state = True, e_loc = loc, e_message = None\<rparr>"

definition THROW :: "error_code \<Rightarrow> eloc \<Rightarrow> u8 list \<Rightarrow> error" where
  "THROW c loc msg = \<lparr>e_code = c, safe_state = False, e_loc = loc, e_message = Some msg\<rparr>"

text \<open>An error that is passed on gets the location of the function it passes through, when it has none.\<close>

definition located :: "eloc \<Rightarrow> error \<Rightarrow> error" where
  "located loc e = (if fst (e_loc e) = 0 \<or> snd (e_loc e) = None then e\<lparr>e_loc := loc\<rparr> else e)"

definition TRY_ELSE :: "eloc \<Rightarrow> error_code \<Rightarrow> u8 list \<Rightarrow> error \<Rightarrow> error" where
  "TRY_ELSE loc c msg e = (located loc e)\<lparr>e_code := c, e_message := Some msg\<rparr>"

text \<open>What a read function returns.\<close>

type_synonym 's rd = "((error + value_t) \<times> 's \<times> lisp) res option"

section \<open>Characters\<close>

text \<open>
  The functions of the C library, in its own locale. Their argument is an \<open>int\<close>; for a \<open>char\<close>
  the code converts first. No negative number is in any class.
\<close>

definition isspace :: "int \<Rightarrow> bool" where "isspace i \<longleftrightarrow> i = 32 \<or> (9 \<le> i \<and> i \<le> 13)"
definition isdigit_int :: "int \<Rightarrow> bool" where "isdigit_int i \<longleftrightarrow> 48 \<le> i \<and> i \<le> 57"
definition isalpha :: "u8 \<Rightarrow> bool" where "isalpha c \<longleftrightarrow> (65 \<le> unat c \<and> unat c \<le> 90) \<or> (97 \<le> unat c \<and> unat c \<le> 122)"

definition isallowedchar :: "u8 \<Rightarrow> bool" where
  "isallowedchar c \<longleftrightarrow> (35 \<le> sint c \<and> sint c \<le> 39) \<or> (42 \<le> sint c \<and> sint c \<le> 47) \<or> (60 \<le> sint c \<and> sint c \<le> 64)"

definition issymstart :: "u8 \<Rightarrow> bool" where
  "issymstart c \<longleftrightarrow> isalpha c \<or> isallowedchar c"

definition issym :: "u8 \<Rightarrow> bool" where
  "issym c \<longleftrightarrow> isalpha c \<or> isallowedchar c \<or> isdigit_int (sint c)"

definition to_char :: "int \<Rightarrow> u8" where "to_char i = word_of_int i"

section \<open>Tokens\<close>

partial_function (option) skip_spaces :: "'s istream \<Rightarrow> 's \<Rightarrow> 's res option" where
  "skip_spaces io st =
     run_bind (Some (is_peek io st)) (\<lambda>(c, st1).
     if isspace c then run_bind (Some (is_get io st1)) (\<lambda>(_, st2). skip_spaces io st2) else Some (Inr st1))"

partial_function (option) skip_line :: "'s istream \<Rightarrow> 's \<Rightarrow> 's res option" where
  "skip_line io st = run_bind (Some (is_get io st)) (\<lambda>(c, st1). if c \<noteq> 10 then skip_line io st1 else Some (Inr st1))"

partial_function (option) skipws :: "'s istream \<Rightarrow> 's \<Rightarrow> 's res option" where
  "skipws io st =
     run_bind (skip_spaces io st) (\<lambda>st1.
     run_bind (Some (is_peek io st1)) (\<lambda>(c, st2).
     if c = 59 then run_bind (skip_line io st2) (\<lambda>st3. skipws io st3) else Some (Inr st2)))"

text \<open>
  The bytes read so far are \<open>buf\<close>, in a buffer of \<open>cap\<close> bytes at \<open>a\<close>; when it is full it moves to the
  next address. It becomes an object when it is complete.
\<close>

definition finish_text :: "u32 \<Rightarrow> u32 \<Rightarrow> u8 list \<Rightarrow> 's \<Rightarrow> lisp \<Rightarrow> 's rd" where
  "finish_text a tag buf st s =
     run_bind (Some (add_this_alloc a tag (TextBody (buf @ [0])) s)) (\<lambda>s1. Some (Inr (Inr (mk_ptr a tag), st, s1)))"

definition realloc_aligned :: "u32 \<Rightarrow> nat \<Rightarrow> nat \<Rightarrow> lisp \<Rightarrow> (u32 \<times> nat \<times> lisp) res" where
  "realloc_aligned a i cap s =
     (if cap \<le> i then res_bind (malloc_aligned s) (\<lambda>(a1, s1). Inr (a1, 2 * cap, s1)) else Inr (a, cap, s))"

partial_function (option) readsym_loop :: "'s istream \<Rightarrow> u32 \<Rightarrow> nat \<Rightarrow> u8 list \<Rightarrow> 's \<Rightarrow> lisp \<Rightarrow> 's rd" where
  "readsym_loop io a cap buf st s =
     run_bind (Some (realloc_aligned a (length buf) cap s)) (\<lambda>(a1, cap1, s1).
     run_bind (Some (is_peek io st)) (\<lambda>(c, st1).
     if issym (to_char c) then
       run_bind (Some (is_get io st1)) (\<lambda>(d, st2). readsym_loop io a1 cap1 (buf @ [to_char d]) st2 s1)
     else finish_text a1 SYMBOL_TAG buf st1 s1))"

definition readsym :: "'s istream \<Rightarrow> 's \<Rightarrow> lisp \<Rightarrow> 's rd" where
  "readsym io st s =
     run_bind (skipws io st) (\<lambda>st1.
     run_bind (Some (is_peek io st1)) (\<lambda>(c, st2).
     if \<not> issymstart (to_char c) then Some (Inr (Inl (THROWSAFE EEXPECTED no_loc), st2, s))
     else
       run_bind (Some (malloc_aligned s)) (\<lambda>(a, s1).
       run_bind (Some (is_get io st2)) (\<lambda>(d, st3). readsym_loop io a 8 [to_char d] st3 s1))))"

text \<open>The room for one more byte is only made for a character of the string, not for its end.\<close>

partial_function (option) readstr_loop :: "'s istream \<Rightarrow> u32 \<Rightarrow> nat \<Rightarrow> bool \<Rightarrow> u8 list \<Rightarrow> 's \<Rightarrow> lisp \<Rightarrow> 's rd" where
  "readstr_loop io a cap escape buf st s =
     run_bind (Some (is_peek io st)) (\<lambda>(p, st1).
     if p \<noteq> 34 then
       run_bind (Some (realloc_aligned a (length buf) cap s)) (\<lambda>(a1, cap1, s1).
       run_bind (Some (is_get io st1)) (\<lambda>(d, st2).
       let c = (if escape \<and> to_char d = 110 then 10 else to_char d) in
       if c = 92 \<and> \<not> escape then readstr_loop io a1 cap1 True buf st2 s1
       else readstr_loop io a1 cap1 False (buf @ [c]) st2 s1))
     else if cap \<le> length buf then Some (Inl OutOfBounds)
     else run_bind (Some (is_get io st1)) (\<lambda>(_, st2). finish_text a STRING_TAG buf st2 s))"

definition readstr :: "'s istream \<Rightarrow> 's \<Rightarrow> lisp \<Rightarrow> 's rd" where
  "readstr io st s =
     run_bind (skipws io st) (\<lambda>st1.
     run_bind (Some (is_peek io st1)) (\<lambda>(c, st2).
     if c \<noteq> 34 then Some (Inr (Inl (THROWSAFE EEXPECTED no_loc), st2, s))
     else
       run_bind (Some (malloc_aligned s)) (\<lambda>(a, s1).
       run_bind (Some (is_get io st2)) (\<lambda>(_, st3). readstr_loop io a 8 False [] st3 s1))))"

partial_function (option) readint_loop :: "'s istream \<Rightarrow> u32 \<Rightarrow> 's \<Rightarrow> (u32 \<times> 's) res option" where
  "readint_loop io number st =
     run_bind (Some (is_peek io st)) (\<lambda>(c, st1).
     if isdigit_int c then
       run_bind (Some (is_get io st1)) (\<lambda>(d, st2). readint_loop io (number * 10 + (word_of_int d - 48)) st2)
     else Some (Inr (number, st1)))"

definition readint :: "'s istream \<Rightarrow> 's \<Rightarrow> lisp \<Rightarrow> 's rd" where
  "readint io st s =
     run_bind (skipws io st) (\<lambda>st1.
     run_bind (Some (is_peek io st1)) (\<lambda>(c, st2).
     if \<not> isdigit_int c then Some (Inr (Inl (THROWSAFE EEXPECTED no_loc), st2, s))
     else run_bind (readint_loop io 0 st2) (\<lambda>(n, st3). Some (Inr (Inr (intval n), st3, s)))))"

section \<open>Forms\<close>

text \<open>
  The functions that call each other take the calls as arguments and are tied together below:
  \<open>rd\<close> is \<open>read1\<close>, \<open>rdn\<close> is \<open>readn\<close>.
\<close>

definition readquote_by :: "('s \<Rightarrow> lisp \<Rightarrow> 's rd) \<Rightarrow> 's istream \<Rightarrow> 's \<Rightarrow> lisp \<Rightarrow> 's rd" where
  "readquote_by rd io st s =
     run_bind (skipws io st) (\<lambda>st1.
     run_bind (Some (is_peek io st1)) (\<lambda>(p, st2).
     let c = to_char p in
     if c = 39 \<or> c = 96 \<or> c = 44 \<or> c = 35 then
       run_bind (Some (is_get io st2)) (\<lambda>(_, st3).
       run_bind
         (Some
           (if c = 44 then
              res_bind (is_peek io st3) (\<lambda>(q, st4).
              if q = 64 then res_bind (is_get io st4) (\<lambda>(_, st5). Inr (64, st5)) else Inr (c, st4))
            else if c = 35 then
              res_bind (is_peek io st3) (\<lambda>(q, st4).
              if q = 39 then res_bind (is_get io st4) (\<lambda>(_, st5). Inr (c, st5)) else Inr (c, st4))
            else Inr (c, st3))) (\<lambda>(k, st6).
       run_bind (rd st6 s) (\<lambda>(r, st7, s1).
       case r of
         Inl e \<Rightarrow>
           Some (Inr (Inl (TRY_ELSE (NEARIS io st6) EEXPECTED (bytes_of_string ''Expected a form after reader macro char '' @ [k]) e), st7, s1))
       | Inr wrapped \<Rightarrow>
           run_bind
             (Some (symval
               (bytes_of_string
                 (if k = 39 then ''quote'' else if k = 96 then ''backquote'' else if k = 44 then ''unquote''
                  else if k = 64 then ''unquote-splice'' else ''function'') @ [0]) s1)) (\<lambda>(sy, s2).
           run_bind (Some (lisp_cons wrapped nil s2)) (\<lambda>(x, s3).
           run_bind (Some (lisp_cons sy x s3)) (\<lambda>(v, s4). Some (Inr (Inr v, st7, s4))))))))
     else Some (Inr (Inl (THROWSAFE EEXPECTED no_loc), st2, s))))"

definition readlist_by :: "('s \<Rightarrow> lisp \<Rightarrow> 's rd) \<Rightarrow> 's istream \<Rightarrow> 's \<Rightarrow> lisp \<Rightarrow> 's rd" where
  "readlist_by rdn io st s =
     run_bind (skipws io st) (\<lambda>st1.
     run_bind (Some (is_peek io st1)) (\<lambda>(c, st2).
     if c \<noteq> 40 then Some (Inr (Inl (THROWSAFE EEXPECTED (NEARIS io st)), st2, s))
     else
       run_bind (Some (is_get io st2)) (\<lambda>(_, st3).
       run_bind (rdn st3 s) (\<lambda>(v, st4, s1).
       run_bind (skipws io st4) (\<lambda>st5.
       run_bind (Some (is_peek io st5)) (\<lambda>(d, st6).
       if d \<noteq> 41 then Some (Inr (Inl (THROW EEXPECTED (NEARIS io st6) (bytes_of_string ''Unterminated list'')), st6, s1))
       else run_bind (Some (is_get io st6)) (\<lambda>(_, st7). Some (Inr (v, st7, s1)))))))))"

text \<open>\<open>OKAY_IF\<close>: the next one is tried after a safe error only, from where the stream then is.\<close>

definition OKAY_IF :: "eloc \<Rightarrow> 's rd \<Rightarrow> ('s \<Rightarrow> lisp \<Rightarrow> 's rd) \<Rightarrow> 's rd" where
  "OKAY_IF loc m k =
     run_bind m (\<lambda>(r, st, s).
     case r of
       Inr v \<Rightarrow> Some (Inr (Inr v, st, s))
     | Inl e \<Rightarrow> if safe_state e then k st s else Some (Inr (Inl (located loc e), st, s)))"

definition read1_by :: "('s \<Rightarrow> lisp \<Rightarrow> 's rd) \<Rightarrow> ('s \<Rightarrow> lisp \<Rightarrow> 's rd) \<Rightarrow> 's istream \<Rightarrow> 's \<Rightarrow> lisp \<Rightarrow> 's rd" where
  "read1_by rd rdn io st s =
     (let loc = NEARIS io st in
      OKAY_IF loc (readquote_by rd io st s) (\<lambda>st1 s1.
      OKAY_IF loc (readsym io st1 s1) (\<lambda>st2 s2.
      OKAY_IF loc (readstr io st2 s2) (\<lambda>st3 s3.
      OKAY_IF loc (readint io st3 s3) (\<lambda>st4 s4.
      OKAY_IF loc (readlist_by rdn io st4 s4) (\<lambda>st5 s5.
      Some (Inr (Inl (THROWSAFE EEXPECTED loc), st5, s5))))))))"

text \<open>One round of the loop of \<open>readn\<close>: a form is linked behind the last one.\<close>

definition readn_by :: "('s \<Rightarrow> lisp \<Rightarrow> 's rd) \<Rightarrow> (value_t \<Rightarrow> val_ref \<Rightarrow> 's \<Rightarrow> lisp \<Rightarrow> 's rd) \<Rightarrow> 's istream \<Rightarrow> value_t \<Rightarrow> val_ref \<Rightarrow> 's \<Rightarrow> lisp \<Rightarrow> 's rd" where
  "readn_by rd again io first tl_ref st s =
     run_bind (rd st s) (\<lambda>(r, st1, s1).
     case r of
       Inl e \<Rightarrow> Some (Inr (Inr first, st1, s1))
     | Inr v \<Rightarrow>
         run_bind (Some (lisp_cons v nil s1)) (\<lambda>(x, s2).
         run_bind (Some (assign_ref tl_ref first x s2)) (\<lambda>(first1, s3).
         run_bind (Some (set_cons_info x (word_of_int (fst (is_getpos io st1))) (Some (snd (is_getpos io st1))) s3)) (\<lambda>s4.
         again first1 (CdrRef x) st1 s4))))"

lemma case_prod_mono [partial_function_mono]:
  "(\<And>a b. mono_option (\<lambda>f. g a b f)) \<Longrightarrow> mono_option (\<lambda>f. case p of (a, b) \<Rightarrow> g a b f)"
  by (cases p) simp

lemma case_sum_mono [partial_function_mono]:
  "(\<And>a. mono_option (\<lambda>f. g a f)) \<Longrightarrow> (\<And>b. mono_option (\<lambda>f. h b f)) \<Longrightarrow> mono_option (\<lambda>f. case r of Inl a \<Rightarrow> g a f | Inr b \<Rightarrow> h b f)"
  by (cases r) simp_all

lemma readquote_mono [partial_function_mono]:
  assumes "\<And>st s. mono_option (\<lambda>f. rd f st s)"
  shows "mono_option (\<lambda>f. readquote_by (rd f) io st s)"
  unfolding readquote_by_def Let_def
  by (intro run_bind_mono case_prod_mono case_sum_mono if_mono option.const_mono assms)

lemma readlist_mono [partial_function_mono]:
  assumes "\<And>st s. mono_option (\<lambda>f. rdn f st s)"
  shows "mono_option (\<lambda>f. readlist_by (rdn f) io st s)"
  unfolding readlist_by_def
  by (intro run_bind_mono case_prod_mono case_sum_mono if_mono option.const_mono assms)

lemma OKAY_IF_mono [partial_function_mono]:
  assumes "mono_option m" "\<And>st s. mono_option (\<lambda>f. k f st s)"
  shows "mono_option (\<lambda>f. OKAY_IF loc (m f) (k f))"
  unfolding OKAY_IF_def
  by (intro run_bind_mono case_prod_mono case_sum_mono if_mono option.const_mono assms)

lemma read1_mono [partial_function_mono]:
  assumes "\<And>st s. mono_option (\<lambda>f. rd f st s)" "\<And>st s. mono_option (\<lambda>f. rdn f st s)"
  shows "mono_option (\<lambda>f. read1_by (rd f) (rdn f) io st s)"
  unfolding read1_by_def Let_def
  by (intro OKAY_IF_mono readquote_mono readlist_mono option.const_mono assms)

lemma readn_mono [partial_function_mono]:
  assumes "\<And>st s. mono_option (\<lambda>f. rd f st s)" "\<And>x l st s. mono_option (\<lambda>f. again f x l st s)"
  shows "mono_option (\<lambda>f. readn_by (rd f) (again f) io first tl_ref st s)"
  unfolding readn_by_def
  by (intro run_bind_mono case_prod_mono case_sum_mono if_mono option.const_mono assms)

datatype rd_call = Read1 | Readn value_t val_ref

partial_function (option) reader :: "'s istream \<Rightarrow> rd_call \<Rightarrow> 's \<Rightarrow> lisp \<Rightarrow> 's rd" where
  "reader io call st s =
     (case call of
        Read1 \<Rightarrow> read1_by (\<lambda>st s. reader io Read1 st s) (\<lambda>st s. reader io (Readn nil VarRef) st s) io st s
      | Readn first tl_ref \<Rightarrow>
          readn_by (\<lambda>st s. reader io Read1 st s) (\<lambda>x l st s. reader io (Readn x l) st s) io first tl_ref st s)"

definition read1 :: "'s istream \<Rightarrow> 's \<Rightarrow> lisp \<Rightarrow> 's rd" where
  "read1 io = reader io Read1"

definition readn :: "'s istream \<Rightarrow> 's \<Rightarrow> lisp \<Rightarrow> 's rd" where
  "readn io = reader io (Readn nil VarRef)"

definition readquote :: "'s istream \<Rightarrow> 's \<Rightarrow> lisp \<Rightarrow> 's rd" where
  "readquote io = readquote_by (read1 io) io"

definition readlist :: "'s istream \<Rightarrow> 's \<Rightarrow> lisp \<Rightarrow> 's rd" where
  "readlist io = readlist_by (readn io) io"

lemma read1_eq: "read1 io st s = read1_by (read1 io) (readn io) io st s"
  unfolding read1_def readn_def by (subst reader.simps) (simp add: fun_eq_iff)

lemma readn_eq: "reader io (Readn x l) st s = readn_by (read1 io) (\<lambda>x l st s. reader io (Readn x l) st s) io x l st s"
  unfolding read1_def by (subst reader.simps) simp

section \<open>What a peek shows\<close>

definition starts :: "(u8 \<Rightarrow> bool) \<Rightarrow> u8 list \<Rightarrow> bool" where
  "starts P cs \<longleftrightarrow> (case cs of [] \<Rightarrow> False | c # _ \<Rightarrow> P c)"

lemma starts_simps [simp]: "\<not> starts P []" "starts P (c # cs) = P c"
  by (simp_all add: starts_def)

definition shows_char :: "int \<Rightarrow> u8 list \<Rightarrow> bool" where
  "shows_char i cs \<longleftrightarrow> (case cs of [] \<Rightarrow> i = - 1 | c # _ \<Rightarrow>
     to_char i = c \<and> (if unat c < 128 then 0 \<le> i \<and> nat i = unat c else i < 0 \<or> 128 \<le> i))"

definition space :: "u8 \<Rightarrow> bool" where "space c \<longleftrightarrow> unat c = 32 \<or> (9 \<le> unat c \<and> unat c \<le> 13)"
definition digit :: "u8 \<Rightarrow> bool" where "digit c \<longleftrightarrow> 48 \<le> unat c \<and> unat c \<le> 57"

lemma shows_space: "shows_char i cs \<Longrightarrow> isspace i = starts space cs"
  by (cases cs) (auto simp: shows_char_def isspace_def space_def split: if_splits)

lemma shows_digit: "shows_char i cs \<Longrightarrow> isdigit_int i = starts digit cs"
  by (cases cs) (auto simp: shows_char_def isdigit_int_def digit_def split: if_splits)

lemma shows_eq:
  assumes "shows_char i cs" "0 \<le> k" "k < 128"
  shows "i = k \<longleftrightarrow> starts (\<lambda>c. c = word_of_int k) cs"
proof (cases cs)
  case Nil
  then show ?thesis using assms by (simp add: shows_char_def)
next
  case (Cons c r)
  have "unat (word_of_int k :: u8) = nat k" using assms(2,3) by (simp add: unat_eq_nat_uint uint_word_of_int)
  then have "c = word_of_int k \<longleftrightarrow> unat c = nat k" by (metis word_unat_eq_iff)
  then show ?thesis using Cons assms by (auto simp: shows_char_def split: if_splits)
qed

lemma not_sym_end [simp]: "\<not> issym (to_char (- 1))" "\<not> issymstart (to_char (- 1))"
  by code_simp+

lemma shows_sym: "shows_char i cs \<Longrightarrow> issym (to_char i) = starts issym cs" "shows_char i cs \<Longrightarrow> issymstart (to_char i) = starts issymstart cs"
  by (cases cs; auto simp: shows_char_def)+

text \<open>A reference for the white space and the comments that the reader skips: \<open>None\<close> is a comment without an end.\<close>

function strip :: "u8 list \<Rightarrow> u8 list option" where
  "strip cs =
     (let r = dropWhile space cs in
      if starts (\<lambda>c. c = 59) r then (if 10 \<in> set r then strip (tl (dropWhile (\<lambda>c. c \<noteq> 10) r)) else None) else Some r)"
  by pat_completeness auto
termination
proof (relation "measure length", goal_cases)
  case (2 cs r)
  have "length (dropWhile (\<lambda>c. c \<noteq> 10) r) \<le> length r" by (rule length_dropWhile_le)
  moreover have "dropWhile (\<lambda>c. c \<noteq> 10) r \<noteq> []" using 2 by auto
  moreover have "length r \<le> length cs" unfolding 2(1) by (rule length_dropWhile_le)
  ultimately show ?case by (cases "dropWhile (\<lambda>c. c \<noteq> 10) r") auto
qed simp

declare strip.simps [simp del]

lemma t_10: "sint (10 :: u8) = 10"
  by code_simp

lemma sint_10: "sint (c :: u8) = 10 \<longleftrightarrow> c = 10"
proof
  show "c = 10" if "sint c = 10" using that t_10 by (metis signed_word_eqI)
qed (simp only: t_10)

context char_stream begin

lemma peek_ok:
  assumes "ok st"
  shows "\<exists>i st'. is_peek io st = Inr (i, st') \<and> ok st' \<and> left st' = left st \<and> shows_char i (left st)"
proof (cases "left st")
  case Nil
  then show ?thesis using peek_end[OF assms] by (auto simp: shows_char_def)
next
  case (Cons c cs)
  obtain i st' where p: "is_peek io st = Inr (i, st')" "word_of_int i = c" "unat c < 128 \<longrightarrow> i = int (unat c)" "128 \<le> unat c \<longrightarrow> i \<notin> {0..<128}"
    "ok st'" "left st' = c # cs" using peek_char[OF assms Cons] by blast
  obtain k where k: "unat c = k" by blast
  have "if unat c < 128 then 0 \<le> i \<and> nat i = unat c else i < 0 \<or> 128 \<le> i" using p(3,4) unfolding k by auto
  then show ?thesis using p Cons by (auto simp: shows_char_def to_char_def)
qed

lemma skip_spaces_ok:
  assumes "ok st"
  shows "\<exists>st'. skip_spaces io st = Some (Inr st') \<and> ok st' \<and> left st' = dropWhile space (left st)"
  using assms
proof (induction "left st" arbitrary: st)
  case Nil
  obtain i st1 where p: "is_peek io st = Inr (i, st1)" "ok st1" "left st1 = left st" "shows_char i (left st)" using peek_ok[OF Nil.prems] by blast
  then show ?case using shows_space[OF p(4)] Nil.hyps by (subst skip_spaces.simps) auto
next
  case (Cons c cs)
  obtain i st1 where p: "is_peek io st = Inr (i, st1)" "ok st1" "left st1 = left st" "shows_char i (left st)" using peek_ok[OF Cons.prems] by blast
  have i: "isspace i = space c" using shows_space[OF p(4)] Cons.hyps(2)[symmetric] by simp
  show ?case
  proof (cases "space c")
    case True
    obtain st2 where g: "is_get io st1 = Inr (sint c, st2)" "ok st2" "left st2 = cs" using get_char[OF p(2)] p(3) Cons.hyps(2) by metis
    show ?thesis using Cons.hyps(1)[OF g(3)[symmetric] g(2)] True i p(1) g Cons.hyps(2)[symmetric] by (subst skip_spaces.simps) simp
  next
    case False
    then show ?thesis using i p Cons.hyps(2)[symmetric] by (subst skip_spaces.simps) auto
  qed
qed

end

section \<open>Tokens\<close>

lemma fresh_malloc:
  assumes "wf_lisp s" "free_addrs s \<noteq> []"
  shows "\<exists>a s'. malloc_aligned s = Inr (a, s') \<and> grown s 1 s' \<and> heap s' = heap s \<and> heap s a = None \<and> a \<noteq> 0 \<and> a AND 7 = 0 \<and> a \<notin> set (free_addrs s')"
proof -
  obtain a as where a: "free_addrs s = a # as" using assms(2) by (cases "free_addrs s") auto
  have "linked_heap (s\<lparr>free_addrs := as\<rparr>) xs = linked_heap s xs" for xs by (simp add: linked_heap_def)
  then have "grown s 1 (s\<lparr>free_addrs := as\<rparr>)" using assms(1) a by (auto simp: grown_def wf_lisp_def avail_def keeps_def)
  then show ?thesis using assms(1) a by (auto simp: malloc_aligned_def wf_lisp_def avail_def)
qed

text \<open>An address that was taken for a text that is not complete yet.\<close>

definition taken :: "lisp \<Rightarrow> u32 \<Rightarrow> bool" where
  "taken s a \<longleftrightarrow> wf_lisp s \<and> heap s a = None \<and> a \<noteq> 0 \<and> a AND 7 = 0 \<and> a \<notin> set (free_addrs s)"

lemma realloc_ok:
  assumes "taken s a" "free_addrs s \<noteq> []"
  shows "\<exists>a' s' k. realloc_aligned a i cap s = Inr (a', if cap \<le> i then 2 * cap else cap, s') \<and> k \<le> 1 \<and> grown s k s' \<and> heap s' = heap s \<and> taken s' a'"
proof (cases "cap \<le> i")
  case True
  obtain b s' where b: "malloc_aligned s = Inr (b, s')" "grown s 1 s'" "heap s' = heap s" "heap s b = None" "b \<noteq> 0" "b AND 7 = 0" "b \<notin> set (free_addrs s')"
    using fresh_malloc[of s] assms by (auto simp: taken_def)
  then show ?thesis using True by (intro exI[of _ b] exI[of _ s'] exI[of _ 1]) (simp add: realloc_aligned_def taken_def grown_def)
next
  case False
  then show ?thesis using assms(1) by (intro exI[of _ a] exI[of _ s] exI[of _ 0]) (simp add: realloc_aligned_def taken_def grown_refl)
qed

text \<open>The part of the heap at the addresses \<open>B\<close>, and the objects that are new since \<open>s\<close>.\<close>

definition within :: "u32 set \<Rightarrow> lisp \<Rightarrow> lisp" where
  "within B s = s\<lparr>heap := heap s |` B\<rparr>"

definition new_part :: "lisp \<Rightarrow> lisp \<Rightarrow> lisp" where
  "new_part s s' = within (- dom (heap s)) s'"

lemma finish_text_ok:
  assumes "taken s a" "tag AND 7 = tag"
  shows "\<exists>s'. finish_text a tag buf st s = Some (Inr (Inr (mk_ptr a tag), st, s')) \<and> grown s 0 s' \<and>
    text_at (mk_ptr a tag) tag (new_part s s') = Inr (buf @ [0]) \<and> mk_ptr a tag AND HEAP_MASK = tag"
proof -
  note a = assms(1)[unfolded taken_def]
  obtain xs where xs: "linked_heap s xs" using a by (auto simp: wf_lisp_def)
  obtain s' al where s': "add_this_alloc a tag (TextBody (buf @ [0])) s = Inr s'" "linked_heap s' (xs @ [a])" "keeps s s'"
    "heap s' a = Some al" "a_body al = TextBody (buf @ [0])" "free_addrs s' = free_addrs s" "dom (heap s') = insert a (dom (heap s))"
    "current_pool s' = current_pool s" "max_pool s' = max_pool s"
    using add_this_alloc_ok[OF xs] a by blast
  have "heap s' x = None" if "x \<in> set (free_addrs s)" for x
  proof -
    have "x \<noteq> a" "heap s x = None" using a that by (auto simp: wf_lisp_def avail_def)
    then have "x \<notin> dom (heap s')" using s'(7) by auto
    then show ?thesis by (simp add: domIff)
  qed
  then have "avail s'" using a s'(6) by (auto simp: wf_lisp_def avail_def)
  then have "grown s 0 s'" using s' by (auto simp: grown_def wf_lisp_def)
  moreover have "a \<in> - dom (heap s)" using a by auto
  ultimately show ?thesis
    using s'(1,4,5) a mk_ptr_simps[OF _ assms(2), of a]
    by (auto simp: finish_text_def new_part_def within_def text_at_def object_at_def)
qed

context char_stream begin

lemma skip_line_ok:
  assumes "ok st" "10 \<in> set (left st)"
  shows "\<exists>st'. skip_line io st = Some (Inr st') \<and> ok st' \<and> left st' = tl (dropWhile (\<lambda>c. c \<noteq> 10) (left st))"
  using assms
proof (induction "left st" arbitrary: st)
  case (Cons c cs)
  obtain st1 where g: "is_get io st = Inr (sint c, st1)" "ok st1" "left st1 = cs" using get_char[OF Cons.prems(1)] Cons.hyps(2) by metis
  show ?case
  proof (cases "c = 10")
    case True
    then show ?thesis using g Cons.hyps(2)[symmetric] by (subst skip_line.simps) (simp add: t_10)
  next
    case False
    then have "10 \<in> set (left st1)" using Cons.prems(2) Cons.hyps(2)[symmetric] g(3) by simp
    from Cons.hyps(1)[OF g(3)[symmetric] g(2) this] show ?thesis
      using False g Cons.hyps(2)[symmetric] sint_10[of c] by (subst skip_line.simps) auto
  qed
qed simp

lemma skip_line_hangs:
  assumes "ok st" "10 \<notin> set (left st)"
  shows "skip_line io st = None"
proof (rule ccontr)
  assume "skip_line io st \<noteq> None"
  then obtain y where y: "skip_line io st = Some y" by blast
  have "io = io \<longrightarrow> ok st \<longrightarrow> 10 \<in> set (left st)"
  proof (rule skip_line.raw_induct[where P = "\<lambda>i st y. i = io \<longrightarrow> ok st \<longrightarrow> 10 \<in> set (left st)", OF _ y], intro impI)
    fix f :: "'s istream \<Rightarrow> 's \<Rightarrow> 's res option" and i st1 y1
    assume IH: "\<And>i st y. f i st = Some y \<Longrightarrow> i = io \<longrightarrow> ok st \<longrightarrow> 10 \<in> set (left st)"
      and run: "run_bind (Some (is_get i st1)) (\<lambda>(c, st1). if c \<noteq> 10 then f i st1 else Some (Inr st1)) = Some y1"
      and i: "i = io" and ok1: "ok st1"
    show "10 \<in> set (left st1)"
    proof (cases "left st1")
      case Nil
      obtain st2 where g: "is_get io st1 = Inr (- 1, st2)" "ok st2" "left st2 = []" using get_end[OF ok1 Nil] by blast
      then have "f io st2 = Some y1" using run i by simp
      then show ?thesis using IH g by fastforce
    next
      case (Cons c cs)
      obtain st2 where g: "is_get io st1 = Inr (sint c, st2)" "ok st2" "left st2 = cs" using get_char[OF ok1 Cons] by blast
      show ?thesis
      proof (cases "c = 10")
        case True
        then show ?thesis using Cons by simp
      next
        case False
        then have "f io st2 = Some y1" using run i g sint_10[of c] by simp
        then show ?thesis using IH g Cons by fastforce
      qed
    qed
  qed
  then show False using assms by blast
qed

lemma skipws_ok:
  assumes "ok st"
  shows "case strip (left st) of None \<Rightarrow> skipws io st = None
    | Some r \<Rightarrow> \<exists>st'. skipws io st = Some (Inr st') \<and> ok st' \<and> left st' = r"
  using assms
proof (induction "left st" arbitrary: st rule: strip.induct)
  case 1
  let ?r = "dropWhile space (left st)"
  obtain st1 where 1: "skip_spaces io st = Some (Inr st1)" "ok st1" "left st1 = ?r" using skip_spaces_ok[OF 1(2)] by blast
  obtain i st2 where 2: "is_peek io st1 = Inr (i, st2)" "ok st2" "left st2 = ?r" "shows_char i ?r" using peek_ok[OF 1(2)] 1(3) by auto
  have i: "i = 59 \<longleftrightarrow> starts (\<lambda>c. c = 59) ?r" using shows_eq[OF 2(4), of 59] by simp
  show ?case
  proof (cases "starts (\<lambda>c. c = 59) ?r")
    case False
    then have "skipws io st = Some (Inr st2)" using 1 2 i by (subst skipws.simps) simp
    then show ?thesis using False 2 by (subst strip.simps) (simp add: Let_def)
  next
    case comment: True
    show ?thesis
    proof (cases "10 \<in> set ?r")
      case False
      then have "skipws io st = None" using 1 2 i comment skip_line_hangs[OF 2(2)] by (subst skipws.simps) simp
      then show ?thesis using False comment by (subst strip.simps) (simp add: Let_def)
    next
      case True
      obtain st3 where 3: "skip_line io st2 = Some (Inr st3)" "ok st3" "left st3 = tl (dropWhile (\<lambda>c. c \<noteq> 10) ?r)"
        using skip_line_ok[OF 2(2)] True 2(3) by auto
      have run: "skipws io st = skipws io st3" using 1 2 i comment 3 by (subst skipws.simps) simp
      have "strip (left st) = strip (left st3)" using True comment 3(3) by (subst strip.simps) (simp add: Let_def)
      then show ?thesis using "1.hyps"[OF refl comment True 3(3)[symmetric] 3(2)] by (simp only: run)
    qed
  qed
qed

end

lemma grown_trans1: "grown s m s' \<Longrightarrow> grown s' n s'' \<Longrightarrow> m + n = k \<Longrightarrow> grown s k s''"
  using grown_trans by blast

lemma free_addrs_grown: "grown s k s' \<Longrightarrow> free_addrs s' = drop k (free_addrs s)"
  by (simp add: grown_def)

lemma new_part_heap: "heap s' = heap s \<Longrightarrow> new_part s' t = new_part s t"
  by (simp add: new_part_def)

lemma strip_start: "\<not> starts space cs \<Longrightarrow> \<not> starts (\<lambda>c. c = 59) cs \<Longrightarrow> strip cs = Some cs"
  by (subst strip.simps) (cases cs; simp add: Let_def)

lemma strip_space: "space c \<Longrightarrow> strip (c # cs) = strip cs"
  by (subst (1 2) strip.simps) simp

text \<open>A decimal number.\<close>

definition digits_value :: "nat \<Rightarrow> u8 list \<Rightarrow> nat" where
  "digits_value n ds = foldl (\<lambda>a c. a * 10 + (unat c - 48)) n ds"

text \<open>The characters of a string literal: a backslash stands for the next character, and with an \<open>n\<close> for a line feed.\<close>

fun unescape :: "bool \<Rightarrow> u8 list \<Rightarrow> u8 list" where
  "unescape esc [] = []"
| "unescape esc (c # cs) =
     (if c = 92 \<and> \<not> esc then unescape True cs else (if esc \<and> c = 110 then 10 else c) # unescape False cs)"

lemma unescape_plain: "92 \<notin> set cs \<Longrightarrow> unescape False cs = cs"
  by (induction cs) auto

lemma unescape_length: "length (unescape esc cs) \<le> length cs"
  by (induction esc cs rule: unescape.induct) auto

context char_stream begin

lemma readsym_loop_ok:
  assumes "ok st" "left st = cs @ rest" "\<forall>c\<in>set cs. issym c" "\<not> starts issym rest" "taken s a" "Suc (length cs) \<le> length (free_addrs s)"
  shows "\<exists>v st' s' k. readsym_loop io a cap buf st s = Some (Inr (Inr v, st', s')) \<and> ok st' \<and> left st' = rest \<and> k \<le> Suc (length cs) \<and>
    grown s k s' \<and> v AND HEAP_MASK = SYMBOL_TAG \<and> text_at v SYMBOL_TAG (new_part s s') = Inr (buf @ cs @ [0])"
  using assms
proof (induction cs arbitrary: st s a cap buf)
  case Nil
  have ne: "free_addrs s \<noteq> []" using Nil by auto
  obtain a1 cap1 s1 k where 1: "realloc_aligned a (length buf) cap s = Inr (a1, cap1, s1)" "k \<le> 1" "grown s k s1" "heap s1 = heap s" "taken s1 a1"
    using realloc_ok[OF Nil.prems(5) ne] by blast
  obtain i st1 where 2: "is_peek io st = Inr (i, st1)" "ok st1" "left st1 = rest" "shows_char i rest" using peek_ok[OF Nil.prems(1)] Nil.prems(2) by auto
  obtain s2 where 3: "finish_text a1 SYMBOL_TAG buf st1 s1 = Some (Inr (Inr (mk_ptr a1 SYMBOL_TAG), st1, s2))" "grown s1 0 s2"
    "text_at (mk_ptr a1 SYMBOL_TAG) SYMBOL_TAG (new_part s1 s2) = Inr (buf @ [0])" "mk_ptr a1 SYMBOL_TAG AND HEAP_MASK = SYMBOL_TAG"
    using finish_text_ok[OF 1(5) tag_and(4), of buf st1] by blast
  have "\<not> issym (to_char i)" using shows_sym[OF 2(4)] Nil.prems(4) by simp
  then have "readsym_loop io a cap buf st s = Some (Inr (Inr (mk_ptr a1 SYMBOL_TAG), st1, s2))"
    using 1 2 3(1) by (subst readsym_loop.simps) simp
  moreover have "grown s k s2" using grown_trans[OF 1(3) 3(2)] by simp
  moreover have "text_at (mk_ptr a1 SYMBOL_TAG) SYMBOL_TAG (new_part s s2) = Inr (buf @ [] @ [0])" using 3(3) new_part_heap[OF 1(4)] by simp
  moreover have "k \<le> Suc (length [])" using 1(2) by simp
  ultimately show ?case using 2(2,3) 3(4) by blast
next
  case (Cons c cs)
  have ne: "free_addrs s \<noteq> []" using Cons.prems(6) by auto
  obtain a1 cap1 s1 k where 1: "realloc_aligned a (length buf) cap s = Inr (a1, cap1, s1)" "k \<le> 1" "grown s k s1" "heap s1 = heap s" "taken s1 a1"
    using realloc_ok[OF Cons.prems(5) ne] by blast
  obtain i st1 where 2: "is_peek io st = Inr (i, st1)" "ok st1" "left st1 = c # cs @ rest" "shows_char i (c # cs @ rest)"
    using peek_ok[OF Cons.prems(1)] Cons.prems(2) by auto
  obtain st2 where 3: "is_get io st1 = Inr (sint c, st2)" "ok st2" "left st2 = cs @ rest" using get_char[OF 2(2,3)] by blast
  have sym: "issym (to_char i)" using shows_sym[OF 2(4)] Cons.prems(3) by simp
  have len: "Suc (length cs) \<le> length (free_addrs s1)" using Cons.prems(6) 1(2) free_addrs_grown[OF 1(3)] by simp
  have all: "\<forall>c\<in>set cs. issym c" using Cons.prems(3) by simp
  from Cons.IH[OF 3(2,3) all Cons.prems(4) 1(5) len, of cap1 "buf @ [c]"] obtain v st' s' k' where
    4: "readsym_loop io a1 cap1 (buf @ [c]) st2 s1 = Some (Inr (Inr v, st', s'))" "ok st'" "left st' = rest" "k' \<le> Suc (length cs)"
    "grown s1 k' s'" "v AND HEAP_MASK = SYMBOL_TAG" "text_at v SYMBOL_TAG (new_part s1 s') = Inr ((buf @ [c]) @ cs @ [0])" by blast
  have "readsym_loop io a cap buf st s = Some (Inr (Inr v, st', s'))"
    using 1(1) 2(1) 3(1) 4(1) sym by (subst readsym_loop.simps) (simp add: to_char_def)
  moreover have "grown s (k + k') s'" by (rule grown_trans[OF 1(3) 4(5)])
  moreover have "text_at v SYMBOL_TAG (new_part s s') = Inr (buf @ (c # cs) @ [0])" using 4(7) new_part_heap[OF 1(4)] by simp
  moreover have "k + k' \<le> Suc (length (c # cs))" using 1(2) 4(4) by simp
  ultimately show ?case using 4(2,3,6) by blast
qed

lemma readstr_loop_ok:
  assumes "ok st" "left st = cs @ 34 # rest" "34 \<notin> set cs" "taken s a" "Suc (length cs) \<le> length (free_addrs s)"
    and "length buf \<le> cap" "\<forall>m. length (buf @ unescape esc cs) \<noteq> cap * 2 ^ m" "0 < cap"
  shows "\<exists>v st' s' k. readstr_loop io a cap esc buf st s = Some (Inr (Inr v, st', s')) \<and> ok st' \<and> left st' = rest \<and> k \<le> Suc (length cs) \<and>
    grown s k s' \<and> v AND HEAP_MASK = STRING_TAG \<and> text_at v STRING_TAG (new_part s s') = Inr (buf @ unescape esc cs @ [0])"
  using assms
proof (induction cs arbitrary: st s a cap buf esc)
  case Nil
  obtain i st1 where 2: "is_peek io st = Inr (i, st1)" "ok st1" "left st1 = 34 # rest" "shows_char i (34 # rest)" using peek_ok[OF Nil.prems(1)] Nil.prems(2) by auto
  have i: "i = 34" using shows_eq[OF 2(4), of 34] by simp
  obtain st2 where 3: "is_get io st1 = Inr (sint (34 :: u8), st2)" "ok st2" "left st2 = rest" using get_char[OF 2(2,3)] by blast
  have lt: "length buf < cap" using Nil.prems(6) Nil.prems(7)[rule_format, of 0] by simp
  obtain s2 where "finish_text a STRING_TAG buf st2 s = Some (Inr (Inr (mk_ptr a STRING_TAG), st2, s2))" "grown s 0 s2"
    "text_at (mk_ptr a STRING_TAG) STRING_TAG (new_part s s2) = Inr (buf @ [0])" "mk_ptr a STRING_TAG AND HEAP_MASK = STRING_TAG"
    using finish_text_ok[OF Nil.prems(4) tag_and(3), of buf st2] by blast
  moreover from this(1) have "readstr_loop io a cap esc buf st s = Some (Inr (Inr (mk_ptr a STRING_TAG), st2, s2))"
    using 2(1) 3(1) lt i by (subst readstr_loop.simps) simp
  moreover have "(0 :: nat) \<le> Suc (length [])" "unescape esc [] @ [0] = [0]" by simp_all
  ultimately show ?case using 3(2,3) by metis
next
  case (Cons c cs)
  have ne: "free_addrs s \<noteq> []" using Cons.prems(5) by auto
  obtain i st1 where 2: "is_peek io st = Inr (i, st1)" "ok st1" "left st1 = c # cs @ 34 # rest" "shows_char i (c # cs @ 34 # rest)"
    using peek_ok[OF Cons.prems(1)] Cons.prems(2) by auto
  have i: "i \<noteq> 34" using shows_eq[OF 2(4), of 34] Cons.prems(3) by simp
  obtain a1 s1 k where 1: "realloc_aligned a (length buf) cap s = Inr (a1, if cap \<le> length buf then 2 * cap else cap, s1)" "k \<le> 1"
    "grown s k s1" "heap s1 = heap s" "taken s1 a1"
    using realloc_ok[OF Cons.prems(4) ne] by blast
  obtain st2 where 3: "is_get io st1 = Inr (sint c, st2)" "ok st2" "left st2 = cs @ 34 # rest" using get_char[OF 2(2,3)] by blast
  let ?cap = "if cap \<le> length buf then 2 * cap else cap"
  let ?skip = "c = 92 \<and> \<not> esc"
  let ?buf = "if ?skip then buf else buf @ [if esc \<and> c = 110 then 10 else c]"
  have c110: "(110 :: u8) \<noteq> 92" "(10 :: u8) \<noteq> 92" by simp_all
  have len: "Suc (length cs) \<le> length (free_addrs s1)" using Cons.prems(5) 1(2) free_addrs_grown[OF 1(3)] by simp
  have un: "buf @ unescape esc (c # cs) = ?buf @ unescape ?skip cs" by (cases esc; cases "c = 92") simp_all
  have lim: "length ?buf \<le> ?cap" using Cons.prems(6,8) by auto
  have pow: "\<forall>m. length (?buf @ unescape ?skip cs) \<noteq> ?cap * 2 ^ m"
    using Cons.prems(7) unfolding un by (auto dest: spec[of _ "Suc _"])
  have pos: "0 < ?cap" using Cons.prems(8) by simp
  from Cons.IH[OF 3(2,3) _ 1(5) len lim pow pos] Cons.prems(3) obtain v st' s' k' where
    4: "readstr_loop io a1 ?cap ?skip ?buf st2 s1 = Some (Inr (Inr v, st', s'))" "ok st'" "left st' = rest" "k' \<le> Suc (length cs)"
    "grown s1 k' s'" "v AND HEAP_MASK = STRING_TAG" "text_at v STRING_TAG (new_part s1 s') = Inr (?buf @ unescape ?skip cs @ [0])" by auto
  have "readstr_loop io a cap esc buf st s = readstr_loop io a1 ?cap ?skip ?buf st2 s1"
    using 1(1) 2(1) 3(1) i c110
    by (subst readstr_loop.simps) (cases esc; cases "c = 92"; cases "c = 110"; simp add: to_char_def Let_def)
  moreover have "grown s (k + k') s'" by (rule grown_trans[OF 1(3) 4(5)])
  moreover have "text_at v STRING_TAG (new_part s s') = Inr (buf @ unescape esc (c # cs) @ [0])"
    using 4(7) un new_part_heap[OF 1(4)] by (metis append.assoc)
  moreover have "k + k' \<le> Suc (length (c # cs))" using 1(2) 4(4) by simp
  ultimately show ?case using 4(1-3,6) by metis
qed

lemma readint_loop_ok:
  assumes "ok st" "left st = cs @ rest" "\<forall>c\<in>set cs. digit c" "\<not> starts digit rest"
  shows "\<exists>st'. readint_loop io (of_nat n) st = Some (Inr (of_nat (digits_value n cs), st')) \<and> ok st' \<and> left st' = rest"
  using assms
proof (induction cs arbitrary: st n)
  case Nil
  obtain i st1 where 2: "is_peek io st = Inr (i, st1)" "ok st1" "left st1 = rest" "shows_char i rest" using peek_ok[OF Nil.prems(1)] Nil.prems(2) by auto
  then show ?case using shows_digit[OF 2(4)] Nil.prems(4) by (subst readint_loop.simps) (auto simp: digits_value_def)
next
  case (Cons c cs)
  obtain i st1 where 2: "is_peek io st = Inr (i, st1)" "ok st1" "left st1 = c # cs @ rest" "shows_char i (c # cs @ rest)"
    using peek_ok[OF Cons.prems(1)] Cons.prems(2) by auto
  obtain st2 where 3: "is_get io st1 = Inr (sint c, st2)" "ok st2" "left st2 = cs @ rest" using get_char[OF 2(2,3)] by blast
  have c: "digit c" using Cons.prems(3) by simp
  have dig: "(word_of_int (sint c) :: u32) - 48 = of_nat (unat c - 48)"
  proof -
    obtain k where k: "unat c = k" "48 \<le> k" "k \<le> 57" using c by (auto simp: digit_def)
    then have "sint c = int k" unfolding sint_u8 k(1) by simp
    then have "(word_of_int (sint c) :: u32) = of_nat k" by simp
    also have "\<dots> - 48 = of_nat (k - 48)" using k(2) by (simp add: of_nat_diff)
    finally show ?thesis using k(1) by simp
  qed
  have n: "of_nat n * 10 + of_nat (unat c - 48) = (of_nat (n * 10 + (unat c - 48)) :: u32)" by simp
  have all: "\<forall>c\<in>set cs. digit c" using Cons.prems(3) by simp
  have "readint_loop io (of_nat n) st = readint_loop io (of_nat (n * 10 + (unat c - 48))) st2"
    using 2(1) 3(1) shows_digit[OF 2(4)] c dig n by (subst readint_loop.simps) simp
  then show ?case using Cons.IH[OF 3(2,3) all Cons.prems(4), of "n * 10 + (unat c - 48)"] by (simp add: digits_value_def)
qed

end

section \<open>Printed expressions\<close>

fun proper :: "sexp \<Rightarrow> bool" where
  "proper SNil = True"
| "proper (SPair a d) = proper d"
| "proper e = False"

fun show_sexp :: "sexp \<Rightarrow> u8 list" and show_tail :: "sexp \<Rightarrow> u8 list" where
  "show_sexp (SInt n) = dec_nat n"
| "show_sexp (SSym cs) = cs"
| "show_sexp (SStr cs) = 34 # cs @ [34]"
| "show_sexp SNil = [110, 105, 108]"
| "show_sexp (SPair a d) =
     40 # show_sexp a @ (if proper d then show_tail d else [32, 46, 32] @ show_sexp d) @ [41]"
| "show_tail (SPair a d) = 32 # show_sexp a @ show_tail d"
| "show_tail e = []"

text \<open>
  What can be read back: symbols that do not start like a reader macro, strings without
  quotes, backslashes and zero bytes whose length does not fill the reader's buffer, and
  lists that are not empty, since \<open>nil\<close> is read as a symbol.
\<close>

fun readable :: "sexp \<Rightarrow> bool" and readable_tail :: "sexp \<Rightarrow> bool" where
  "readable (SInt n) \<longleftrightarrow> n < 2 ^ 30"
| "readable (SSym cs) \<longleftrightarrow> cs \<noteq> [] \<and> issymstart (hd cs) \<and> hd cs \<notin> {35, 39, 44} \<and> (\<forall>c\<in>set cs. issym c)"
| "readable (SStr cs) \<longleftrightarrow> 34 \<notin> set cs \<and> 92 \<notin> set cs \<and> 0 \<notin> set cs \<and> (\<forall>m. length cs \<noteq> 8 * 2 ^ m)"
| "readable SNil \<longleftrightarrow> False"
| "readable (SPair a d) \<longleftrightarrow> readable a \<and> readable_tail d"
| "readable_tail SNil \<longleftrightarrow> True"
| "readable_tail (SPair a d) \<longleftrightarrow> readable a \<and> readable_tail d"
| "readable_tail e \<longleftrightarrow> False"

text \<open>A bound on the addresses that reading takes, those of buffers that were outgrown included.\<close>

fun addresses :: "sexp \<Rightarrow> nat" where
  "addresses (SInt n) = 0"
| "addresses (SSym cs) = Suc (length cs)"
| "addresses (SStr cs) = Suc (Suc (length cs))"
| "addresses SNil = 0"
| "addresses (SPair a d) = Suc (addresses a + addresses d)"

section \<open>Spines of lists\<close>

definition spine :: "lisp \<Rightarrow> value_t list \<Rightarrow> value_t list \<Rightarrow> bool" where
  "spine s X vs \<longleftrightarrow> length X = length vs \<and> distinct X \<and> (\<forall>i<length X. consp (X ! i) \<and>
     (\<exists>c. cons_at (X ! i) s = Inr c \<and> c_car c = vs ! i \<and> c_cdr c = (if Suc i < length X then X ! Suc i else nil)))"

definition head_of :: "value_t list \<Rightarrow> value_t" where
  "head_of X = (case X of [] \<Rightarrow> nil | x # _ \<Rightarrow> x)"

lemma spine_Nil [simp]: "spine s [] []"
  by (simp add: spine_def)

lemma spine_keeps: "spine s X vs \<Longrightarrow> keeps s s' \<Longrightarrow> spine s' X vs"
  unfolding spine_def by (metis cons_at_keeps)

lemma spine_append:
  assumes "spine s X vs" "x \<notin> set X" "consp x" "cons_at x s = Inr c" "c_car c = v" "c_cdr c = nil"
  shows "\<exists>s'. assign_ref (if X = [] then VarRef else CdrRef (last X)) (head_of X) x s = Inr (head_of (X @ [x]), s') \<and> spine s' (X @ [x]) (vs @ [v]) \<and>
    (s' = s \<or> (\<exists>b. X \<noteq> [] \<and> s' = put_body (last X) CONS_TAG b s))"
proof (cases "X = []")
  case True
  then show ?thesis using assms by (auto simp: spine_def assign_ref_def head_of_def)
next
  case False
  let ?l = "last X"
  have last: "?l = X ! (length X - 1)" "length X - 1 < length X" using False by (simp_all add: last_conv_nth)
  then obtain d where d: "consp ?l" "cons_at ?l s = Inr d" "c_car d = vs ! (length X - 1)" using assms(1) unfolding spine_def by metis
  let ?s = "put_body ?l CONS_TAG (ConsBody (d\<lparr>c_cdr := x\<rparr>)) s"
  have at: "cons_at w ?s = (if w = ?l then Inr (d\<lparr>c_cdr := x\<rparr>) else cons_at w s)" for w by (rule cons_at_put[OF d(2)])
  have "spine ?s (X @ [x]) (vs @ [v])"
    unfolding spine_def
  proof (intro conjI allI impI)
    show "length (X @ [x]) = length (vs @ [v])" "distinct (X @ [x])" using assms(1,2) by (simp_all add: spine_def)
    fix i assume i: "i < length (X @ [x])"
    consider "i = length X" | "Suc i = length X" | "Suc i < length X" using i by fastforce
    then have "consp ((X @ [x]) ! i) \<and> (\<exists>c. cons_at ((X @ [x]) ! i) ?s = Inr c \<and> c_car c = (vs @ [v]) ! i \<and>
        c_cdr c = (if Suc i < length (X @ [x]) then (X @ [x]) ! Suc i else nil))"
    proof cases
      case 1
      have "x \<noteq> ?l" using assms(2) False last_in_set by metis
      then show ?thesis using 1 at[of x] assms by (simp add: spine_def nth_append)
    next
      case 2
      then have i: "i = length X - 1" by simp
      then have "X ! i = ?l" "c_car d = vs ! i" using last(1) d(3) by simp_all
      then show ?thesis using 2 at[of ?l] d assms(1) by (simp add: spine_def nth_append)
    next
      case 3
      then have ne: "X ! i \<noteq> ?l" using last assms(1) by (simp add: spine_def nth_eq_iff_index_eq)
      obtain e where "consp (X ! i)" "cons_at (X ! i) s = Inr e" "c_car e = vs ! i" "c_cdr e = X ! Suc i"
        using assms(1) 3 unfolding spine_def by (metis Suc_lessD)
      then show ?thesis using 3 ne at[of "X ! i"] assms(1) by (simp add: spine_def nth_append)
    qed
    then show "consp ((X @ [x]) ! i)" "\<exists>c. cons_at ((X @ [x]) ! i) ?s = Inr c \<and> c_car c = (vs @ [v]) ! i \<and>
        c_cdr c = (if Suc i < length (X @ [x]) then (X @ [x]) ! Suc i else nil)" by blast+
  qed
  moreover have "head_of (X @ [x]) = head_of X" using False by (cases X) (simp_all add: head_of_def)
  moreover have "assign_ref (if X = [] then VarRef else CdrRef ?l) (head_of X) x s = Inr (head_of X, ?s)"
    using False d by (simp add: assign_ref_def set_cdr_def)
  ultimately show ?thesis using False by auto
qed

lemma spineD:
  "spine s X vs \<Longrightarrow> i < length X \<Longrightarrow> consp (X ! i) \<and> (\<exists>c. cons_at (X ! i) s = Inr c \<and> c_car c = vs ! i \<and>
     c_cdr c = (if Suc i < length X then X ! Suc i else nil))"
  unfolding spine_def by blast

lemma spine_Cons:
  assumes "spine s (x # X) (v # vs)"
  shows "consp x \<and> (\<exists>c. cons_at x s = Inr c \<and> c_car c = v \<and> c_cdr c = head_of X) \<and> spine s X vs"
proof -
  have "consp x \<and> (\<exists>c. cons_at x s = Inr c \<and> c_car c = v \<and> c_cdr c = head_of X)"
    using spineD[OF assms, of 0] by (cases X) (auto simp: head_of_def)
  moreover have "spine s X vs"
    unfolding spine_def
  proof (intro conjI allI impI)
    show "length X = length vs" "distinct X" using assms by (simp_all add: spine_def)
    fix i assume "i < length X"
    then show "consp (X ! i)" "\<exists>c. cons_at (X ! i) s = Inr c \<and> c_car c = vs ! i \<and> c_cdr c = (if Suc i < length X then X ! Suc i else nil)"
      using spineD[OF assms, of "Suc i"] by auto
  qed
  ultimately show ?thesis by blast
qed

lemma spine_rep:
  assumes "spine s X vs" "list_all2 (rep s) vs es"
  shows "rep s (head_of X) (foldr SPair es SNil)"
  using assms(2,1)
proof (induction arbitrary: X rule: list_all2_induct)
  case Nil
  then show ?case by (simp add: spine_def head_of_def)
next
  case (Cons v vs e es)
  then obtain x X' where X: "X = x # X'" by (cases X) (auto simp: spine_def)
  then show ?case using spine_Cons[of s x X' v vs] Cons by (auto simp: head_of_def)
qed

section \<open>Parts of the heap\<close>

lemma cons_at_within: "hdr_of v CONS_TAG \<in> B \<Longrightarrow> cons_at v (within B s) = cons_at v s"
  by (simp add: cons_at_def object_at_def within_def)

lemma keeps_within: "keeps s s' \<Longrightarrow> B \<subseteq> B' \<Longrightarrow> keeps (within B s) (within B' s')"
  by (fastforce simp: keeps_def within_def restrict_map_def split: if_splits)

lemma keeps_within_all: "keeps (within B s) s"
  by (auto simp: keeps_def within_def restrict_map_def split: if_splits)

lemma keeps_within_put: "hdr_of v tag \<notin> B \<Longrightarrow> keeps (within B s) (within B (put_body v tag b s))"
  by (auto simp: keeps_def within_def put_body_def restrict_map_def split: if_splits)

lemma dom_put [simp]: "dom (heap (put_body v tag b s)) = dom (heap s)"
  by (auto simp: put_body_def dom_def)

lemma put_body_simps [simp]:
  "first_a (put_body v tag b s) = first_a s" "last_a (put_body v tag b s) = last_a s" "free_addrs (put_body v tag b s) = free_addrs s"
  "current_pool (put_body v tag b s) = current_pool s" "max_pool (put_body v tag b s) = max_pool s"
  by (simp_all add: put_body_def)

lemma put_body_at: "heap s a = Some al \<Longrightarrow> heap (put_body v tag b s) a = Some (if a = hdr_of v tag then al\<lparr>a_body := b\<rparr> else al)"
  by (auto simp: put_body_def)

lemma wf_put_body: "wf_lisp s \<Longrightarrow> wf_lisp (put_body v tag b s)"
proof -
  assume wf: "wf_lisp s"
  then obtain xs where xs: "linked_heap s xs" by (auto simp: wf_lisp_def)
  have "linked_heap (put_body v tag b s) xs"
    unfolding linked_heap_def
  proof (intro conjI allI impI)
    fix i assume "i < length xs"
    then obtain al where "heap s (xs ! i) = Some al" "a_prev al = (if i = 0 then 0 else xs ! (i - 1))" "a_next al = (if Suc i < length xs then xs ! Suc i else 0)"
      using xs unfolding linked_heap_def by blast
    then show "\<exists>al. heap (put_body v tag b s) (xs ! i) = Some al \<and> a_prev al = (if i = 0 then 0 else xs ! (i - 1)) \<and>
        a_next al = (if Suc i < length xs then xs ! Suc i else 0)"
      using put_body_at[of s "xs ! i" al v tag b] by (intro exI[of _ "if xs ! i = hdr_of v tag then al\<lparr>a_body := b\<rparr> else al"]) simp
  qed (use xs in \<open>simp_all add: linked_heap_def\<close>)
  moreover have "avail (put_body v tag b s)" using wf by (auto simp: wf_lisp_def avail_def put_body_def)
  ultimately show ?thesis by (auto simp: wf_lisp_def)
qed

definition elems :: "sexp list \<Rightarrow> u8 list" where
  "elems es = concat (map (\<lambda>e. 32 # show_sexp e) es)"

text \<open>A safe error of one reader after the other.\<close>

lemma OKAY_IF_value: "m = Some (Inr (Inr v, st, s)) \<Longrightarrow> OKAY_IF loc m k = Some (Inr (Inr v, st, s))"
  by (simp add: OKAY_IF_def)

lemma OKAY_IF_safe: "m = Some (Inr (Inl (THROWSAFE c l), st, s)) \<Longrightarrow> OKAY_IF loc m k = k st s"
  by (simp add: OKAY_IF_def THROWSAFE_def)

lemma THROWSAFE_safe [simp]: "safe_state (THROWSAFE c l)"
  by (simp add: THROWSAFE_def)

text \<open>Character classes of the first character.\<close>

definition macro_char :: "u8 \<Rightarrow> bool" where "macro_char c \<longleftrightarrow> c = 39 \<or> c = 96 \<or> c = 44 \<or> c = 35"

lemma issym_not:
  "\<not> issym 32" "\<not> issym 40" "\<not> issym 41" "\<not> issym 34" "\<not> issymstart 40" "\<not> issymstart 41" "\<not> issymstart 34" "\<not> issymstart 32"
  by code_simp+

lemma digit_not_sym: "digit c \<Longrightarrow> \<not> issymstart c \<and> \<not> macro_char c \<and> c \<noteq> 34 \<and> c \<noteq> 40 \<and> \<not> space c \<and> c \<noteq> 59 \<and> issym c"
proof -
  assume "digit c"
  then obtain k where k: "unat c = k" "48 \<le> k" "k \<le> 57" by (auto simp: digit_def)
  have s: "sint c = int k" unfolding sint_u8 k(1) using k by simp
  have ne: "c = of_nat j \<Longrightarrow> j < 256 \<Longrightarrow> j = k" for j using k(1) by (simp add: unat_of_nat)
  show ?thesis
    using k s ne[of 39] ne[of 96] ne[of 44] ne[of 35] ne[of 34] ne[of 40] ne[of 59]
    by (auto simp: issymstart_def issym_def isalpha_def isallowedchar_def isdigit_int_def space_def macro_char_def)
qed

lemma symstart_props: "issymstart c \<Longrightarrow> \<not> space c \<and> c \<noteq> 59 \<and> issym c"
proof -
  assume a: "issymstart c"
  obtain k where k: "unat c = k" by blast
  have "k < 2 ^ LENGTH(8)" unfolding k[symmetric] by (rule unsigned_less)
  then have lt: "k < 256" by simp
  have s: "sint c = (if k < 128 then int k else int k - 256)" unfolding sint_u8 k ..
  have ne: "c = of_nat j \<Longrightarrow> j < 256 \<Longrightarrow> j = k" for j using k(1) by (simp add: unat_of_nat)
  show ?thesis
    using a k lt s ne[of 59]
    by (auto simp: issymstart_def issym_def isalpha_def isallowedchar_def space_def split: if_splits)
qed

text \<open>What \<open>read1\<close> tries from one reader on.\<close>

definition try_list :: "('s \<Rightarrow> lisp \<Rightarrow> 's rd) \<Rightarrow> 's istream \<Rightarrow> eloc \<Rightarrow> 's \<Rightarrow> lisp \<Rightarrow> 's rd" where
  "try_list rdn io loc st s = OKAY_IF loc (readlist_by rdn io st s) (\<lambda>st5 s5. Some (Inr (Inl (THROWSAFE EEXPECTED loc), st5, s5)))"

definition try_int :: "('s \<Rightarrow> lisp \<Rightarrow> 's rd) \<Rightarrow> 's istream \<Rightarrow> eloc \<Rightarrow> 's \<Rightarrow> lisp \<Rightarrow> 's rd" where
  "try_int rdn io loc st s = OKAY_IF loc (readint io st s) (try_list rdn io loc)"

definition try_str :: "('s \<Rightarrow> lisp \<Rightarrow> 's rd) \<Rightarrow> 's istream \<Rightarrow> eloc \<Rightarrow> 's \<Rightarrow> lisp \<Rightarrow> 's rd" where
  "try_str rdn io loc st s = OKAY_IF loc (readstr io st s) (try_int rdn io loc)"

definition try_sym :: "('s \<Rightarrow> lisp \<Rightarrow> 's rd) \<Rightarrow> 's istream \<Rightarrow> eloc \<Rightarrow> 's \<Rightarrow> lisp \<Rightarrow> 's rd" where
  "try_sym rdn io loc st s = OKAY_IF loc (readsym io st s) (try_str rdn io loc)"

context char_stream begin

text \<open>Every reader at a place where the characters \<open>r\<close> are next, after white space.\<close>

lemma peek_after_ws:
  assumes "ok st" "strip (left st) = Some r"
  shows "\<exists>st1 i st2. skipws io st = Some (Inr st1) \<and> is_peek io st1 = Inr (i, st2) \<and> ok st2 \<and> left st2 = r \<and> shows_char i r"
proof -
  obtain st1 where 1: "skipws io st = Some (Inr st1)" "ok st1" "left st1 = r" using skipws_ok[OF assms(1)] assms(2) by auto
  then show ?thesis using peek_ok[OF 1(2)] by auto
qed

lemma readsym_fails:
  assumes "ok st" "strip (left st) = Some r" "\<not> starts issymstart r"
  shows "\<exists>st'. readsym io st s = Some (Inr (Inl (THROWSAFE EEXPECTED no_loc), st', s)) \<and> ok st' \<and> left st' = r"
  using peek_after_ws[OF assms(1,2)] shows_sym(2) assms(3) by (fastforce simp: readsym_def)

lemma readstr_fails:
  assumes "ok st" "strip (left st) = Some r" "\<not> starts (\<lambda>c. c = 34) r"
  shows "\<exists>st'. readstr io st s = Some (Inr (Inl (THROWSAFE EEXPECTED no_loc), st', s)) \<and> ok st' \<and> left st' = r"
proof -
  obtain st1 i st2 where p: "skipws io st = Some (Inr st1)" "is_peek io st1 = Inr (i, st2)" "ok st2" "left st2 = r" "shows_char i r"
    using peek_after_ws[OF assms(1,2)] by blast
  have "i \<noteq> 34" using shows_eq[OF p(5), of 34] assms(3) by simp
  then show ?thesis using p by (simp add: readstr_def)
qed

lemma readint_fails:
  assumes "ok st" "strip (left st) = Some r" "\<not> starts digit r"
  shows "\<exists>st'. readint io st s = Some (Inr (Inl (THROWSAFE EEXPECTED no_loc), st', s)) \<and> ok st' \<and> left st' = r"
  using peek_after_ws[OF assms(1,2)] shows_digit assms(3) by (fastforce simp: readint_def)

lemma readquote_fails:
  assumes "ok st" "strip (left st) = Some r" "\<not> starts macro_char r"
  shows "\<exists>st'. readquote_by rd io st s = Some (Inr (Inl (THROWSAFE EEXPECTED no_loc), st', s)) \<and> ok st' \<and> left st' = r"
proof -
  obtain st1 i st2 where p: "skipws io st = Some (Inr st1)" "is_peek io st1 = Inr (i, st2)" "ok st2" "left st2 = r" "shows_char i r"
    using peek_after_ws[OF assms(1,2)] by blast
  have "\<not> macro_char (to_char i)"
  proof (cases r)
    case Nil
    then have "to_char i = 255" using p(5) by (simp add: shows_char_def to_char_def)
    then show ?thesis by (simp add: macro_char_def)
  next
    case (Cons c cs)
    then show ?thesis using p(5) assms(3) by (simp add: shows_char_def)
  qed
  then show ?thesis using p by (auto simp: readquote_by_def macro_char_def Let_def)
qed

lemma readlist_fails:
  assumes "ok st" "strip (left st) = Some r" "\<not> starts (\<lambda>c. c = 40) r"
  shows "\<exists>st' l. readlist_by rdn io st s = Some (Inr (Inl (THROWSAFE EEXPECTED l), st', s)) \<and> ok st' \<and> left st' = r"
proof -
  obtain st1 i st2 where p: "skipws io st = Some (Inr st1)" "is_peek io st1 = Inr (i, st2)" "ok st2" "left st2 = r" "shows_char i r"
    using peek_after_ws[OF assms(1,2)] by blast
  have "i \<noteq> 40" using shows_eq[OF p(5), of 40] assms(3) by simp
  then have "readlist_by rdn io st s = Some (Inr (Inl (THROWSAFE EEXPECTED (NEARIS io st)), st2, s))"
    using p(1,2) by (simp add: readlist_by_def)
  then show ?thesis using p(3,4) by blast
qed

lemma strip_idem: "strip cs = Some r \<Longrightarrow> strip r = Some r"
proof (induction cs rule: strip.induct)
  case (1 cs)
  let ?r = "dropWhile space cs"
  show ?case
  proof (cases "starts (\<lambda>c. c = 59) ?r")
    case True
    then show ?thesis using 1 by (subst (asm) (2) strip.simps) (auto simp: Let_def split: if_splits)
  next
    case False
    then have r: "r = ?r" using 1(2) by (subst (asm) strip.simps) (simp add: Let_def)
    have "\<not> starts space (dropWhile space xs)" for xs by (induction xs) auto
    then have "\<not> starts space ?r" .
    then have "strip ?r = Some ?r" using False by (rule strip_start)
    then show ?thesis unfolding r[symmetric] .
  qed
qed

lemma read1_by_tries: "read1 io st s = OKAY_IF (NEARIS io st) (readquote_by (read1 io) io st s) (try_sym (readn io) io (NEARIS io st))"
  by (subst read1_eq) (simp add: read1_by_def Let_def try_sym_def[abs_def] try_str_def[abs_def] try_int_def[abs_def] try_list_def[abs_def])

text \<open>The readers that a first character rules out.\<close>

lemma read1_try_sym:
  assumes "ok st" "strip (left st) = Some r" "\<not> starts macro_char r"
  shows "\<exists>st1. read1 io st s = try_sym (readn io) io (NEARIS io st) st1 s \<and> ok st1 \<and> left st1 = r"
proof -
  obtain st1 where q: "readquote_by (read1 io) io st s = Some (Inr (Inl (THROWSAFE EEXPECTED no_loc), st1, s))" "ok st1" "left st1 = r"
    using readquote_fails[OF assms, of "read1 io" s] by blast
  have "read1 io st s = try_sym (readn io) io (NEARIS io st) st1 s" by (subst read1_by_tries) (rule OKAY_IF_safe[OF q(1)])
  then show ?thesis using q(2,3) by blast
qed

lemma read1_try_str:
  assumes "ok st" "strip (left st) = Some r" "\<not> starts macro_char r" "\<not> starts issymstart r"
  shows "\<exists>st1. read1 io st s = try_str (readn io) io (NEARIS io st) st1 s \<and> ok st1 \<and> left st1 = r"
proof -
  obtain st1 where 1: "read1 io st s = try_sym (readn io) io (NEARIS io st) st1 s" "ok st1" "left st1 = r" using read1_try_sym[OF assms(1-3)] by blast
  then have "strip (left st1) = Some r" using strip_idem[OF assms(2)] by simp
  from readsym_fails[OF 1(2) this assms(4), of s] obtain st2 where q: "readsym io st1 s = Some (Inr (Inl (THROWSAFE EEXPECTED no_loc), st2, s))" "ok st2" "left st2 = r" by blast
  have "try_sym (readn io) io (NEARIS io st) st1 s = try_str (readn io) io (NEARIS io st) st2 s" unfolding try_sym_def by (rule OKAY_IF_safe[OF q(1)])
  then show ?thesis using 1(1) q(2,3) by auto
qed

lemma read1_try_int:
  assumes "ok st" "strip (left st) = Some r" "\<not> starts macro_char r" "\<not> starts issymstart r" "\<not> starts (\<lambda>c. c = 34) r"
  shows "\<exists>st1. read1 io st s = try_int (readn io) io (NEARIS io st) st1 s \<and> ok st1 \<and> left st1 = r"
proof -
  obtain st1 where 1: "read1 io st s = try_str (readn io) io (NEARIS io st) st1 s" "ok st1" "left st1 = r" using read1_try_str[OF assms(1-4)] by blast
  then have "strip (left st1) = Some r" using strip_idem[OF assms(2)] by simp
  from readstr_fails[OF 1(2) this assms(5), of s] obtain st2 where q: "readstr io st1 s = Some (Inr (Inl (THROWSAFE EEXPECTED no_loc), st2, s))" "ok st2" "left st2 = r" by blast
  have "try_str (readn io) io (NEARIS io st) st1 s = try_int (readn io) io (NEARIS io st) st2 s" unfolding try_str_def by (rule OKAY_IF_safe[OF q(1)])
  then show ?thesis using 1(1) q(2,3) by auto
qed

lemma read1_try_list:
  assumes "ok st" "strip (left st) = Some r" "\<not> starts macro_char r" "\<not> starts issymstart r" "\<not> starts (\<lambda>c. c = 34) r" "\<not> starts digit r"
  shows "\<exists>st1. read1 io st s = try_list (readn io) io (NEARIS io st) st1 s \<and> ok st1 \<and> left st1 = r"
proof -
  obtain st1 where 1: "read1 io st s = try_int (readn io) io (NEARIS io st) st1 s" "ok st1" "left st1 = r" using read1_try_int[OF assms(1-5)] by blast
  then have "strip (left st1) = Some r" using strip_idem[OF assms(2)] by simp
  from readint_fails[OF 1(2) this assms(6), of s] obtain st2 where q: "readint io st1 s = Some (Inr (Inl (THROWSAFE EEXPECTED no_loc), st2, s))" "ok st2" "left st2 = r" by blast
  have "try_int (readn io) io (NEARIS io st) st1 s = try_list (readn io) io (NEARIS io st) st2 s" unfolding try_int_def by (rule OKAY_IF_safe[OF q(1)])
  then show ?thesis using 1(1) q(2,3) by auto
qed

text \<open>At the end of a list, and at the end of the input, there is no form.\<close>

lemma read1_none:
  assumes "ok st" "strip (left st) = Some r" "r = [] \<or> hd r = 41"
  shows "\<exists>st'. read1 io st s = Some (Inr (Inl (THROWSAFE EEXPECTED (NEARIS io st)), st', s)) \<and> ok st' \<and> left st' = r"
proof -
  have no: "\<not> starts macro_char r" "\<not> starts issymstart r" "\<not> starts (\<lambda>c. c = 34) r" "\<not> starts digit r" "\<not> starts (\<lambda>c. c = 40) r"
    using assms(3) by (cases r; auto simp: macro_char_def issym_not digit_def)+
  obtain st1 where 1: "read1 io st s = try_list (readn io) io (NEARIS io st) st1 s" "ok st1" "left st1 = r"
    using read1_try_list[OF assms(1,2) no(1-4)] by blast
  have "strip (left st1) = Some r" using 1(3) strip_idem[OF assms(2)] by simp
  from readlist_fails[OF 1(2) this no(5), of "readn io" s] obtain st2 l where
    q: "readlist_by (readn io) io st1 s = Some (Inr (Inl (THROWSAFE EEXPECTED l), st2, s))" "ok st2" "left st2 = r" by blast
  have "try_list (readn io) io (NEARIS io st) st1 s = Some (Inr (Inl (THROWSAFE EEXPECTED (NEARIS io st)), st2, s))"
    unfolding try_list_def by (rule OKAY_IF_safe[OF q(1)])
  then show ?thesis using 1(1) q(2,3) by auto
qed

end

section \<open>Numbers\<close>

lemma unat_digit: "k < 10 \<Longrightarrow> unat (of_nat (48 + k) :: u8) = 48 + k"
  by (subst unat_of_nat) simp

lemma digits_value_append: "digits_value n (xs @ [c]) = digits_value n xs * 10 + (unat c - 48)"
  by (simp add: digits_value_def)

lemma dec_nat_digits: "dec_nat n \<noteq> [] \<and> (\<forall>c\<in>set (dec_nat n). digit c) \<and> digits_value 0 (dec_nat n) = n"
proof (induction n rule: dec_nat.induct)
  case (1 n)
  show ?case
  proof (cases "n < 10")
    case True
    then show ?thesis using unat_digit[OF True] by (subst (1 2 3) dec_nat.simps) (simp add: digit_def digits_value_def)
  next
    case False
    have m: "n mod 10 < 10" by simp
    have "dec_nat n = dec_nat (n div 10) @ [of_nat (48 + n mod 10)]" using False by (subst dec_nat.simps) simp
    moreover have "digit (of_nat (48 + n mod 10))" using m unfolding digit_def unat_digit[OF m] by simp
    moreover have "n div 10 * 10 + n mod 10 = n" by simp
    ultimately show ?thesis using 1[OF False] unat_digit[OF m] by (auto simp: digits_value_append)
  qed
qed

section \<open>Building a list at its end\<close>

lemma cons_fresh:
  assumes "wf_lisp s" "free_addrs s \<noteq> []"
  shows "\<exists>v s'. lisp_cons x y s = Inr (v, s') \<and> grown s 1 s' \<and> consp v \<and> cons_at v s' = Inr \<lparr>c_car = x, c_cdr = y, c_line = 0, c_name = None\<rparr> \<and>
    hdr_of v CONS_TAG \<notin> dom (heap s)"
proof -
  obtain a as where a: "free_addrs s = a # as" using assms(2) by (cases "free_addrs s") auto
  obtain v s' where v: "lisp_cons x y s = Inr (v, s')" "grown s 1 s'" "consp v" "cons_at v s' = Inr \<lparr>c_car = x, c_cdr = y, c_line = 0, c_name = None\<rparr>"
    using cons_ok[OF assms] by blast
  have "v = mk_ptr a CONS_TAG" using v(1) a by (auto simp: lisp_cons_def new_object_def malloc_aligned_def res_bind_eq_Inr)
  moreover have "a AND 7 = 0" "heap s a = None" using assms(1) a by (auto simp: wf_lisp_def avail_def)
  ultimately have "hdr_of v CONS_TAG \<notin> dom (heap s)" using mk_ptr_simps(2)[of a CONS_TAG] by (simp add: domIff)
  then show ?thesis using v by blast
qed

lemma cons_at_dom: "cons_at v s = Inr c \<Longrightarrow> hdr_of v CONS_TAG \<in> dom (heap s)"
  by (auto simp: cons_at_def object_at_def res_bind_eq_Inr split: option.splits)

lemma keeps_put: "keeps s0 s \<Longrightarrow> hdr_of v tag \<notin> dom (heap s0) \<Longrightarrow> keeps s0 (put_body v tag b s)"
  unfolding keeps_def put_body_def by (auto simp: domIff)

lemma grown_put: "grown s0 m s \<Longrightarrow> hdr_of v tag \<notin> dom (heap s0) \<Longrightarrow> grown s0 m (put_body v tag b s)"
  by (simp add: grown_def wf_put_body keeps_put)

lemma spine_dom: "spine s X vs \<Longrightarrow> x \<in> set X \<Longrightarrow> hdr_of x CONS_TAG \<in> dom (heap s)"
  using cons_at_dom by (metis in_set_conv_nth spineD)

lemma spine_info:
  assumes "spine s X vs" "x \<in> set X" "cons_at x s = Inr c"
  shows "spine (put_body x CONS_TAG (ConsBody (c\<lparr>c_line := l, c_name := nm\<rparr>)) s) X vs"
  unfolding spine_def
proof (intro conjI allI impI)
  show "length X = length vs" "distinct X" using assms(1) by (simp_all add: spine_def)
  fix i assume i: "i < length X"
  note d = spineD[OF assms(1) i]
  then show "consp (X ! i)" by blast
  show "\<exists>d. cons_at (X ! i) (put_body x CONS_TAG (ConsBody (c\<lparr>c_line := l, c_name := nm\<rparr>)) s) = Inr d \<and> c_car d = vs ! i \<and>
      c_cdr d = (if Suc i < length X then X ! Suc i else nil)"
    using d assms(3) unfolding cons_at_put[OF assms(3)] by (cases "X ! i = x") auto
qed

text \<open>A list with the conses \<open>X\<close> and the elements \<open>vs\<close> that was built since \<open>s0\<close>; its elements are apart from its conses.\<close>

definition building :: "lisp \<Rightarrow> nat \<Rightarrow> lisp \<Rightarrow> value_t list \<Rightarrow> value_t list \<Rightarrow> sexp list \<Rightarrow> bool" where
  "building s0 m s X vs es \<longleftrightarrow> grown s0 m s \<and> spine s X vs \<and> (\<forall>x\<in>set X. hdr_of x CONS_TAG \<notin> dom (heap s0)) \<and>
     list_all2 (rep (within (- (dom (heap s0) \<union> (\<lambda>x. hdr_of x CONS_TAG) ` set X)) s)) vs es"

definition tl_ref_of :: "value_t list \<Rightarrow> val_ref" where
  "tl_ref_of X = (if X = [] then VarRef else CdrRef (last X))"

lemma building_start: "wf_lisp s \<Longrightarrow> building s 0 s [] [] []"
  by (simp add: building_def grown_refl)

lemma reps_keeps: "list_all2 (rep s) vs es \<Longrightarrow> keeps s s' \<Longrightarrow> list_all2 (rep s') vs es"
  by (erule list_all2_mono) (rule rep_keeps)

lemma keeps_within_fresh:
  assumes "keeps s s'" "a \<notin> dom (heap s)"
  shows "keeps (within B s) (within (B - {a}) s')"
  using assms unfolding keeps_def within_def restrict_map_def by (fastforce simp: domIff split: if_splits)

lemma building_step:
  assumes b: "building s0 m s X vs es" and g: "grown s k s1" and r: "rep (new_part s s1) v e" and f: "free_addrs s1 \<noteq> []"
  shows "\<exists>x s2 s3 s4. lisp_cons v nil s1 = Inr (x, s2) \<and> assign_ref (tl_ref_of X) (head_of X) x s2 = Inr (head_of (X @ [x]), s3) \<and>
    set_cons_info x line nm s3 = Inr s4 \<and> building s0 (m + k + 1) s4 (X @ [x]) (vs @ [v]) (es @ [e])"
proof -
  let ?h = "\<lambda>x. hdr_of x CONS_TAG"
  let ?B = "- (dom (heap s0) \<union> ?h ` set X)"
  note B = b[unfolded building_def]
  obtain x s2 where x: "lisp_cons v nil s1 = Inr (x, s2)" "grown s1 1 s2" "consp x"
    "cons_at x s2 = Inr \<lparr>c_car = v, c_cdr = nil, c_line = 0, c_name = None\<rparr>" "?h x \<notin> dom (heap s1)"
    using cons_fresh[OF grownD(1)[OF g] f] by blast
  have k12: "keeps s s1" "keeps s1 s2" using grownD(2)[OF g] grownD(2)[OF x(2)] .
  have k01: "keeps s0 s1" using B keeps_trans[OF _ k12(1)] by (auto simp: grown_def)
  have spine1: "spine s1 X vs" using B spine_keeps k12(1) by blast
  have nx: "x \<notin> set X" using spine_dom[OF spine1] x(5) by blast
  have dom0: "dom (heap s0) \<subseteq> dom (heap s1)" using k01 unfolding keeps_def by fastforce
  have doms: "dom (heap s0) \<union> ?h ` set X \<subseteq> dom (heap s)"
    using B spine_dom[of s X vs] by (fastforce simp: grown_def keeps_def)
  then have "rep (within ?B s1) v e" using rep_keeps[OF r[unfolded new_part_def] keeps_within[OF keeps_refl, of "- dom (heap s)" ?B]] by blast
  moreover have "list_all2 (rep (within ?B s1)) vs es" using B reps_keeps keeps_within[OF k12(1) subset_refl] by blast
  ultimately have "list_all2 (rep (within ?B s1)) (vs @ [v]) (es @ [e])" by (simp add: list_all2_appendI)
  then have reps2: "list_all2 (rep (within (?B - {?h x}) s2)) (vs @ [v]) (es @ [e])"
    using reps_keeps keeps_within_fresh[OF k12(2) x(5)] by blast
  have B': "- (dom (heap s0) \<union> ?h ` set (X @ [x])) = ?B - {?h x}" by auto
  obtain s3 where s3: "assign_ref (tl_ref_of X) (head_of X) x s2 = Inr (head_of (X @ [x]), s3)" "spine s3 (X @ [x]) (vs @ [v])"
    "s3 = s2 \<or> (\<exists>b. X \<noteq> [] \<and> s3 = put_body (last X) CONS_TAG b s2)"
    using spine_append[OF spine_keeps[OF spine1 k12(2)] nx x(3,4)] unfolding tl_ref_of_def by auto
  have lastX: "X \<noteq> [] \<Longrightarrow> ?h (last X) \<notin> dom (heap s0) \<and> ?h (last X) \<notin> ?B - {?h x}" using B by auto
  have g2: "grown s0 (m + k + 1) s2" using grown_trans[OF grown_trans[OF _ g] x(2)] B by blast
  then have g3: "grown s0 (m + k + 1) s3" using s3(3) grown_put lastX by auto
  have reps3: "list_all2 (rep (within (?B - {?h x}) s3)) (vs @ [v]) (es @ [e])"
    using s3(3) reps2 reps_keeps[OF reps2 keeps_within_put] lastX by auto
  obtain c where c: "cons_at x s3 = Inr c" using spineD[OF s3(2), of "length X"] by (auto simp: nth_append)
  let ?s4 = "put_body x CONS_TAG (ConsBody (c\<lparr>c_line := line, c_name := nm\<rparr>)) s3"
  have x0: "?h x \<notin> dom (heap s0)" using x(5) dom0 by blast
  have "set_cons_info x line nm s3 = Inr ?s4" using x(3) c by (simp add: set_cons_info_def)
  moreover have "building s0 (m + k + 1) ?s4 (X @ [x]) (vs @ [v]) (es @ [e])"
    unfolding building_def B'
    using grown_put[OF g3 x0] spine_info[OF s3(2) _ c] reps_keeps[OF reps3 keeps_within_put[of x CONS_TAG]] B x0 by auto
  ultimately show ?thesis using x(1) s3(1) by blast
qed

lemma building_rep:
  assumes "building s0 m s X vs es"
  shows "rep (new_part s0 s) (head_of X) (foldr SPair es SNil)"
proof (rule spine_rep)
  note B = assms[unfolded building_def]
  have "cons_at x (new_part s0 s) = cons_at x s" if "x \<in> set X" for x
    unfolding new_part_def using that B by (intro cons_at_within) auto
  then show "spine (new_part s0 s) X vs" using B unfolding spine_def by (metis nth_mem)
  show "list_all2 (rep (new_part s0 s)) vs es"
    unfolding new_part_def by (rule reps_keeps[OF _ keeps_within[OF keeps_refl]]) (use B in auto)
qed

section \<open>What is printed is read back\<close>

text \<open>The elements of a list.\<close>

fun elements :: "sexp \<Rightarrow> sexp list" where
  "elements (SPair a d) = a # elements d"
| "elements e = []"

lemma elements_foldr: "readable_tail d \<Longrightarrow> foldr SPair (elements d) SNil = d"
  by (induction d) simp_all

lemma readable_tail_proper: "readable_tail d \<Longrightarrow> proper d"
  by (induction d) simp_all

text \<open>The bytes of a list after its first element.\<close>

lemma show_pair: "readable_tail d \<Longrightarrow> show_sexp (SPair a d) = 40 # show_sexp a @ show_tail d @ [41]"
  by (simp add: readable_tail_proper)

lemma tail_stops: "\<not> starts issym (show_tail d @ 41 # rest)"
  by (cases d) (simp_all add: issym_not)

lemma not_macro: "issymstart c \<Longrightarrow> c \<notin> {35, 39, 44} \<Longrightarrow> \<not> macro_char c"
proof -
  have "\<not> issymstart 96" by code_simp
  then show "issymstart c \<Longrightarrow> c \<notin> {35, 39, 44} \<Longrightarrow> \<not> macro_char c" by (auto simp: macro_char_def)
qed

lemma dec_nat_Cons: "\<exists>c cs. dec_nat n = c # cs \<and> digit c \<and> (\<forall>x\<in>set (c # cs). digit x)"
  using dec_nat_digits[of n] by (cases "dec_nat n") auto

lemma issym_zero: "\<not> issym 0"
  by code_simp

lemma show_starts:
  assumes "readable e"
  shows "\<not> starts space (show_sexp e @ x) \<and> \<not> starts (\<lambda>c. c = 59) (show_sexp e @ x)"
proof (cases e)
  case (SInt n)
  obtain c cs where "dec_nat n = c # cs" "digit c" using dec_nat_Cons by blast
  then show ?thesis using SInt digit_not_sym[of c] by simp
next
  case (SSym cs)
  then obtain c r where "cs = c # r" "issymstart c" using assms by (cases cs) auto
  then show ?thesis using SSym symstart_props[of c] by simp
qed (use assms in \<open>auto simp: space_def\<close>)

lemma strip_show: "readable e \<Longrightarrow> strip (show_sexp e @ x) = Some (show_sexp e @ x)"
  using show_starts[of e x] by (intro strip_start) blast+

context char_stream begin

text \<open>Reading back one expression; the end of a list stops the reader.\<close>

definition reads :: "sexp \<Rightarrow> bool" where
  "reads e \<longleftrightarrow> (\<forall>st s rest. ok st \<and> strip (left st) = Some (show_sexp e @ rest) \<and> \<not> starts issym rest \<and> wf_lisp s \<and> addresses e \<le> length (free_addrs s) \<longrightarrow>
     (\<exists>v st' s' k. read1 io st s = Some (Inr (Inr v, st', s')) \<and> ok st' \<and> left st' = rest \<and> k \<le> addresses e \<and> grown s k s' \<and> rep (new_part s s') v e))"

definition reads_tail :: "sexp \<Rightarrow> bool" where
  "reads_tail d \<longleftrightarrow> (\<forall>st s rest s0 m X vs es. ok st \<and> left st = show_tail d @ 41 # rest \<and> building s0 m s X vs es \<and> addresses d \<le> length (free_addrs s) \<longrightarrow>
     (\<exists>st' s' X' vs' k. reader io (Readn (head_of X) (tl_ref_of X)) st s = Some (Inr (Inr (head_of X'), st', s')) \<and> ok st' \<and> left st' = 41 # rest \<and>
        k \<le> addresses d \<and> building s0 (m + k) s' X' vs' (es @ elements d)))"

lemma readsD:
  assumes "reads e" "ok st" "strip (left st) = Some (show_sexp e @ rest)" "\<not> starts issym rest" "wf_lisp s" "addresses e \<le> length (free_addrs s)"
  obtains v st' s' k where "read1 io st s = Some (Inr (Inr v, st', s'))" "ok st'" "left st' = rest" "k \<le> addresses e" "grown s k s'" "rep (new_part s s') v e"
  using assms unfolding reads_def by blast

lemma reads_SInt:
  assumes "n < 2 ^ 30"
  shows "reads (SInt n)"
  unfolding reads_def
proof (intro allI impI)
  fix st s rest
  assume a: "ok st \<and> strip (left st) = Some (show_sexp (SInt n) @ rest) \<and> \<not> starts issym rest \<and> wf_lisp s \<and> addresses (SInt n) \<le> length (free_addrs s)"
  obtain c cs where c: "dec_nat n = c # cs" "digit c" "\<forall>x\<in>set (c # cs). digit x" using dec_nat_Cons by blast
  have stop: "\<not> starts digit rest" using a digit_not_sym by (cases rest) auto
  have r: "strip (left st) = Some (c # cs @ rest)" using a c(1) by simp
  obtain st1 where 1: "read1 io st s = try_int (readn io) io (NEARIS io st) st1 s" "ok st1" "left st1 = c # cs @ rest"
    using read1_try_int[of st "c # cs @ rest" s] a r digit_not_sym[OF c(2)] by auto
  obtain st2 i st3 where 2: "skipws io st1 = Some (Inr st2)" "is_peek io st2 = Inr (i, st3)" "ok st3" "left st3 = c # cs @ rest" "shows_char i (c # cs @ rest)"
    using peek_after_ws[OF 1(2)] strip_idem[OF r] 1(3) by metis
  have left: "left st3 = (c # cs) @ rest" using 2(4) by simp
  obtain st4 where 3: "readint_loop io (of_nat 0) st3 = Some (Inr (of_nat (digits_value 0 (c # cs)), st4))" "ok st4" "left st4 = rest"
    using readint_loop_ok[OF 2(3) left c(3) stop, of 0] by blast
  have "digits_value 0 (c # cs) = n" using dec_nat_digits[of n] c(1) by simp
  then have "readint io st1 s = Some (Inr (Inr (intval (of_nat n)), st4, s))"
    using 2(1,2) 3(1) shows_digit[OF 2(5)] c(2) by (simp add: readint_def)
  from OKAY_IF_value[OF this] have "read1 io st s = Some (Inr (Inr (intval (of_nat n)), st4, s))" unfolding 1(1) try_int_def by blast
  moreover have "rep (new_part s s) (intval (of_nat n)) (SInt n)" using assms by simp
  moreover have "grown s 0 s" "0 \<le> addresses (SInt n)" using a by (simp_all add: grown_refl)
  ultimately show "\<exists>v st' s' k. read1 io st s = Some (Inr (Inr v, st', s')) \<and> ok st' \<and> left st' = rest \<and> k \<le> addresses (SInt n) \<and> grown s k s' \<and> rep (new_part s s') v (SInt n)"
    using 3(2,3) by blast
qed

lemma reads_SSym:
  assumes "readable (SSym cs)"
  shows "reads (SSym cs)"
  unfolding reads_def
proof (intro allI impI)
  fix st s rest
  assume a: "ok st \<and> strip (left st) = Some (show_sexp (SSym cs) @ rest) \<and> \<not> starts issym rest \<and> wf_lisp s \<and> addresses (SSym cs) \<le> length (free_addrs s)"
  obtain c cs' where c: "cs = c # cs'" "issymstart c" "c \<notin> {35, 39, 44}" "\<forall>x\<in>set cs'. issym x" using assms by (cases cs) auto
  have r: "strip (left st) = Some (c # cs' @ rest)" using a c(1) by simp
  obtain st1 where 1: "read1 io st s = try_sym (readn io) io (NEARIS io st) st1 s" "ok st1" "left st1 = c # cs' @ rest"
    using read1_try_sym[of st "c # cs' @ rest" s] a r not_macro[OF c(2,3)] by auto
  obtain st2 i st3 where 2: "skipws io st1 = Some (Inr st2)" "is_peek io st2 = Inr (i, st3)" "ok st3" "left st3 = c # cs' @ rest" "shows_char i (c # cs' @ rest)"
    using peek_after_ws[OF 1(2)] strip_idem[OF r] 1(3) by metis
  obtain st4 where 3: "is_get io st3 = Inr (sint c, st4)" "ok st4" "left st4 = cs' @ rest" using get_char[OF 2(3,4)] by blast
  have ne: "free_addrs s \<noteq> []" using a by auto
  obtain b s1 where 4: "malloc_aligned s = Inr (b, s1)" "grown s 1 s1" "heap s1 = heap s" "taken s1 b"
    using fresh_malloc[OF _ ne] a by (auto simp: taken_def grown_def)
  have len: "Suc (length cs') \<le> length (free_addrs s1)" using a c(1) grownD(3)[OF 4(2)] by auto
  obtain v st' s' k where 5: "readsym_loop io b 8 [c] st4 s1 = Some (Inr (Inr v, st', s'))" "ok st'" "left st' = rest" "k \<le> Suc (length cs')"
    "grown s1 k s'" "v AND HEAP_MASK = SYMBOL_TAG" "text_at v SYMBOL_TAG (new_part s1 s') = Inr ([c] @ cs' @ [0])"
    using readsym_loop_ok[OF 3(2,3) c(4) _ 4(4) len, of 8 "[c]"] a by blast
  have "readsym io st1 s = Some (Inr (Inr v, st', s'))"
    using 2(1,2) 3(1) 4(1) 5(1) shows_sym(2)[OF 2(5)] c(2) by (simp add: readsym_def to_char_def)
  from OKAY_IF_value[OF this] have "read1 io st s = Some (Inr (Inr v, st', s'))" unfolding 1(1) try_sym_def by blast
  moreover have "0 \<notin> set cs" using c(1,4) symstart_props[OF c(2)] issym_zero by auto
  then have "rep (new_part s s') v (SSym cs)"
    using 5(6,7) c(1) new_part_heap[OF 4(3)] by (auto simp: symbolp_def cstring_def)
  moreover have "grown s (1 + k) s'" by (rule grown_trans[OF 4(2) 5(5)])
  moreover have "1 + k \<le> addresses (SSym cs)" using 5(4) c(1) by simp
  ultimately show "\<exists>v st' s' k. read1 io st s = Some (Inr (Inr v, st', s')) \<and> ok st' \<and> left st' = rest \<and> k \<le> addresses (SSym cs) \<and> grown s k s' \<and> rep (new_part s s') v (SSym cs)"
    using 5(2,3) by blast
qed

lemma reads_SStr:
  assumes "readable (SStr cs)"
  shows "reads (SStr cs)"
  unfolding reads_def
proof (intro allI impI)
  fix st s rest
  assume a: "ok st \<and> strip (left st) = Some (show_sexp (SStr cs) @ rest) \<and> \<not> starts issym rest \<and> wf_lisp s \<and> addresses (SStr cs) \<le> length (free_addrs s)"
  have r: "strip (left st) = Some (34 # cs @ 34 # rest)" using a by simp
  have no: "\<not> macro_char 34" "\<not> issymstart 34" by (simp_all add: macro_char_def issym_not)
  obtain st1 where 1: "read1 io st s = try_str (readn io) io (NEARIS io st) st1 s" "ok st1" "left st1 = 34 # cs @ 34 # rest"
    using read1_try_str[of st "34 # cs @ 34 # rest" s] a r no by auto
  obtain st2 i st3 where 2: "skipws io st1 = Some (Inr st2)" "is_peek io st2 = Inr (i, st3)" "ok st3" "left st3 = 34 # cs @ 34 # rest"
    "shows_char i (34 # cs @ 34 # rest)" using peek_after_ws[OF 1(2)] strip_idem[OF r] 1(3) by metis
  obtain st4 where 3: "is_get io st3 = Inr (sint (34 :: u8), st4)" "ok st4" "left st4 = cs @ 34 # rest" using get_char[OF 2(3,4)] by blast
  have ne: "free_addrs s \<noteq> []" using a by auto
  obtain b s1 where 4: "malloc_aligned s = Inr (b, s1)" "grown s 1 s1" "heap s1 = heap s" "taken s1 b"
    using fresh_malloc[OF _ ne] a by (auto simp: taken_def grown_def)
  have len: "Suc (length cs) \<le> length (free_addrs s1)" using a grownD(3)[OF 4(2)] by auto
  have plain: "unescape False cs = cs" using assms by (simp add: unescape_plain)
  have pre: "34 \<notin> set cs" "length ([] :: u8 list) \<le> 8" "\<forall>m. length ([] @ unescape False cs) \<noteq> 8 * 2 ^ m" "(0 :: nat) < 8" using assms plain by auto
  obtain v st' s' k where 5: "readstr_loop io b 8 False [] st4 s1 = Some (Inr (Inr v, st', s'))" "ok st'" "left st' = rest" "k \<le> Suc (length cs)"
    "grown s1 k s'" "v AND HEAP_MASK = STRING_TAG" "text_at v STRING_TAG (new_part s1 s') = Inr ([] @ unescape False cs @ [0])"
    using readstr_loop_ok[OF 3(2,3) pre(1) 4(4) len pre(2-4)] by blast
  have "i = 34" using shows_eq[OF 2(5), of 34] by simp
  then have "readstr io st1 s = Some (Inr (Inr v, st', s'))"
    using 2(1,2) 3(1) 4(1) 5(1) by (simp add: readstr_def)
  from OKAY_IF_value[OF this] have "read1 io st s = Some (Inr (Inr v, st', s'))" unfolding 1(1) try_str_def by blast
  moreover have "rep (new_part s s') v (SStr cs)"
    using 5(6,7) plain assms new_part_heap[OF 4(3)] by (auto simp: stringp_def cstring_def)
  moreover have "grown s (1 + k) s'" by (rule grown_trans[OF 4(2) 5(5)])
  moreover have "1 + k \<le> addresses (SStr cs)" using 5(4) by simp
  ultimately show "\<exists>v st' s' k. read1 io st s = Some (Inr (Inr v, st', s')) \<and> ok st' \<and> left st' = rest \<and> k \<le> addresses (SStr cs) \<and> grown s k s' \<and> rep (new_part s s') v (SStr cs)"
    using 5(2,3) by blast
qed

text \<open>One round of \<open>readn\<close>.\<close>

lemma readn_round:
  assumes "reads a" "ok st" "strip (left st) = Some (show_sexp a @ rest)" "\<not> starts issym rest" "building s0 m s X vs es"
    "Suc (addresses a) \<le> length (free_addrs s)"
  shows "\<exists>st' s' x v k. reader io (Readn (head_of X) (tl_ref_of X)) st s = reader io (Readn (head_of (X @ [x])) (tl_ref_of (X @ [x]))) st' s' \<and> ok st' \<and> left st' = rest \<and>
    k \<le> Suc (addresses a) \<and> building s0 (m + k) s' (X @ [x]) (vs @ [v]) (es @ [a]) \<and> length (free_addrs s') + k = length (free_addrs s)"
proof -
  have wf: "wf_lisp s" using assms(5) by (simp add: building_def grown_def)
  have le: "addresses a \<le> length (free_addrs s)" using assms(6) by simp
  obtain v st' s1 k where r: "read1 io st s = Some (Inr (Inr v, st', s1))" "ok st'" "left st' = rest" "k \<le> addresses a" "grown s k s1" "rep (new_part s s1) v a"
    using readsD[OF assms(1-4) wf le] by blast
  have "free_addrs s1 \<noteq> []" using grownD(3)[OF r(5)] r(4) assms(6) by auto
  from building_step[OF assms(5) r(5,6) this] obtain x s2 s3 s4 where b: "lisp_cons v nil s1 = Inr (x, s2)"
    "assign_ref (tl_ref_of X) (head_of X) x s2 = Inr (head_of (X @ [x]), s3)"
    "set_cons_info x (word_of_int (fst (is_getpos io st'))) (Some (snd (is_getpos io st'))) s3 = Inr s4"
    "building s0 (m + k + 1) s4 (X @ [x]) (vs @ [v]) (es @ [a])" by blast
  have "reader io (Readn (head_of X) (tl_ref_of X)) st s = reader io (Readn (head_of (X @ [x])) (CdrRef x)) st' s4"
    using r(1) b(1-3) by (subst readn_eq) (simp add: readn_by_def)
  moreover have "tl_ref_of (X @ [x]) = CdrRef x" by (simp add: tl_ref_of_def)
  moreover have "building s0 (m + Suc k) s4 (X @ [x]) (vs @ [v]) (es @ [a])" using b(4) by simp
  moreover have "free_addrs s4 = drop (m + k + 1) (free_addrs s0)" "free_addrs s = drop m (free_addrs s0)"
    using b(4) assms(5) by (simp_all add: building_def grown_def)
  then have "length (free_addrs s4) + Suc k = length (free_addrs s)" using assms(6) r(4) by auto
  ultimately show ?thesis using r(2-4) by (metis Suc_le_mono)
qed

lemma reads_tail_SNil: "reads_tail SNil"
  unfolding reads_tail_def
proof (intro allI impI)
  fix st s rest s0 m X vs es
  assume a: "ok st \<and> left st = show_tail SNil @ 41 # rest \<and> building s0 m s X vs es \<and> addresses SNil \<le> length (free_addrs s)"
  have "strip (left st) = Some (41 # rest)" using a by (simp add: strip_start space_def)
  then obtain st' where "read1 io st s = Some (Inr (Inl (THROWSAFE EEXPECTED (NEARIS io st)), st', s))" "ok st'" "left st' = 41 # rest"
    using read1_none[of st "41 # rest" s] a by auto
  then show "\<exists>st' s' X' vs' k. reader io (Readn (head_of X) (tl_ref_of X)) st s = Some (Inr (Inr (head_of X'), st', s')) \<and> ok st' \<and> left st' = 41 # rest \<and>
        k \<le> addresses SNil \<and> building s0 (m + k) s' X' vs' (es @ elements SNil)"
    using a by (intro exI[of _ st'] exI[of _ s] exI[of _ X] exI[of _ vs] exI[of _ 0]) (subst readn_eq, simp add: readn_by_def)
qed

lemma reads_tail_SPair:
  assumes "readable a" "reads a" "reads_tail d"
  shows "reads_tail (SPair a d)"
  unfolding reads_tail_def
proof (intro allI impI)
  fix st s rest s0 m X vs es
  assume a: "ok st \<and> left st = show_tail (SPair a d) @ 41 # rest \<and> building s0 m s X vs es \<and> addresses (SPair a d) \<le> length (free_addrs s)"
  have ok1: "ok st" and b: "building s0 m s X vs es" and le: "Suc (addresses a) \<le> length (free_addrs s)" using a by auto
  have "strip (left st) = Some (show_sexp a @ show_tail d @ 41 # rest)" using a strip_show[OF assms(1)] by (simp add: strip_space space_def)
  from readn_round[OF assms(2) ok1 this tail_stops b le] obtain st' s' x v k where
    1: "reader io (Readn (head_of X) (tl_ref_of X)) st s = reader io (Readn (head_of (X @ [x])) (tl_ref_of (X @ [x]))) st' s'" "ok st'"
      "left st' = show_tail d @ 41 # rest" "k \<le> Suc (addresses a)" "building s0 (m + k) s' (X @ [x]) (vs @ [v]) (es @ [a])"
      "length (free_addrs s') + k = length (free_addrs s)" by blast
  have "addresses d \<le> length (free_addrs s')" using a 1(4,6) by auto
  with assms(3) 1(2,3,5) obtain st2 s2 X2 vs2 k2 where 2: "reader io (Readn (head_of (X @ [x])) (tl_ref_of (X @ [x]))) st' s' = Some (Inr (Inr (head_of X2), st2, s2))"
    "ok st2" "left st2 = 41 # rest" "k2 \<le> addresses d" "building s0 (m + k + k2) s2 X2 vs2 ((es @ [a]) @ elements d)"
    unfolding reads_tail_def by blast
  have "k + k2 \<le> addresses (SPair a d)" "building s0 (m + (k + k2)) s2 X2 vs2 (es @ elements (SPair a d))" using 1(4) 2(4,5) by (simp_all add: add.assoc)
  then show "\<exists>st' s' X' vs' k. reader io (Readn (head_of X) (tl_ref_of X)) st s = Some (Inr (Inr (head_of X'), st', s')) \<and> ok st' \<and> left st' = 41 # rest \<and>
        k \<le> addresses (SPair a d) \<and> building s0 (m + k) s' X' vs' (es @ elements (SPair a d))"
    using 1(1) 2(1-3) by metis
qed

end

context char_stream begin

lemma reads_SPair:
  assumes "readable a" "readable_tail d" "reads a" "reads_tail d"
  shows "reads (SPair a d)"
  unfolding reads_def
proof (intro allI impI)
  fix st s rest
  assume a: "ok st \<and> strip (left st) = Some (show_sexp (SPair a d) @ rest) \<and> \<not> starts issym rest \<and> wf_lisp s \<and> addresses (SPair a d) \<le> length (free_addrs s)"
  let ?body = "show_sexp a @ show_tail d @ 41 # rest"
  have r: "strip (left st) = Some (40 # ?body)" using a assms(2) by (simp add: readable_tail_proper)
  have no: "\<not> macro_char 40" "\<not> issymstart 40" "\<not> digit 40" by (simp_all add: macro_char_def issym_not digit_def)
  obtain st1 where 1: "read1 io st s = try_list (readn io) io (NEARIS io st) st1 s" "ok st1" "left st1 = 40 # ?body"
    using read1_try_list[of st "40 # ?body" s] a r no by auto
  obtain st2 i st3 where 2: "skipws io st1 = Some (Inr st2)" "is_peek io st2 = Inr (i, st3)" "ok st3" "left st3 = 40 # ?body"
    "shows_char i (40 # ?body)" using peek_after_ws[OF 1(2)] strip_idem[OF r] 1(3) by metis
  have i: "i = 40" using shows_eq[OF 2(5), of 40] by simp
  obtain st4 where 3: "is_get io st3 = Inr (sint (40 :: u8), st4)" "ok st4" "left st4 = ?body" using get_char[OF 2(3,4)] by blast
  have wf: "wf_lisp s" and len: "Suc (addresses a) \<le> length (free_addrs s)" using a by auto
  have strip4: "strip (left st4) = Some ?body" using 3(3) strip_show[OF assms(1)] by simp
  obtain st5 s5 x v k where 4: "reader io (Readn (head_of []) (tl_ref_of [])) st4 s = reader io (Readn (head_of ([] @ [x])) (tl_ref_of ([] @ [x]))) st5 s5" "ok st5"
    "left st5 = show_tail d @ 41 # rest" "k \<le> Suc (addresses a)" "building s (0 + k) s5 ([] @ [x]) ([] @ [v]) ([] @ [a])"
    "length (free_addrs s5) + k = length (free_addrs s)"
    using readn_round[OF assms(3) 3(2) strip4 tail_stops building_start[OF wf] len] by blast
  have "addresses d \<le> length (free_addrs s5)" using a 4(4,6) by auto
  with assms(4) 4(2,3,5) obtain st6 s6 X vs k2 where 5: "reader io (Readn (head_of ([] @ [x])) (tl_ref_of ([] @ [x]))) st5 s5 = Some (Inr (Inr (head_of X), st6, s6))"
    "ok st6" "left st6 = 41 # rest" "k2 \<le> addresses d" "building s (0 + k + k2) s6 X vs (([] @ [a]) @ elements d)" unfolding reads_tail_def by blast
  have n: "readn io st4 s = Some (Inr (Inr (head_of X), st6, s6))" using 4(1) 5(1) by (simp add: readn_def head_of_def tl_ref_of_def)
  have "strip (left st6) = Some (41 # rest)" using 5(3) by (simp add: strip_start space_def)
  from peek_after_ws[OF 5(2) this] obtain st7 j st8 where 6: "skipws io st6 = Some (Inr st7)" "is_peek io st7 = Inr (j, st8)" "ok st8" "left st8 = 41 # rest"
    "shows_char j (41 # rest)" by blast
  have j: "j = 41" using shows_eq[OF 6(5), of 41] by simp
  obtain st9 where 7: "is_get io st8 = Inr (sint (41 :: u8), st9)" "ok st9" "left st9 = rest" using get_char[OF 6(3,4)] by blast
  have "readlist_by (readn io) io st1 s = Some (Inr (Inr (head_of X), st9, s6))"
    using 2(1,2) 3(1) n 6(1,2) 7(1) i j by (simp add: readlist_by_def)
  from OKAY_IF_value[OF this] have run: "read1 io st s = Some (Inr (Inr (head_of X), st9, s6))" unfolding 1(1) try_list_def by blast
  have "foldr SPair ([a] @ elements d) SNil = SPair a d" using elements_foldr[OF assms(2)] by simp
  then have rep: "rep (new_part s s6) (head_of X) (SPair a d)" using building_rep[OF 5(5)] by simp
  have "grown s (k + k2) s6" "k + k2 \<le> addresses (SPair a d)" using 5(4,5) 4(4) by (simp_all add: building_def)
  then show "\<exists>v st' s' k. read1 io st s = Some (Inr (Inr v, st', s')) \<and> ok st' \<and> left st' = rest \<and> k \<le> addresses (SPair a d) \<and> grown s k s' \<and> rep (new_part s s') v (SPair a d)"
    using run rep 7(2,3) by blast
qed

lemma reads_all: "(readable e \<longrightarrow> reads e) \<and> (readable_tail e \<longrightarrow> reads_tail e)"
  by (induction e) (auto simp: reads_SInt reads_SSym reads_SStr reads_SPair reads_tail_SPair reads_tail_SNil)

lemma read1_show:
  assumes "readable e" "ok st" "strip (left st) = Some (show_sexp e @ rest)" "\<not> starts issym rest" "wf_lisp s" "addresses e \<le> length (free_addrs s)"
  shows "\<exists>v st' s' k. read1 io st s = Some (Inr (Inr v, st', s')) \<and> ok st' \<and> left st' = rest \<and> k \<le> addresses e \<and> grown s k s' \<and> rep s' v e"
proof -
  have "reads e" using reads_all assms(1) by blast
  from readsD[OF this assms(2-6)] obtain v st' s' k where
    "read1 io st s = Some (Inr (Inr v, st', s'))" "ok st'" "left st' = rest" "k \<le> addresses e" "grown s k s'" "rep (new_part s s') v e" by blast
  then show ?thesis using rep_keeps[OF _ keeps_within_all] unfolding new_part_def by blast
qed

text \<open>A string literal that fills the buffer exactly, when its end comes, is one byte too long.\<close>

lemma readstr_loop_overflow:
  assumes "ok st" "left st = cs @ 34 # rest" "34 \<notin> set cs" "92 \<notin> set cs" "taken s a" "length cs \<le> length (free_addrs s)"
    and "length buf \<le> cap" "length (buf @ cs) = cap * 2 ^ m" "0 < cap"
  shows "readstr_loop io a cap False buf st s = Some (Inl OutOfBounds)"
  using assms
proof (induction cs arbitrary: st s a cap buf m)
  case Nil
  obtain i st1 where 2: "is_peek io st = Inr (i, st1)" "shows_char i (34 # rest)" using peek_ok[OF Nil.prems(1)] Nil.prems(2) by auto
  have "i = 34" using shows_eq[OF 2(2), of 34] by simp
  moreover have "cap \<le> length buf"
  proof -
    have "1 \<le> (2 :: nat) ^ m" by simp
    then have "cap * 1 \<le> cap * 2 ^ m" by (rule mult_le_mono2)
    then show ?thesis using Nil.prems(8) by simp
  qed
  ultimately show ?case using 2(1) by (subst readstr_loop.simps) simp
next
  case (Cons c cs)
  have c: "c \<noteq> 34" "c \<noteq> 92" "34 \<notin> set cs" "92 \<notin> set cs" using Cons.prems(3,4) by auto
  have ne: "free_addrs s \<noteq> []" using Cons.prems(6) by auto
  obtain i st1 where 2: "is_peek io st = Inr (i, st1)" "ok st1" "left st1 = c # cs @ 34 # rest" "shows_char i (c # cs @ 34 # rest)"
    using peek_ok[OF Cons.prems(1)] Cons.prems(2) by auto
  have i: "i \<noteq> 34" using shows_eq[OF 2(4), of 34] c(1) by simp
  let ?cap = "if cap \<le> length buf then 2 * cap else cap"
  obtain a1 s1 k where 1: "realloc_aligned a (length buf) cap s = Inr (a1, ?cap, s1)" "k \<le> 1" "grown s k s1" "heap s1 = heap s" "taken s1 a1"
    using realloc_ok[OF Cons.prems(5) ne] by blast
  obtain st2 where 3: "is_get io st1 = Inr (sint c, st2)" "ok st2" "left st2 = cs @ 34 # rest" using get_char[OF 2(2,3)] by blast
  have len: "length cs \<le> length (free_addrs s1)" using Cons.prems(6) 1(2) free_addrs_grown[OF 1(3)] by simp
  have "\<exists>m'. length ((buf @ [c]) @ cs) = ?cap * 2 ^ m'"
  proof (cases "cap \<le> length buf")
    case True
    then have "m \<noteq> 0" using Cons.prems(7,8) by (cases m) auto
    then obtain m' where "m = Suc m'" by (cases m) auto
    then show ?thesis using True Cons.prems(8) by (intro exI[of _ m']) simp
  qed (use Cons.prems(8) in \<open>auto\<close>)
  then obtain m' where m': "length ((buf @ [c]) @ cs) = ?cap * 2 ^ m'" by blast
  have lim: "length (buf @ [c]) \<le> ?cap" "0 < ?cap" using Cons.prems(7,9) by auto
  have "readstr_loop io a cap False buf st s = readstr_loop io a1 ?cap False (buf @ [c]) st2 s1"
    using 1(1) 2(1) 3(1) i c(2) by (subst readstr_loop.simps) (simp add: to_char_def Let_def)
  then show ?case using Cons.IH[OF 3(2,3) c(3,4) 1(5) len lim(1) m' lim(2)] by simp
qed

lemma readstr_overflow:
  assumes "ok st" "strip (left st) = Some (34 # cs @ 34 # rest)" "34 \<notin> set cs" "92 \<notin> set cs" "length cs = 8 * 2 ^ m" "wf_lisp s" "Suc (length cs) \<le> length (free_addrs s)"
  shows "readstr io st s = Some (Inl OutOfBounds)"
proof -
  obtain st2 i st3 where 2: "skipws io st = Some (Inr st2)" "is_peek io st2 = Inr (i, st3)" "ok st3" "left st3 = 34 # cs @ 34 # rest"
    "shows_char i (34 # cs @ 34 # rest)" using peek_after_ws[OF assms(1,2)] by blast
  have i: "i = 34" using shows_eq[OF 2(5), of 34] by simp
  obtain st4 where 3: "is_get io st3 = Inr (sint (34 :: u8), st4)" "ok st4" "left st4 = cs @ 34 # rest" using get_char[OF 2(3,4)] by blast
  have ne: "free_addrs s \<noteq> []" using assms(7) by auto
  obtain b s1 where 4: "malloc_aligned s = Inr (b, s1)" "grown s 1 s1" "heap s1 = heap s" "taken s1 b"
    using fresh_malloc[OF assms(6) ne] by (auto simp: taken_def grown_def)
  have len: "length cs \<le> length (free_addrs s1)" using assms(7) grownD(3)[OF 4(2)] by simp
  have "readstr_loop io b 8 False [] st4 s1 = Some (Inl OutOfBounds)"
    using readstr_loop_overflow[OF 3(2,3) assms(3,4) 4(4) len, of "[]" 8 m] assms(5) by simp
  then show ?thesis using 2(1,2) 3(1) 4(1) i by (simp add: readstr_def)
qed

end

section \<open>The printer\<close>

text \<open>
  \<open>printval_ol\<close> calls itself for the parts of a value: its loops over a list and over the
  members of an object are the other two calls. The result is what is printed; \<open>ptr\<close> is how
  the C library prints a pointer.
\<close>

datatype pr_call = PrVal value_t | PrTail value_t | PrMembers "value_t list"

definition c_text :: "u8 list \<Rightarrow> u8 list res" where
  "c_text b = res_bind (strlen b) (\<lambda>n. Inr (take n b))"

partial_function (option) printer :: "(u32 \<Rightarrow> u8 list) \<Rightarrow> pr_call \<Rightarrow> lisp \<Rightarrow> u8 list res option" where
  "printer ptr call s =
     (case call of
        PrVal v \<Rightarrow>
          if symbolp v then Some (res_bind (text_at v SYMBOL_TAG s) c_text)
          else if stringp v then
            Some (res_bind (text_at v STRING_TAG s) (\<lambda>b. res_bind (c_text b) (\<lambda>p. Inr (34 # p @ [34]))))
          else if integerp v then Some (Inr (dec_int (sint (drop_bit 2 v))))
          else if consp v then
            run_bind (listp v s) (\<lambda>l.
            run_bind (Some (car v s)) (\<lambda>a.
            run_bind (Some (cdr v s)) (\<lambda>d.
            run_bind (printer ptr (PrVal a) s) (\<lambda>p.
            if l then run_bind (printer ptr (PrTail d) s) (\<lambda>q. Some (Inr (40 # p @ q @ [41])))
            else run_bind (printer ptr (PrVal d) s) (\<lambda>q. Some (Inr (40 # p @ [32, 46, 32] @ q @ [41])))))))
          else if nilp v then Some (Inr (bytes_of_string ''nil''))
          else if closurep v then
            Some (res_bind (closure_at v s) (\<lambda>c.
              Inr (bytes_of_string ''<closure '' @ ptr (cl_function c) @ bytes_of_string '' ('' @ dec_int (sint (num_required (cl_args c))) @
                bytes_of_string '') '' @ dec_nat (length (cl_data c)) @ [62])))
          else if classp v then
            run_bind (Some (class_at v s)) (\<lambda>c.
            run_bind (Some (res_bind (text_at (cs_type c) SYMBOL_TAG s) c_text)) (\<lambda>p.
            run_bind (printer ptr (PrMembers (cs_members c)) s) (\<lambda>q.
            Some (Inr (bytes_of_string ''<class '' @ p @ q @ [62])))))
          else Some (Inr (bytes_of_string ''<unknown '' @ dec_int (sint v) @ [62]))
      | PrTail n \<Rightarrow>
          if nilp n then Some (Inr [])
          else
            run_bind (Some (car n s)) (\<lambda>a.
            run_bind (printer ptr (PrVal a) s) (\<lambda>p.
            run_bind (Some (cdr n s)) (\<lambda>d.
            run_bind (printer ptr (PrTail d) s) (\<lambda>q. Some (Inr (32 # p @ q))))))
      | PrMembers ms \<Rightarrow>
          (case ms of
             [] \<Rightarrow> Some (Inr [])
           | m # r \<Rightarrow>
               run_bind (printer ptr (PrVal m) s) (\<lambda>p.
               run_bind (printer ptr (PrMembers r) s) (\<lambda>q. Some (Inr (32 # p @ q))))))"

definition printval_ol :: "(u32 \<Rightarrow> u8 list) \<Rightarrow> value_t \<Rightarrow> lisp \<Rightarrow> u8 list res option" where
  "printval_ol ptr v s = printer ptr (PrVal v) s"

definition printval :: "(u32 \<Rightarrow> u8 list) \<Rightarrow> value_t \<Rightarrow> lisp \<Rightarrow> u8 list res option" where
  "printval ptr v s = run_bind (printval_ol ptr v s) (\<lambda>p. Some (Inr (p @ [10])))"

lemma c_text_cstring: "cstring b cs \<Longrightarrow> c_text b = Inr cs"
  using strlen_cstring by (auto simp: c_text_def cstring_def)

lemma rep_proper: "rep s v e \<Longrightarrow> listp v s = Some (Inr (proper e))"
proof (induction e arbitrary: v)
  case (SInt n)
  then show ?case using integerp_other[OF intval_integerp, of "of_nat n"] by (simp add: listp_False)
next
  case (SSym cs)
  then show ?case using consp_other[of v] by (subst listp.simps) (auto simp: nilp_def)
next
  case (SStr cs)
  then show ?case using consp_other[of v] by (subst listp.simps) (auto simp: nilp_def)
next
  case SNil
  then show ?case by (subst listp.simps) simp
next
  case (SPair a d)
  then obtain c where "consp v" "cons_at v s = Inr c" "rep s (c_cdr c) d" by auto
  then show ?case using listp_cons[of v s "c_cdr c"] SPair.IH(2) by (simp add: cdr_def)
qed

lemma rep_nilp: "rep s v e \<Longrightarrow> nilp v \<longleftrightarrow> e = SNil"
  by (cases e) (auto simp: consp_other nilp_def integerp_other(6)[OF intval_integerp])

lemma number_shown: "n < 2 ^ 30 \<Longrightarrow> dec_int (sint (drop_bit 2 (intval (of_nat n)))) = dec_nat n"
proof -
  assume n: "n < 2 ^ 30"
  then have u: "unat (of_nat n :: u32) = n" by (simp add: unat_of_nat)
  have "sint (of_nat n :: u32) = int n" using sint_eq_unat[of "of_nat n"] u n by simp
  moreover have "drop_bit 2 (intval (of_nat n)) = of_nat n" using intval_shift[of "of_nat n"] u n by simp
  ultimately show ?thesis by (simp add: dec_int_def)
qed

lemma printed: "rep s v e \<Longrightarrow> printer ptr (PrVal v) s = Some (Inr (show_sexp e)) \<and> (proper e \<longrightarrow> printer ptr (PrTail v) s = Some (Inr (show_tail e)))"
proof (induction e arbitrary: v)
  case (SInt n)
  have "\<not> symbolp v" "\<not> stringp v" "integerp v" using SInt integerp_other[OF intval_integerp] by auto
  then show ?case using SInt number_shown[of n] by (subst printer.simps) simp
next
  case (SSym cs)
  then show ?case by (subst printer.simps) (auto simp: c_text_cstring)
next
  case (SStr cs)
  have "\<not> symbolp v" using SStr by (auto simp: predicate_defs tag_defs)
  then show ?case using SStr by (subst printer.simps) (auto simp: c_text_cstring)
next
  case SNil
  have "bytes_of_string ''nil'' = [110, 105, 108]" by code_simp
  then show ?case using SNil by (subst (1 2) printer.simps) simp
next
  case (SPair a d)
  then obtain c where c: "consp v" "cons_at v s = Inr c" "rep s (c_car c) a" "rep s (c_cdr c) d" by auto
  have ad: "car v s = Inr (c_car c)" "cdr v s = Inr (c_cdr c)" using c by (simp_all add: car_def cdr_def)
  have l: "listp v s = Some (Inr (proper d))" using rep_proper[OF SPair.prems] by simp
  have "\<not> symbolp v" "\<not> stringp v" "\<not> integerp v" "\<not> nilp v" using c(1) consp_other[of v] not_integerp[of v] by auto
  then show ?case using SPair.IH(1)[OF c(3)] SPair.IH(2)[OF c(4)] c(1) ad l by (subst (1 2) printer.simps) simp
qed

lemma printval_ol_show: "rep s v e \<Longrightarrow> printval_ol ptr v s = Some (Inr (show_sexp e))"
  using printed[of s v e ptr] by (simp add: printval_ol_def)

section \<open>Text that is printed\<close>

lemma digit_not_zero: "digit c \<Longrightarrow> c \<noteq> 0"
  by (auto simp: digit_def)

lemma show_no_zero: "(readable e \<longrightarrow> 0 \<notin> set (show_sexp e)) \<and> (readable_tail e \<longrightarrow> 0 \<notin> set (show_tail e))"
proof (induction e)
  case (SInt n)
  then show ?case using dec_nat_digits[of n] digit_not_zero by auto
next
  case (SSym cs)
  then show ?case using issym_zero by auto
qed (auto simp: readable_tail_proper)

lemma new_stristream_nt_ok:
  assumes "0 \<notin> set p" "length p < 2 ^ 31"
  shows "\<exists>st. new_stristream_nt (p @ [0]) = Inr st \<and> str_ok st \<and> str_left st = p"
proof -
  have n: "strlen (p @ [0]) = Inr (length p)" using strlen_cstring[of "p @ [0]" p] assms(1) by (simp add: cstring_def)
  have len: "nat (int (length p) mod 2 ^ 32) = length p" using assms(2) by simp
  have "takeWhile (\<lambda>c. c \<noteq> 0) p = p" using assms(1) by (auto simp: takeWhile_eq_all_conv)
  then have "strndup (p @ [0]) (length p) = Inr (p @ [0])" by (simp add: strndup_def Let_def)
  then have "new_stristream_nt (p @ [0]) = Inr \<lparr>ss_val = p @ [0], ss_i = 0, ss_length = int (length p), ss_line = 1, ss_fromleft = 1, ss_linestart = 0\<rparr>"
    using n len by (simp add: new_stristream_nt_def new_stristream_def)
  then show ?thesis by (auto simp: str_ok_def str_left_def)
qed

section \<open>Properties\<close>

text \<open>
  C2. What \<open>printval_ol\<close> prints of a readable expression, \<open>read1\<close> reads back from a stream on it:
  a value of the same expression, with nothing left of the text and the old objects as
  they were.
\<close>

theorem print_read_back:
  assumes "rep s v e" "readable e" "wf_lisp s" "addresses e \<le> length (free_addrs s)" "length (show_sexp e) < 2 ^ 31"
  shows "\<exists>p st w st' s'. printval_ol ptr v s = Some (Inr p) \<and> new_stristream_nt (p @ [0]) = Inr st \<and> read1 str_io st s = Some (Inr (Inr w, st', s')) \<and>
    rep s' w e \<and> rep s' v e \<and> wf_lisp s' \<and> str_left st' = []"
proof -
  let ?p = "show_sexp e"
  have "0 \<notin> set ?p" using show_no_zero assms(2) by blast
  then obtain st where st: "new_stristream_nt (?p @ [0]) = Inr st" "str_ok st" "str_left st = ?p" using new_stristream_nt_ok assms(5) by blast
  have "strip (str_left st) = Some (?p @ [])" using strip_show[OF assms(2), of "[]"] st(3) by simp
  then obtain w st' s' k where w: "read1 str_io st s = Some (Inr (Inr w, st', s'))" "str_left st' = []" "grown s k s'" "rep s' w e"
    using str_stream.read1_show[OF assms(2) st(2) _ _ assms(3,4)] by (metis starts_simps(1))
  show ?thesis
    using printval_ol_show[OF assms(1), of ptr] st(1) w rep_keeps[OF assms(1) grownD(2)[OF w(3)]] grownD(1)[OF w(3)] by blast
qed

definition sample_sexp :: sexp where
  "sample_sexp = SPair (SSym [97, 45]) (SPair (SPair (SInt 42) (SPair (SStr [40, 59]) SNil)) SNil)"

lemma print_read_back_witness:
  "\<exists>v s p st w st' s'. rep s v sample_sexp \<and> printval_ol (\<lambda>_. []) v s = Some (Inr p) \<and> new_stristream_nt (p @ [0]) = Inr st \<and>
     read1 str_io st s = Some (Inr (Inr w, st', s')) \<and> rep s' w sample_sexp"
proof -
  have sym: "issymstart 97" "issym 97" "issym 45" by code_simp+
  have pow: "Suc (Suc 0) \<noteq> 8 * 2 ^ m" for m
  proof -
    have "1 \<le> (2 :: nat) ^ m" by simp
    then show ?thesis by linarith
  qed
  have r: "readable sample_sexp" using sym pow by (simp add: sample_sexp_def)
  have 42: "dec_nat 42 = [52, 50]" by (simp add: dec_nat.simps)
  have len: "length (show_sexp sample_sexp) < 2 ^ 31" by (simp add: sample_sexp_def 42)
  have ad: "addresses sample_sexp = 11" by (simp add: sample_sexp_def)
  have "0 \<notin> set (show_sexp sample_sexp)" using show_no_zero r by blast
  then obtain st where st: "str_ok st" "str_left st = show_sexp sample_sexp" using new_stristream_nt_ok len by blast
  have "strip (str_left st) = Some (show_sexp sample_sexp @ [])" using strip_show[OF r, of "[]"] st(2) by simp
  moreover have "addresses sample_sexp \<le> length (free_addrs (lisp_start 64))" unfolding ad lisp_start_64(2) by simp
  ultimately obtain v s k where s: "grown (lisp_start 64) k s" "rep s v sample_sexp" "k \<le> 11"
    using str_stream.read1_show[OF r st(1) _ _ lisp_start_64(1)] ad by (metis starts_simps(1))
  have "length (free_addrs s) = 64 - k" using grownD(3)[OF s(1)] lisp_start_64(2) by simp
  then have "addresses sample_sexp \<le> length (free_addrs s)" using ad s(3) by simp
  from print_read_back[OF s(2) r grownD(1)[OF s(1)] this len, of "\<lambda>_. []"] show ?thesis using s(2) by blast
qed

text \<open>
  C4. On both kinds of streams \<open>skipws\<close> skips what the reference function \<open>strip\<close> strips: blanks and
  the comments up to their line feeds. A comment that the end of the input cuts off is skipped
  for ever.
\<close>

theorem skipws_is_strip:
  "(str_ok st \<longrightarrow> (case strip (str_left st) of None \<Rightarrow> skipws str_io st = None
      | Some r \<Rightarrow> \<exists>st'. skipws str_io st = Some (Inr st') \<and> str_ok st' \<and> str_left st' = r)) \<and>
   (file_ok ft \<longrightarrow> (case strip (file_left ft) of None \<Rightarrow> skipws file_io ft = None
      | Some r \<Rightarrow> \<exists>ft'. skipws file_io ft = Some (Inr ft') \<and> file_ok ft' \<and> file_left ft' = r))"
  using str_stream.skipws_ok[of st] file_stream.skipws_ok[of ft] by blast

definition comment_stream :: stristream where
  "comment_stream = \<lparr>ss_val = [32, 59, 97, 0], ss_i = 0, ss_length = 3, ss_line = 1, ss_fromleft = 1, ss_linestart = 0\<rparr>"

lemma skipws_is_strip_witness: "str_ok comment_stream \<and> skipws str_io comment_stream = None"
proof -
  have "str_ok comment_stream" by (simp add: str_ok_def comment_stream_def)
  moreover have "str_left comment_stream = [32, 59, 97]" by (simp add: str_left_def comment_stream_def)
  moreover have "strip [32, 59, 97] = None" by (subst strip.simps) (simp add: Let_def space_def)
  ultimately show ?thesis using skipws_is_strip[of comment_stream] by simp
qed

text \<open>
  C7. A string literal of \<open>8 * 2 ^ m\<close> plain characters fills the buffer when its end comes, and the
  zero byte is written behind the buffer.
\<close>

theorem readstr_full_buffer_overflows:
  assumes "str_ok st" "str_left st = 34 # cs @ 34 # rest" "34 \<notin> set cs" "92 \<notin> set cs" "length cs = 8 * 2 ^ m" "wf_lisp s" "Suc (length cs) \<le> length (free_addrs s)"
  shows "readstr str_io st s = Some (Inl OutOfBounds)"
proof -
  have "strip (str_left st) = Some (34 # cs @ 34 # rest)" using assms(2) by (simp add: strip_start space_def)
  from str_stream.readstr_overflow[OF assms(1) this assms(3-7)] show ?thesis .
qed

lemma readstr_full_buffer_overflows_witness:
  "\<exists>st. str_left st = 34 # replicate 8 97 @ 34 # [] \<and> readstr str_io st (lisp_start 64) = Some (Inl OutOfBounds)"
proof -
  let ?p = "34 # replicate 8 97 @ 34 # [] :: u8 list"
  have "0 \<notin> set ?p" "length ?p < 2 ^ 31" by simp_all
  then obtain st where st: "str_ok st" "str_left st = ?p" using new_stristream_nt_ok by blast
  have "34 \<notin> set (replicate 8 (97 :: u8))" "92 \<notin> set (replicate 8 (97 :: u8))" "length (replicate 8 (97 :: u8)) = 8 * 2 ^ 0" by simp_all
  moreover have "Suc (length (replicate 8 (97 :: u8))) \<le> length (free_addrs (lisp_start 64))" unfolding lisp_start_64(2) by simp
  ultimately have "readstr str_io st (lisp_start 64) = Some (Inl OutOfBounds)"
    by (rule readstr_full_buffer_overflows[OF st _ _ _ lisp_start_64(1)])
  then show ?thesis using st(2) by blast
qed

end
