(* ===== verification/Lisp_GC.thy ===== *)
theory Lisp_GC
  imports Lisp_Values
begin

text \<open>
  The garbage collector (\<^verbatim>\<open>src/lisp/gc.c\<close>, \<^verbatim>\<open>src/lisp/gc.h\<close>): marking, the sweep over the list of
  all objects, and the walk over the machine stack that finds the roots.
\<close>

section \<open>Marking\<close>

text \<open>The header of a heap value.\<close>

definition obj_of :: "value_t \<Rightarrow> u32" where
  "obj_of v = (v AND NOT HEAP_MASK) - ALLOC_SIZE"

text \<open>The values that an object holds, by the tag in its header.\<close>

definition children :: "alloc \<Rightarrow> value_t list res" where
  "children al =
     (if a_tag al = CONS_TAG then (case a_body al of ConsBody c \<Rightarrow> Inr [c_car c, c_cdr c] | _ \<Rightarrow> Inl OutOfBounds)
      else if a_tag al = CLOSURE_TAG then (case a_body al of ClosureBody c \<Rightarrow> Inr (cl_data c) | _ \<Rightarrow> Inl OutOfBounds)
      else if a_tag al = CLASS_TAG then (case a_body al of ClassBody c \<Rightarrow> Inr (cs_members c) | _ \<Rightarrow> Inl OutOfBounds)
      else Inr [])"

text \<open>
  \<open>_mark\<close> of one value after the other. The values that a call still has to mark when it calls
  itself are behind those of the inner call. The mark of a header has 24 bits, \<open>gc_mark\<close> has 32.
\<close>

partial_function (option) mark_all :: "u32 \<Rightarrow> value_t list \<Rightarrow> lisp \<Rightarrow> u32 \<Rightarrow> (lisp \<times> u32) res option" where
  "mark_all gc_mark vs s marked =
     (case vs of
        [] \<Rightarrow> Some (Inr (s, marked))
      | v # rest \<Rightarrow>
          if heapp v then
            (case heap s (obj_of v) of
               None \<Rightarrow> Some (Inl OutOfBounds)
             | Some al \<Rightarrow>
                 if ucast (a_mark al) \<noteq> gc_mark then
                   run_bind (Some (children al)) (\<lambda>cs.
                   mark_all gc_mark (cs @ rest) (s\<lparr>heap := (heap s)(obj_of v \<mapsto> al\<lparr>a_mark := ucast gc_mark\<rparr>)\<rparr>) (marked + 1))
                 else mark_all gc_mark rest s marked)
          else mark_all gc_mark rest s marked)"

definition mark :: "u32 \<Rightarrow> value_t \<Rightarrow> lisp \<Rightarrow> u32 \<Rightarrow> (lisp \<times> u32) res option" where
  "mark gc_mark v s marked = mark_all gc_mark [v] s marked"

definition alloc_to_value :: "u32 \<Rightarrow> lisp \<Rightarrow> value_t res" where
  "alloc_to_value a s = (case heap s a of None \<Rightarrow> Inl OutOfBounds | Some al \<Rightarrow> Inr ((a + ALLOC_SIZE) OR a_tag al))"

section \<open>Sweeping\<close>

definition put_next :: "u32 \<Rightarrow> u32 \<Rightarrow> lisp \<Rightarrow> lisp res" where
  "put_next p n s =
     (if p = 0 then Inr s
      else case heap s p of None \<Rightarrow> Inl OutOfBounds | Some al \<Rightarrow> Inr (s\<lparr>heap := (heap s)(p \<mapsto> al\<lparr>a_next := n\<rparr>)\<rparr>))"

definition put_prev :: "u32 \<Rightarrow> u32 \<Rightarrow> lisp \<Rightarrow> lisp res" where
  "put_prev n p s =
     (if n = 0 then Inr s
      else case heap s n of None \<Rightarrow> Inl OutOfBounds | Some al \<Rightarrow> Inr (s\<lparr>heap := (heap s)(n \<mapsto> al\<lparr>a_prev := p\<rparr>)\<rparr>))"

definition del_alloc :: "u32 \<Rightarrow> lisp \<Rightarrow> lisp" where
  "del_alloc a s = s\<lparr>heap := (heap s)(a := None)\<rparr>"

text \<open>The comparisons are with the next object, since \<open>a\<close> is already the next one there.\<close>

definition unlink_alloc :: "u32 \<Rightarrow> alloc \<Rightarrow> lisp \<Rightarrow> lisp res" where
  "unlink_alloc a al s =
     (let p = a_prev al; n = a_next al;
          s1 = del_alloc a s;
          s2 = (if n = first_a s1 then s1\<lparr>first_a := n\<rparr> else s1);
          s3 = (if n = last_a s2 then s2\<lparr>last_a := p\<rparr> else s2) in
      res_bind (put_next p n s3) (put_prev n p))"

partial_function (option) sweep_from :: "u32 \<Rightarrow> u32 \<Rightarrow> lisp \<Rightarrow> lisp res option" where
  "sweep_from gc_mark a s =
     (if a = 0 then Some (Inr s)
      else
        case heap s a of
          None \<Rightarrow> Some (Inl OutOfBounds)
        | Some al \<Rightarrow>
            if pool_alive (a_pool al) \<or> ucast (a_mark al) = gc_mark then sweep_from gc_mark (a_next al) s
            else run_bind (Some (unlink_alloc a al s)) (\<lambda>s1. sweep_from gc_mark (a_next al) s1))"

definition sweep :: "u32 \<Rightarrow> lisp \<Rightarrow> lisp res option" where
  "sweep gc_mark s = sweep_from gc_mark (first_a s) s"

partial_function (option) count_allocs :: "u32 \<Rightarrow> lisp \<Rightarrow> u32 \<Rightarrow> u32 res option" where
  "count_allocs a s n =
     (if a = 0 then Some (Inr n)
      else case heap s a of None \<Rightarrow> Some (Inl OutOfBounds) | Some al \<Rightarrow> count_allocs (a_next al) s (n + 1))"

partial_function (option) free_from :: "u32 \<Rightarrow> lisp \<Rightarrow> lisp res option" where
  "free_from a s =
     (if a = 0 then Some (Inr s)
      else case heap s a of None \<Rightarrow> Some (Inl OutOfBounds) | Some al \<Rightarrow> free_from (a_next al) (del_alloc a s))"

definition free_all :: "lisp \<Rightarrow> lisp res option" where
  "free_all s = free_from (first_a s) s"

section \<open>The stack\<close>

text \<open>A segment of the stack that a C function calls Lisp from; what is not set yet is what \<open>malloc\<close> left there.\<close>

record gc_segment =
  seg_start :: u32
  seg_end :: u32
  seg_nargs :: u32
  old_ebp :: u32
  retained :: "value_t list"

text \<open>\<open>segments\<close> is the chain from \<open>gc_last_segment\<close> along \<open>prev\<close>; \<open>unsigned long\<close> has 32 bits.\<close>

record gc =
  lisp_of :: lisp
  gc_base :: u32
  segments :: "gc_segment list"
  gc_mark :: u32
  gc_runs :: u32

text \<open>The registers of the caller are parameters: \<open>ebp\<close> points to the saved frame pointer of the caller.\<close>

definition gc_set_base_here :: "u32 \<Rightarrow> gc \<Rightarrow> gc" where
  "gc_set_base_here esp g = g\<lparr>gc_base := esp\<rparr>"

definition gc_push_segment :: "gc_segment \<Rightarrow> u32 \<Rightarrow> u32 \<Rightarrow> nat \<Rightarrow> gc \<Rightarrow> gc" where
  "gc_push_segment junk saved_ebp last_arg_addr nretained g =
     g\<lparr>segments := junk\<lparr>seg_start := (if last_arg_addr \<noteq> 0 then last_arg_addr + 4 else 0), retained := take nretained (retained junk),
         old_ebp := saved_ebp\<rparr> # segments g\<rparr>"

definition gc_pop_segment :: "gc \<Rightarrow> gc res" where
  "gc_pop_segment g = (case segments g of [] \<Rightarrow> Inl NullDeref | _ # r \<Rightarrow> Inr (g\<lparr>segments := r\<rparr>))"

definition gc_prepare_call :: "u32 \<Rightarrow> u32 \<Rightarrow> gc \<Rightarrow> gc res" where
  "gc_prepare_call esp nargs g =
     (case segments g of
        [] \<Rightarrow> Inl NullDeref
      | seg # r \<Rightarrow> Inr (g\<lparr>segments := seg\<lparr>seg_nargs := nargs, seg_end := esp + 4 + 4 * nargs\<rparr> # r\<rparr>))"

definition gc_set_retained :: "int \<Rightarrow> value_t \<Rightarrow> gc \<Rightarrow> gc res" where
  "gc_set_retained index v g =
     (case segments g of
        [] \<Rightarrow> Inl NullDeref
      | seg # r \<Rightarrow> res_bind (arr_set (retained seg) index v) (\<lambda>vs. Inr (g\<lparr>segments := seg\<lparr>retained := vs\<rparr> # r\<rparr>)))"

text \<open>The words of the stack; an address without one is outside of it.\<close>

definition stack_at :: "(u32 \<rightharpoonup> u32) \<Rightarrow> u32 \<Rightarrow> u32 res" where
  "stack_at stack p = (case stack p of None \<Rightarrow> Inl OutOfBounds | Some w \<Rightarrow> Inr w)"

partial_function (option) walk_frame :: "(u32 \<rightharpoonup> u32) \<Rightarrow> u32 \<Rightarrow> u32 \<Rightarrow> u32 \<Rightarrow> u32 \<Rightarrow> lisp \<Rightarrow> u32 \<Rightarrow> (u32 \<times> lisp \<times> u32) res option" where
  "walk_frame stack base gm esp ebp s n =
     (if esp < ebp \<and> esp < base then
        run_bind (Some (stack_at stack esp)) (\<lambda>v.
        run_bind (mark gm v s n) (\<lambda>(s1, n1). walk_frame stack base gm (esp + 4) ebp s1 n1))
      else Some (Inr (esp, s, n)))"

partial_function (option) walk_frames :: "(u32 \<rightharpoonup> u32) \<Rightarrow> u32 \<Rightarrow> u32 \<Rightarrow> u32 \<Rightarrow> u32 \<Rightarrow> u32 \<Rightarrow> lisp \<Rightarrow> u32 \<Rightarrow> (lisp \<times> u32) res option" where
  "walk_frames stack base gm stop esp ebp s n =
     (if esp < stop then
        run_bind (walk_frame stack base gm esp ebp s n) (\<lambda>(esp1, s1, n1).
        run_bind (Some (stack_at stack esp1)) (\<lambda>ebp1. walk_frames stack base gm stop (esp1 + 8) ebp1 s1 n1))
      else Some (Inr (s, n)))"

text \<open>The arguments from \<open>a\<close> on.\<close>

fun mark_args :: "(u32 \<rightharpoonup> u32) \<Rightarrow> u32 \<Rightarrow> u32 \<Rightarrow> nat \<Rightarrow> lisp \<Rightarrow> u32 \<Rightarrow> (lisp \<times> u32) res option" where
  "mark_args stack gm a 0 s n = Some (Inr (s, n))"
| "mark_args stack gm a (Suc k) s n =
     run_bind (Some (stack_at stack a)) (\<lambda>v. run_bind (mark gm v s n) (\<lambda>(s1, n1). mark_args stack gm (a + 4) k s1 n1))"

fun mark_segments :: "(u32 \<rightharpoonup> u32) \<Rightarrow> u32 \<Rightarrow> u32 \<Rightarrow> u32 \<Rightarrow> u32 \<Rightarrow> gc_segment list \<Rightarrow> lisp \<Rightarrow> u32 \<Rightarrow> (lisp \<times> u32) res option" where
  "mark_segments stack base gm esp ebp [] s n = Some (Inr (s, n))"
| "mark_segments stack base gm esp ebp (seg # segs) s n =
     (if seg_start seg = 0 then Some (Inr (s, n))
      else
        run_bind (walk_frames stack base gm (seg_end seg) esp ebp s n) (\<lambda>(s1, n1).
        run_bind (mark_args stack gm (seg_end seg + 4) (nat (sint (seg_nargs seg))) s1 n1) (\<lambda>(s2, n2).
        run_bind (mark_all gm (retained seg) s2 n2) (\<lambda>(s3, n3).
        mark_segments stack base gm (seg_start seg) (old_ebp seg) segs s3 n3))))"

definition do_gc :: "(u32 \<rightharpoonup> u32) \<Rightarrow> u32 \<Rightarrow> u32 \<Rightarrow> gc \<Rightarrow> gc res option" where
  "do_gc stack esp ebp g =
     (let g1 = g\<lparr>gc_mark := gc_mark g + 1, gc_runs := gc_runs g + 1\<rparr> in
      run_bind (mark_segments stack (gc_base g1) (gc_mark g1) esp ebp (segments g1) (lisp_of g1) 0) (\<lambda>(s, _).
      run_bind (sweep (gc_mark g1) s) (\<lambda>s1. Some (Inr (g1\<lparr>lisp_of := s1\<rparr>)))))"

text \<open>The numbers of bytes stay 0.\<close>

record gc_stats =
  bytes_used :: u32
  bytes_freed :: u32
  total_allocs :: u32
  stats_runs :: u32

definition gc_get_stats :: "gc \<Rightarrow> gc_stats res option" where
  "gc_get_stats g =
     run_bind (count_allocs (first_a (lisp_of g)) (lisp_of g) 0) (\<lambda>n.
     Some (Inr \<lparr>bytes_used = 0, bytes_freed = 0, total_allocs = n, stats_runs = gc_runs g\<rparr>))"

section \<open>What marking reaches\<close>

text \<open>The values held at an address, and what is reached from the values \<open>vs\<close> through the objects of \<open>W\<close>.\<close>

definition held :: "lisp \<Rightarrow> u32 \<Rightarrow> value_t list" where
  "held s a = (case heap s a of None \<Rightarrow> [] | Some al \<Rightarrow> (case children al of Inl _ \<Rightarrow> [] | Inr cs \<Rightarrow> cs))"

inductive reached :: "(u32 \<Rightarrow> value_t list) \<Rightarrow> u32 set \<Rightarrow> value_t list \<Rightarrow> u32 \<Rightarrow> bool" for E W vs where
  root: "v \<in> set vs \<Longrightarrow> heapp v \<Longrightarrow> obj_of v \<in> W \<Longrightarrow> reached E W vs (obj_of v)"
| child: "reached E W vs a \<Longrightarrow> c \<in> set (E a) \<Longrightarrow> heapp c \<Longrightarrow> obj_of c \<in> W \<Longrightarrow> reached E W vs (obj_of c)"

lemma reached_in: "reached E W vs a \<Longrightarrow> a \<in> W"
  by (induction rule: reached.induct) auto

lemma reached_mono: "reached E W vs a \<Longrightarrow> W \<subseteq> W' \<Longrightarrow> set vs \<subseteq> set vs' \<Longrightarrow> reached E W' vs' a"
proof (induction rule: reached.induct)
  case (root v)
  then show ?case by (auto intro: reached.root)
next
  case (child a c)
  then show ?case by (auto intro: reached.child)
qed

lemma reached_Nil [simp]: "\<not> reached E W [] a"
proof
  assume "reached E W [] a"
  then show False by (induction rule: reached.induct) auto
qed

lemma reached_skip: "\<not> (heapp v \<and> obj_of v \<in> W) \<Longrightarrow> reached E W (v # rest) a \<longleftrightarrow> reached E W rest a"
proof
  assume no: "\<not> (heapp v \<and> obj_of v \<in> W)"
  show "reached E W rest a" if "reached E W (v # rest) a"
    using that
  proof (induction rule: reached.induct)
    case (root u)
    then show ?case using no by (auto intro: reached.root)
  qed (auto intro: reached.child)
qed (auto elim: reached_mono)

lemma reached_none [simp]: "Collect (reached E W []) = {}"
  by simp

text \<open>The step of a depth first search.\<close>

lemma reached_visit:
  assumes "heapp v" "obj_of v \<in> W"
  shows "reached E W (v # rest) a \<longleftrightarrow> a = obj_of v \<or> reached E (W - {obj_of v}) (E (obj_of v) @ rest) a"
proof
  show "a = obj_of v \<or> reached E (W - {obj_of v}) (E (obj_of v) @ rest) a" if "reached E W (v # rest) a"
    using that
  proof (induction rule: reached.induct)
    case (root u)
    then show ?case by (auto intro: reached.root)
  next
    case (child a c)
    show ?case
    proof (cases "obj_of c = obj_of v")
      case False
      then have "obj_of c \<in> W - {obj_of v}" using child by simp
      then show ?thesis using child by (auto intro: reached.root reached.child)
    qed simp
  qed
  have "reached E W (v # rest) (obj_of v)" using assms by (intro reached.root) auto
  moreover have "reached E W (v # rest) a" if "reached E (W - {obj_of v}) (E (obj_of v) @ rest) a"
    using that
  proof (induction rule: reached.induct)
    case (root u)
    then show ?case
    proof (cases "u \<in> set rest")
      case True
      then show ?thesis using root by (intro reached.root) auto
    next
      case False
      then show ?thesis using root calculation by (auto intro: reached.child)
    qed
  qed (auto intro: reached.child)
  ultimately show "reached E W (v # rest) a" if "a = obj_of v \<or> reached E (W - {obj_of v}) (E (obj_of v) @ rest) a"
    using that by blast
qed

text \<open>The marks of the objects \<open>M\<close> are set.\<close>

definition paint :: "u32 \<Rightarrow> u32 set \<Rightarrow> lisp \<Rightarrow> lisp" where
  "paint gm M s = s\<lparr>heap := \<lambda>a. map_option (\<lambda>al. if a \<in> M then al\<lparr>a_mark := ucast gm\<rparr> else al) (heap s a)\<rparr>"

lemma paint_empty [simp]: "paint gm {} s = s"
  by (simp add: paint_def option.map_ident)

lemma heap_paint: "heap (paint gm M s) a = map_option (\<lambda>al. if a \<in> M then al\<lparr>a_mark := ucast gm\<rparr> else al) (heap s a)"
  by (simp add: paint_def)

lemma paint_insert:
  assumes "heap s a = Some al"
  shows "s\<lparr>heap := (heap s)(a \<mapsto> al\<lparr>a_mark := ucast gm\<rparr>)\<rparr> = paint gm {a} s"
proof -
  have "(heap s)(a \<mapsto> al\<lparr>a_mark := ucast gm\<rparr>) = (\<lambda>b. map_option (\<lambda>al. if b \<in> {a} then al\<lparr>a_mark := ucast gm\<rparr> else al) (heap s b))"
    using assms by (auto simp: fun_eq_iff option.map_ident)
  then show ?thesis by (simp only: paint_def)
qed

lemma paint_paint: "paint gm M (paint gm N s) = paint gm (N \<union> M) s"
proof -
  have "heap (paint gm M (paint gm N s)) a = heap (paint gm (N \<union> M) s) a" for a
    by (cases "heap s a") (simp_all add: heap_paint)
  then show ?thesis by (simp add: paint_def fun_eq_iff)
qed

lemma children_mark [simp]: "children (al\<lparr>a_mark := m\<rparr>) = children al"
  by (simp add: children_def)

lemma held_paint [simp]: "held (paint gm M s) = held s"
  by (auto simp: held_def paint_def fun_eq_iff split: option.splits)

text \<open>The objects that are not marked, and a heap without dangling values.\<close>

definition unmarked :: "u32 \<Rightarrow> lisp \<Rightarrow> u32 set" where
  "unmarked gm s = {a. \<exists>al. heap s a = Some al \<and> ucast (a_mark al) \<noteq> gm}"

definition closed :: "lisp \<Rightarrow> bool" where
  "closed s \<longleftrightarrow> finite (dom (heap s)) \<and> (\<forall>a\<in>dom (heap s). \<exists>cs. children (the (heap s a)) = Inr cs \<and> (\<forall>c\<in>set cs. heapp c \<longrightarrow> obj_of c \<in> dom (heap s)))"

lemma dom_paint [simp]: "dom (heap (paint gm M s)) = dom (heap s)"
  by (auto simp: paint_def)

lemma closed_paint [simp]: "closed (paint gm M s) = closed s"
proof -
  have "children (the (heap (paint gm M s) a)) = children (the (heap s a))" if "a \<in> dom (heap s)" for a
    using that by (auto simp: heap_paint)
  then show ?thesis unfolding closed_def dom_paint by (metis (no_types, lifting))
qed

lemma short_mark: "unat (gm :: u32) < 2 ^ 24 \<Longrightarrow> ucast (ucast gm :: 24 word) = gm"
  by (simp add: word_unat_eq_iff unsigned_ucast_eq unsigned_take_bit_eq take_bit_nat_eq_self)

lemma unmarked_paint: "unat gm < 2 ^ 24 \<Longrightarrow> unmarked gm (paint gm M s) = unmarked gm s - M"
proof -
  assume "unat gm < 2 ^ 24"
  note m = short_mark[OF this]
  have "(\<exists>al. heap (paint gm M s) a = Some al \<and> ucast (a_mark al) \<noteq> gm) \<longleftrightarrow> (\<exists>al. heap s a = Some al \<and> ucast (a_mark al) \<noteq> gm) \<and> a \<notin> M" for a
    by (cases "heap s a") (auto simp: heap_paint m)
  then show ?thesis by (auto simp: unmarked_def)
qed

theorem mark_all_ok:
  assumes "closed s" "unat gm < 2 ^ 24" "\<forall>v\<in>set vs. heapp v \<longrightarrow> obj_of v \<in> dom (heap s)"
  shows "mark_all gm vs s n =
    Some (Inr (paint gm {a. reached (held s) (unmarked gm s) vs a} s, n + of_nat (card {a. reached (held s) (unmarked gm s) vs a})))"
  using assms
proof (induction "(card (unmarked gm s), length vs)" arbitrary: s vs n rule: wf_induct[OF wf_lex_prod[OF wf_less_than wf_less_than]])
  case 1
  note IH = "1.hyps"[rule_format] and closed = "1.prems"(1) and gm = "1.prems"(2)
  let ?R = "\<lambda>s vs. {a. reached (held s) (unmarked gm s) vs a}"
  have fin: "finite (unmarked gm s)"
    by (rule finite_subset[of _ "dom (heap s)"]) (use closed in \<open>auto simp: closed_def unmarked_def\<close>)
  show ?case
  proof (cases vs)
    case Nil
    then show ?thesis by (subst mark_all.simps) simp
  next
    case (Cons v rest)
    have rest: "\<forall>v\<in>set rest. heapp v \<longrightarrow> obj_of v \<in> dom (heap s)" using "1.prems"(3) Cons by simp
    show ?thesis
    proof (cases "heapp v \<and> obj_of v \<in> unmarked gm s")
      case False
      have "mark_all gm vs s n = mark_all gm rest s n"
      proof (cases "heapp v")
        case True
        then have "obj_of v \<in> dom (heap s)" using "1.prems"(3) Cons by simp
        then obtain al where "heap s (obj_of v) = Some al" by blast
        then show ?thesis using True False Cons by (subst mark_all.simps) (auto simp: unmarked_def)
      qed (use Cons in \<open>subst mark_all.simps, simp\<close>)
      moreover have "?R s vs = ?R s rest" using reached_skip[OF False] Cons by auto
      moreover have "mark_all gm rest s n = Some (Inr (paint gm (?R s rest) s, n + of_nat (card (?R s rest))))"
        by (rule IH[OF _ refl closed gm]) (use rest Cons in auto)
      ultimately show ?thesis by simp
    next
      case True
      then obtain al where al: "heap s (obj_of v) = Some al" "ucast (a_mark al) \<noteq> gm" by (auto simp: unmarked_def)
      obtain cs where cs: "children al = Inr cs" "\<forall>c\<in>set cs. heapp c \<longrightarrow> obj_of c \<in> dom (heap s)" using closed al(1) unfolding closed_def by (metis domI option.sel)
      let ?o = "obj_of v" and ?s = "paint gm {obj_of v} s"
      have h: "held s ?o = cs" using al(1) cs(1) by (simp add: held_def)
      have um: "unmarked gm ?s = unmarked gm s - {?o}" by (rule unmarked_paint[OF gm])
      have card: "card (unmarked gm ?s) < card (unmarked gm s)" unfolding um using fin True by (intro card_Diff1_less) auto
      have step: "mark_all gm vs s n = mark_all gm (cs @ rest) ?s (n + 1)"
        using True al cs(1) Cons paint_insert[OF al(1), of gm] by (subst mark_all.simps) simp
      have roots: "\<forall>v\<in>set (cs @ rest). heapp v \<longrightarrow> obj_of v \<in> dom (heap ?s)" using cs(2) rest by auto
      have R: "?R s vs = insert ?o (?R ?s (cs @ rest))"
        unfolding Cons um held_paint h[symmetric] by (rule set_eqI) (use True in \<open>simp add: reached_visit\<close>)
      have no: "?o \<notin> ?R ?s (cs @ rest)" using reached_in um by fastforce
      have "finite (?R ?s (cs @ rest))"
        by (rule finite_subset[of _ "unmarked gm s"]) (use reached_in um fin in \<open>fastforce+\<close>)
      then have c: "card (?R s vs) = Suc (card (?R ?s (cs @ rest)))" unfolding R using no by simp
      have "mark_all gm (cs @ rest) ?s (n + 1) = Some (Inr (paint gm (?R ?s (cs @ rest)) ?s, n + 1 + of_nat (card (?R ?s (cs @ rest)))))"
        by (rule IH[OF _ refl _ gm]) (use card closed roots in auto)
      then show ?thesis unfolding step c unfolding R by (simp add: paint_paint)
    qed
  qed
qed

lemma mark_all_append:
  assumes "mark_all gm xs s n \<noteq> None"
  shows "mark_all gm (xs @ ys) s n = run_bind (mark_all gm xs s n) (\<lambda>(s1, n1). mark_all gm ys s1 n1)"
proof -
  have "\<forall>ys. mark_all gm (xs @ ys) s n = run_bind (Some r) (\<lambda>(s1, n1). mark_all gm ys s1 n1)" if "mark_all gm xs s n = Some r" for r
  proof (rule mark_all.raw_induct[where P = "\<lambda>gm xs s n r. \<forall>ys. mark_all gm (xs @ ys) s n = run_bind (Some r) (\<lambda>(s1, n1). mark_all gm ys s1 n1)", OF _ that], intro allI)
    fix f gm vs s marked r ys
    assume IH: "\<And>gm vs s n r. f gm vs s n = Some r \<Longrightarrow> \<forall>ys. mark_all gm (vs @ ys) s n = run_bind (Some r) (\<lambda>(s1, n1). mark_all gm ys s1 n1)"
      and run: "(case vs of [] \<Rightarrow> Some (Inr (s, marked))
         | v # rest \<Rightarrow> if heapp v then (case heap s (obj_of v) of None \<Rightarrow> Some (Inl OutOfBounds)
             | Some al \<Rightarrow> if ucast (a_mark al) \<noteq> gm then run_bind (Some (children al)) (\<lambda>cs. f gm (cs @ rest) (s\<lparr>heap := (heap s)(obj_of v \<mapsto> al\<lparr>a_mark := ucast gm\<rparr>)\<rparr>) (marked + 1))
                 else f gm rest s marked)
           else f gm rest s marked) = Some r"
    show "mark_all gm (vs @ ys) s marked = run_bind (Some r) (\<lambda>(s1, n1). mark_all gm ys s1 n1)"
    proof (cases vs)
      case Nil
      then show ?thesis using run by auto
    next
      case (Cons v rest)
      show ?thesis
      proof (cases "heapp v")
        case False
        then show ?thesis using run Cons IH by (subst mark_all.simps) simp
      next
        case True
        show ?thesis
        proof (cases "heap s (obj_of v)")
          case None
          then show ?thesis using run Cons True by (subst mark_all.simps) auto
        next
          case (Some al)
          show ?thesis
          proof (cases "ucast (a_mark al) = gm")
            case same: True
            then show ?thesis using run Cons True Some IH by (subst mark_all.simps) simp
          next
            case new: False
            then show ?thesis
            proof (cases "children al")
              case (Inl e)
              then show ?thesis using run Cons True Some new by (subst mark_all.simps) auto
            next
              case (Inr cs)
              then have "f gm (cs @ rest) (s\<lparr>heap := (heap s)(obj_of v \<mapsto> al\<lparr>a_mark := ucast gm\<rparr>)\<rparr>) (marked + 1) = Some r"
                using run Cons True Some new by simp
              from IH[OF this, rule_format, of ys] show ?thesis using Cons True Some new Inr by (subst mark_all.simps) simp
            qed
          qed
        qed
      qed
    qed
  qed
  then show ?thesis using assms by (cases "mark_all gm xs s n") auto
qed

section \<open>The list of all objects\<close>

text \<open>The objects \<open>xs\<close> linked one after the other, between \<open>p\<close> and \<open>q\<close>.\<close>

fun links :: "(u32 \<rightharpoonup> alloc) \<Rightarrow> u32 \<Rightarrow> u32 list \<Rightarrow> u32 \<Rightarrow> bool" where
  "links h p [] q \<longleftrightarrow> True"
| "links h p (x # xs) q \<longleftrightarrow> (\<exists>al. h x = Some al \<and> a_prev al = p \<and> a_next al = hd (xs @ [q]) \<and> links h x xs q)"

lemma links_nth:
  "links h p xs q \<longleftrightarrow> (\<forall>i<length xs. \<exists>al. h (xs ! i) = Some al \<and> a_prev al = (if i = 0 then p else xs ! (i - 1)) \<and>
     a_next al = (if Suc i < length xs then xs ! Suc i else q))"
proof (induction xs arbitrary: p)
  case (Cons x xs)
  have hd: "hd (xs @ [q]) = (if 0 < length xs then xs ! 0 else q)" by (cases xs) simp_all
  show ?case unfolding links.simps Cons.IH hd length_Cons All_less_Suc2 by (auto simp: nth_Cons')
qed simp

lemma linked_heap_links:
  "linked_heap s xs \<longleftrightarrow> distinct xs \<and> 0 \<notin> set xs \<and> dom (heap s) = set xs \<and> first_a s = (if xs = [] then 0 else hd xs) \<and>
     last_a s = (if xs = [] then 0 else last xs) \<and> links (heap s) 0 xs 0"
  unfolding linked_heap_def links_nth ..

lemma links_append: "links h p (xs @ ys) q \<longleftrightarrow> links h p xs (hd (ys @ [q])) \<and> links h (last (p # xs)) ys q"
  by (induction xs arbitrary: p) (auto simp: hd_append)

lemma links_other: "x \<notin> set xs \<Longrightarrow> links (h(x := v)) p xs q = links h p xs q"
  by (induction xs arbitrary: p) auto

lemma links_next:
  assumes "links h p (xs @ [x]) q" "x \<notin> set xs" "h x = Some al"
  shows "links (h(x \<mapsto> al\<lparr>a_next := q'\<rparr>)) p (xs @ [x]) q'"
  using assms links_other[of x xs h "Some (al\<lparr>a_next := q'\<rparr>)"] by (auto simp: links_append)

lemma links_prev:
  assumes "links h p (x # xs) q" "x \<notin> set xs" "h x = Some al"
  shows "links (h(x \<mapsto> al\<lparr>a_prev := p'\<rparr>)) p' (x # xs) q"
  using assms links_other[of x xs h "Some (al\<lparr>a_prev := p'\<rparr>)"] by auto

text \<open>An object without its links.\<close>

definition core :: "alloc \<Rightarrow> alloc" where
  "core al = al\<lparr>a_prev := 0, a_next := 0\<rparr>"

definition cores :: "lisp \<Rightarrow> u32 \<rightharpoonup> alloc" where
  "cores s a = map_option core (heap s a)"

lemma unlink_ok:
  assumes l: "linked_heap s (ks @ [p] @ a # n # r)" and r: "r \<noteq> []" and al: "heap s a = Some al"
  shows "\<exists>s'. unlink_alloc a al s = Inr s' \<and> a_next al = n \<and> linked_heap s' (ks @ [p] @ n # r) \<and> cores s' = (cores s)(a := None) \<and>
    s' = s\<lparr>heap := heap s'\<rparr>"
proof -
  note L = l[unfolded linked_heap_links]
  have nz: "p \<noteq> 0" "n \<noteq> 0" and d: "distinct (ks @ [p] @ a # n # r)" using L by auto
  have first: "n \<noteq> first_a s" and last: "n \<noteq> last_a s" using L d r last_in_set[OF r] by (cases ks; auto)+
  have ln: "links (heap s) 0 (ks @ [p]) a" "links (heap s) p (a # n # r) 0" using L links_append[of "heap s" 0 "ks @ [p]" "a # n # r" 0] by simp_all
  then have pn: "a_prev al = p" "a_next al = n" using al by auto
  have ln2: "links (heap s) a (n # r) 0" using ln(2) by auto
  obtain pa where pa: "heap s p = Some pa" using ln(1) by (auto simp: links_append)
  obtain na where na: "heap s n = Some na" using ln2 by auto
  have ne: "p \<noteq> a" "n \<noteq> a" "p \<noteq> n" "p \<notin> set ks" "n \<notin> set r" "a \<notin> set (n # r)" "a \<notin> set (ks @ [p])" "p \<notin> set (n # r)" "n \<notin> set (ks @ [p])" using d by auto
  let ?h1 = "(heap s)(a := None)"
  let ?h2 = "?h1(p \<mapsto> pa\<lparr>a_next := n\<rparr>)"
  let ?h3 = "?h2(n \<mapsto> na\<lparr>a_prev := p\<rparr>)"
  let ?s' = "s\<lparr>heap := ?h3\<rparr>"
  have run: "unlink_alloc a al s = Inr ?s'"
    using first last nz pa na ne by (simp add: unlink_alloc_def pn del_alloc_def put_next_def put_prev_def)
  have "links ?h1 0 (ks @ [p]) a" "links ?h1 a (n # r) 0" using ln(1) ln2 links_other ne by metis+
  then have "links ?h2 0 (ks @ [p]) n" "links ?h2 a (n # r) 0"
    using links_next[of ?h1 0 ks p a pa n] pa ne links_other[of p "n # r" ?h1] by simp_all
  then have "links ?h3 0 (ks @ [p]) n" "links ?h3 p (n # r) 0"
    using links_prev[of ?h2 a n r 0 na p] na ne links_other[of n "ks @ [p]" ?h2] by simp_all
  then have "links ?h3 0 (ks @ [p] @ n # r) 0" using links_append[of ?h3 0 "ks @ [p]" "n # r" 0] by simp
  moreover have "dom ?h3 = set (ks @ [p] @ n # r)" using L ne by auto
  moreover have "first_a s = hd (ks @ [p] @ n # r)" using L by (cases ks) auto
  moreover have "last_a s = last (ks @ [p] @ n # r)" using L r by simp
  ultimately have "linked_heap ?s' (ks @ [p] @ n # r)" unfolding linked_heap_links using L by auto
  moreover have "cores ?s' = (cores s)(a := None)" using pa na ne by (auto simp: cores_def core_def fun_eq_iff)
  ultimately show ?thesis using run pn(2) by simp
qed

section \<open>The sweep\<close>

text \<open>An object that the sweep leaves.\<close>

definition kept :: "u32 \<Rightarrow> lisp \<Rightarrow> u32 \<Rightarrow> bool" where
  "kept gm s a \<longleftrightarrow> (\<exists>al. heap s a = Some al \<and> (pool_alive (a_pool al) \<or> ucast (a_mark al) = gm))"

lemma kept_cores: "kept gm s a \<longleftrightarrow> (\<exists>al. cores s a = Some al \<and> (pool_alive (a_pool al) \<or> ucast (a_mark al) = gm))"
  by (auto simp: kept_def cores_def core_def)

text \<open>The sweep is right when the last two objects stay.\<close>

definition good_end :: "(u32 \<Rightarrow> bool) \<Rightarrow> u32 list \<Rightarrow> bool" where
  "good_end K xs \<longleftrightarrow> (\<forall>x\<in>set xs. K x) \<or> (\<exists>ys y z. xs = ys @ [y, z] \<and> K y \<and> K z)"

lemma good_end_tl: "good_end K (x # xs) \<Longrightarrow> good_end K xs"
  unfolding good_end_def by (auto simp: Cons_eq_append_conv)

lemma good_end_cong:
  assumes "good_end K xs" "\<And>x. x \<in> set xs \<Longrightarrow> K' x = K x"
  shows "good_end K' xs"
proof (cases "\<forall>x\<in>set xs. K x")
  case False
  then obtain ys y z where e: "xs = ys @ [y, z]" "K y" "K z" using assms(1) unfolding good_end_def by blast
  then have "K' y" "K' z" using assms(2) by auto
  then show ?thesis using e(1) unfolding good_end_def by blast
qed (use assms(2) in \<open>simp add: good_end_def\<close>)

lemma good_end_drop:
  assumes "good_end K (x # xs)" "\<not> K x"
  obtains n r where "xs = n # r" "r \<noteq> []"
proof -
  obtain ys y z where e: "x # xs = ys @ [y, z]" "K y" "K z" using assms unfolding good_end_def by auto
  then obtain ys' where "xs = ys' @ [y, z]" using assms(2) by (cases ys) auto
  then show thesis using that by (cases ys') auto
qed

lemma sweep_from_ok:
  assumes "linked_heap s (ks @ rest)" "ks \<noteq> [] \<or> rest = [] \<or> kept gm s (hd rest)" "good_end (kept gm s) rest"
  shows "\<exists>s'. sweep_from gm (hd (rest @ [0])) s = Some (Inr s') \<and> linked_heap s' (ks @ filter (kept gm s) rest) \<and>
    cores s' = (\<lambda>a. if a \<in> set rest \<and> \<not> kept gm s a then None else cores s a) \<and> s' = s\<lparr>heap := heap s'\<rparr>"
  using assms
proof (induction rest arbitrary: ks s)
  case Nil
  then show ?case by (subst sweep_from.simps) simp
next
  case (Cons a r)
  note L = Cons.prems(1)[unfolded linked_heap_links]
  obtain al where al: "heap s a = Some al" using L by (metis domD in_set_conv_decomp)
  have a0: "a \<noteq> 0" using L by auto
  show ?case
  proof (cases "kept gm s a")
    case True
    have "links (heap s) (last (0 # ks)) (a # r) 0" using L links_append[of "heap s" 0 ks "a # r" 0] by simp
    then have nx: "a_next al = hd (r @ [0])" using al by auto
    have run: "sweep_from gm (hd ((a # r) @ [0])) s = sweep_from gm (hd (r @ [0])) s"
      using True al a0 nx by (subst sweep_from.simps) (simp add: kept_def)
    have "linked_heap s ((ks @ [a]) @ r)" using Cons.prems(1) by simp
    from Cons.IH[OF this _ good_end_tl[OF Cons.prems(3)]] obtain s' where
      "sweep_from gm (hd (r @ [0])) s = Some (Inr s')" "linked_heap s' ((ks @ [a]) @ filter (kept gm s) r)"
      "cores s' = (\<lambda>a. if a \<in> set r \<and> \<not> kept gm s a then None else cores s a)" "s' = s\<lparr>heap := heap s'\<rparr>" by blast
    then show ?thesis unfolding run using True by (intro exI[of _ s']) (auto simp: fun_eq_iff)
  next
    case False
    obtain n r' where r: "r = n # r'" "r' \<noteq> []" using good_end_drop[OF Cons.prems(3) False] by blast
    have "ks \<noteq> []" using Cons.prems(2) False by auto
    then obtain ks' p where ks: "ks = ks' @ [p]" by (metis rev_exhaust)
    have "linked_heap s (ks' @ [p] @ a # n # r')" using Cons.prems(1) ks r(1) by simp
    from unlink_ok[OF this r(2) al] obtain s1 where 1: "unlink_alloc a al s = Inr s1" "a_next al = n" "linked_heap s1 (ks @ r)"
      "cores s1 = (cores s)(a := None)" "s1 = s\<lparr>heap := heap s1\<rparr>" using ks r(1) by auto
    have k1: "kept gm s1 b = kept gm s b" if "b \<noteq> a" for b using that 1(4) by (simp add: kept_cores)
    have ar: "a \<notin> set r" using L by auto
    have g: "good_end (kept gm s1) r" by (rule good_end_cong[OF good_end_tl[OF Cons.prems(3)]]) (use k1 ar in metis)
    from Cons.IH[OF 1(3) _ g] \<open>ks \<noteq> []\<close> obtain s' where
      2: "sweep_from gm (hd (r @ [0])) s1 = Some (Inr s')" "linked_heap s' (ks @ filter (kept gm s1) r)"
      "cores s' = (\<lambda>a. if a \<in> set r \<and> \<not> kept gm s1 a then None else cores s1 a)" "s' = s1\<lparr>heap := heap s'\<rparr>" by blast
    have run: "sweep_from gm (hd ((a # r) @ [0])) s = Some (Inr s')"
      using False al a0 1(1,2) r(1) 2(1) by (subst sweep_from.simps) (simp add: kept_def)
    have "filter (kept gm s1) r = filter (kept gm s) r" by (rule filter_cong[OF refl]) (use k1 ar in metis)
    then have linked: "linked_heap s' (ks @ filter (kept gm s) (a # r))" using 2(2) False by simp
    have cores: "cores s' = (\<lambda>b. if b \<in> set (a # r) \<and> \<not> kept gm s b then None else cores s b)"
      unfolding 2(3) 1(4) using k1 False ar by (auto simp: fun_eq_iff)
    have "s' = (s\<lparr>heap := heap s1\<rparr>)\<lparr>heap := heap s'\<rparr>"
      by (rule trans[OF 2(4)]) (rule arg_cong[OF 1(5), of "\<lambda>x. x\<lparr>heap := heap s'\<rparr>"])
    then have "s' = s\<lparr>heap := heap s'\<rparr>" by (rule trans) simp
    then show ?thesis using run linked cores by blast
  qed
qed

section \<open>The roots\<close>

text \<open>The words that the walk over the stack meets, in order.\<close>

inductive frame_roots :: "(u32 \<rightharpoonup> u32) \<Rightarrow> u32 \<Rightarrow> u32 \<Rightarrow> u32 \<Rightarrow> value_t list \<Rightarrow> u32 \<Rightarrow> bool" for stack base where
  frame_end: "\<not> (esp < ebp \<and> esp < base) \<Longrightarrow> frame_roots stack base esp ebp [] esp"
| frame_word: "esp < ebp \<Longrightarrow> esp < base \<Longrightarrow> stack esp = Some v \<Longrightarrow> frame_roots stack base (esp + 4) ebp vs e \<Longrightarrow> frame_roots stack base esp ebp (v # vs) e"

inductive frames_roots :: "(u32 \<rightharpoonup> u32) \<Rightarrow> u32 \<Rightarrow> u32 \<Rightarrow> u32 \<Rightarrow> u32 \<Rightarrow> value_t list \<Rightarrow> bool" for stack base stop where
  frames_end: "\<not> esp < stop \<Longrightarrow> frames_roots stack base stop esp ebp []"
| frames_more: "esp < stop \<Longrightarrow> frame_roots stack base esp ebp vs e \<Longrightarrow> stack e = Some ebp' \<Longrightarrow> frames_roots stack base stop (e + 8) ebp' ws \<Longrightarrow>
    frames_roots stack base stop esp ebp (vs @ ws)"

fun args_roots :: "(u32 \<rightharpoonup> u32) \<Rightarrow> u32 \<Rightarrow> nat \<Rightarrow> value_t list option" where
  "args_roots stack a 0 = Some []"
| "args_roots stack a (Suc k) = Option.bind (stack a) (\<lambda>v. map_option (\<lambda>vs. v # vs) (args_roots stack (a + 4) k))"

inductive stack_roots :: "(u32 \<rightharpoonup> u32) \<Rightarrow> u32 \<Rightarrow> u32 \<Rightarrow> u32 \<Rightarrow> gc_segment list \<Rightarrow> value_t list \<Rightarrow> bool" for stack base where
  no_segment: "segs = [] \<or> seg_start (hd segs) = 0 \<Longrightarrow> stack_roots stack base esp ebp segs []"
| segment: "seg_start seg \<noteq> 0 \<Longrightarrow> frames_roots stack base (seg_end seg) esp ebp vs \<Longrightarrow>
    args_roots stack (seg_end seg + 4) (nat (sint (seg_nargs seg))) = Some ws \<Longrightarrow> stack_roots stack base (seg_start seg) (old_ebp seg) segs us \<Longrightarrow>
    stack_roots stack base esp ebp (seg # segs) (vs @ ws @ retained seg @ us)"

text \<open>In a heap without dangling values marking one list after the other is marking both.\<close>

definition roots_ok :: "lisp \<Rightarrow> value_t list \<Rightarrow> bool" where
  "roots_ok s vs \<longleftrightarrow> (\<forall>v\<in>set vs. heapp v \<longrightarrow> obj_of v \<in> dom (heap s))"

lemma roots_ok_append [simp]: "roots_ok s (xs @ ys) \<longleftrightarrow> roots_ok s xs \<and> roots_ok s ys"
  by (auto simp: roots_ok_def)

lemma mark_all_state:
  assumes "closed s" "unat gm < 2 ^ 24" "roots_ok s vs"
  obtains M k where "mark_all gm vs s n = Some (Inr (paint gm M s, k))"
  using mark_all_ok[OF assms(1,2)] assms(3) unfolding roots_ok_def by blast

lemma roots_ok_paint [simp]: "roots_ok (paint gm M s) vs = roots_ok s vs"
  by (simp add: roots_ok_def)

lemma mark_all_split:
  assumes "closed s" "unat gm < 2 ^ 24" "roots_ok s xs"
  shows "mark_all gm (xs @ ys) s n = run_bind (mark_all gm xs s n) (\<lambda>(s1, n1). mark_all gm ys s1 n1)"
  using mark_all_state[OF assms, of n] by (intro mark_all_append) auto

text \<open>A sequence of steps that each mark roots marks all the roots.\<close>

lemma mark_then:
  assumes "closed s" "unat gm < 2 ^ 24" "roots_ok s xs"
    and "\<And>M k. f (paint gm M s) k = mark_all gm ys (paint gm M s) k"
  shows "run_bind (mark_all gm xs s n) (\<lambda>(s1, n1). f s1 n1) = mark_all gm (xs @ ys) s n"
proof -
  obtain M k where "mark_all gm xs s n = Some (Inr (paint gm M s, k))" using mark_all_state[OF assms(1-3)] by blast
  then show ?thesis using mark_all_split[OF assms(1-3), of ys n] assms(4) by simp
qed

lemma mark_all_Nil [simp]: "mark_all gm [] s n = Some (Inr (s, n))"
  by (subst mark_all.simps) simp

lemma walk_frame_roots:
  assumes "frame_roots stack base esp ebp vs e" "closed s" "unat gm < 2 ^ 24" "roots_ok s vs"
  shows "walk_frame stack base gm esp ebp s n = run_bind (mark_all gm vs s n) (\<lambda>(s1, n1). Some (Inr (e, s1, n1)))"
  using assms
proof (induction arbitrary: s n rule: frame_roots.induct)
  case (frame_end esp ebp)
  then show ?case by (subst walk_frame.simps) auto
next
  case (frame_word esp ebp v vs e)
  have ok: "roots_ok s [v]" "roots_ok s vs" using frame_word.prems(3) by (simp_all add: roots_ok_def)
  obtain M k where m: "mark_all gm [v] s n = Some (Inr (paint gm M s, k))" using mark_all_state[OF frame_word.prems(1,2) ok(1)] by blast
  have "walk_frame stack base gm esp ebp s n = walk_frame stack base gm (esp + 4) ebp (paint gm M s) k"
    using frame_word.hyps m by (subst walk_frame.simps) (simp add: stack_at_def mark_def)
  then show ?case
    using frame_word.IH[of "paint gm M s" k] frame_word.prems ok(2) mark_all_split[OF frame_word.prems(1,2) ok(1), of vs n] m by simp
qed

lemma walk_frames_roots:
  assumes "frames_roots stack base stop esp ebp vs" "closed s" "unat gm < 2 ^ 24" "roots_ok s vs"
  shows "walk_frames stack base gm stop esp ebp s n = mark_all gm vs s n"
  using assms
proof (induction arbitrary: s n rule: frames_roots.induct)
  case (frames_end esp ebp)
  then show ?case by (subst walk_frames.simps) simp
next
  case (frames_more esp ebp vs e ebp' ws)
  have ok: "roots_ok s vs" "roots_ok s ws" using frames_more.prems(3) by simp_all
  obtain M k where m: "mark_all gm vs s n = Some (Inr (paint gm M s, k))" using mark_all_state[OF frames_more.prems(1,2) ok(1)] by blast
  have "walk_frames stack base gm stop esp ebp s n = walk_frames stack base gm stop (e + 8) ebp' (paint gm M s) k"
    using frames_more.hyps m walk_frame_roots[OF frames_more.hyps(2) frames_more.prems(1,2) ok(1), of n]
    by (subst walk_frames.simps) (simp add: stack_at_def)
  then show ?case
    using frames_more.IH[of "paint gm M s" k] frames_more.prems ok(2) mark_all_split[OF frames_more.prems(1,2) ok(1), of ws n] m by simp
qed

lemma mark_args_roots:
  assumes "args_roots stack a k = Some vs" "closed s" "unat gm < 2 ^ 24" "roots_ok s vs"
  shows "mark_args stack gm a k s n = mark_all gm vs s n"
  using assms
proof (induction k arbitrary: a vs s n)
  case (Suc k)
  obtain v ws where v: "stack a = Some v" "args_roots stack (a + 4) k = Some ws" "vs = v # ws"
    using Suc.prems(1) by (auto simp: Option.bind_eq_Some_conv)
  have ok: "roots_ok s [v]" "roots_ok s ws" using Suc.prems(4) v(3) by (simp_all add: roots_ok_def)
  obtain M j where m: "mark_all gm [v] s n = Some (Inr (paint gm M s, j))" using mark_all_state[OF Suc.prems(2,3) ok(1)] by blast
  then show ?case
    using Suc.IH[OF v(2), of "paint gm M s" j] Suc.prems(2,3) ok(2) v mark_all_split[OF Suc.prems(2,3) ok(1), of ws n]
    by (simp add: stack_at_def mark_def)
qed simp

lemma mark_segments_roots:
  assumes "stack_roots stack base esp ebp segs vs" "closed s" "unat gm < 2 ^ 24" "roots_ok s vs"
  shows "mark_segments stack base gm esp ebp segs s n = mark_all gm vs s n"
  using assms
proof (induction arbitrary: s n rule: stack_roots.induct)
  case (no_segment segs esp ebp)
  then show ?case by (cases segs) auto
next
  case (segment seg esp ebp vs ws segs us)
  have ok: "roots_ok s vs" "roots_ok s ws" "roots_ok s (retained seg)" "roots_ok s us" using segment.prems(3) by simp_all
  note c = segment.prems(1,2)
  have 3: "run_bind (mark_all gm (retained seg) (paint gm M s) k) (\<lambda>(s3, n3). mark_segments stack base gm (seg_start seg) (old_ebp seg) segs s3 n3) =
      mark_all gm (retained seg @ us) (paint gm M s) k" for M k
    by (rule mark_then) (use c ok segment.IH in \<open>auto simp: paint_paint\<close>)
  have 2: "run_bind (mark_args stack gm (seg_end seg + 4) (nat (sint (seg_nargs seg))) (paint gm M s) k) (\<lambda>(s2, n2).
      run_bind (mark_all gm (retained seg) s2 n2) (\<lambda>(s3, n3). mark_segments stack base gm (seg_start seg) (old_ebp seg) segs s3 n3)) =
      mark_all gm (ws @ retained seg @ us) (paint gm M s) k" for M k
    unfolding mark_args_roots[OF segment.hyps(3) closed_paint[THEN iffD2, OF c(1)] c(2) roots_ok_paint[THEN iffD2, OF ok(2)]]
    by (rule mark_then) (use c ok 3 in \<open>auto simp: paint_paint\<close>)
  have "mark_segments stack base gm esp ebp (seg # segs) s n = run_bind (mark_all gm vs s n) (\<lambda>(s1, n1).
      run_bind (mark_args stack gm (seg_end seg + 4) (nat (sint (seg_nargs seg))) s1 n1) (\<lambda>(s2, n2).
      run_bind (mark_all gm (retained seg) s2 n2) (\<lambda>(s3, n3). mark_segments stack base gm (seg_start seg) (old_ebp seg) segs s3 n3)))"
    using segment.hyps(1) walk_frames_roots[OF segment.hyps(2) c ok(1)] by simp
  also have "\<dots> = mark_all gm (vs @ ws @ retained seg @ us) s n"
    by (rule mark_then) (use c ok 2 in auto)
  finally show ?case .
qed

section \<open>Properties\<close>

text \<open>What a collection has to leave: what the roots reach, and the objects of a living pool.\<close>

definition live :: "lisp \<Rightarrow> value_t list \<Rightarrow> u32 \<Rightarrow> bool" where
  "live s vs a \<longleftrightarrow> reached (held s) (dom (heap s)) vs a \<or> (\<exists>al. heap s a = Some al \<and> pool_alive (a_pool al))"

definition contents :: "lisp \<Rightarrow> u32 \<rightharpoonup> u32 \<times> u8 \<times> body" where
  "contents s a = map_option (\<lambda>al. (a_tag al, a_pool al, a_body al)) (heap s a)"

lemma contents_cores: "contents s a = map_option (\<lambda>al. (a_tag al, a_pool al, a_body al)) (cores s a)"
  by (cases "heap s a") (simp_all add: contents_def cores_def core_def)

lemma contents_paint [simp]: "contents (paint gm M s) = contents s"
proof
  show "contents (paint gm M s) a = contents s a" for a by (cases "heap s a") (simp_all add: contents_def heap_paint)
qed

lemma heap_paint_Some: "heap s a = Some al \<Longrightarrow> heap (paint gm M s) a = Some (if a \<in> M then al\<lparr>a_mark := ucast gm\<rparr> else al)"
  by (simp add: heap_paint)

lemma linked_heap_paint: "linked_heap s xs \<Longrightarrow> linked_heap (paint gm M s) xs"
proof -
  assume l: "linked_heap s xs"
  have "links (heap (paint gm M s)) p ys q" if "links (heap s) p ys q" for p ys q
    using that by (induction ys arbitrary: p) (auto simp: heap_paint_Some)
  moreover have "first_a (paint gm M s) = first_a s" "last_a (paint gm M s) = last_a s" by (simp_all add: paint_def)
  ultimately show ?thesis using l unfolding linked_heap_links by simp
qed

lemma kept_paint:
  assumes "unat gm < 2 ^ 24" "\<forall>a al. heap s a = Some al \<longrightarrow> ucast (a_mark al) \<noteq> gm" "a \<in> dom (heap s)"
  shows "kept gm (paint gm (Collect (reached (held s) (dom (heap s)) vs)) s) a \<longleftrightarrow> live s vs a"
proof -
  obtain al where al: "heap s a = Some al" using assms(3) by blast
  then have "ucast (a_mark al) \<noteq> gm" using assms(2) by blast
  then show ?thesis using short_mark[OF assms(1)] al by (simp add: kept_def live_def heap_paint_Some[OF al])
qed




section \<open>The ends of the list\<close>

lemma sweep_over_kept:
  assumes "links (heap s) p xs b" "0 \<notin> set xs" "\<forall>x\<in>set xs. kept gm s x"
  shows "sweep_from gm (hd (xs @ [b])) s = sweep_from gm b s"
  using assms
proof (induction xs arbitrary: p)
  case (Cons x xs)
  then obtain al where al: "heap s x = Some al" "a_next al = hd (xs @ [b])" "links (heap s) x xs b" by auto
  then show ?case using Cons.IH[OF al(3)] Cons.prems by (subst sweep_from.simps) (auto simp: kept_def)
qed simp

lemma sweep_done [simp]: "sweep_from gm 0 s = Some (Inr s)"
  by (subst sweep_from.simps) simp


text \<open>Four conses, of which the first holds the last two, and a stack segment that retains the first.\<close>

definition linked_cons :: "u32 \<Rightarrow> u32 \<Rightarrow> value_t \<Rightarrow> value_t \<Rightarrow> alloc" where
  "linked_cons p n x y = (a_cons x y)\<lparr>a_prev := p, a_next := n\<rparr>"

definition four_objects :: lisp where
  "four_objects = (lisp_start 0)\<lparr>heap := [4096 \<mapsto> linked_cons 0 4160 4241 4305, 4160 \<mapsto> linked_cons 4096 4224 nil nil,
     4224 \<mapsto> linked_cons 4160 4288 nil nil, 4288 \<mapsto> linked_cons 4224 0 nil nil], first_a := 4096, last_a := 4288\<rparr>"

definition one_segment :: gc where
  "one_segment = \<lparr>lisp_of = four_objects, gc_base = 0, segments = [\<lparr>seg_start = 4, seg_end = 0, seg_nargs = 0, old_ebp = 0, retained = [4113]\<rparr>],
     gc_mark = 0, gc_runs = 0\<rparr>"

lemma four_objects_facts:
  "linked_heap four_objects [4096, 4160, 4224, 4288]" "closed four_objects" "roots_ok four_objects [4113]"
  "\<forall>a al. heap four_objects a = Some al \<longrightarrow> ucast (a_mark al) \<noteq> (1 :: u32) \<and> a_pool al = 0"
  "live four_objects [4113] 4096" "live four_objects [4113] 4224" "live four_objects [4113] 4288"
proof -
  note defs = four_objects_def linked_cons_def a_cons_def lisp_start_def
  have dom: "dom (heap four_objects) = {4096, 4160, 4224, 4288}" by (auto simp: four_objects_def)
  have cells: "heap four_objects 4096 = Some (linked_cons 0 4160 4241 4305)" "heap four_objects 4160 = Some (linked_cons 4096 4224 nil nil)"
    "heap four_objects 4224 = Some (linked_cons 4160 4288 nil nil)" "heap four_objects 4288 = Some (linked_cons 4224 0 nil nil)"
    "first_a four_objects = 4096" "last_a four_objects = 4288" by (simp_all add: four_objects_def)
  show "linked_heap four_objects [4096, 4160, 4224, 4288]"
    unfolding linked_heap_links dom by (simp add: cells linked_cons_def)
  have heap: "heapp 4113" "heapp 4241" "heapp 4305" "\<not> heapp nil" by (simp_all add: heapp_def predicate_defs tag_defs nil_def)
  have obj: "obj_of 4113 = 4096" "obj_of 4241 = 4224" "obj_of 4305 = 4288" by (simp_all add: obj_of_def HEAP_MASK_def ALLOC_SIZE_def)
  have ch: "children (linked_cons p n x y) = Inr [x, y]" for p n x y by (simp add: children_def linked_cons_def a_cons_def)
  show "closed four_objects" unfolding closed_def dom by (simp add: cells ch heap obj)
  show "roots_ok four_objects [4113]" unfolding roots_ok_def dom by (simp add: obj)
  have "ucast (- 1 :: 24 word) \<noteq> (1 :: u32)" by code_simp
  then show "\<forall>a al. heap four_objects a = Some al \<longrightarrow> ucast (a_mark al) \<noteq> (1 :: u32) \<and> a_pool al = 0"
    by (auto simp: defs)
  have 1: "reached (held four_objects) (dom (heap four_objects)) [4113] (obj_of 4113)" by (rule reached.root) (simp_all add: dom heap obj)
  then show "live four_objects [4113] 4096" by (simp add: live_def obj)
  have h: "held four_objects 4096 = [4241, 4305]" by (simp add: held_def cells ch)
  have "reached (held four_objects) (dom (heap four_objects)) [4113] (obj_of 4241)" "reached (held four_objects) (dom (heap four_objects)) [4113] (obj_of 4305)"
    by (rule reached.child[OF 1]; simp add: obj heap dom h)+
  then show "live four_objects [4113] 4224" "live four_objects [4113] 4288" by (simp_all add: live_def obj)
qed



end
