(* ===== verification/Lisp_Std.thy ===== *)
theory Lisp_Std
  imports Lisp_Reader Lisp_GC
begin

text \<open>
  The functions that Lisp programs call (\<^verbatim>\<open>src/lisp/lib/std.c\<close>, \<^verbatim>\<open>src/lisp/lib/classes.c\<close>) and the table
  of functions that they are entered in (\<^verbatim>\<open>src/lisp/compiler.h\<close>).
\<close>

section \<open>Arithmetic\<close>

text \<open>All operations are on unsigned words.\<close>

definition l_plus :: "value_t \<Rightarrow> value_t \<Rightarrow> value_t" where
  "l_plus a b = (if \<not> integerp a \<or> \<not> integerp b then nil else push_bit 2 (drop_bit 2 a + drop_bit 2 b) OR INT_TAG)"

definition l_minus :: "value_t \<Rightarrow> value_t \<Rightarrow> value_t" where
  "l_minus a b = (if \<not> integerp a \<or> \<not> integerp b then nil else push_bit 2 (drop_bit 2 a - drop_bit 2 b) OR INT_TAG)"

definition l_times :: "value_t \<Rightarrow> value_t \<Rightarrow> value_t" where
  "l_times a b = (if \<not> integerp a \<or> \<not> integerp b then nil else push_bit 2 (drop_bit 2 a * drop_bit 2 b) OR INT_TAG)"

definition l_divide :: "value_t \<Rightarrow> value_t \<Rightarrow> value_t res" where
  "l_divide a b =
     (if \<not> integerp a \<or> \<not> integerp b then Inr nil
      else if drop_bit 2 b = 0 then Inl DivByZero
      else Inr (push_bit 2 (drop_bit 2 a div drop_bit 2 b) OR INT_TAG))"

definition l_num_eq :: "value_t \<Rightarrow> value_t \<Rightarrow> value_t" where
  "l_num_eq a b = (if \<not> integerp a \<or> \<not> integerp b then nil else if drop_bit 2 a = drop_bit 2 b then lisp_t else nil)"

definition l_num_gt :: "value_t \<Rightarrow> value_t \<Rightarrow> value_t" where
  "l_num_gt a b = (if \<not> integerp a \<or> \<not> integerp b then nil else if drop_bit 2 b < drop_bit 2 a then lisp_t else nil)"

definition l_num_lt :: "value_t \<Rightarrow> value_t \<Rightarrow> value_t" where
  "l_num_lt a b = (if \<not> integerp a \<or> \<not> integerp b then nil else if drop_bit 2 a < drop_bit 2 b then lisp_t else nil)"

section \<open>Predicates\<close>

definition l_nilp :: "value_t \<Rightarrow> value_t" where "l_nilp v = (if nilp v then lisp_t else nil)"
definition l_integerp :: "value_t \<Rightarrow> value_t" where "l_integerp v = (if integerp v then lisp_t else nil)"
definition l_symbolp :: "value_t \<Rightarrow> value_t" where "l_symbolp v = (if symbolp v then lisp_t else nil)"
definition l_closurep :: "value_t \<Rightarrow> value_t" where "l_closurep v = (if closurep v then lisp_t else nil)"
definition l_consp :: "value_t \<Rightarrow> value_t" where "l_consp v = (if consp v then lisp_t else nil)"
definition l_classp :: "value_t \<Rightarrow> value_t" where "l_classp v = (if classp v then lisp_t else nil)"

definition l_listp :: "value_t \<Rightarrow> lisp \<Rightarrow> value_t res option" where
  "l_listp v s = run_bind (listp v s) (\<lambda>l. Some (Inr (if l then lisp_t else nil)))"

section \<open>Lists\<close>

definition l_elt :: "value_t \<Rightarrow> value_t \<Rightarrow> lisp \<Rightarrow> value_t res option" where
  "l_elt sq i s = run_bind (listp sq s) (\<lambda>l. if \<not> l \<or> \<not> integerp i then Some (Inr nil) else Some (elt sq (drop_bit 2 i) s))"

text \<open>The inner loop of \<open>l_append\<close>, over the elements of one list.\<close>

partial_function (option) append_elems :: "value_t \<Rightarrow> value_t \<Rightarrow> val_ref \<Rightarrow> lisp \<Rightarrow> (value_t \<times> val_ref \<times> lisp) res option" where
  "append_elems i first last_ref s =
     (if nilp i then Some (Inr (first, last_ref, s))
      else
        run_bind (Some (car i s)) (\<lambda>b.
        run_bind (Some (lisp_cons b nil s)) (\<lambda>(new, s1).
        run_bind (Some (if last_ref = NullRef then Inr (new, s1) else assign_ref last_ref first new s1)) (\<lambda>(first1, s2).
        run_bind (Some (cdr i s2)) (\<lambda>r. append_elems r first1 (CdrRef new) s2)))))"

partial_function (option) append_items :: "value_t \<Rightarrow> value_t \<Rightarrow> val_ref \<Rightarrow> lisp \<Rightarrow> (value_t \<times> lisp) res option" where
  "append_items item first last_ref s =
     (if nilp item then Some (Inr (first, s))
      else
        run_bind (Some (car item s)) (\<lambda>a.
        run_bind (listp a s) (\<lambda>l.
        run_bind
          (if \<not> l then
             run_bind (Some (lisp_cons a nil s)) (\<lambda>(new, s1).
             run_bind (Some (assign_ref last_ref first new s1)) (\<lambda>(first1, s2). Some (Inr (first1, CdrRef new, s2))))
           else append_elems a first last_ref s) (\<lambda>(first1, last1, s1).
        run_bind (Some (cdr item s1)) (\<lambda>r. append_items r first1 last1 s1)))))"

definition l_append :: "value_t \<Rightarrow> lisp \<Rightarrow> (value_t \<times> lisp) res option" where
  "l_append l s = (if nilp l then Some (Inr (l, s)) else append_items l nil NullRef s)"

section \<open>Symbols and strings\<close>

definition l_string_to_symbol :: "value_t \<Rightarrow> lisp \<Rightarrow> (value_t \<times> lisp) res" where
  "l_string_to_symbol v s = (if \<not> stringp v then Inr (nil, s) else res_bind (text_at v STRING_TAG s) (\<lambda>b. symval b s))"

definition l_symbol_to_string :: "value_t \<Rightarrow> lisp \<Rightarrow> (value_t \<times> lisp) res" where
  "l_symbol_to_string v s = (if \<not> symbolp v then Inr (nil, s) else res_bind (text_at v SYMBOL_TAG s) (\<lambda>b. strval b s))"

definition l_string_length :: "value_t \<Rightarrow> lisp \<Rightarrow> value_t res" where
  "l_string_length v s =
     (if \<not> stringp v then Inr (intval 0)
      else res_bind (text_at v STRING_TAG s) (\<lambda>b. res_bind (strlen b) (\<lambda>n. Inr (intval (of_nat n)))))"

text \<open>
  The bytes copied so far are \<open>acc\<close>, in a buffer that moves to the next address with every \<open>realloc\<close>.
  There is no room for a zero byte, and none is written.
\<close>

partial_function (option) concat_loop :: "value_t \<Rightarrow> u32 \<Rightarrow> u8 list \<Rightarrow> lisp \<Rightarrow> (u32 \<times> u8 list \<times> lisp) res option" where
  "concat_loop str a acc s =
     (if nilp str then Some (Inr (a, acc, s))
      else
        run_bind (Some (car str s)) (\<lambda>v.
        run_bind (Some (cdr str s)) (\<lambda>r.
        if \<not> stringp v then concat_loop r a acc s
        else
          run_bind (Some (text_at v STRING_TAG s)) (\<lambda>b.
          run_bind (Some (strlen b)) (\<lambda>n.
          run_bind (Some (malloc_aligned s)) (\<lambda>(a1, s1). concat_loop r a1 (acc @ take n b) s1))))))"

definition l_concat :: "value_t \<Rightarrow> lisp \<Rightarrow> (value_t \<times> lisp) res option" where
  "l_concat strings s =
     run_bind (Some (malloc_aligned s)) (\<lambda>(a, s1).
     run_bind (concat_loop strings a [] s1) (\<lambda>(a1, acc, s2).
     run_bind (Some (add_this_alloc a1 STRING_TAG (TextBody acc) s2)) (\<lambda>s3. Some (Inr (mk_ptr a1 STRING_TAG, s3)))))"

text \<open>\<open>symcnt\<close> is the static counter; \<open>snprintf\<close> has 31 characters for the name.\<close>

definition l_gensym :: "int \<Rightarrow> lisp \<Rightarrow> (value_t \<times> int \<times> lisp) res" where
  "l_gensym symcnt s =
     res_bind (symval (take 31 (bytes_of_string ''-sym-'' @ dec_int symcnt) @ [0]) s) (\<lambda>(v, s1). Inr (v, symcnt + 1, s1))"

section \<open>Classes\<close>

text \<open>Whether there is a reference to the member; \<open>index\<close> is an \<open>int\<close>.\<close>

definition class_member_ref :: "value_t \<Rightarrow> int \<Rightarrow> lisp \<Rightarrow> bool res" where
  "class_member_ref c index s =
     (if \<not> classp c then Inr False else res_bind (class_at c s) (\<lambda>ob. Inr (index < int (length (cs_members ob)))))"

definition l_class_member :: "value_t \<Rightarrow> value_t \<Rightarrow> lisp \<Rightarrow> value_t res" where
  "l_class_member c index s =
     (if \<not> integerp index then Inr nil
      else
        res_bind (class_member_ref c (sint (valint index)) s) (\<lambda>ok.
        if ok then res_bind (class_at c s) (\<lambda>ob. arr_get (cs_members ob) (sint (valint index))) else Inr nil))"

definition l_set_class_member :: "value_t \<Rightarrow> value_t \<Rightarrow> value_t \<Rightarrow> lisp \<Rightarrow> (value_t \<times> lisp) res" where
  "l_set_class_member c index v s =
     (if \<not> integerp index then Inr (nil, s)
      else
        res_bind (class_member_ref c (sint (valint index)) s) (\<lambda>ok.
        if ok then
          res_bind (class_at c s) (\<lambda>ob.
          res_bind (arr_set (cs_members ob) (sint (valint index)) v) (\<lambda>ms.
          Inr (nil, put_body c CLASS_TAG (ClassBody (ob\<lparr>cs_members := ms\<rparr>)) s)))
        else Inr (nil, s)))"

definition l_make_class :: "value_t \<Rightarrow> value_t \<Rightarrow> lisp \<Rightarrow> (value_t \<times> lisp) res" where
  "l_make_class ty members s =
     (if \<not> integerp members \<or> \<not> symbolp ty then Inr (nil, s)
      else new_object CLASS_TAG (ClassBody \<lparr>cs_type = ty, cs_cdata = 0, cs_members = replicate (nat (sint (valint members))) nil\<rparr>) s)"

section \<open>The table of functions\<close>

datatype namespace_t = NS_FUNCTION | NS_MACRO | NS_ANONYMOUS

record env_function =
  fn_name :: "u8 list"
  fn_args :: args
  fn_namespace :: namespace_t
  fn_code :: u32

text \<open>The lists from \<open>first\<close> and \<open>first_loaded\<close> on.\<close>

record environment =
  env_functions :: "env_function list"
  loaded_files :: "u8 list list"

definition new_args :: args where
  "new_args = \<lparr>num_required = 0, num_optional = 0, variadic = False, optional_arguments = []\<rparr>"

definition add_function :: "environment \<Rightarrow> u8 list \<Rightarrow> u32 \<Rightarrow> args \<Rightarrow> namespace_t \<Rightarrow> environment" where
  "add_function env name func ar ns = env\<lparr>env_functions := \<lparr>fn_name = name, fn_args = ar, fn_namespace = ns, fn_code = func\<rparr> # env_functions env\<rparr>"

definition add_c_varargs :: "environment \<Rightarrow> u8 list \<Rightarrow> u32 \<Rightarrow> u32 \<Rightarrow> environment" where
  "add_c_varargs env name func nargs = add_function env name func (new_args\<lparr>num_required := nargs, variadic := True\<rparr>) NS_FUNCTION"

definition add_c_function :: "environment \<Rightarrow> u8 list \<Rightarrow> u32 \<Rightarrow> u32 \<Rightarrow> environment" where
  "add_c_function env name func nargs = add_function env name func (new_args\<lparr>num_required := nargs\<rparr>) NS_FUNCTION"

text \<open>\<open>find_function\<close> of \<^verbatim>\<open>src/lisp/compiler.dasc\<close>.\<close>

fun find_in :: "env_function list \<Rightarrow> u8 list \<Rightarrow> env_function option res" where
  "find_in [] name = Inr None"
| "find_in (f # fs) name = res_bind (strcmp (fn_name f) name) (\<lambda>r. if r \<noteq> 0 then find_in fs name else Inr (Some f))"

definition find_function :: "environment \<Rightarrow> u8 list \<Rightarrow> env_function option res" where
  "find_function env name = find_in (env_functions env) name"

text \<open>The value is the address of an environment, taken for an integer; \<open>envs\<close> are the environments by address.\<close>

fun list_names :: "env_function list \<Rightarrow> value_t \<Rightarrow> lisp \<Rightarrow> (value_t \<times> lisp) res" where
  "list_names [] acc s = Inr (acc, s)"
| "list_names (f # fs) acc s =
     res_bind (symval (fn_name f) s) (\<lambda>(n, s1). res_bind (lisp_cons n acc s1) (\<lambda>(acc1, s2). list_names fs acc1 s2))"

definition l_list_functions :: "(u32 \<rightharpoonup> environment) \<Rightarrow> value_t \<Rightarrow> lisp \<Rightarrow> (value_t \<times> lisp) res" where
  "l_list_functions envs env s =
     (if \<not> integerp env then Inr (nil, s)
      else case envs env of None \<Rightarrow> Inl OutOfBounds | Some e \<Rightarrow> list_names (env_functions e) nil s)"

definition l_gc_stats :: "gc \<Rightarrow> (value_t \<times> gc) res option" where
  "l_gc_stats g =
     run_bind (gc_get_stats g) (\<lambda>st.
     run_bind (Some (lisp_cons (intval (stats_runs st)) nil (lisp_of g))) (\<lambda>(x, s1).
     run_bind (Some (lisp_cons (intval (total_allocs st)) x s1)) (\<lambda>(v, s2). Some (Inr (v, g\<lparr>lisp_of := s2\<rparr>)))))"

section \<open>Input and output\<close>

definition l_printval :: "(u32 \<Rightarrow> u8 list) \<Rightarrow> value_t \<Rightarrow> lisp \<Rightarrow> (value_t \<times> u8 list) res option" where
  "l_printval ptr v s = run_bind (printval ptr v s) (\<lambda>p. Some (Inr (nil, p)))"

text \<open>\<open>lines\<close> are the lines that are typed, with their zero bytes; the prompt and the error report are output only.\<close>

fun l_read_stdin :: "u8 list list \<Rightarrow> lisp \<Rightarrow> (value_t \<times> u8 list list \<times> lisp) res option" where
  "l_read_stdin [] s = Some (Inr (nil, [], s))"
| "l_read_stdin (line # lines) s =
     run_bind (Some (new_stristream_nt line)) (\<lambda>st.
     run_bind (read1 str_io st s) (\<lambda>(r, _, s1).
     case r of Inl _ \<Rightarrow> l_read_stdin lines s1 | Inr v \<Rightarrow> Some (Inr (v, lines, s1))))"

text \<open>\<open>call\<close> is \<open>call_list_closure\<close>, which runs the compiled code.\<close>

definition l_apply :: "(closure \<Rightarrow> value_t \<Rightarrow> lisp \<Rightarrow> (value_t \<times> lisp) res option) \<Rightarrow> value_t \<Rightarrow> value_t \<Rightarrow> lisp \<Rightarrow> (value_t \<times> lisp) res option" where
  "l_apply call func ar s =
     (if \<not> closurep func then Some (Inr (nil, s))
      else
        run_bind (listp ar s) (\<lambda>l.
        if \<not> l then Some (Inr (nil, s)) else run_bind (Some (closure_at func s)) (\<lambda>c. call c ar s)))"

section \<open>Loading the library\<close>

text \<open>
  \<open>code\<close> is the address that the linker gave a C function. A name in the table with its number of
  required arguments; the functions \<open>append\<close> and \<open>concat\<close> take any number.
\<close>

definition std_functions :: "(bool \<times> string \<times> string \<times> nat) list" where
  "std_functions =
    [(False, ''+'', ''l_plus'', 2), (False, ''-'', ''l_minus'', 2), (False, ''*'', ''l_times'', 2), (False, ''/'', ''l_divide'', 2),
     (False, ''='', ''l_num_eq'', 2), (False, ''<'', ''l_num_lt'', 2), (False, ''>'', ''l_num_gt'', 2),
     (False, ''car'', ''car'', 1), (False, ''cdr'', ''cdr'', 1), (False, ''cons'', ''cons'', 2),
     (False, ''print'', ''l_printval'', 1), (False, ''read-stdin'', ''l_read_stdin'', 0), (False, ''apply'', ''l_apply'', 2),
     (True, ''append'', ''l_append'', 0),
     (False, ''nilp'', ''l_nilp'', 1), (False, ''listp'', ''l_listp'', 1), (False, ''integerp'', ''l_integerp'', 1),
     (False, ''symbolp'', ''l_symbolp'', 1), (False, ''closurep'', ''l_closurep'', 1), (False, ''functionp'', ''l_closurep'', 1),
     (False, ''consp'', ''l_consp'', 1),
     (False, ''elt'', ''l_elt'', 2),
     (False, ''gc-stats'', ''l_gc_stats'', 0), (False, ''env-functions'', ''l_list_functions'', 1),
     (True, ''concat'', ''l_concat'', 0), (False, ''string-length'', ''l_string_length'', 1),
     (False, ''string->symbol'', ''l_string_to_symbol'', 1), (False, ''symbol->string'', ''l_symbol_to_string'', 1),
     (False, ''gensym'', ''l_gensym'', 0)]"

definition class_functions :: "(bool \<times> string \<times> string \<times> nat) list" where
  "class_functions =
    [(False, ''set-class-member'', ''l_set_class_member'', 3), (False, ''class-member'', ''l_class_member'', 2), (False, ''make-class'', ''l_make_class'', 2)]"

definition add_table :: "(string \<Rightarrow> u32) \<Rightarrow> (bool \<times> string \<times> string \<times> nat) list \<Rightarrow> environment \<Rightarrow> environment" where
  "add_table code table env =
     fold (\<lambda>(va, name, func, n) e.
       if va then add_c_varargs e (bytes_of_string name @ [0]) (code func) (of_nat n)
       else add_c_function e (bytes_of_string name @ [0]) (code func) (of_nat n)) table env"

definition load_classes :: "(string \<Rightarrow> u32) \<Rightarrow> environment \<Rightarrow> environment" where
  "load_classes code env = add_table code class_functions env"

text \<open>
  \<open>strtok\<close> of the C library on a string without its zero byte: it skips separators, the token
  ends at the next one, which becomes a zero byte; the rest starts behind it.
\<close>

definition strtok :: "u8 list \<Rightarrow> (u8 list \<times> u8 list) option" where
  "strtok str =
     (let r = dropWhile (\<lambda>c. c = 58) str in
      if r = [] then None else Some (takeWhile (\<lambda>c. c \<noteq> 58) r, drop 1 (dropWhile (\<lambda>c. c \<noteq> 58) r)))"

lemma strtok_shorter: "strtok str = Some (tok, rest) \<Longrightarrow> length rest < length str"
proof -
  assume a: "strtok str = Some (tok, rest)"
  let ?r = "dropWhile (\<lambda>c. c = 58) str"
  have r: "?r \<noteq> []" "rest = drop 1 (dropWhile (\<lambda>c. c \<noteq> 58) ?r)" using a by (auto simp: strtok_def Let_def split: if_splits)
  have "length (dropWhile (\<lambda>c. c \<noteq> 58) ?r) \<le> length ?r" "length ?r \<le> length str" by (rule length_dropWhile_le)+
  then show ?thesis using r by (cases ?r) (auto simp: length_dropWhile_le)
qed

text \<open>What \<open>getenv\<close> finds after the first call of \<open>strtok\<close> on it: the string ends with the first token.\<close>

definition after_strtok :: "u8 list \<Rightarrow> u8 list" where
  "after_strtok str = takeWhile (\<lambda>c. c = 58) str @ takeWhile (\<lambda>c. c \<noteq> 58) (dropWhile (\<lambda>c. c = 58) str)"

text \<open>\<open>path\<close> has 512 bytes. \<open>file_exists\<close> and \<open>load\<close> are parameters.\<close>

definition lib_path :: "u8 list \<Rightarrow> u8 list" where
  "lib_path p = take 511 p"

function try_paths :: "(u8 list \<Rightarrow> bool) \<Rightarrow> (u8 list \<Rightarrow> 'e \<Rightarrow> bool \<times> 'e) \<Rightarrow> u8 list \<Rightarrow> u8 list \<Rightarrow> 'e \<Rightarrow> bool \<times> 'e" where
  "try_paths file_exists load name str env =
     (case strtok str of
        None \<Rightarrow> (False, env)
      | Some (p, rest) \<Rightarrow>
          let path1 = lib_path (p @ [47] @ name @ bytes_of_string ''.lisp'');
              path2 = lib_path (p @ [47] @ name @ [47] @ name @ bytes_of_string ''.lisp'') in
          if file_exists path1 then load path1 env
          else if file_exists path2 then load path2 env
          else try_paths file_exists load name rest env)"
  by pat_completeness auto
termination
  by (relation "measure (\<lambda>(_, _, _, str, _). length str)") (auto dest: strtok_shorter)

declare try_paths.simps [simp del]

text \<open>\<open>var\<close> is the variable \<open>LISP_LIBRARY_PATH\<close> of the process, which \<open>strtok\<close> writes into.\<close>

definition load_library :: "(u8 list \<Rightarrow> bool) \<Rightarrow> (u8 list \<Rightarrow> 'e \<Rightarrow> bool \<times> 'e) \<Rightarrow> u8 list \<Rightarrow> u8 list option \<Rightarrow> 'e \<Rightarrow> bool \<times> 'e \<times> u8 list option" where
  "load_library file_exists load name var env =
     (let (ok, env1) = try_paths file_exists load name (case var of None \<Rightarrow> bytes_of_string ''/lib/lisp'' | Some v \<Rightarrow> v) env in
      (ok, env1, map_option after_strtok var))"

definition load_std :: "(u8 list \<Rightarrow> bool) \<Rightarrow> (u8 list \<Rightarrow> environment \<Rightarrow> bool \<times> environment) \<Rightarrow> (string \<Rightarrow> u32) \<Rightarrow> u8 list option \<Rightarrow> environment \<Rightarrow>
    (error + unit) \<times> environment \<times> u8 list option" where
  "load_std file_exists load code var env =
     (let env1 = load_classes code (add_table code std_functions env);
          (ok, env2, var1) = load_library file_exists load (bytes_of_string ''std'') var env1 in
      (if \<not> ok then
         Inl (THROW ENOTFOUND no_loc
           (bytes_of_string ''Could not load library `std`, make sure your $LISP_LIBRARY_PATH is correct.''))
       else Inr (), env2, var1))"

section \<open>Properties: numbers\<close>

lemma shifted: "unat (drop_bit 2 (v :: u32)) = unat v div 4"
  by (simp add: drop_bit_eq_div unat_div)

lemma intval_shifted: "push_bit 2 x OR INT_TAG = intval x"
  by (simp add: intval_def)

lemma intval_take_bit: "intval (take_bit 30 x) = intval x"
  by (auto intro!: bit_word_eqI simp: intval_def INT_TAG_def bit_push_bit_iff bit_take_bit_iff dest: bit_imp_le_length)

lemma unat_valint_intval: "unat (valint (intval x)) = unat x mod 2 ^ 30"
  unfolding valint_intval unsigned_take_bit_eq by (rule take_bit_eq_mod)

text \<open>
  C9. The arithmetic of Lisp numbers is that of naturals modulo \<open>2 ^ 30\<close>; a division by 0 is a fault,
  and a comparison compares them without a sign.
\<close>

theorem arithmetic_mod_2_30:
  assumes "integerp a" "integerp b"
  shows "unat (valint (l_plus a b)) = (unat (valint a) + unat (valint b)) mod 2 ^ 30 \<and>
    unat (valint (l_times a b)) = (unat (valint a) * unat (valint b)) mod 2 ^ 30 \<and>
    (unat (valint (l_minus a b)) + unat (valint b)) mod 2 ^ 30 = unat (valint a) \<and>
    (l_divide a b = (if valint b = 0 then Inl DivByZero else Inr (intval (valint a div valint b)))) \<and>
    (l_num_lt a b = (if unat (valint a) < unat (valint b) then lisp_t else nil)) \<and>
    integerp (l_plus a b) \<and> integerp (l_minus a b) \<and> integerp (l_times a b)"
proof -
  let ?x = "drop_bit 2 a" and ?y = "drop_bit 2 b"
  have v: "valint a = ?x" "valint b = ?y" using assms by (simp_all add: valint_def)
  have lt: "unat ?x < 2 ^ 30" "unat ?y < 2 ^ 30" using v valint_bounds by metis+
  have ops: "l_plus a b = intval (?x + ?y)" "l_times a b = intval (?x * ?y)" "l_minus a b = intval (?x - ?y)"
    using assms by (simp_all add: l_plus_def l_times_def l_minus_def intval_shifted)
  have dvd: "(2 :: nat) ^ 30 dvd 2 ^ 32" by (rule le_imp_power_dvd) simp
  have plus: "unat (?x + ?y) mod 2 ^ 30 = (unat ?x + unat ?y) mod 2 ^ 30" using dvd by (simp add: unat_word_ariths mod_mod_cancel)
  have times: "unat (?x * ?y) mod 2 ^ 30 = (unat ?x * unat ?y) mod 2 ^ 30" using dvd by (simp add: unat_word_ariths mod_mod_cancel)
  have "unat (?x - ?y + ?y) mod 2 ^ 30 = (unat (?x - ?y) + unat ?y) mod 2 ^ 30" using dvd by (simp only: unat_word_ariths mod_mod_cancel) (simp add: mod_mod_cancel)
  then have minus: "(unat (?x - ?y) mod 2 ^ 30 + unat ?y) mod 2 ^ 30 = unat ?x" using lt(1) by (simp add: mod_add_left_eq)
  show ?thesis
    using assms plus times minus unfolding ops v by (simp add: unat_valint_intval l_divide_def intval_shifted l_num_lt_def word_less_nat_alt)
qed

lemma arithmetic_mod_2_30_witness:
  "unat (valint (l_plus (intval 3) (intval 4))) = 7 \<and> l_divide (intval 3) (intval 0) = Inl DivByZero"
proof -
  have v: "valint (intval 3) = 3" "valint (intval 4) = 4" "valint (intval 0) = 0" by (rule valint_small, simp)+
  show ?thesis
    using arithmetic_mod_2_30[OF intval_integerp intval_integerp, of 3 4] arithmetic_mod_2_30[OF intval_integerp intval_integerp, of 3 0]
    unfolding v by simp
qed

section \<open>Properties: lists\<close>

lemma spine_list_at: "spine s X vs \<Longrightarrow> list_at s (head_of X) vs"
proof (induction vs arbitrary: X)
  case Nil
  then show ?case by (simp add: spine_def head_of_def)
next
  case (Cons v vs)
  then obtain x X' where X: "X = x # X'" by (cases X) (auto simp: spine_def)
  then show ?case using spine_Cons[of s x X' v vs] Cons by (auto simp: head_of_def)
qed

text \<open>A list of new conses, with the elements \<open>vs\<close>, that was made since \<open>s0\<close> from \<open>m\<close> addresses.\<close>

definition fresh_list :: "lisp \<Rightarrow> nat \<Rightarrow> lisp \<Rightarrow> value_t list \<Rightarrow> value_t list \<Rightarrow> bool" where
  "fresh_list s0 m s X vs \<longleftrightarrow> grown s0 m s \<and> spine s X vs \<and> (\<forall>x\<in>set X. hdr_of x CONS_TAG \<notin> dom (heap s0))"

definition end_ref :: "value_t list \<Rightarrow> val_ref" where
  "end_ref X = (if X = [] then NullRef else CdrRef (last X))"

lemma fresh_list_step:
  assumes f: "fresh_list s0 m s X vs" and a: "free_addrs s \<noteq> []"
  shows "\<exists>x s1 s2. lisp_cons b nil s = Inr (x, s1) \<and>
    (if end_ref X = NullRef then Inr (x, s1) else assign_ref (end_ref X) (head_of X) x s1) = Inr (head_of (X @ [x]), s2) \<and> fresh_list s0 (Suc m) s2 (X @ [x]) (vs @ [b])"
proof -
  note F = f[unfolded fresh_list_def]
  obtain x s1 where x: "lisp_cons b nil s = Inr (x, s1)" "grown s 1 s1" "consp x"
    "cons_at x s1 = Inr \<lparr>c_car = b, c_cdr = nil, c_line = 0, c_name = None\<rparr>" "hdr_of x CONS_TAG \<notin> dom (heap s)"
  proof -
    have "wf_lisp s" using F by (simp add: grown_def)
    from cons_fresh[OF this a, of b nil] that show thesis by blast
  qed
  have sp: "spine s1 X vs" using F spine_keeps grownD(2)[OF x(2)] by blast
  have nx: "x \<notin> set X" using spine_dom[of s X vs] F x(5) by blast
  obtain s2 where 2: "assign_ref (if X = [] then VarRef else CdrRef (last X)) (head_of X) x s1 = Inr (head_of (X @ [x]), s2)" "spine s2 (X @ [x]) (vs @ [b])"
    "s2 = s1 \<or> (\<exists>b. X \<noteq> [] \<and> s2 = put_body (last X) CONS_TAG b s1)" using spine_append[OF sp nx x(3,4)] by auto
  have g1: "grown s0 (Suc m) s1" using grown_trans[OF _ x(2), of s0 m] F by simp
  have "X \<noteq> [] \<Longrightarrow> hdr_of (last X) CONS_TAG \<notin> dom (heap s0)" using F by simp
  then have g2: "grown s0 (Suc m) s2" using 2(3) g1 grown_put by blast
  have "dom (heap s0) \<subseteq> dom (heap s)" using F by (fastforce simp: grown_def keeps_def)
  then have "fresh_list s0 (Suc m) s2 (X @ [x]) (vs @ [b])" unfolding fresh_list_def using g2 2(2) F x(5) by auto
  moreover have "(if end_ref X = NullRef then Inr (x, s1) else assign_ref (end_ref X) (head_of X) x s1) = Inr (head_of (X @ [x]), s2)"
    using 2(1) by (cases "X = []") (simp_all add: end_ref_def assign_ref_def)
  ultimately show ?thesis using x(1) by blast
qed

lemma fresh_list_room: "fresh_list s0 m s X vs \<Longrightarrow> length (free_addrs s) = length (free_addrs s0) - m"
  by (simp add: fresh_list_def grown_def)

lemma append_elems_ok:
  assumes "list_at s0 i xs" "fresh_list s0 m s X vs" "m + length xs \<le> length (free_addrs s0)"
  shows "\<exists>s' X'. append_elems i (head_of X) (end_ref X) s = Some (Inr (head_of X', end_ref X', s')) \<and> fresh_list s0 (m + length xs) s' X' (vs @ xs)"
  using assms
proof (induction xs arbitrary: i s X vs m)
  case Nil
  then show ?case by (subst append_elems.simps) auto
next
  case (Cons b xs)
  note keeps = Cons.prems(2)[unfolded fresh_list_def grown_def]
  have l: "list_at s i (b # xs)" using list_at_keeps[OF Cons.prems(1)] keeps by blast
  have "free_addrs s \<noteq> []" using fresh_list_room[OF Cons.prems(2)] Cons.prems(3) by auto
  from fresh_list_step[OF Cons.prems(2) this, of b] obtain x s1 s2 where
    1: "lisp_cons b nil s = Inr (x, s1)" "(if end_ref X = NullRef then Inr (x, s1) else assign_ref (end_ref X) (head_of X) x s1) = Inr (head_of (X @ [x]), s2)"
      "fresh_list s0 (Suc m) s2 (X @ [x]) (vs @ [b])" by blast
  obtain c where c: "consp i" "cons_at i s0 = Inr c" "list_at s0 (c_cdr c) xs" using Cons.prems(1) by auto
  have cd: "cdr i s2 = Inr (c_cdr c)" using c cons_at_keeps[OF c(2)] 1(3) by (simp add: cdr_def fresh_list_def grown_def)
  have "\<not> nilp i" "car i s = Inr b" using c(1) car_list[OF l] by (simp_all add: consp_other)
  then have "append_elems i (head_of X) (end_ref X) s = append_elems (c_cdr c) (head_of (X @ [x])) (CdrRef x) s2"
    using 1(1,2) cd by (subst append_elems.simps) simp
  moreover have "end_ref (X @ [x]) = CdrRef x" by (simp add: end_ref_def)
  ultimately show ?case using Cons.IH[OF c(3) 1(3)] Cons.prems(3) by simp
qed

lemma append_items_ok:
  assumes "list_at s0 item ls" "list_all2 (list_at s0) ls xss" "fresh_list s0 m s X vs" "m + length (concat xss) \<le> length (free_addrs s0)"
  shows "\<exists>s' X'. append_items item (head_of X) (end_ref X) s = Some (Inr (head_of X', s')) \<and> fresh_list s0 (m + length (concat xss)) s' X' (vs @ concat xss)"
  using assms(2,1,3,4)
proof (induction arbitrary: item s X vs m rule: list_all2_induct)
  case Nil
  then show ?case by (subst append_items.simps) auto
next
  case (Cons a ls xs xss)
  have keeps: "keeps s0 s" using Cons.prems(2) by (simp add: fresh_list_def grown_def)
  obtain c where c: "consp item" "cons_at item s0 = Inr c" "c_car c = a" "list_at s0 (c_cdr c) ls" using Cons.prems(1) by auto
  have "m + length xs \<le> length (free_addrs s0)" using Cons.prems(3) by simp
  from append_elems_ok[OF Cons.hyps(1) Cons.prems(2) this] obtain s1 X1 where
    1: "append_elems a (head_of X) (end_ref X) s = Some (Inr (head_of X1, end_ref X1, s1))" "fresh_list s0 (m + length xs) s1 X1 (vs @ xs)" by blast
  have "car item s = Inr a" using c(1,3) cons_at_keeps[OF c(2) keeps] by (simp add: car_def)
  moreover have "listp a s = Some (Inr True)" by (rule listp_list[OF list_at_keeps[OF Cons.hyps(1) keeps]])
  moreover have "cdr item s1 = Inr (c_cdr c)" using c(1) cons_at_keeps[OF c(2)] 1(2) by (simp add: cdr_def fresh_list_def grown_def)
  ultimately have "append_items item (head_of X) (end_ref X) s = append_items (c_cdr c) (head_of X1) (end_ref X1) s1"
    using 1(1) c(1) by (subst append_items.simps) (simp add: consp_other)
  then show ?case using Cons.IH[OF c(4) 1(2)] Cons.prems(3) by (simp add: add.assoc)
qed


lemma list_cons_next:
  assumes "wf_lisp s" "n < length (free_addrs s)" "list_at s v xs"
  shows "\<exists>w s'. wf_lisp s' \<and> length (free_addrs s') = length (free_addrs s) - 1 \<and> keeps s s' \<and> list_at s' w (x # xs)"
proof -
  have "free_addrs s \<noteq> []" using assms(2) by auto
  then obtain w s' where g: "grown s 1 s'" "list_at s' w (x # xs)" using list_cons_ok[OF assms(1) _ assms(3)] by blast
  show ?thesis using grownD(1)[OF g(1)] grownD(2)[OF g(1)] grownD(3)[OF g(1)] g(2) by blast
qed


section \<open>Properties: strings\<close>

lemma strlen_no_zero: "0 \<notin> set b \<Longrightarrow> strlen b = Inl OutOfBounds"
  by (induction b) auto

text \<open>The strings of a list and the bytes that \<open>concat\<close> joins.\<close>

definition string_at :: "lisp \<Rightarrow> value_t \<Rightarrow> u8 list \<Rightarrow> bool" where
  "string_at s v cs \<longleftrightarrow> (if stringp v then \<exists>b. text_at v STRING_TAG s = Inr b \<and> cstring b cs else cs = [])"

lemma string_at_no_zero: "list_all2 (string_at s) vs css \<Longrightarrow> 0 \<notin> set (concat css)"
  by (induction rule: list_all2_induct) (auto simp: string_at_def cstring_def split: if_splits)

lemma concat_loop_ok:
  assumes "list_at s str vs" "list_all2 (string_at s) vs css" "keeps s t" "taken t a" "length vs \<le> length (free_addrs t)"
  shows "\<exists>a' t' k. concat_loop str a acc t = Some (Inr (a', acc @ concat css, t')) \<and> k \<le> length vs \<and> grown t k t' \<and> heap t' = heap t \<and> taken t' a'"
  using assms(2,1,3-5)
proof (induction arbitrary: str t a acc rule: list_all2_induct)
  case Nil
  then show ?case by (intro exI[of _ a] exI[of _ t] exI[of _ 0]) (subst concat_loop.simps, simp add: grown_refl taken_def)
next
  case (Cons v vs cs css)
  obtain c where c: "consp str" "cons_at str s = Inr c" "c_car c = v" "list_at s (c_cdr c) vs" using Cons.prems(1) by auto
  have ad: "car str t = Inr v" "cdr str t = Inr (c_cdr c)" using c(1,3) cons_at_keeps[OF c(2) Cons.prems(2)] by (simp_all add: car_def cdr_def)
  show ?case
  proof (cases "stringp v")
    case False
    then have "concat_loop str a acc t = concat_loop (c_cdr c) a acc t" using ad c(1) by (subst concat_loop.simps) (simp add: consp_other)
    moreover have "cs = []" using Cons.hyps(1) False by (simp add: string_at_def)
    moreover obtain a' t' k where "concat_loop (c_cdr c) a acc t = Some (Inr (a', acc @ concat css, t'))" "k \<le> length vs" "grown t k t'" "heap t' = heap t" "taken t' a'"
      using Cons.IH[OF c(4) Cons.prems(2,3)] Cons.prems(4) by fastforce
    ultimately show ?thesis by (metis concat.simps(2) append_Nil le_SucI length_Cons)
  next
    case True
    then obtain b where b: "text_at v STRING_TAG s = Inr b" "cstring b cs" using Cons.hyps(1) by (auto simp: string_at_def)
    have tx: "text_at v STRING_TAG t = Inr b" by (rule text_at_keeps[OF b(1) Cons.prems(2)])
    have n: "strlen b = Inr (length cs)" "take (length cs) b = cs" using strlen_cstring[OF b(2)] b(2) by (auto simp: cstring_def)
    have ne: "free_addrs t \<noteq> []" "wf_lisp t" using Cons.prems(3,4) by (auto simp: taken_def)
    obtain a1 t1 where 1: "malloc_aligned t = Inr (a1, t1)" "grown t 1 t1" "heap t1 = heap t" "taken t1 a1"
      using fresh_malloc[OF ne(2,1)] by (auto simp: taken_def grown_def)
    have run: "concat_loop str a acc t = concat_loop (c_cdr c) a1 (acc @ cs) t1"
      using ad c(1) True tx n 1(1) by (subst concat_loop.simps) (simp add: consp_other)
    have "length vs \<le> length (free_addrs t1)" using Cons.prems(4) grownD(3)[OF 1(2)] by simp
    then obtain a' t' k where 2: "concat_loop (c_cdr c) a1 (acc @ cs) t1 = Some (Inr (a', (acc @ cs) @ concat css, t'))" "k \<le> length vs" "grown t1 k t'" "heap t' = heap t1" "taken t' a'"
      using Cons.IH[OF c(4) keeps_trans[OF Cons.prems(2) grownD(2)[OF 1(2)]] 1(4)] by blast
    have "grown t (1 + k) t'" by (rule grown_trans[OF 1(2) 2(3)])
    then show ?thesis using run 2 1(3) by (intro exI[of _ a'] exI[of _ t'] exI[of _ "1 + k"]) simp
  qed
qed

text \<open>
  C10. \<open>concat\<close> makes a string of the characters of all strings in the list, without a zero byte
  behind them: \<open>string-length\<close> of the result, and every other use of it as a C string, reads beyond it.
\<close>

theorem l_concat_unterminated:
  assumes "list_at s strings vs" "list_all2 (string_at s) vs css" "wf_lisp s" "Suc (length vs) \<le> length (free_addrs s)"
  shows "\<exists>w s'. l_concat strings s = Some (Inr (w, s')) \<and> stringp w \<and> text_at w STRING_TAG s' = Inr (concat css) \<and> wf_lisp s' \<and> keeps s s' \<and>
    l_string_length w s' = Inl OutOfBounds"
proof -
  have ne: "free_addrs s \<noteq> []" using assms(4) by auto
  obtain a s1 where 1: "malloc_aligned s = Inr (a, s1)" "grown s 1 s1" "heap s1 = heap s" "taken s1 a"
    using fresh_malloc[OF assms(3) ne] by (auto simp: taken_def grown_def)
  have "length vs \<le> length (free_addrs s1)" using assms(4) grownD(3)[OF 1(2)] by simp
  from concat_loop_ok[OF assms(1,2) grownD(2)[OF 1(2)] 1(4) this, of "[]"] obtain a' t k where
    2: "concat_loop strings a [] s1 = Some (Inr (a', concat css, t))" "grown s1 k t" "taken t a'" by auto
  note T = 2(3)[unfolded taken_def]
  obtain xs where xs: "linked_heap t xs" using T by (auto simp: wf_lisp_def)
  obtain s' al where s': "add_this_alloc a' STRING_TAG (TextBody (concat css)) t = Inr s'" "linked_heap s' (xs @ [a'])" "keeps t s'"
    "heap s' a' = Some al" "a_body al = TextBody (concat css)" "free_addrs s' = free_addrs t" "dom (heap s') = insert a' (dom (heap t))"
    using add_this_alloc_ok[OF xs] T by blast
  let ?w = "mk_ptr a' STRING_TAG"
  have w: "stringp ?w" "text_at ?w STRING_TAG s' = Inr (concat css)"
    using mk_ptr_simps[of a' STRING_TAG] T s'(4,5) by (simp_all add: stringp_def text_at_def object_at_def)
  have "heap s' x = None" if "x \<in> set (free_addrs t)" for x
  proof -
    have "x \<noteq> a'" "heap t x = None" using T that by (auto simp: wf_lisp_def avail_def)
    then have "x \<notin> dom (heap s')" using s'(7) by auto
    then show ?thesis by (simp add: domIff)
  qed
  then have "wf_lisp s'" using s'(2,6) T by (auto simp: wf_lisp_def avail_def)
  moreover have "keeps s s'" using keeps_trans[OF keeps_trans[OF grownD(2)[OF 1(2)] grownD(2)[OF 2(2)]] s'(3)] .
  moreover have "strlen (concat css) = Inl OutOfBounds" by (rule strlen_no_zero[OF string_at_no_zero[OF assms(2)]])
  then have "l_string_length ?w s' = Inl OutOfBounds" using w by (simp add: l_string_length_def)
  moreover have "l_concat strings s = Some (Inr (?w, s'))" using 1(1) 2(1) s'(1) by (simp add: l_concat_def)
  ultimately show ?thesis using w by blast
qed

lemma l_concat_unterminated_witness:
  "\<exists>s v w s'. list_at s v [4] \<and> l_concat v s = Some (Inr (w, s')) \<and> l_string_length w s' = Inl OutOfBounds"
proof -
  obtain v s1 where 1: "wf_lisp s1" "length (free_addrs s1) = 63" "list_at s1 v [4]"
    using list_cons_next[OF lisp_start_64(1), of 0 nil "[]" 4] lisp_start_64(2) by auto
  have "\<not> stringp 4" by (simp add: stringp_def tag_defs)
  then have "list_all2 (string_at s1) [4] [[]]" by (simp add: string_at_def)
  from l_concat_unterminated[OF 1(3) this 1(1)] 1(2,3) show ?thesis by fastforce
qed

section \<open>Properties: classes, symbols and the table\<close>



text \<open>Symbols of \<open>gensym\<close> with different counters have different names.\<close>

lemma dec_nat_length: "n < 10 ^ Suc k \<Longrightarrow> length (dec_nat n) \<le> Suc k"
proof (induction k arbitrary: n)
  case 0
  then show ?case by (subst dec_nat.simps) simp
next
  case (Suc k)
  show ?case
  proof (cases "n < 10")
    case True
    then show ?thesis by (subst dec_nat.simps) simp
  next
    case False
    have "n div 10 < 10 ^ Suc k" using Suc.prems by (simp add: less_mult_imp_div_less mult.commute)
    then show ?thesis using Suc.IH[of "n div 10"] False by (subst dec_nat.simps) simp
  qed
qed

lemma dec_nat_inject: "dec_nat m = dec_nat n \<longleftrightarrow> m = n"
  using dec_nat_digits[of m] dec_nat_digits[of n] by metis

lemma gensym_name:
  assumes "0 \<le> i" "i < 2 ^ 31"
  shows "take 31 (bytes_of_string ''-sym-'' @ dec_int i) = bytes_of_string ''-sym-'' @ dec_nat (nat i)" "0 \<notin> set (bytes_of_string ''-sym-'' @ dec_nat (nat i))"
proof -
  have b: "bytes_of_string ''-sym-'' = [45, 115, 121, 109, 45]" by code_simp
  have "nat i < 10 ^ Suc 9" using assms(2) by simp
  then have "length (dec_nat (nat i)) \<le> 10" using dec_nat_length[of "nat i" 9] by simp
  then show "take 31 (bytes_of_string ''-sym-'' @ dec_int i) = bytes_of_string ''-sym-'' @ dec_nat (nat i)"
    using assms(1) by (simp add: dec_int_def b)
  show "0 \<notin> set (bytes_of_string ''-sym-'' @ dec_nat (nat i))" using dec_nat_digits[of "nat i"] digit_not_zero by (auto simp: b)
qed

theorem gensym_names_differ:
  assumes "0 \<le> i" "i < j" "j < 2 ^ 31" "wf_lisp s" "2 \<le> length (free_addrs s)"
  shows "\<exists>v s1 w s2. l_gensym i s = Inr (v, i + 1, s1) \<and> l_gensym j s1 = Inr (w, j + 1, s2) \<and> symbolp v \<and> symbolp w \<and>
    text_at v SYMBOL_TAG s2 \<noteq> text_at w SYMBOL_TAG s2"
proof -
  let ?n = "\<lambda>i. bytes_of_string ''-sym-'' @ dec_nat (nat i)"
  have ne: "free_addrs s \<noteq> []" using assms(5) by auto
  have i: "take 31 (bytes_of_string ''-sym-'' @ dec_int i) = ?n i" "cstring (?n i @ [0]) (?n i)" using gensym_name[of i] assms by (auto simp: cstring_def)
  have j: "take 31 (bytes_of_string ''-sym-'' @ dec_int j) = ?n j" "cstring (?n j @ [0]) (?n j)" using gensym_name[of j] assms by (auto simp: cstring_def)
  obtain v s1 where 1: "symval (?n i @ [0]) s = Inr (v, s1)" "grown s 1 s1" "v AND HEAP_MASK = SYMBOL_TAG" "text_at v SYMBOL_TAG s1 = Inr (?n i @ [0])"
    using strptrval_ok[OF assms(4) ne i(2) tag_and(4)] unfolding symval_def by blast
  have ne1: "free_addrs s1 \<noteq> []" using grownD(3)[OF 1(2)] assms(5) by auto
  obtain w s2 where 2: "symval (?n j @ [0]) s1 = Inr (w, s2)" "grown s1 1 s2" "w AND HEAP_MASK = SYMBOL_TAG" "text_at w SYMBOL_TAG s2 = Inr (?n j @ [0])"
    using strptrval_ok[OF grownD(1)[OF 1(2)] ne1 j(2) tag_and(4)] unfolding symval_def by blast
  have "text_at v SYMBOL_TAG s2 = Inr (?n i @ [0])" by (rule text_at_keeps[OF 1(4) grownD(2)[OF 2(2)]])
  moreover have "?n i \<noteq> ?n j" using assms by (simp add: dec_nat_inject)
  moreover have "l_gensym i s = Inr (v, i + 1, s1)" "l_gensym j s1 = Inr (w, j + 1, s2)"
    unfolding l_gensym_def i(1) j(1) using 1(1) 2(1) by simp_all
  ultimately show ?thesis using 1(3) 2(3,4) by (auto simp: symbolp_def)
qed

text \<open>The function that was entered last under a name is the one that is found.\<close>

lemma find_added:
  assumes "cstring name n" "cstring key k"
  shows "find_function (add_function env name func ar ns) key =
    (if k = n then Inr (Some \<lparr>fn_name = name, fn_args = ar, fn_namespace = ns, fn_code = func\<rparr>) else find_function env key)"
  using strcmp_cstring[OF assms] by (auto simp: find_function_def add_function_def)

text \<open>
  A library is looked for in the first directory of the variable only, once it has been looked
  for before: \<open>strtok\<close> cut the variable of the process behind its first token.
\<close>

theorem load_library_cuts_path:
  assumes "strtok v = Some (p, rest)"
  shows "snd (snd (load_library fe ld name1 (Some v) e)) = Some (after_strtok v) \<and>
    fst (load_library fe ld name2 (Some (after_strtok v)) e2) =
      (let path1 = lib_path (p @ [47] @ name2 @ bytes_of_string ''.lisp''); path2 = lib_path (p @ [47] @ name2 @ [47] @ name2 @ bytes_of_string ''.lisp'') in
       if fe path1 then fst (ld path1 e2) else if fe path2 then fst (ld path2 e2) else False)"
proof -
  let ?r = "dropWhile (\<lambda>c. c = 58) v"
  have r: "?r \<noteq> []" "p = takeWhile (\<lambda>c. c \<noteq> 58) ?r" using assms by (auto simp: strtok_def Let_def split: if_splits)
  obtain x r' where x: "?r = x # r'" using r(1) by (cases ?r) auto
  have x58: "x \<noteq> 58" using hd_dropWhile[OF r(1)] x by simp
  have p: "p = x # takeWhile (\<lambda>c. c \<noteq> 58) r'" using r(2) x x58 by simp
  have lead: "dropWhile (\<lambda>c. c = 58) (takeWhile (\<lambda>c. c = 58) v @ p) = p"
  proof -
    have "dropWhile (\<lambda>c. c = 58) (takeWhile (\<lambda>c. c = 58) w @ x # ys) = x # ys" for w ys using x58 by (induction w) auto
    then show ?thesis unfolding p by blast
  qed
  have "takeWhile (\<lambda>c. c \<noteq> 58) p = p" "dropWhile (\<lambda>c. c \<noteq> 58) p = []" unfolding r(2) by (auto simp: dropWhile_eq_Nil_conv takeWhile_eq_all_conv dest: set_takeWhileD)
  then have tok: "strtok (after_strtok v) = Some (p, [])" using lead p r(2) by (simp add: strtok_def after_strtok_def)
  have "strtok [] = None" by (simp add: strtok_def)
  then have stop: "try_paths fe ld name2 [] e2 = (False, e2)" by (subst try_paths.simps) simp
  have "try_paths fe ld name2 (after_strtok v) e2 =
      (let path1 = lib_path (p @ [47] @ name2 @ bytes_of_string ''.lisp''); path2 = lib_path (p @ [47] @ name2 @ [47] @ name2 @ bytes_of_string ''.lisp'') in
       if fe path1 then ld path1 e2 else if fe path2 then ld path2 e2 else (False, e2))"
    by (subst try_paths.simps) (simp add: tok stop Let_def)
  then show ?thesis by (simp add: load_library_def Let_def split: prod.splits)
qed

end
