(* ===== verification/Interrupts.thy ===== *)
theory Interrupts
  imports Tasks Keyboard
begin

text \<open>
  Descriptor tables, the interrupt controllers, the timer, faults and system calls
  (\<^verbatim>\<open>src/kernel/x86_32/descriptor_tables.c\<close>, \<^verbatim>\<open>descriptor_tables.h\<close>, \<^verbatim>\<open>pic.c\<close>, \<^verbatim>\<open>timer.c\<close>,
  \<^verbatim>\<open>faults.c\<close>, \<^verbatim>\<open>syscall.c\<close>): what the boot code puts into the tables, and what the kernel
  does when an interrupt comes. A function pointer in the table of handlers is a value of
  \<open>handler\<close>; the addresses that the linker gives are the parameter \<open>symbols\<close>.
\<close>

section \<open>State\<close>

record gdt_entry =
  g_limit_low :: u16
  g_base_low :: u16
  g_base_middle :: u8
  g_access :: u8
  g_granularity :: u8
  g_base_high :: u8

record idt_entry =
  i_base_low :: u16
  i_selector :: u16
  i_zero :: u8
  i_flags :: u8
  i_base_high :: u16

text \<open>\<open>struct gdt_pointer\<close> and \<open>struct idt_pointer\<close> have the same fields.\<close>

record gdt_pointer =
  p_limit :: u16
  p_base :: u32

datatype handler = Timer_cb | Do_syscall | Gp_h | Pf_h | Kbd_handle_input | Ata_pio_handle_irq

text \<open>\<open>gdtr\<close> and \<open>idtr\<close> are what the assembly routines \<open>gdt_flush\<close> and \<open>idt_flush\<close> load.\<close>

record machine =
  gdt_entries :: "gdt_entry list"
  idt_entries :: "idt_entry list"
  gdtr :: gdt_pointer
  idtr :: gdt_pointer
  tss_esp0 :: u32
  interrupt_handlers :: "handler option list"
  scheduler :: tasks
  kbd :: keyboard

record symbols =
  isr_stub :: "nat \<Rightarrow> u32"
  irq_stub :: "nat \<Rightarrow> u32"
  gdt_address :: u32
  idt_address :: u32

definition on_console :: "(vga \<Rightarrow> vga res) \<Rightarrow> machine \<Rightarrow> machine res" where
  "on_console f m = res_bind (f (console (kbd m))) (\<lambda>v. Inr (m\<lparr>kbd := (kbd m)\<lparr>console := v\<rparr>\<rparr>))"

definition m_outb :: "u16 \<Rightarrow> u8 \<Rightarrow> machine \<Rightarrow> machine" where
  "m_outb port v m = m\<lparr>kbd := (kbd m)\<lparr>console := outb port v (console (kbd m))\<rparr>\<rparr>"

section \<open>Tables\<close>

definition gdt_gate :: "u32 \<Rightarrow> u32 \<Rightarrow> u8 \<Rightarrow> u8 \<Rightarrow> gdt_entry" where
  "gdt_gate base limit access gran =
     \<lparr>g_limit_low = ucast (limit AND 0xffff), g_base_low = ucast (base AND 0xffff),
      g_base_middle = ucast (drop_bit 16 base AND 0xff), g_access = access,
      g_granularity = ucast (drop_bit 16 limit AND 0x0f) OR (gran AND 0xf0),
      g_base_high = ucast (drop_bit 24 base AND 0xff)\<rparr>"

definition gdt_set_gate :: "u32 \<Rightarrow> u32 \<Rightarrow> u32 \<Rightarrow> u8 \<Rightarrow> u8 \<Rightarrow> machine \<Rightarrow> machine res" where
  "gdt_set_gate i base limit access gran m =
     res_bind (arr_set (gdt_entries m) (uint i) (gdt_gate base limit access gran)) (\<lambda>es. Inr (m\<lparr>gdt_entries := es\<rparr>))"

definition idt_gate :: "u32 \<Rightarrow> u16 \<Rightarrow> u8 \<Rightarrow> idt_entry" where
  "idt_gate base selector flags =
     \<lparr>i_base_low = ucast (base AND 0xffff), i_selector = selector, i_zero = 0, i_flags = flags,
      i_base_high = ucast (drop_bit 16 base AND 0xffff)\<rparr>"

definition idt_set_gate :: "u8 \<Rightarrow> u32 \<Rightarrow> u16 \<Rightarrow> u8 \<Rightarrow> machine \<Rightarrow> machine res" where
  "idt_set_gate num base selector flags m =
     res_bind (arr_set (idt_entries m) (uint num) (idt_gate base selector flags)) (\<lambda>es. Inr (m\<lparr>idt_entries := es\<rparr>))"

definition gdt_flush :: "gdt_pointer \<Rightarrow> machine \<Rightarrow> machine" where
  "gdt_flush p m = m\<lparr>gdtr := p\<rparr>"

definition idt_flush :: "gdt_pointer \<Rightarrow> machine \<Rightarrow> machine" where
  "idt_flush p m = m\<lparr>idtr := p\<rparr>"

definition init_gdt :: "symbols \<Rightarrow> machine \<Rightarrow> machine res" where
  "init_gdt syms m =
     res_bind (on_console (\<lambda>v. vga_write v (str ''Initializing GDT...'' @ [10, 0])) m) (\<lambda>m.
     res_bind (gdt_set_gate 0 0 0 0 0 m) (\<lambda>m.
     res_bind (gdt_set_gate 1 0 (NOT 0) 0x9a 0xcf m) (\<lambda>m.
     res_bind (gdt_set_gate 2 0 (NOT 0) 0x92 0xcf m) (\<lambda>m.
     res_bind (gdt_set_gate 3 0 (NOT 0) 0xfa 0xcf m) (\<lambda>m.
     res_bind (gdt_set_gate 4 0 (NOT 0) 0xf2 0xcf m) (\<lambda>m.
     on_console (\<lambda>v. vga_write v (str ''GDT Initialized'' @ [10, 0]))
       (gdt_flush \<lparr>p_limit = 8 * 5 - 1, p_base = gdt_address syms\<rparr> m)))))))"

section \<open>Handlers and the interrupt controllers\<close>

definition IRQ_TO_INT :: "u8 \<Rightarrow> u8" where "IRQ_TO_INT irq = irq + 32"
definition PIC1_COMMAND :: u16 where "PIC1_COMMAND = 0x20"
definition PIC2_COMMAND :: u16 where "PIC2_COMMAND = 0xa0"
definition PIC_EOI :: u8 where "PIC_EOI = 0x20"
definition SYSCALL_INT :: u8 where "SYSCALL_INT = 0x80"
definition SYS_GIVEUP :: u32 where "SYS_GIVEUP = 0x100"
definition TIMER_FREQ :: u32 where "TIMER_FREQ = 1193180"

definition pic_send_eoi :: "u8 \<Rightarrow> machine \<Rightarrow> machine" where
  "pic_send_eoi interrupt m =
     m_outb PIC1_COMMAND PIC_EOI (if IRQ_TO_INT 8 \<le> interrupt then m_outb PIC2_COMMAND PIC_EOI m else m)"

definition add_interrupt_handler :: "u8 \<Rightarrow> handler \<Rightarrow> machine \<Rightarrow> machine res" where
  "add_interrupt_handler interrupt h m =
     res_bind (arr_set (interrupt_handlers m) (uint interrupt) (Some h)) (\<lambda>hs. Inr (m\<lparr>interrupt_handlers := hs\<rparr>))"

definition pic_remap :: "machine \<Rightarrow> machine" where
  "pic_remap m =
     (m_outb 0xA1 0 (m_outb 0x21 0 (m_outb 0xA1 1 (m_outb 0x21 1 (m_outb 0xA1 2 (m_outb 0x21 4
       (m_outb 0xA1 0x28 (m_outb 0x21 0x20 (m_outb 0xA0 0x11 (m_outb 0x20 0x11 m))))))))))
     \<lparr>interrupt_handlers := replicate 256 None\<rparr>"

definition init_faults :: "machine \<Rightarrow> machine res" where
  "init_faults m = res_bind (add_interrupt_handler 13 Gp_h m) (add_interrupt_handler 14 Pf_h)"

fun for_each :: "('a \<Rightarrow> 's \<Rightarrow> 's res) \<Rightarrow> 'a list \<Rightarrow> 's \<Rightarrow> 's res" where
  "for_each f [] s = Inr s"
| "for_each f (x # xs) s = res_bind (f x s) (for_each f xs)"

definition init_idt :: "symbols \<Rightarrow> machine \<Rightarrow> machine res" where
  "init_idt syms m =
     (let m = m\<lparr>idt_entries := replicate 256 \<lparr>i_base_low = 0, i_selector = 0, i_zero = 0, i_flags = 0, i_base_high = 0\<rparr>\<rparr> in
     res_bind (init_faults (pic_remap m)) (\<lambda>m.
     res_bind (on_console (\<lambda>v. Inr (vga_set_color CYAN BLACK v)) m) (\<lambda>m.
     res_bind (for_each (\<lambda>i. idt_set_gate (IRQ_TO_INT (of_nat i)) (irq_stub syms i) 0x08 0x8e) [0..<16] m) (\<lambda>m.
     res_bind (on_console (\<lambda>v. Inr (vga_set_color WHITE BLACK v)) m) (\<lambda>m.
     res_bind (for_each (\<lambda>i. idt_set_gate (of_nat i) (isr_stub syms i) 0x08 0x8e) [0..<32] m) (\<lambda>m.
     res_bind (idt_set_gate 0x80 (isr_stub syms 128) 0x08 0x8e m) (\<lambda>m.
     res_bind (idt_set_gate 0x81 (isr_stub syms 129) 0x08 0x8e m) (\<lambda>m.
     on_console (\<lambda>v. vga_write v (str ''IDT Initialized!'' @ [10, 0]))
       (idt_flush \<lparr>p_limit = 8 * 256 - 1, p_base = idt_address syms\<rparr> m)))))))))"

definition init_descriptor_tables :: "symbols \<Rightarrow> machine \<Rightarrow> machine res" where
  "init_descriptor_tables syms m = res_bind (init_gdt syms m) (init_idt syms)"

definition set_kernel_interrupt_stack :: "u32 \<Rightarrow> machine \<Rightarrow> machine" where
  "set_kernel_interrupt_stack stack m = m\<lparr>tss_esp0 := stack\<rparr>"

definition init_syscall :: "machine \<Rightarrow> machine res" where
  "init_syscall = add_interrupt_handler SYSCALL_INT Do_syscall"

text \<open>A division by zero traps.\<close>

definition init_timer :: "u32 \<Rightarrow> machine \<Rightarrow> machine res" where
  "init_timer hz m =
     res_bind (add_interrupt_handler (IRQ_TO_INT 0) Timer_cb m) (\<lambda>m.
     if hz = 0 then Inl DivByZero
     else let divisor = TIMER_FREQ div hz;
              l = ucast (divisor AND 0xff); h = ucast (drop_bit 8 divisor AND 0xff) in
          Inr (m_outb 0x40 h (m_outb 0x40 l (m_outb 0x43 0x36 m))))"

text \<open>\<open>init_kbd\<close> of \<^verbatim>\<open>io.c\<close> with the handler that it registers.\<close>

definition m_init_kbd :: "machine \<Rightarrow> machine res" where
  "m_init_kbd m = add_interrupt_handler 33 Kbd_handle_input (m\<lparr>kbd := init_kbd (kbd m)\<rparr>)"

text \<open>
  What \<open>kmain\<close> does from \<open>init_vga\<close> to \<open>init_kbd\<close>; \<open>init_allocator\<close>, between the last two
  calls, works on the state of \<open>Kalloc\<close>.
\<close>

definition kmain_interrupts :: "symbols \<Rightarrow> machine \<Rightarrow> machine res" where
  "kmain_interrupts syms m =
     res_bind (on_console (\<lambda>v. Inr (init_vga v)) m) (\<lambda>m.
     res_bind (init_descriptor_tables syms m) (\<lambda>m.
     res_bind (init_syscall m) (\<lambda>m.
     res_bind (on_console (\<lambda>v. Inr (vga_clear v)) m) (\<lambda>m.
     res_bind (init_timer 20 m) m_init_kbd))))"

section \<open>Interrupts\<close>

text \<open>
  A handler returns to the interrupted code, or it leaves it for the task whose page directory and
  context are in the result; with \<open>None\<close> it does neither.
\<close>

type_synonym outcome = "(machine \<times> (u32 \<times> registers) option) res option"

definition m_switch_task :: "registers \<Rightarrow> machine \<Rightarrow> outcome" where
  "m_switch_task regs m =
     map_option (\<lambda>r. res_bind r (\<lambda>(t, c). Inr (m\<lparr>scheduler := t\<rparr>, c))) (switch_task (scheduler m) regs)"

definition resumes :: "machine res \<Rightarrow> outcome" where
  "resumes r = Some (res_bind r (\<lambda>m. Inr (m, None)))"

definition timer_cb :: "registers \<Rightarrow> machine \<Rightarrow> outcome" where
  "timer_cb regs m = (if tasks_initialized (scheduler m) then m_switch_task regs m else resumes (Inr m))"

definition do_syscall :: "registers \<Rightarrow> machine \<Rightarrow> outcome" where
  "do_syscall regs m =
     (if r_eax regs = SYS_GIVEUP then m_switch_task regs m
      else resumes (on_console (\<lambda>v. kprintf v (INFO @ str ''Syscall executed: %d'' @ [10, 0]) [KInt (r_eax regs)]) m))"

definition gp_h :: "registers \<Rightarrow> machine \<Rightarrow> machine res" where
  "gp_h regs m =
     res_bind (on_console (\<lambda>v. kprintf v (ERROR @ str ''Fault #GP: eip = 0x%x, err = 0x%x'' @ [10, 0])
       [KInt (r_eip regs), KInt (r_error_code regs)]) m) (\<lambda>m. Inl (Panic ''#GP''))"

definition pf_h :: "registers \<Rightarrow> machine \<Rightarrow> machine res" where
  "pf_h regs m =
     (let err = r_error_code regs;
          cause = (\<lambda>b c. KInt (if err AND b \<noteq> 0 then of_char c else 32)) in
      res_bind (on_console (\<lambda>v. kprintf v (ERROR @ str ''Fault #PF: eip=0x%x, err=0x%x'' @ [10, 0])
        [KInt (r_eip regs), KInt err]) m) (\<lambda>m.
      res_bind (on_console (\<lambda>v. kprintf v (9 # str ''Due to: %c%c%c%c'' @ [10, 0])
        [cause 1 CHR ''P'', cause 2 CHR ''W'', cause 4 CHR ''U'', cause 16 CHR ''I'']) m) (\<lambda>m.
      Inl (Panic ''#PF''))))"

text \<open>\<open>byte\<close> is what the keyboard's data port gives.\<close>

fun call_handler :: "u8 \<Rightarrow> handler \<Rightarrow> registers \<Rightarrow> machine \<Rightarrow> outcome" where
  "call_handler byte Timer_cb regs m = timer_cb regs m"
| "call_handler byte Do_syscall regs m = do_syscall regs m"
| "call_handler byte Gp_h regs m = resumes (gp_h regs m)"
| "call_handler byte Pf_h regs m = resumes (pf_h regs m)"
| "call_handler byte Kbd_handle_input regs m =
     resumes (res_bind (kbd_handle_input byte (kbd m)) (\<lambda>k. Inr (m\<lparr>kbd := k\<rparr>)))"
| "call_handler byte Ata_pio_handle_irq regs m = resumes (Inr m)"

definition dispatch :: "u8 \<Rightarrow> string \<Rightarrow> registers \<Rightarrow> machine \<Rightarrow> outcome" where
  "dispatch byte unhandled regs m =
     (case arr_get (interrupt_handlers m) (uint (r_interrupt_number regs)) of
        Inl e \<Rightarrow> Some (Inl e)
      | Inr (Some h) \<Rightarrow> call_handler byte h regs m
      | Inr None \<Rightarrow> resumes (on_console (\<lambda>v. kprintf v (ERROR @ str unhandled @ [10, 0])
          [KInt (r_interrupt_number regs), KInt (r_eip regs)]) m))"

definition irq_handler :: "u8 \<Rightarrow> registers \<Rightarrow> machine \<Rightarrow> outcome" where
  "irq_handler byte regs m =
     dispatch byte ''Unhandled hardware interrupt: %d, called from %d'' regs (pic_send_eoi (ucast (r_interrupt_number regs)) m)"

definition isr_handler :: "u8 \<Rightarrow> registers \<Rightarrow> machine \<Rightarrow> outcome" where
  "isr_handler byte regs m = dispatch byte ''Unhandled interrupt: %d, called from %d'' regs m"

section \<open>Descriptors\<close>

definition gdt_base :: "gdt_entry \<Rightarrow> u32" where
  "gdt_base e = push_bit 24 (ucast (g_base_high e)) OR push_bit 16 (ucast (g_base_middle e)) OR ucast (g_base_low e)"

definition gdt_limit :: "gdt_entry \<Rightarrow> u32" where
  "gdt_limit e = push_bit 16 (ucast (g_granularity e AND 0x0f)) OR ucast (g_limit_low e)"

definition gate_offset :: "idt_entry \<Rightarrow> u32" where
  "gate_offset e = push_bit 16 (ucast (i_base_high e)) OR ucast (i_base_low e)"

lemma masks: "(0xffff :: 'a::len word) = mask 16" "(0xff :: 'a::len word) = mask 8" "(0x0f :: 'a::len word) = mask 4"
  by (simp_all add: mask_eq_exp_minus_1)

lemma gdt_gate_decodes:
  "gdt_base (gdt_gate base limit access gran) = base"
  "gdt_limit (gdt_gate base limit access gran) = take_bit 20 limit"
  "g_access (gdt_gate base limit access gran) = access"
  "g_granularity (gdt_gate base limit access gran) AND 0xf0 = gran AND 0xf0"
proof -
  show "gdt_base (gdt_gate base limit access gran) = base"
  proof (rule bit_word_eqI)
    fix n assume "n < LENGTH(32)"
    then consider "n < 16" | "16 \<le> n" "n < 24" | "24 \<le> n" "n < 32" by fastforce
    then show "bit (gdt_base (gdt_gate base limit access gran)) n = bit base n"
      by cases (auto simp: gdt_base_def gdt_gate_def bit_simps masks)
  qed
  have z: "(gran AND 0xf0) AND (mask 4 :: u8) = 0" by (simp add: mask_eq_exp_minus_1 and.assoc)
  have "g_granularity (gdt_gate base limit access gran) AND 0x0f = ucast (drop_bit 16 limit AND mask 4)"
    using z by (simp add: gdt_gate_def masks bit.conj_disj_distrib2) (rule bit_word_eqI, auto simp: bit_simps)
  then show "gdt_limit (gdt_gate base limit access gran) = take_bit 20 limit"
    by (simp add: gdt_limit_def) (rule bit_word_eqI, auto simp: gdt_gate_def bit_simps masks)
  show "g_access (gdt_gate base limit access gran) = access" by (simp add: gdt_gate_def)
  have "(ucast (drop_bit 16 limit AND 0x0f) :: u8) AND 0xf0 = 0"
  proof (rule bit_word_eqI)
    fix n assume "n < LENGTH(8)"
    have "bit (0xf0 :: u8) n \<Longrightarrow> 4 \<le> n"
    proof (rule ccontr)
      assume "bit (0xf0 :: u8) n" "\<not> 4 \<le> n"
      then have "n \<in> {0, 1, 2, 3}" by auto
      then show False using \<open>bit (0xf0 :: u8) n\<close> by auto
    qed
    then show "bit ((ucast (drop_bit 16 limit AND 0x0f) :: u8) AND 0xf0) n = bit (0 :: u8) n"
      by (auto simp: bit_simps masks)
  qed
  then show "g_granularity (gdt_gate base limit access gran) AND 0xf0 = gran AND 0xf0"
    by (simp add: gdt_gate_def bit.conj_disj_distrib2 and.assoc)
qed

lemma idt_gate_decodes:
  "gate_offset (idt_gate base selector flags) = base"
  "i_selector (idt_gate base selector flags) = selector" "i_flags (idt_gate base selector flags) = flags"
  by (auto simp: gate_offset_def idt_gate_def masks bit_simps intro!: bit_word_eqI)

section \<open>The boot code\<close>

lemma for_each_append: "for_each f (xs @ ys) s = res_bind (for_each f xs s) (for_each f ys)"
proof (induction xs arbitrary: s)
  case (Cons x xs)
  then show ?case by (cases "f x s") auto
qed simp

definition set_gates :: "nat \<Rightarrow> nat \<Rightarrow> (nat \<Rightarrow> u32) \<Rightarrow> idt_entry list \<Rightarrow> idt_entry list" where
  "set_gates off k f es = map (\<lambda>j. if off \<le> j \<and> j < off + k then idt_gate (f (j - off)) 8 0x8e else es ! j) [0..<256]"

lemma for_each_gates:
  assumes "length (idt_entries m) = 256" "off + k \<le> 256"
  shows "for_each (\<lambda>i. idt_set_gate (of_nat (off + i)) (f i) 8 0x8e) [0..<k] m = Inr (m\<lparr>idt_entries := set_gates off k f (idt_entries m)\<rparr>)"
  using assms(2)
proof (induction k)
  case 0
  have "map ((!) (idt_entries m)) [0..<256] = idt_entries m" using map_nth[of "idt_entries m"] assms(1) by simp
  moreover have "set_gates off 0 f (idt_entries m) = map ((!) (idt_entries m)) [0..<256]" by (auto simp: set_gates_def)
  ultimately show ?case by simp
next
  case (Suc k)
  have u: "unat (of_nat (off + k) :: u8) = off + k" using Suc.prems by (simp only: unat_of_nat) simp
  have "(set_gates off k f (idt_entries m))[off + k := idt_gate (f k) 8 0x8e] = set_gates off (Suc k) f (idt_entries m)"
    by (rule nth_equalityI) (auto simp: set_gates_def nth_list_update le_less_Suc_eq less_Suc_eq)
  then have "idt_set_gate (of_nat (off + k)) (f k) 8 0x8e (m\<lparr>idt_entries := set_gates off k f (idt_entries m)\<rparr>)
    = Inr (m\<lparr>idt_entries := set_gates off (Suc k) f (idt_entries m)\<rparr>)"
    using Suc.prems unfolding idt_set_gate_def arr_set_uint u by (simp add: set_gates_def)
  then show ?case using Suc by (simp add: for_each_append)
qed

definition with_console :: "vga \<Rightarrow> machine \<Rightarrow> machine" where
  "with_console v m = m\<lparr>kbd := (kbd m)\<lparr>console := v\<rparr>\<rparr>"

lemma on_console_Inr: "f (console (kbd m)) = Inr v \<Longrightarrow> on_console f m = Inr (with_console v m)"
  by (simp add: on_console_def with_console_def)

lemma with_console_simps [simp]:
  "gdt_entries (with_console v m) = gdt_entries m" "idt_entries (with_console v m) = idt_entries m"
  "interrupt_handlers (with_console v m) = interrupt_handlers m" "scheduler (with_console v m) = scheduler m"
  "console (kbd (with_console v m)) = v" "gdtr (with_console v m) = gdtr m" "idtr (with_console v m) = idtr m"
  "pressed_keys (kbd (with_console v m)) = pressed_keys (kbd m)"
  by (simp_all add: with_console_def)

lemma m_outb_with_console: "m_outb p b m = with_console (outb p b (console (kbd m))) m"
  by (simp add: m_outb_def with_console_def)

lemma outb_ok [simp]: "console_ok (outb p v s) = console_ok s"
  by (simp add: console_ok_def outb_def vga_inv_def)

lemma set_color_ok [simp]: "console_ok (vga_set_color a b s) = console_ok s"
  by (simp add: console_ok_def vga_set_color_def vga_inv_def)

lemma init_vga_ok [simp]: "console_ok (init_vga s) = console_ok s"
  by (simp add: init_vga_def)

lemma vga_clear_ok: "console_ok s \<Longrightarrow> console_ok (vga_clear s)"
  by (simp add: vga_clear_def move_cursor_def Let_def) (simp add: console_ok_def vga_inv_def)

lemma write_str_ok:
  assumes "console_ok s" "{0, 27} \<inter> set (str cs) = {}"
  shows "\<exists>v. vga_write s (str cs @ [10, 0]) = Inr v \<and> console_ok v"
  using assms by (intro vga_write_ok) auto

definition boot_gdt :: "gdt_entry list" where
  "boot_gdt = [gdt_gate 0 0 0 0, gdt_gate 0 (NOT 0) 0x9a 0xcf, gdt_gate 0 (NOT 0) 0x92 0xcf,
     gdt_gate 0 (NOT 0) 0xfa 0xcf, gdt_gate 0 (NOT 0) 0xf2 0xcf]"

lemma init_gdt_ok:
  assumes "console_ok (console (kbd m))" "length (gdt_entries m) = 5"
  shows "\<exists>v. init_gdt syms m = Inr (with_console v (m\<lparr>gdt_entries := boot_gdt, gdtr := \<lparr>p_limit = 39, p_base = gdt_address syms\<rparr>\<rparr>)) \<and> console_ok v"
proof -
  obtain v1 where 1: "vga_write (console (kbd m)) (str ''Initializing GDT...'' @ [10, 0]) = Inr v1" "console_ok v1"
    using write_str_ok[OF assms(1), of "''Initializing GDT...''"] by (auto simp: str_def of_char_def)
  obtain v2 where 2: "vga_write v1 (str ''GDT Initialized'' @ [10, 0]) = Inr v2" "console_ok v2"
    using write_str_ok[OF 1(2), of "''GDT Initialized''"] by (auto simp: str_def of_char_def)
  obtain a b c d e where g: "gdt_entries m = [a, b, c, d, e]"
    using assms(2) by (auto simp: length_Suc_conv eval_nat_numeral)
  show ?thesis
    using 2(2) unfolding init_gdt_def on_console_Inr[where f = "\<lambda>v. vga_write v (str ''Initializing GDT...'' @ [10, 0])", OF 1(1)]
    by (simp add: gdt_set_gate_def g arr_set_def gdt_flush_def on_console_def 2(1) with_console_def boot_gdt_def)
      (rule exI[of _ v2], simp)
qed

definition fault_handlers :: "handler option list" where
  "fault_handlers = (replicate 256 None)[13 := Some Gp_h, 14 := Some Pf_h]"

definition empty_gate :: idt_entry where
  "empty_gate = \<lparr>i_base_low = 0, i_selector = 0, i_zero = 0, i_flags = 0, i_base_high = 0\<rparr>"

definition boot_idt :: "symbols \<Rightarrow> idt_entry list" where
  "boot_idt syms = map (\<lambda>n. if n < 32 \<or> n \<in> {128, 129} then idt_gate (isr_stub syms n) 8 0x8e
     else if n < 48 then idt_gate (irq_stub syms (n - 32)) 8 0x8e else empty_gate) [0..<256]"

lemma boot_gates:
  "(set_gates 0 32 (isr_stub syms) (set_gates 32 16 (irq_stub syms) (replicate 256 empty_gate)))
     [128 := idt_gate (isr_stub syms 128) 8 0x8e, 129 := idt_gate (isr_stub syms 129) 8 0x8e] = boot_idt syms"
  by (rule nth_equalityI) (auto simp: set_gates_def boot_idt_def nth_list_update)

lemma init_idt_ok:
  assumes "console_ok (console (kbd m))"
  shows "\<exists>v. init_idt syms m = Inr (with_console v (m\<lparr>idt_entries := boot_idt syms, interrupt_handlers := fault_handlers,
    idtr := \<lparr>p_limit = 2047, p_base = idt_address syms\<rparr>\<rparr>)) \<and> console_ok v"
proof -
  let ?m0 = "m\<lparr>idt_entries := replicate 256 empty_gate\<rparr>"
  obtain v1 where v1: "pic_remap ?m0 = with_console v1 (?m0\<lparr>interrupt_handlers := replicate 256 None\<rparr>)" "console_ok v1"
    using assms by (intro that[of "console (kbd (pic_remap ?m0))"]) (simp_all add: pic_remap_def m_outb_def with_console_def)
  let ?m1 = "with_console v1 (?m0\<lparr>interrupt_handlers := fault_handlers\<rparr>)"
  have 1: "init_faults (pic_remap ?m0) = Inr ?m1"
    by (simp add: v1 init_faults_def add_interrupt_handler_def arr_set_def with_console_def fault_handlers_def)
  let ?v2 = "vga_set_color CYAN BLACK v1"
  let ?v3 = "vga_set_color WHITE BLACK ?v2"
  have irq: "for_each (\<lambda>i. idt_set_gate (IRQ_TO_INT (of_nat i)) (irq_stub syms i) 8 0x8e) [0..<16] x
      = Inr (x\<lparr>idt_entries := set_gates 32 16 (irq_stub syms) (idt_entries x)\<rparr>)" if "length (idt_entries x) = 256" for x
    using for_each_gates[OF that, of 32 16 "irq_stub syms"] by (simp add: IRQ_TO_INT_def add.commute del: upt_rec_numeral)
  have isr: "for_each (\<lambda>i. idt_set_gate (of_nat i) (isr_stub syms i) 8 0x8e) [0..<32] x
      = Inr (x\<lparr>idt_entries := set_gates 0 32 (isr_stub syms) (idt_entries x)\<rparr>)" if "length (idt_entries x) = 256" for x
    using for_each_gates[OF that, of 0 32 "isr_stub syms"] by (simp del: upt_rec_numeral)
  have l: "length (set_gates a b f es) = 256" for a b f es by (simp add: set_gates_def)
  obtain v4 where 4: "vga_write ?v3 (str ''IDT Initialized!'' @ [10, 0]) = Inr v4" "console_ok v4"
    using write_str_ok[of ?v3 "''IDT Initialized!''"] v1(2) by (auto simp: str_def of_char_def)
  have e: "\<lparr>i_base_low = 0, i_selector = 0, i_zero = 0, i_flags = 0, i_base_high = 0\<rparr> = empty_gate" by (simp add: empty_gate_def)
  have "init_idt syms m = Inr (with_console v4 (m\<lparr>idt_entries := boot_idt syms, interrupt_handlers := fault_handlers,
    idtr := \<lparr>p_limit = 2047, p_base = idt_address syms\<rparr>\<rparr>))"
    unfolding init_idt_def Let_def e 1 res_bind_simps
    by (simp add: on_console_def with_console_def irq isr l idt_set_gate_def arr_set_def idt_flush_def 4(1) boot_gates[symmetric]
        del: upt_rec_numeral for_each.simps)
  then show ?thesis using 4(2) by blast
qed

definition boot_handlers :: "handler option list" where
  "boot_handlers = fault_handlers[128 := Some Do_syscall, 32 := Some Timer_cb, 33 := Some Kbd_handle_input]"

lemma init_timer_ok:
  assumes "hz \<noteq> 0" "length (interrupt_handlers m) = 256"
  shows "init_timer hz m = Inr (m_outb 0x40 (ucast (drop_bit 8 (TIMER_FREQ div hz))) (m_outb 0x40 (ucast (TIMER_FREQ div hz))
     (m_outb 0x43 0x36 (m\<lparr>interrupt_handlers := (interrupt_handlers m)[32 := Some Timer_cb]\<rparr>))))"
proof -
  have "(ucast (x AND 0xff) :: u8) = ucast x" for x :: u32 by (rule bit_word_eqI) (auto simp: bit_simps masks)
  then show ?thesis using assms
    by (simp add: init_timer_def add_interrupt_handler_def arr_set_def IRQ_TO_INT_def Let_def)
qed

lemma kmain_interrupts_ok:
  assumes "console_ok (console (kbd m))" "length (gdt_entries m) = 5"
  shows "\<exists>v. kmain_interrupts syms m = Inr (m\<lparr>gdt_entries := boot_gdt, gdtr := \<lparr>p_limit = 39, p_base = gdt_address syms\<rparr>,
      idt_entries := boot_idt syms, interrupt_handlers := boot_handlers, idtr := \<lparr>p_limit = 2047, p_base = idt_address syms\<rparr>,
      kbd := init_kbd ((kbd m)\<lparr>console := v\<rparr>)\<rparr>) \<and> console_ok v"
proof -
  let ?m0 = "with_console (init_vga (console (kbd m))) m"
  obtain v1 where 1: "init_gdt syms ?m0 = Inr (with_console v1 (?m0\<lparr>gdt_entries := boot_gdt, gdtr := \<lparr>p_limit = 39, p_base = gdt_address syms\<rparr>\<rparr>))" "console_ok v1"
    using init_gdt_ok[of ?m0 syms] assms by auto
  let ?m1 = "with_console v1 (?m0\<lparr>gdt_entries := boot_gdt, gdtr := \<lparr>p_limit = 39, p_base = gdt_address syms\<rparr>\<rparr>)"
  obtain v2 where 2: "init_idt syms ?m1 = Inr (with_console v2 (?m1\<lparr>idt_entries := boot_idt syms, interrupt_handlers := fault_handlers,
    idtr := \<lparr>p_limit = 2047, p_base = idt_address syms\<rparr>\<rparr>))" "console_ok v2"
    using init_idt_ok[of ?m1 syms] 1(2) by auto
  let ?v3 = "outb 0x40 (ucast (drop_bit 8 (TIMER_FREQ div 20))) (outb 0x40 (ucast (TIMER_FREQ div 20)) (outb 0x43 0x36 (vga_clear v2)))"
  have v3: "console_ok ?v3" using vga_clear_ok[OF 2(2)] by simp
  have "length fault_handlers = 256" by (simp add: fault_handlers_def)
  then have "kmain_interrupts syms m = Inr (m\<lparr>gdt_entries := boot_gdt, gdtr := \<lparr>p_limit = 39, p_base = gdt_address syms\<rparr>,
      idt_entries := boot_idt syms, interrupt_handlers := boot_handlers, idtr := \<lparr>p_limit = 2047, p_base = idt_address syms\<rparr>,
      kbd := init_kbd ((kbd m)\<lparr>console := ?v3\<rparr>)\<rparr>)"
    unfolding kmain_interrupts_def init_descriptor_tables_def
    by (simp add: on_console_Inr[of _ _ "init_vga (console (kbd m))"] 1(1) 2(1) init_syscall_def add_interrupt_handler_def SYSCALL_INT_def
      arr_set_def on_console_Inr[of _ _ "vga_clear v2"] init_timer_ok m_init_kbd_def)
      (simp add: m_outb_def with_console_def boot_handlers_def init_kbd_def)
  then show ?thesis using v3 by blast
qed

section \<open>What the tables say\<close>

lemma boot_idt_nth:
  "n < 256 \<Longrightarrow> boot_idt syms ! n = (if n < 32 \<or> n \<in> {128, 129} then idt_gate (isr_stub syms n) 8 0x8e
     else if n < 48 then idt_gate (irq_stub syms (n - 32)) 8 0x8e else empty_gate)"
  by (simp add: boot_idt_def)

lemma boot_handlers_nth:
  "n < 256 \<Longrightarrow> boot_handlers ! n = (if n = 13 then Some Gp_h else if n = 14 then Some Pf_h else if n = 32 then Some Timer_cb
     else if n = 33 then Some Kbd_handle_input else if n = 128 then Some Do_syscall else None)"
  by (simp add: boot_handlers_def fault_handlers_def nth_list_update)

definition has_gate :: "nat \<Rightarrow> bool" where
  "has_gate n \<longleftrightarrow> n < 48 \<or> n = 128 \<or> n = 129"

definition stub_of :: "symbols \<Rightarrow> nat \<Rightarrow> u32" where
  "stub_of syms n = (if 32 \<le> n \<and> n < 48 then irq_stub syms (n - 32) else isr_stub syms n)"


definition boot_machine :: machine where
  "boot_machine = \<lparr>gdt_entries = replicate 5 (gdt_gate 0 0 0 0), idt_entries = [], gdtr = \<lparr>p_limit = 0, p_base = 0\<rparr>,
     idtr = \<lparr>p_limit = 0, p_base = 0\<rparr>, tss_esp0 = 0, interrupt_handlers = boot_handlers,
     scheduler = two_tasks False False, kbd = kbd_start\<rparr>"


section \<open>The timer\<close>

text \<open>The 16 bits that the counter is loaded with, from the two bytes written to its port.\<close>

definition timer_reload :: "machine \<Rightarrow> nat" where
  "timer_reload m = (let os = map (\<lambda>x. unat (snd x)) (filter (\<lambda>x. fst x = 0x40) (outs (console (kbd m)))) in
     last (butlast os) + 256 * last os)"

text \<open>
  \<open>init_timer hz\<close> makes the counter run with \<open>1193180 div hz\<close> as long as that fits in 16 bits,
  which needs \<open>hz\<close> to be at least 19; for less the value is cut off, above the counter's own
  frequency it is 0, and 0 is a division by zero.
\<close>

theorem init_timer_reload:
  assumes "length (interrupt_handlers m) = 256"
  shows "(hz = 0 \<longrightarrow> init_timer hz m = Inl DivByZero) \<and>
    (hz \<noteq> 0 \<longrightarrow> (\<exists>m'. init_timer hz m = Inr m' \<and> interrupt_handlers m' ! 32 = Some Timer_cb \<and>
       timer_reload m' = (if 19 \<le> unat hz then 1193180 div unat hz else 1193180 div unat hz mod 65536) \<and>
       (unat hz < 19 \<longrightarrow> timer_reload m' \<noteq> 1193180 div unat hz)))"
proof (intro conjI impI)
  assume "hz = 0"
  then show "init_timer hz m = Inl DivByZero"
    using assms by (simp add: init_timer_def add_interrupt_handler_def arr_set_def IRQ_TO_INT_def)
next
  assume hz: "hz \<noteq> 0"
  let ?d = "1193180 div unat hz"
  have d: "unat (TIMER_FREQ div hz) = ?d" by (simp add: TIMER_FREQ_def unat_div)
  let ?m = "m_outb 0x40 (ucast (drop_bit 8 (TIMER_FREQ div hz))) (m_outb 0x40 (ucast (TIMER_FREQ div hz))
     (m_outb 0x43 0x36 (m\<lparr>interrupt_handlers := (interrupt_handlers m)[32 := Some Timer_cb]\<rparr>)))"
  have d8: "unat (TIMER_FREQ div hz div 256) = ?d div 256" by (simp add: TIMER_FREQ_def unat_div)
  have "timer_reload ?m = unat (ucast (TIMER_FREQ div hz) :: u8) + 256 * unat (ucast (drop_bit 8 (TIMER_FREQ div hz)) :: u8)"
    by (simp add: timer_reload_def m_outb_def outb_def Let_def butlast_append)
  also have "\<dots> = ?d mod 256 + 256 * (?d div 256 mod 256)"
    by (simp add: unsigned_ucast_eq take_bit_eq_mod unsigned_drop_bit_eq drop_bit_eq_div d d8)
  also have "\<dots> = ?d mod 65536"
    using mod_mult2_eq[of ?d 256 256] by simp
  finally have r: "timer_reload ?m = ?d mod 65536" .
  have lt: "?d < 65536" if "19 \<le> unat hz"
    using div_le_mono2[of 19 "unat hz" 1193180] that by simp
  have ge: "\<not> ?d < 65536" if "unat hz < 19"
  proof -
    have "0 < unat hz" using hz by (simp add: unat_gt_0)
    then have "1193180 div 18 \<le> ?d" using that by (intro div_le_mono2) simp_all
    then show ?thesis by simp
  qed
  have "init_timer hz m = Inr ?m" by (rule init_timer_ok[OF hz assms])
  moreover have "interrupt_handlers ?m ! 32 = Some Timer_cb" using assms by (simp add: m_outb_def)
  moreover have "timer_reload ?m = (if 19 \<le> unat hz then ?d else ?d mod 65536)" using lt r by simp
  moreover have "unat hz < 19 \<longrightarrow> timer_reload ?m \<noteq> ?d"
    using ge r mod_less_divisor[of 65536 ?d] by (metis zero_less_numeral)
  ultimately show "\<exists>m'. init_timer hz m = Inr m' \<and> interrupt_handlers m' ! 32 = Some Timer_cb \<and>
       timer_reload m' = (if 19 \<le> unat hz then ?d else ?d mod 65536) \<and> (unat hz < 19 \<longrightarrow> timer_reload m' \<noteq> ?d)"
    by blast
qed

lemma boot_handlers_length: "length boot_handlers = 256"
  by (simp add: boot_handlers_def fault_handlers_def)

theorem init_timer_reload_witness:
  "(\<exists>m'. init_timer 20 boot_machine = Inr m' \<and> timer_reload m' = 59659) \<and> init_timer 0 boot_machine = Inl DivByZero"
  using init_timer_reload[of boot_machine 20] init_timer_reload[of boot_machine 0]
  by (auto simp: boot_machine_def boot_handlers_length)

section \<open>Interrupts\<close>

lemma eoi_outs:
  "pic_send_eoi i m = with_console ((console (kbd m))\<lparr>outs := outs (console (kbd m)) @
     (if 40 \<le> i then [(0xa0, 0x20), (0x20, 0x20)] else [(0x20, 0x20)])\<rparr>) m"
  by (simp add: pic_send_eoi_def m_outb_def outb_def with_console_def PIC1_COMMAND_def PIC2_COMMAND_def PIC_EOI_def IRQ_TO_INT_def)



text \<open>
  C39. When every task is waiting, the next tick of the timer never returns: the loop that looks
  for a task to run goes round for ever, inside the handler, with interrupts off. The panic
  that the code has for this case is never reached.
\<close>

theorem timer_tick_all_waiting_hangs:
  assumes "interrupt_handlers m = boot_handlers" "tasks_initialized (scheduler m)" "r_interrupt_number regs = 32"
    and "task_list (scheduler m) ts" "\<forall>a\<in>set ts. is_waiting (scheduler m) a"
  shows "irq_handler byte regs m = None"
proof -
  have h: "arr_get boot_handlers 32 = Inr (Some Timer_cb)"
    by (simp add: arr_get_in boot_handlers_length boot_handlers_nth)
  show ?thesis
    using h assms(1,2,3) switch_all_waiting_hangs[OF assms(4,5), of regs]
    by (simp add: irq_handler_def dispatch_def eoi_outs timer_cb_def m_switch_task_def switch_task_def)
qed

theorem timer_tick_all_waiting_hangs_witness:
  "irq_handler 0 (no_registers\<lparr>r_interrupt_number := 32\<rparr>) (boot_machine\<lparr>scheduler := two_tasks True True\<rparr>) = None"
  by (rule timer_tick_all_waiting_hangs[where ts = "[0xC020010C, 8]"])
    (auto simp: boot_machine_def two_tasks_list, auto simp: two_tasks_def is_waiting_def sample_task_def)

lemma log_line_ok:
  assumes "console_ok (console (kbd m))" "level_ok l" "format_ok (str fmt @ [10]) as"
  shows "\<exists>v. on_console (\<lambda>v. kprintf v (l @ str fmt @ [10, 0]) as) m = Inr (with_console v m) \<and> console_ok v"
  using kprintf_level_ok[OF assms(2,3,1), of "[]"] by (auto simp: on_console_def with_console_def)

lemmas format_eval = str_def of_char_def arg_ok_def arg_rest_def

lemma gp_h_panics:
  assumes "console_ok (console (kbd m))"
  shows "gp_h regs m = Inl (Panic ''#GP'')"
  using log_line_ok[OF assms levels_ok(4), of "''Fault #GP: eip = 0x%x, err = 0x%x''" "[KInt (r_eip regs), KInt (r_error_code regs)]"]
  by (fastforce simp: gp_h_def format_eval)

lemma pf_h_panics:
  assumes "console_ok (console (kbd m))"
  shows "pf_h regs m = Inl (Panic ''#PF'')"
proof -
  let ?e = "r_error_code regs"
  let ?c = "\<lambda>b c. KInt (if ?e AND b \<noteq> 0 then of_char c else 32)"
  let ?as = "[?c 1 CHR ''P'', ?c 2 CHR ''W'', ?c 4 CHR ''U'', ?c 16 CHR ''I'']"
  obtain v where v: "on_console (\<lambda>v. kprintf v (ERROR @ str ''Fault #PF: eip=0x%x, err=0x%x'' @ [10, 0]) [KInt (r_eip regs), KInt ?e]) m
      = Inr (with_console v m)" "console_ok v"
    using log_line_ok[OF assms levels_ok(4), of "''Fault #PF: eip=0x%x, err=0x%x''" "[KInt (r_eip regs), KInt ?e]"]
    by (auto simp: format_eval)
  have "format_ok (9 # str ''Due to: %c%c%c%c'' @ [10]) ?as"
    by (simp add: format_eval)
  then obtain v2 where "kprintf v (9 # str ''Due to: %c%c%c%c'' @ [10, 0]) ?as = Inr v2"
    using kprintf_ok[of "9 # str ''Due to: %c%c%c%c'' @ [10]" ?as v "[]"] v(2) by auto
  then have "on_console (\<lambda>v. kprintf v (9 # str ''Due to: %c%c%c%c'' @ [10, 0]) ?as) (with_console v m) = Inr (with_console v2 (with_console v m))"
    by (rule_tac on_console_Inr) simp
  then show ?thesis using v(1) unfolding pf_h_def Let_def by simp
qed



end
