(* ===== verification/Multiboot.thy ===== *)
theory Multiboot
  imports Memory Klog
begin

text \<open>
  The information that the boot loader leaves (\<^verbatim>\<open>src/kernel/x86_32/multiboot.h\<close>,
  \<^verbatim>\<open>src/kernel/x86_32/multiboot.c\<close>): the copy that the kernel makes, in which physical addresses should
  become virtual ones, and what that does to the list of modules.
\<close>

section \<open>The copy\<close>

text \<open>The bytes behind \<open>mods_addr\<close>, which nothing looks at, are \<open>mb_rest\<close>.\<close>

record multiboot_info =
  mb_flags :: u32
  mem_lower :: u32
  mem_upper :: u32
  boot_device :: u32
  cmdline :: u32
  mods_count :: u32
  mods_addr :: u32
  mb_rest :: "u8 list"

fun load_bytes :: "memory \<Rightarrow> u32 \<Rightarrow> nat \<Rightarrow> u8 list res" where
  "load_bytes m a 0 = Inr []"
| "load_bytes m a (Suc n) = res_bind (load8 m a) (\<lambda>b. res_bind (load_bytes m (a + 1) n) (\<lambda>bs. Inr (b # bs)))"

definition copy_info :: "memory \<Rightarrow> u32 \<Rightarrow> multiboot_info res" where
  "copy_info m p =
     res_bind (load32 m p) (\<lambda>f. res_bind (load32 m (p + 4)) (\<lambda>lo. res_bind (load32 m (p + 8)) (\<lambda>up.
     res_bind (load32 m (p + 12)) (\<lambda>bd. res_bind (load32 m (p + 16)) (\<lambda>cl. res_bind (load32 m (p + 20)) (\<lambda>mc.
     res_bind (load32 m (p + 24)) (\<lambda>ma. res_bind (load_bytes m (p + 28) 92) (\<lambda>r.
     Inr \<lparr>mb_flags = f, mem_lower = lo, mem_upper = up, boot_device = bd, cmdline = cl, mods_count = mc,
          mods_addr = ma, mb_rest = r\<rparr>))))))))"

text \<open>\<open>TO_VIRT(val, t)\<close> casts to \<open>t\<close>: for \<open>uint\<close> nothing is lost, for \<open>char\<close> all but the low byte.\<close>

definition TO_VIRT :: "u32 \<Rightarrow> u32" where
  "TO_VIRT val = val + 0xc0000000"

definition TO_VIRT_char :: "u32 \<Rightarrow> u32" where
  "TO_VIRT_char val = scast (ucast (val + 0xc0000000) :: u8)"

text \<open>The loop: \<open>mods_addr + i\<close> is an integer, so each word starts one byte behind the one before.\<close>

fun virt_mods :: "u32 \<Rightarrow> nat \<Rightarrow> memory \<Rightarrow> memory res" where
  "virt_mods a 0 m = Inr m"
| "virt_mods a (Suc n) m = res_bind (load32 m a) (\<lambda>v. res_bind (store32 m a (TO_VIRT v)) (virt_mods (a + 1) n))"

definition make_multiboot_physical :: "u32 \<Rightarrow> memory \<Rightarrow> vga \<Rightarrow> (multiboot_info \<times> memory \<times> vga) res" where
  "make_multiboot_physical old m v =
     res_bind (copy_info m old) (\<lambda>mb.
     let mb = mb\<lparr>mods_addr := TO_VIRT (mods_addr mb), cmdline := TO_VIRT_char (cmdline mb)\<rparr> in
     res_bind (kprintf v (DEBUG @ str ''mb.mods_addr = %d, 0x%x'' @ [10, 0]) [KInt (mods_addr mb), KInt (mods_addr mb)]) (\<lambda>v1.
     res_bind (kassert (0xc0000000 \<le> mods_addr mb) ''mb.mods_addr PHYSICAL'') (\<lambda>_.
     res_bind (virt_mods (mods_addr mb) (unat (mods_count mb + 1)) m) (\<lambda>m1.
     Inr (mb, m1, v1)))))"

section \<open>What the loop does\<close>

lemma join32_top: "join32 b0 b1 b2 b = join32 b0 b1 b2 0 + push_bit 24 (ucast b)"
proof -
  have "join32 b0 b1 b2 0 AND push_bit 24 (ucast b) = 0"
    by (rule bit_word_eqI) (auto simp: join32_def bit_simps dest!: bit_imp_le_length)
  then have "join32 b0 b1 b2 0 + push_bit 24 (ucast b) = join32 b0 b1 b2 0 OR push_bit 24 (ucast b)"
    by (rule disjunctive_add_eq_or)
  also have "\<dots> = join32 b0 b1 b2 b" by (simp add: join32_def or.assoc)
  finally show ?thesis by simp
qed

lemma byte_of_join: "byte_of (join32 b0 b1 b2 b3) 0 = b0" "byte_of (join32 b0 b1 b2 b3) 1 = b1"
    "byte_of (join32 b0 b1 b2 b3) 2 = b2" "byte_of (join32 b0 b1 b2 b3) 3 = b3"
  unfolding join32_def byte_of_def by (auto intro!: bit_word_eqI simp: bit_simps) (auto dest!: bit_imp_le_length)

lemma byte_of_virt:
  "byte_of (TO_VIRT (join32 b0 b1 b2 b3)) 0 = b0" "byte_of (TO_VIRT (join32 b0 b1 b2 b3)) 1 = b1"
  "byte_of (TO_VIRT (join32 b0 b1 b2 b3)) 2 = b2" "byte_of (TO_VIRT (join32 b0 b1 b2 b3)) 3 = b3 + 0xc0"
proof -
  have s: "push_bit 24 (ucast b3 :: u32) + 0xc0000000 = push_bit 24 (ucast (b3 + 0xc0))"
  proof -
    have "unat b3 < 2 ^ LENGTH(8)" by (rule unsigned_less)
    then have u8: "unat b3 < 256" by simp
    have "push_bit 24 (ucast b3 :: u32) + push_bit 24 (0xc0 :: u32) = push_bit 24 (ucast b3 + 0xc0)"
      by (simp only: push_bit_add)
    also have "\<dots> = push_bit 24 (take_bit 8 (ucast b3 + 0xc0 :: u32))"
      by (rule bit_word_eqI) (auto simp: bit_simps)
    also have "take_bit 8 (ucast b3 + 0xc0 :: u32) = ucast (b3 + 0xc0)"
      using u8 by (simp add: word_unat_eq_iff unsigned_take_bit_eq take_bit_eq_mod unat_word_ariths unsigned_ucast_eq)
    finally show ?thesis by (simp add: push_bit_eq_mult)
  qed
  have e: "TO_VIRT (join32 b0 b1 b2 b3) = join32 b0 b1 b2 (b3 + 0xc0)"
    unfolding TO_VIRT_def join32_top[of b0 b1 b2 b3] join32_top[of b0 b1 b2 "b3 + 0xc0"] add.assoc s ..
  show "byte_of (TO_VIRT (join32 b0 b1 b2 b3)) 0 = b0" "byte_of (TO_VIRT (join32 b0 b1 b2 b3)) 1 = b1"
    "byte_of (TO_VIRT (join32 b0 b1 b2 b3)) 2 = b2" "byte_of (TO_VIRT (join32 b0 b1 b2 b3)) 3 = b3 + 0xc0"
    unfolding e by (rule byte_of_join)+
qed

text \<open>One round adds to the highest byte of its word and leaves the rest alone.\<close>

definition raise :: "memory \<Rightarrow> u32 \<Rightarrow> memory" where
  "raise m a = (case m a of None \<Rightarrow> m | Some b \<Rightarrow> m(a \<mapsto> b + 0xc0))"

lemma virt_round:
  assumes "word_at a \<subseteq> dom m"
  shows "\<exists>v. load32 m a = Inr v \<and> store32 m a (TO_VIRT v) = Inr (raise m (a + 3))"
proof -
  obtain b0 b1 b2 b3 where b: "m a = Some b0" "m (a + 1) = Some b1" "m (a + 2) = Some b2" "m (a + 3) = Some b3"
    using assms by (auto simp: word_at_def)
  have "put32 m a (TO_VIRT (join32 b0 b1 b2 b3)) = raise m (a + 3)"
    unfolding put32_def byte_of_virt by (rule ext) (auto simp: raise_def b)
  then show ?thesis using b store32_Inr[OF assms] by (simp add: load32_def load8_def)
qed

lemma dom_raise: "dom (raise m a) = dom m"
  by (auto simp: raise_def split: option.splits)

lemma virt_mods_Inr:
  assumes "\<forall>i < n + 3. a + of_nat i \<in> dom m" "0 < n"
  shows "virt_mods a n m = Inr (fold (\<lambda>i m. raise m (a + of_nat i + 3)) [0..<n] m)"
  using assms
proof (induction n arbitrary: a m)
  case (Suc n)
  have "word_at a \<subseteq> dom m"
  proof -
    have "a + of_nat i \<in> dom m" if "i < 4" for i using Suc.prems(1) that by simp
    from this[of 0] this[of 1] this[of 2] this[of 3] show ?thesis by (auto simp: word_at_def)
  qed
  then obtain v where v: "load32 m a = Inr v" "store32 m a (TO_VIRT v) = Inr (raise m (a + 3))" using virt_round by blast
  show ?case
  proof (cases "n = 0")
    case True
    then show ?thesis using v by simp
  next
    case False
    have "a + 1 + of_nat i \<in> dom (raise m (a + 3))" if "i < n + 3" for i
      using Suc.prems(1)[rule_format, of "Suc i"] that by (simp add: dom_raise add.assoc)
    then have IH: "virt_mods (a + 1) n (raise m (a + 3)) = Inr (fold (\<lambda>i m. raise m (a + 1 + of_nat i + 3)) [0..<n] (raise m (a + 3)))"
      using Suc.IH[of "a + 1" "raise m (a + 3)"] False by blast
    have u: "[0..<Suc n] = 0 # map Suc [0..<n]" by (simp add: map_Suc_upt upt_conv_Cons)
    have "fold (\<lambda>i m. raise m (a + of_nat i + 3)) [0..<Suc n] m = fold (\<lambda>i m. raise m (a + 1 + of_nat i + 3)) [0..<n] (raise m (a + 3))"
      unfolding u by (simp add: fold_map comp_def add.assoc del: upt_Suc)
    then show ?thesis using v IH by (simp del: upt_Suc)
  qed
qed simp

lemma raise_fold:
  assumes "inj_on f (set is)" "distinct is" "f ` set is \<subseteq> dom m"
  shows "fold (\<lambda>i m. raise m (f i)) is m = (\<lambda>x. if x \<in> f ` set is then map_option (\<lambda>b. b + 0xc0) (m x) else m x)"
  using assms
proof (induction "is" arbitrary: m)
  case (Cons i "is")
  obtain b where b: "m (f i) = Some b" using Cons.prems(3) by auto
  have "f i \<notin> f ` set is" using Cons.prems(1,2) by (auto simp: inj_on_def)
  moreover have "fold (\<lambda>i m. raise m (f i)) is (raise m (f i))
      = (\<lambda>x. if x \<in> f ` set is then map_option (\<lambda>b. b + 0xc0) (raise m (f i) x) else raise m (f i) x)"
    using Cons.prems by (intro Cons.IH) (auto simp: dom_raise inj_on_def)
  ultimately show ?case using b by (auto simp: raise_def fun_eq_iff)
qed simp

section \<open>Properties\<close>

text \<open>
  The copy that the kernel makes has the virtual address of the list of modules, but of the command line only
  the low byte, with its sign. In the list itself the highest byte of the first module's start is raised
  as it should be, and with it one byte for each module behind it: with one module, the lowest byte of its end.
\<close>

theorem make_multiboot_effect:
  assumes "copy_info m old = Inr mb" "console_ok v" "unat (mods_count mb) < 2 ^ 20" "unat (mods_addr mb) < 2 ^ 29"
    "\<forall>i < unat (mods_count mb) + 4. TO_VIRT (mods_addr mb) + of_nat i \<in> dom m"
  defines "a \<equiv> TO_VIRT (mods_addr mb)" and "n \<equiv> unat (mods_count mb)"
  shows "\<exists>m' v'. make_multiboot_physical old m v = Inr (mb\<lparr>mods_addr := a, cmdline := scast (ucast (cmdline mb) :: u8)\<rparr>, m', v') \<and> console_ok v' \<and>
    (\<forall>x. m' x = (if \<exists>i\<le>n. x = a + 3 + of_nat i then map_option (\<lambda>b. b + 0xc0) (m x) else m x))"
proof -
  obtain v' where v': "kprintf v (DEBUG @ str ''mb.mods_addr = %d, 0x%x'' @ [10, 0]) [KInt a, KInt a] = Inr v'" "console_ok v'"
    using kprintf_level_ok[OF levels_ok(5) _ assms(2), of "str ''mb.mods_addr = %d, 0x%x'' @ [10]" "[KInt a, KInt a]" "[]"]
    by (auto simp: str_eval of_char_def arg_ok_def arg_rest_def)
  have "unat a = unat (mods_addr mb) + 0xc0000000"
    using assms(4) unat_add_lem[of "mods_addr mb" "0xc0000000"] by (simp add: a_def TO_VIRT_def)
  then have k: "0xc0000000 \<le> a" by (simp add: word_le_nat_alt)
  have c: "unat (mods_count mb + 1) = Suc n" using assms(3) unfolding n_def by (intro unat_plus_one) simp
  let ?f = "\<lambda>i. a + of_nat i + 3"
  have vm: "virt_mods a (Suc n) m = Inr (fold (\<lambda>i m. raise m (?f i)) [0..<Suc n] m)"
    using assms(5) unfolding a_def n_def by (intro virt_mods_Inr) simp_all
  have "inj_on ?f (set [0..<Suc n])"
  proof (rule inj_onI)
    fix i j assume ij: "i \<in> set [0..<Suc n]" "j \<in> set [0..<Suc n]" "?f i = ?f j"
    have "n < 2 ^ 20" using assms(3) n_def by simp
    moreover have "i \<le> n" "j \<le> n" using ij(1,2) by auto
    ultimately have l: "i < 2 ^ LENGTH(32)" "j < 2 ^ LENGTH(32)" by simp_all
    have "(of_nat i :: u32) = of_nat j" using ij(3) by simp
    then have "unat (of_nat i :: u32) = unat (of_nat j :: u32)" by simp
    then show "i = j" using l by (simp add: unat_of_nat)
  qed
  moreover have "?f ` set [0..<Suc n] \<subseteq> dom m"
  proof (rule image_subsetI)
    fix i assume "i \<in> set [0..<Suc n]"
    then have "i < Suc n" by (simp only: set_upt atLeastLessThan_iff)
    then have "i + 3 < unat (mods_count mb) + 4" unfolding n_def by simp
    then have "TO_VIRT (mods_addr mb) + of_nat (i + 3) \<in> dom m" using assms(5) by blast
    then show "?f i \<in> dom m" by (simp add: a_def add.assoc)
  qed
  ultimately have f: "fold (\<lambda>i m. raise m (?f i)) [0..<Suc n] m
      = (\<lambda>x. if x \<in> ?f ` set [0..<Suc n] then map_option (\<lambda>b. b + 0xc0) (m x) else m x)"
    by (intro raise_fold) simp_all
  have s: "x \<in> ?f ` set [0..<Suc n] \<longleftrightarrow> (\<exists>i\<le>n. x = a + 3 + of_nat i)" for x
  proof -
    have fe: "a + of_nat i + 3 = a + 3 + of_nat i" for i by (simp add: add.commute add.left_commute)
    show ?thesis unfolding image_iff set_upt Bex_def atLeastLessThan_iff less_Suc_eq_le fe by simp
  qed
  have "(ucast (cmdline mb + 0xc0000000) :: u8) = ucast (cmdline mb)"
  proof -
    have u: "(ucast w :: u8) = ucast (take_bit 8 w)" for w :: u32 by (rule bit_word_eqI) (auto simp: bit_simps)
    have "(k + 3221225472) mod 256 = k mod 256" for k :: nat using mod_mult_self2[of k 256 12582912] by simp
    then have "take_bit 8 (cmdline mb + 0xc0000000) = take_bit 8 (cmdline mb)"
      by (simp add: word_unat_eq_iff unsigned_take_bit_eq take_bit_eq_mod unat_word_ariths mod_mod_cancel)
    then show ?thesis by (simp only: u[of "cmdline mb + 0xc0000000"] u[of "cmdline mb"])
  qed
  then have cl: "TO_VIRT_char (cmdline mb) = scast (ucast (cmdline mb) :: u8)" by (simp add: TO_VIRT_char_def)
  have "make_multiboot_physical old m v = Inr (mb\<lparr>mods_addr := a, cmdline := scast (ucast (cmdline mb) :: u8)\<rparr>,
      \<lambda>x. if x \<in> ?f ` set [0..<Suc n] then map_option (\<lambda>b. b + 0xc0) (m x) else m x, v')"
    using v'(1) k c vm f by (simp add: make_multiboot_physical_def assms(1) cl flip: a_def del: upt_Suc virt_mods.simps)
  then show ?thesis using v'(2) unfolding s by blast
qed

lemma load_bytes_total: "(\<And>x. x \<in> dom m) \<Longrightarrow> \<exists>bs. load_bytes m a n = Inr bs"
proof (induction n arbitrary: a)
  case (Suc n)
  obtain b where "m a = Some b" using Suc.prems by blast
  moreover obtain bs where "load_bytes m (a + 1) n = Inr bs" using Suc by blast
  ultimately show ?case by (simp add: load8_def)
qed simp

text \<open>One module, in memory that is 0 but for its count and the command line's address.\<close>

definition one_module :: memory where
  "one_module = (\<lambda>x. Some 0)(20 \<mapsto> 1, 17 \<mapsto> 0x12, 16 \<mapsto> 0x85)"

theorem make_multiboot_effect_witness:
  "\<exists>mb m' v'. make_multiboot_physical 0 one_module blank_screen = Inr (mb, m', v') \<and> cmdline mb = 0xffffff85 \<and>
    m' 0xc0000003 = Some 0xc0 \<and> m' 0xc0000004 = Some 0xc0 \<and> m' 0xc0000005 = Some 0"
proof -
  have d: "x \<in> dom one_module" for x by (simp add: one_module_def)
  obtain bs where bs: "load_bytes one_module 28 92 = Inr bs" using load_bytes_total[of one_module 28 92] d by blast
  let ?mb = "\<lparr>mb_flags = 0, mem_lower = 0, mem_upper = 0, boot_device = 0, cmdline = 0x1285, mods_count = 1, mods_addr = 0, mb_rest = bs\<rparr>"
  have "copy_info one_module 0 = Inr ?mb"
    using bs by (simp add: copy_info_def load32_def load8_def join32_def one_module_def)
  from make_multiboot_effect[OF this, of blank_screen] obtain m' v' where
    1: "make_multiboot_physical 0 one_module blank_screen = Inr (?mb\<lparr>mods_addr := TO_VIRT 0, cmdline := scast (ucast (0x1285 :: u32) :: u8)\<rparr>, m', v')" and
    2: "\<forall>x. m' x = (if \<exists>i\<le>unat (1 :: u32). x = TO_VIRT 0 + 3 + of_nat i then map_option (\<lambda>b. b + 0xc0) (one_module x) else one_module x)"
    using blank_screen_inv d by (auto simp: console_ok_def)
  have at: "m' x = (if \<exists>i\<le>unat (1 :: u32). x = TO_VIRT 0 + 3 + of_nat i then map_option (\<lambda>b. b + 0xc0) (one_module x) else one_module x)" for x
    using 2 by blast
  have le: "(\<exists>i\<le>Suc 0. of_nat i = (x :: u32)) \<longleftrightarrow> x = 0 \<or> x = 1" for x
    by (auto simp: le_Suc_eq)
  have "m' 0xc0000003 = Some 0xc0 \<and> m' 0xc0000004 = Some 0xc0 \<and> m' 0xc0000005 = Some 0"
    using at[of "0xc0000003"] at[of "0xc0000004"] at[of "0xc0000005"]
    by (simp add: le TO_VIRT_def one_module_def)
  then show ?thesis unfolding 1 by simp
qed

end
