(* ===== verification/Pci.thy ===== *)
theory Pci
  imports AtaPio Interrupts
begin

text \<open>
  The PCI bus and the IDE driver (\<^verbatim>\<open>src/kernel/dri/pci/pci.c\<close>, \<^verbatim>\<open>src/kernel/dri/ide/ide.c\<close>):
  reading the configuration space, the search for a vendor, the table of drivers and the
  scan of the bus that starts them. The ports of the configuration space and the table of vendors,
  which the build makes from \<^verbatim>\<open>vendors.csv\<close>, are parameters.
\<close>

section \<open>Configuration space and vendors\<close>

record 'd config_ports =
  outl :: "u16 \<Rightarrow> u32 \<Rightarrow> 'd \<Rightarrow> 'd"
  inl :: "u16 \<Rightarrow> 'd \<Rightarrow> u32 \<times> 'd"

record pci_vendor =
  vendor_id :: u16
  vendor_name :: "u8 list"

text \<open>\<open>vendor\<close> is the index in \<open>pci_vendors\<close>, \<open>None\<close> the null pointer.\<close>

record pci_device =
  vendor :: "nat option"
  class_code :: u8
  sub_class :: u8
  prog_if :: u8
  device_id :: u16
  dev_valid :: bool

definition PCI_CONFIG_ADDRESS :: u16 where "PCI_CONFIG_ADDRESS = 0xCF8"
definition PCI_CONFIG_DATA :: u16 where "PCI_CONFIG_DATA = 0xCFC"

definition config_address :: "u8 \<Rightarrow> u8 \<Rightarrow> u8 \<Rightarrow> u8 \<Rightarrow> u32" where
  "config_address bus slot func offset =
     push_bit 16 (ucast bus) OR push_bit 11 (ucast slot) OR push_bit 8 (ucast func) OR push_bit 2 (ucast offset) OR 0x80000000"

definition pci_config_readd :: "'d config_ports \<Rightarrow> u8 \<Rightarrow> u8 \<Rightarrow> u8 \<Rightarrow> u8 \<Rightarrow> 'd \<Rightarrow> u32 \<times> 'd" where
  "pci_config_readd io bus slot func offset d =
     inl io PCI_CONFIG_DATA (outl io PCI_CONFIG_ADDRESS (config_address bus slot func offset) d)"

text \<open>The loop of \<open>pci_vendor_by_id\<close>, which need not end: \<open>None\<close> is not returning.\<close>

partial_function (option) vendor_search :: "pci_vendor list \<Rightarrow> u16 \<Rightarrow> u32 \<Rightarrow> u32 \<Rightarrow> nat option res option" where
  "vendor_search vs i start stop =
     (if stop = start then Some (Inr None)
      else let guess = (stop - start) div 2 + start in
        (case arr_get vs (uint guess) of
           Inl e \<Rightarrow> Some (Inl e)
         | Inr v \<Rightarrow>
             if vendor_id v = i then Some (Inr (Some (unat guess)))
             else if i < vendor_id v then vendor_search vs i start guess
             else vendor_search vs i guess stop))"

definition pci_vendor_by_id :: "pci_vendor list \<Rightarrow> u16 \<Rightarrow> nat option res option" where
  "pci_vendor_by_id vs i = vendor_search vs i 0 (of_nat (length vs))"

text \<open>\<open>junk\<close> is what the uninitialised \<open>device\<close> holds; without a device only \<open>dev_valid\<close> is set.\<close>

definition pci_check_device ::
  "'d config_ports \<Rightarrow> pci_vendor list \<Rightarrow> pci_device \<Rightarrow> u8 \<Rightarrow> u8 \<Rightarrow> u8 \<Rightarrow> 'd \<Rightarrow> (pci_device \<times> 'd) res option" where
  "pci_check_device io vs junk bus slot func d =
     (case pci_config_readd io bus slot func 0 d of
        (vendor_device, d1) \<Rightarrow>
          let vend = ucast (vendor_device AND 0xffff) in
          if vend \<noteq> 0xffff then
            map_option (\<lambda>r. res_bind r (\<lambda>v.
              case pci_config_readd io bus slot func 2 d1 of
                (class_subclass, d2) \<Rightarrow>
                  Inr (\<lparr>vendor = v, class_code = ucast (drop_bit 24 class_subclass),
                        sub_class = ucast (drop_bit 16 class_subclass AND 0xff),
                        prog_if = ucast (drop_bit 8 class_subclass AND 0xff),
                        device_id = ucast (drop_bit 16 vendor_device), dev_valid = True\<rparr>, d2)))
              (pci_vendor_by_id vs vend)
          else Some (Inr (junk\<lparr>dev_valid := False\<rparr>, d1)))"

section \<open>Drivers\<close>

text \<open>\<open>init_fn\<close> works on the rest of the kernel, of type \<open>'w\<close>.\<close>

record 'w pci_device_driver =
  supports :: "pci_device \<Rightarrow> bool"
  init_fn :: "pci_device \<Rightarrow> u8 \<Rightarrow> u8 \<Rightarrow> u8 \<Rightarrow> 'w \<Rightarrow> 'w res"
  generic_name :: "u8 list"
  loaded :: u32
  dri_dev :: pci_device

text \<open>\<open>drivers\<close> is the array that \<open>malloc\<close> or \<open>realloc\<close> gave, \<open>None\<close> the null pointer.\<close>

record ('d, 'w) pci =
  num_drivers :: u32
  size_drivers :: u32
  drivers :: "'w pci_device_driver list option"
  config :: 'd
  world :: 'w

text \<open>
  \<open>fresh n\<close> is what an allocation of \<open>n\<close> drivers gives: a null pointer or an array with anything
  in it, to which \<open>realloc\<close> has copied the old one.
\<close>

type_synonym 'w driver_alloc = "nat \<Rightarrow> 'w pci_device_driver list option"

definition pci_init :: "'w driver_alloc \<Rightarrow> ('d, 'w) pci \<Rightarrow> ('d, 'w) pci" where
  "pci_init fresh p = p\<lparr>num_drivers := 0, size_drivers := 4, drivers := fresh 4\<rparr>"

definition realloc_drivers :: "'w driver_alloc \<Rightarrow> 'w pci_device_driver list option \<Rightarrow> nat \<Rightarrow> 'w pci_device_driver list option" where
  "realloc_drivers fresh old n =
     (case old of None \<Rightarrow> None
      | Some ds \<Rightarrow> (case fresh n of None \<Rightarrow> None | Some new \<Rightarrow> Some (take n ds @ drop (length ds) new)))"

definition driver_array :: "('d, 'w) pci \<Rightarrow> 'w pci_device_driver list res" where
  "driver_array p = (case drivers p of None \<Rightarrow> Inl NullDeref | Some ds \<Rightarrow> Inr ds)"

definition pci_register_device_driver :: "'w driver_alloc \<Rightarrow> 'w pci_device_driver \<Rightarrow> ('d, 'w) pci \<Rightarrow> ('d, 'w) pci res" where
  "pci_register_device_driver fresh driver p =
     (let p1 = (if num_drivers p = size_drivers p
                then p\<lparr>size_drivers := size_drivers p + 8,
                       drivers := realloc_drivers fresh (drivers p) (unat (size_drivers p + 8))\<rparr>
                else p) in
      res_bind (driver_array p1) (\<lambda>ds.
      res_bind (arr_set ds (uint (num_drivers p1)) (driver\<lparr>loaded := 0\<rparr>)) (\<lambda>ds1.
      Inr (p1\<lparr>drivers := Some ds1, num_drivers := num_drivers p1 + 1\<rparr>))))"

text \<open>The innermost loop of \<open>pci_load\<close>: one device is offered to the drivers with the given indices.\<close>

fun offer :: "pci_device \<Rightarrow> u8 \<Rightarrow> u8 \<Rightarrow> u8 \<Rightarrow> nat list \<Rightarrow> ('d, 'w) pci \<Rightarrow> ('d, 'w) pci res" where
  "offer pdev bus slot func [] p = Inr p"
| "offer pdev bus slot func (i # is) p =
     res_bind (driver_array p) (\<lambda>ds.
     res_bind (arr_get ds (int i)) (\<lambda>dri.
     if supports dri pdev then
       res_bind (init_fn dri pdev bus slot func (world p)) (\<lambda>w.
       offer pdev bus slot func is
         (p\<lparr>drivers := Some (ds[i := dri\<lparr>loaded := loaded dri + 1, dri_dev := pdev\<rparr>]), world := w\<rparr>))
     else offer pdev bus slot func is p))"

text \<open>The addresses in the order of the three loops.\<close>

definition pci_addresses :: "(u8 \<times> u8 \<times> u8) list" where
  "pci_addresses = concat (map (\<lambda>bus. concat (map (\<lambda>slot. map (\<lambda>func. (of_nat bus, of_nat slot, of_nat func)) [0..<8])
     [0..<32])) [0..<255])"

fun load_from :: "'d config_ports \<Rightarrow> pci_vendor list \<Rightarrow> (u8 \<times> u8 \<times> u8 \<Rightarrow> pci_device) \<Rightarrow>
    (u8 \<times> u8 \<times> u8) list \<Rightarrow> ('d, 'w) pci \<Rightarrow> ('d, 'w) pci res option" where
  "load_from io vs junk [] p = Some (Inr p)"
| "load_from io vs junk ((bus, slot, func) # as) p =
     (case pci_check_device io vs (junk (bus, slot, func)) bus slot func (config p) of
        None \<Rightarrow> None
      | Some (Inl e) \<Rightarrow> Some (Inl e)
      | Some (Inr (pdev, d)) \<Rightarrow>
          (case offer pdev bus slot func [0..<unat (num_drivers p)] (p\<lparr>config := d\<rparr>) of
             Inl e \<Rightarrow> Some (Inl e)
           | Inr p1 \<Rightarrow> load_from io vs junk as p1))"

definition pci_load :: "'d config_ports \<Rightarrow> pci_vendor list \<Rightarrow> (u8 \<times> u8 \<times> u8 \<Rightarrow> pci_device) \<Rightarrow>
    ('d, 'w) pci \<Rightarrow> ('d, 'w) pci res option" where
  "pci_load io vs junk p = load_from io vs junk pci_addresses p"

section \<open>Output\<close>

definition vendor_str :: "pci_vendor list \<Rightarrow> pci_device \<Rightarrow> u8 list res" where
  "vendor_str vs pdev =
     (case vendor pdev of None \<Rightarrow> Inl NullDeref
      | Some i \<Rightarrow> res_bind (arr_get vs (int i)) (\<lambda>v. Inr (vendor_name v)))"

definition print_device :: "pci_vendor list \<Rightarrow> u8 \<Rightarrow> u8 \<Rightarrow> u8 \<Rightarrow> pci_device \<Rightarrow> vga \<Rightarrow> vga res" where
  "print_device vs bus slot func pdev v =
     (if dev_valid pdev then
        res_bind (vendor_str vs pdev) (\<lambda>n.
        kprintf v (INFO @ str ''%d %d %d --- d:0x%x --- %d:%d:%d --- %s'' @ [10, 0])
          [KInt (ucast bus), KInt (ucast slot), KInt (ucast func), KInt (ucast (device_id pdev)),
           KInt (ucast (class_code pdev)), KInt (ucast (sub_class pdev)), KInt (ucast (prog_if pdev)), KStr n])
      else Inr v)"

fun print_devices_from :: "'d config_ports \<Rightarrow> pci_vendor list \<Rightarrow> (u8 \<times> u8 \<times> u8 \<Rightarrow> pci_device) \<Rightarrow>
    (u8 \<times> u8 \<times> u8) list \<Rightarrow> 'd \<Rightarrow> vga \<Rightarrow> ('d \<times> vga) res option" where
  "print_devices_from io vs junk [] d v = Some (Inr (d, v))"
| "print_devices_from io vs junk ((bus, slot, func) # as) d v =
     (case pci_check_device io vs (junk (bus, slot, func)) bus slot func d of
        None \<Rightarrow> None
      | Some (Inl e) \<Rightarrow> Some (Inl e)
      | Some (Inr (pdev, d1)) \<Rightarrow>
          (case print_device vs bus slot func pdev v of
             Inl e \<Rightarrow> Some (Inl e)
           | Inr v1 \<Rightarrow> print_devices_from io vs junk as d1 v1))"

definition pci_print_devices :: "'d config_ports \<Rightarrow> pci_vendor list \<Rightarrow> (u8 \<times> u8 \<times> u8 \<Rightarrow> pci_device) \<Rightarrow>
    'd \<Rightarrow> vga \<Rightarrow> ('d \<times> vga) res option" where
  "pci_print_devices io vs junk d v =
     (case kprintf v (INFO @ str ''Enumerating PCI devices:'' @ [10, 0]) [] of
        Inl e \<Rightarrow> Some (Inl e)
      | Inr v1 \<Rightarrow> print_devices_from io vs junk pci_addresses d v1)"

definition print_driver :: "pci_vendor list \<Rightarrow> 'w pci_device_driver \<Rightarrow> nat \<Rightarrow> vga \<Rightarrow> vga res" where
  "print_driver vs d j v =
     res_bind (vendor_str vs (dri_dev d)) (\<lambda>n.
     kprintf v (INFO @ str ''Driver: %s, vendor: %s'' @ [10, 0]) [KStr (generic_name d), KStr n])"

definition pci_print_drivers :: "pci_vendor list \<Rightarrow> ('d, 'w) pci \<Rightarrow> vga \<Rightarrow> vga res" where
  "pci_print_drivers vs p v =
     res_bind (kprintf v (INFO @ str ''Enumerating PCI device drivers:'' @ [10, 0]) [])
       (for_each (\<lambda>i v. res_bind (driver_array p) (\<lambda>ds. res_bind (arr_get ds (int i)) (\<lambda>d.
          for_each (print_driver vs d) [0..<unat (loaded d)] v))) [0..<unat (num_drivers p)])"

section \<open>IDE\<close>

record ide_thread_data =
  td_dev :: pci_device
  td_bus :: u8
  td_slot :: u8
  td_func :: u8

record ide_device =
  channel_mode :: "u32 list"
  channel_mode_modifiable :: "bool list"
  supports_dma :: bool

text \<open>
  The kernel as the IDE driver changes it: the addresses that \<open>malloc\<close> gives next, the blocks in
  use, the console, the table of interrupt handlers and the state of the disk driver.
\<close>

record 'd ide =
  ide_free :: "u32 list"
  ide_blocks :: "u32 \<rightharpoonup> ide_thread_data"
  ide_machine :: machine
  ide_ata :: "'d ata"

definition ide_supports :: "pci_device \<Rightarrow> bool" where
  "ide_supports pdev \<longleftrightarrow> class_code pdev = 1 \<and> sub_class pdev = 1"

definition ide_print_device :: "ide_device \<Rightarrow> machine \<Rightarrow> machine res" where
  "ide_print_device pdev =
     on_console (\<lambda>v. kprintf v (INFO @ str ''IDE device dma=%b'' @ [10, 0]) [KInt (if supports_dma pdev then 1 else 0)])"

text \<open>A value stored in a \<open>bool\<close> is true unless it is 0; an enumeration keeps the number.\<close>

definition ide_channels :: "u8 \<Rightarrow> ide_device" where
  "ide_channels p =
     \<lparr>channel_mode = [ucast (p AND 1), ucast (p AND 4)],
      channel_mode_modifiable = [p AND 2 \<noteq> 0, p AND 8 \<noteq> 0], supports_dma = p AND 0x80 \<noteq> 0\<rparr>"

text \<open>\<open>init_ata_pio\<close> with the handler that it registers; \<open>junk\<close> is what a new list of semaphores holds.\<close>

definition ide_init_ata :: "semaphore list \<Rightarrow> 'd ide \<Rightarrow> 'd ide res" where
  "ide_init_ata junk s =
     res_bind (add_interrupt_handler 46 Ata_pio_handle_irq (ide_machine s)) (\<lambda>m.
     res_bind (init_ata_pio junk (ide_ata s)) (\<lambda>a. Inr (s\<lparr>ide_machine := m, ide_ata := a\<rparr>)))"

definition ide_thread :: "semaphore list \<Rightarrow> u32 \<Rightarrow> 'd ide \<Rightarrow> 'd ide res" where
  "ide_thread junk dat s =
     (case ide_blocks s dat of
        None \<Rightarrow> Inl NullDeref
      | Some td \<Rightarrow>
          res_bind (ide_print_device (ide_channels (prog_if (td_dev td))) (ide_machine s)) (\<lambda>m.
          res_bind (ide_init_ata junk (s\<lparr>ide_machine := m\<rparr>)) (\<lambda>s1.
          res_bind (on_console (\<lambda>v. kprintf v (OKAY @ str ''Set up ATA PIO'' @ [10, 0]) []) (ide_machine s1)) (\<lambda>m1.
          Inr (s1\<lparr>ide_machine := m1, ide_blocks := (ide_blocks s1)(dat := None)\<rparr>)))))"

definition ide_init :: "semaphore list \<Rightarrow> pci_device \<Rightarrow> u8 \<Rightarrow> u8 \<Rightarrow> u8 \<Rightarrow> 'd ide \<Rightarrow> 'd ide res" where
  "ide_init junk pdev bus slot func s =
     (case ide_free s of
        [] \<Rightarrow> Inl NullDeref
      | a # as \<Rightarrow>
          ide_thread junk a (s\<lparr>ide_free := as,
            ide_blocks := (ide_blocks s)(a \<mapsto> \<lparr>td_dev = pdev, td_bus = bus, td_slot = slot, td_func = func\<rparr>)\<rparr>))"

definition no_device :: pci_device where
  "no_device = \<lparr>vendor = None, class_code = 0, sub_class = 0, prog_if = 0, device_id = 0, dev_valid = False\<rparr>"

definition ide_register :: "semaphore list \<Rightarrow> 'd ide driver_alloc \<Rightarrow> ('e, 'd ide) pci \<Rightarrow> ('e, 'd ide) pci res" where
  "ide_register junk fresh p =
     pci_register_device_driver fresh
       \<lparr>supports = ide_supports, init_fn = ide_init junk, generic_name = str ''IDE Controller'' @ [0],
        loaded = 0, dri_dev = no_device\<rparr> p"

section \<open>The search for a vendor\<close>

definition vendors_sorted :: "pci_vendor list \<Rightarrow> bool" where
  "vendors_sorted vs \<longleftrightarrow> sorted_wrt (\<lambda>a b. vendor_id a < vendor_id b) vs \<and> length vs < 2 ^ 32"

lemma vendors_less:
  "vendors_sorted vs \<Longrightarrow> j < length vs \<Longrightarrow> k < length vs \<Longrightarrow> vendor_id (vs ! j) < vendor_id (vs ! k) \<longleftrightarrow> j < k"
  by (metis linorder_neqE_nat order_less_asym sorted_wrt_nth_less vendors_sorted_def order_less_irrefl)

definition middle :: "u32 \<Rightarrow> u32 \<Rightarrow> u32" where
  "middle start stop = (stop - start) div 2 + start"

lemma middle_bounds:
  assumes "start < stop"
  shows "start \<le> middle start stop" "middle start stop < stop"
    "unat (middle start stop) = (unat stop - unat start) div 2 + unat start"
proof -
  have lt: "unat start < unat stop" using assms by (simp add: word_less_nat_alt)
  have d: "unat ((stop - start) div 2) = (unat stop - unat start) div 2"
    using lt by (simp add: unat_div unat_sub word_le_nat_alt)
  have "(unat stop - unat start) div 2 + unat start < unat stop" using lt by linarith
  moreover have "unat stop < 2 ^ LENGTH(32)" by (rule unsigned_less)
  ultimately have "unat ((stop - start) div 2) + unat start < 2 ^ LENGTH(32)" unfolding d by linarith
  then have "unat (middle start stop) = unat ((stop - start) div 2) + unat start"
    unfolding middle_def by (rule unat_add_lem[THEN iffD1])
  then show m: "unat (middle start stop) = (unat stop - unat start) div 2 + unat start" unfolding d .
  show "start \<le> middle start stop" "middle start stop < stop"
    using lt m by (simp_all add: word_le_nat_alt word_less_nat_alt)
qed

lemma vendor_search_step:
  assumes "start < stop" "unat stop \<le> length vs"
  shows "vendor_search vs i start stop =
    (let v = vendor_id (vs ! unat (middle start stop)) in
     if v = i then Some (Inr (Some (unat (middle start stop))))
     else if i < v then vendor_search vs i start (middle start stop)
     else vendor_search vs i (middle start stop) stop)"
proof -
  have "unat (middle start stop) < length vs" using middle_bounds[OF assms(1)] assms(2) by (simp add: word_less_nat_alt)
  moreover have "stop \<noteq> start" using assms(1) by auto
  ultimately show ?thesis
    by (subst vendor_search.simps) (simp add: Let_def arr_get_uint flip: middle_def)
qed

lemma vendor_search_found:
  assumes "vendors_sorted vs" "vendor_id (vs ! k) = i" "unat start \<le> k" "k < unat stop" "unat stop \<le> length vs"
  shows "vendor_search vs i start stop = Some (Inr (Some k))"
  using assms(3-5)
proof (induction "unat stop - unat start" arbitrary: start stop rule: less_induct)
  case less
  let ?g = "middle start stop"
  have st: "start < stop" using less.prems by (simp add: word_less_nat_alt)
  have g: "unat start \<le> unat ?g" "unat ?g < unat stop"
    using middle_bounds[OF st] by (simp_all add: word_le_nat_alt word_less_nat_alt)
  consider "unat ?g = k" | "unat ?g < k" | "k < unat ?g" by linarith
  then show ?case
  proof cases
    case 1
    then show ?thesis using vendor_search_step[OF st less.prems(3), of i] assms(2) by simp
  next
    case 2
    then have "vendor_id (vs ! unat ?g) < i" using vendors_less[OF assms(1)] g less.prems assms(2) by auto
    moreover have "unat start < unat ?g" using middle_bounds(3)[OF st] 2 less.prems by linarith
    ultimately show ?thesis
      using vendor_search_step[OF st less.prems(3), of i] less.hyps[of stop ?g] 2 g less.prems by (auto simp: Let_def)
  next
    case 3
    then have "i < vendor_id (vs ! unat ?g)" using vendors_less[OF assms(1)] g less.prems assms(2) by auto
    then show ?thesis
      using vendor_search_step[OF st less.prems(3), of i] less.hyps[of ?g start] 3 g less.prems by (auto simp: Let_def)
  qed
qed

lemma vendor_search_below:
  assumes "\<forall>k < length vs. i < vendor_id (vs ! k)" "start \<le> stop" "unat stop \<le> length vs"
  shows "vendor_search vs i start stop = Some (Inr None)"
  using assms(2,3)
proof (induction "unat stop" arbitrary: stop rule: less_induct)
  case less
  show ?case
  proof (cases "stop = start")
    case True
    then show ?thesis by (subst vendor_search.simps) simp
  next
    case False
    then have st: "start < stop" using less.prems(1) by simp
    let ?g = "middle start stop"
    have g: "start \<le> ?g" "unat ?g < unat stop" using middle_bounds[OF st] by (simp_all add: word_less_nat_alt)
    have "i < vendor_id (vs ! unat ?g)" using assms(1) g(2) less.prems(2) by simp
    then show ?thesis
      using vendor_search_step[OF st less.prems(2), of i] less.hyps[OF g(2) g(1)] g(2) less.prems(2) by (auto simp: Let_def)
  qed
qed

lemma vendor_search_absent:
  assumes "\<forall>k < length vs. vendor_id (vs ! k) \<noteq> i"
  shows "vendor_search vs i (start :: u32) stop = Some r \<Longrightarrow> start < stop \<Longrightarrow> unat stop \<le> length vs \<Longrightarrow>
    vendor_id (vs ! unat start) < i \<Longrightarrow> False"
proof -
  have "vendor_search vs' i' (start :: u32) stop = Some r \<Longrightarrow> vs' = vs \<and> i' = i \<longrightarrow> start < stop \<longrightarrow> unat stop \<le> length vs \<longrightarrow>
    vendor_id (vs ! unat start) < i \<longrightarrow> False" for vs' i' start stop
  proof (rule vendor_search.raw_induct[where P = "\<lambda>vs' i' start stop r. vs' = vs \<and> i' = i \<longrightarrow> start < stop \<longrightarrow> unat stop \<le> length vs \<longrightarrow>
    vendor_id (vs ! unat start) < i \<longrightarrow> False"])
    fix f vs' i' and start stop :: u32 and r
    assume IH: "\<And>vs' i' start stop r. f vs' i' start stop = Some r \<Longrightarrow> vs' = vs \<and> i' = i \<longrightarrow> start < stop \<longrightarrow> unat stop \<le> length vs \<longrightarrow>
        vendor_id (vs ! unat start) < i \<longrightarrow> False"
      and body: "(if stop = start then Some (Inr None)
        else let guess = (stop - start) div 2 + start in
          case arr_get vs' (uint guess) of Inl e \<Rightarrow> Some (Inl e)
          | Inr v \<Rightarrow> if vendor_id v = i' then Some (Inr (Some (unat guess)))
              else if i' < vendor_id v then f vs' i' start guess else f vs' i' guess stop) = Some r"
    show "vs' = vs \<and> i' = i \<longrightarrow> start < stop \<longrightarrow> unat stop \<le> length vs \<longrightarrow> vendor_id (vs ! unat start) < i \<longrightarrow> False"
    proof (intro impI)
      assume "vs' = vs \<and> i' = i" and st: "start < stop" "unat stop \<le> length vs" and lo: "vendor_id (vs ! unat start) < i"
      then have e: "vs' = vs" "i' = i" by simp_all
      let ?g = "middle start stop"
      note g = middle_bounds(1,2)[OF st(1)]
      have gl: "unat ?g < length vs" using g(2) st(2) by (simp add: word_less_nat_alt)
      then have ne: "vendor_id (vs ! unat ?g) \<noteq> i" using assms by blast
      have b: "(if i < vendor_id (vs ! unat ?g) then f vs i start ?g else f vs i ?g stop) = Some r"
        using body[unfolded e] less_imp_neq[OF st(1)] gl ne by (simp add: Let_def arr_get_uint flip: middle_def)
      show False
      proof (cases "i < vendor_id (vs ! unat ?g)")
        case True
        then have "?g \<noteq> start" using lo by auto
        then have "start < ?g" using g(1) by simp
        then show False using IH[of vs i start ?g r] b True lo gl by simp
      next
        case False
        then have "vendor_id (vs ! unat ?g) < i" using ne by simp
        then show False using IH[of vs i ?g stop r] b False g(2) st(2) by simp
      qed
    qed
  qed
  then show "vendor_search vs i start stop = Some r \<Longrightarrow> start < stop \<Longrightarrow> unat stop \<le> length vs \<Longrightarrow>
    vendor_id (vs ! unat start) < i \<Longrightarrow> False" by blast
qed

lemma pci_search_outcomes:
  assumes "vendors_sorted vs"
  shows "pci_vendor_by_id vs i =
    (case filter (\<lambda>k. vendor_id (vs ! k) = i) [0..<length vs] of
       k # _ \<Rightarrow> Some (Inr (Some k))
     | [] \<Rightarrow> if vs = [] \<or> i < vendor_id (vs ! 0) then Some (Inr None) else None)"
proof (cases "filter (\<lambda>k. vendor_id (vs ! k) = i) [0..<length vs]")
  case (Cons k ks)
  then have "k \<in> set (filter (\<lambda>k. vendor_id (vs ! k) = i) [0..<length vs])" by simp
  then have k: "k < length vs" "vendor_id (vs ! k) = i" by auto
  have "unat (of_nat (length vs) :: u32) = length vs" using assms by (simp add: vendors_sorted_def unat_of_nat)
  then have "pci_vendor_by_id vs i = Some (Inr (Some k))"
    unfolding pci_vendor_by_id_def using k by (intro vendor_search_found[OF assms k(2)]) simp_all
  then show ?thesis using Cons by simp
next
  case Nil
  then have absent: "\<forall>k < length vs. vendor_id (vs ! k) \<noteq> i" by (auto simp: filter_empty_conv)
  have l: "unat (of_nat (length vs) :: u32) = length vs" using assms by (simp add: vendors_sorted_def unat_of_nat)
  show ?thesis
  proof (cases "vs = [] \<or> i < vendor_id (vs ! 0)")
    case True
    have "i < vendor_id (vs ! k)" if "k < length vs" for k
    proof (cases "k = 0")
      case False
      then have "vendor_id (vs ! 0) < vendor_id (vs ! k)" using vendors_less[OF assms _ that, of 0] that False by (cases vs) auto
      then show ?thesis using True that by force
    qed (use True that in auto)
    then have "pci_vendor_by_id vs i = Some (Inr None)"
      unfolding pci_vendor_by_id_def using l by (intro vendor_search_below) simp_all
    then show ?thesis using Nil True by simp
  next
    case False
    then have "0 < length vs" "\<not> i < vendor_id (vs ! 0)" by auto
    moreover from this(1) have "vendor_id (vs ! 0) \<noteq> i" using absent by blast
    ultimately have "vendor_id (vs ! unat (0 :: u32)) < i" "(0 :: u32) < of_nat (length vs)"
      using l by (simp_all add: word_less_nat_alt[of 0])
    then have "pci_vendor_by_id vs i = None"
      unfolding pci_vendor_by_id_def using vendor_search_absent[OF absent] l by (metis eq_imp_le not_None_eq)
    then show ?thesis using Nil False by simp
  qed
qed

definition three_vendors :: "pci_vendor list" where
  "three_vendors = [\<lparr>vendor_id = 0x1022, vendor_name = [65, 0]\<rparr>, \<lparr>vendor_id = 0x1234, vendor_name = [66, 0]\<rparr>,
     \<lparr>vendor_id = 0x8086, vendor_name = [67, 0]\<rparr>]"

lemma three_vendors_sorted: "vendors_sorted three_vendors"
  by (simp add: vendors_sorted_def three_vendors_def)


text \<open>
  C34. In a table sorted by id, \<open>pci_vendor_by_id\<close> finds the entry of every id that is listed. An id below
  all of them gives the null pointer, and every other id that is not listed a search that never returns:
  the lower bound moves to the middle and not past it.
\<close>

theorem pci_vendor_by_id_outcomes:
  assumes "vendors_sorted vs"
  shows "pci_vendor_by_id vs i =
    (case filter (\<lambda>k. vendor_id (vs ! k) = i) [0..<length vs] of
       k # _ \<Rightarrow> Some (Inr (Some k))
     | [] \<Rightarrow> if vs = [] \<or> i < vendor_id (vs ! 0) then Some (Inr None) else None)"
  by (rule pci_search_outcomes[OF assms])

theorem pci_vendor_by_id_outcomes_witness:
  "pci_vendor_by_id three_vendors 0x8086 = Some (Inr (Some 2)) \<and> pci_vendor_by_id three_vendors 0x1af4 = None \<and>
   pci_vendor_by_id three_vendors 1 = Some (Inr None)"
  unfolding pci_vendor_by_id_outcomes[OF three_vendors_sorted] by (simp add: three_vendors_def)

section \<open>The configuration space as an interface\<close>

text \<open>Reading a register gives its value, whatever was read before.\<close>

locale config_space =
  fixes ok :: "'d \<Rightarrow> bool" and io :: "'d config_ports" and regs :: "u8 \<Rightarrow> u8 \<Rightarrow> u8 \<Rightarrow> u8 \<Rightarrow> u32"
  assumes readd: "ok d \<Longrightarrow> \<exists>d'. pci_config_readd io bus slot func off d = (regs bus slot func off, d') \<and> ok d'"

text \<open>What \<open>pci_check_device\<close> sees; an absent device has what the uninitialised memory holds.\<close>

definition vendor_at :: "(u8 \<Rightarrow> u8 \<Rightarrow> u8 \<Rightarrow> u8 \<Rightarrow> u32) \<Rightarrow> u8 \<times> u8 \<times> u8 \<Rightarrow> u16" where
  "vendor_at regs a = (case a of (bus, slot, func) \<Rightarrow> ucast (regs bus slot func 0))"

definition listed :: "pci_vendor list \<Rightarrow> u16 \<Rightarrow> bool" where
  "listed vs i \<longleftrightarrow> i \<in> vendor_id ` set vs \<or> vs = [] \<or> i < vendor_id (vs ! 0)"

definition seen_device :: "(u8 \<Rightarrow> u8 \<Rightarrow> u8 \<Rightarrow> u8 \<Rightarrow> u32) \<Rightarrow> pci_vendor list \<Rightarrow> (u8 \<times> u8 \<times> u8 \<Rightarrow> pci_device) \<Rightarrow> u8 \<times> u8 \<times> u8 \<Rightarrow> pci_device" where
  "seen_device regs vs junk a =
     (if vendor_at regs a = 0xffff then (junk a)\<lparr>dev_valid := False\<rparr>
      else case a of (bus, slot, func) \<Rightarrow>
        \<lparr>vendor = (case filter (\<lambda>k. vendor_id (vs ! k) = vendor_at regs a) [0..<length vs] of [] \<Rightarrow> None | k # _ \<Rightarrow> Some k),
         class_code = ucast (drop_bit 24 (regs bus slot func 2)), sub_class = ucast (drop_bit 16 (regs bus slot func 2)),
         prog_if = ucast (drop_bit 8 (regs bus slot func 2)), device_id = ucast (drop_bit 16 (regs bus slot func 0)),
         dev_valid = True\<rparr>)"

lemma ucast_masked: "(ucast (x AND 0xff) :: u8) = ucast (x :: u32)" "(ucast (x AND 0xffff) :: u16) = ucast x"
  by (rule bit_word_eqI, auto simp: bit_simps masks)+

lemma no_entry: "filter (\<lambda>k. vendor_id (vs ! k) = i) [0..<length vs] = [] \<longleftrightarrow> i \<notin> vendor_id ` set vs"
proof -
  have "i \<in> vendor_id ` set vs \<longleftrightarrow> (\<exists>k < length vs. vendor_id (vs ! k) = i)"
    unfolding image_iff Bex_def in_set_conv_nth by blast
  then show ?thesis by (auto simp: filter_empty_conv)
qed

lemma vendor_by_id_listed:
  assumes "vendors_sorted vs" "listed vs i"
  shows "pci_vendor_by_id vs i = Some (Inr (case filter (\<lambda>k. vendor_id (vs ! k) = i) [0..<length vs] of [] \<Rightarrow> None | k # _ \<Rightarrow> Some k))"
  using assms(2) no_entry[of vs i]
  by (cases "filter (\<lambda>k. vendor_id (vs ! k) = i) [0..<length vs]") (auto simp: pci_search_outcomes[OF assms(1)] listed_def)

lemma vendor_by_id_unlisted:
  assumes "vendors_sorted vs" "\<not> listed vs i"
  shows "pci_vendor_by_id vs i = None"
proof -
  have "filter (\<lambda>k. vendor_id (vs ! k) = i) [0..<length vs] = []" using assms(2) by (simp only: no_entry listed_def) simp
  then show ?thesis using assms(2) by (simp add: pci_search_outcomes[OF assms(1)] listed_def)
qed

context config_space
begin

lemma check_device_listed:
  assumes "ok d" "vendors_sorted vs" "vendor_at regs (bus, slot, func) = 0xffff \<or> listed vs (vendor_at regs (bus, slot, func))"
  shows "\<exists>d'. pci_check_device io vs (junk (bus, slot, func)) bus slot func d = Some (Inr (seen_device regs vs junk (bus, slot, func), d')) \<and> ok d'"
proof -
  obtain d1 where 1: "pci_config_readd io bus slot func 0 d = (regs bus slot func 0, d1)" "ok d1" using readd[OF assms(1)] by blast
  obtain d2 where 2: "pci_config_readd io bus slot func 2 d1 = (regs bus slot func 2, d2)" "ok d2" using readd[OF 1(2)] by blast
  show ?thesis
  proof (cases "vendor_at regs (bus, slot, func) = 0xffff")
    case True
    then show ?thesis using 1 by (auto simp: pci_check_device_def seen_device_def vendor_at_def ucast_masked)
  next
    case False
    then show ?thesis using 1 2 assms(3) vendor_by_id_listed[OF assms(2), of "ucast (regs bus slot func 0)"]
      by (auto simp: pci_check_device_def seen_device_def vendor_at_def ucast_masked Let_def)
  qed
qed

lemma check_device_unlisted:
  assumes "ok d" "vendors_sorted vs" "vendor_at regs (bus, slot, func) \<noteq> 0xffff" "\<not> listed vs (vendor_at regs (bus, slot, func))"
  shows "pci_check_device io vs j bus slot func d = None"
proof -
  obtain d1 where "pci_config_readd io bus slot func 0 d = (regs bus slot func 0, d1)" using readd[OF assms(1)] by blast
  then show ?thesis using assms(3,4) vendor_by_id_unlisted[OF assms(2), of "ucast (regs bus slot func 0)"]
    by (simp add: pci_check_device_def vendor_at_def ucast_masked Let_def)
qed

end

section \<open>The scan\<close>

definition inits_return :: "'w pci_device_driver list \<Rightarrow> bool" where
  "inits_return ds \<longleftrightarrow> (\<forall>dri\<in>set ds. \<forall>pdev bus slot func w. \<exists>w'. init_fn dri pdev bus slot func w = Inr w')"

text \<open>The drivers with \<open>n i\<close> more loads of the driver \<open>i\<close>.\<close>

definition loads :: "(nat \<Rightarrow> nat) \<Rightarrow> 'w pci_device_driver list \<Rightarrow> 'w pci_device_driver list \<Rightarrow> bool" where
  "loads n ds ds' \<longleftrightarrow> length ds' = length ds \<and> (\<forall>i < length ds. supports (ds' ! i) = supports (ds ! i) \<and>
     init_fn (ds' ! i) = init_fn (ds ! i) \<and> generic_name (ds' ! i) = generic_name (ds ! i) \<and> loaded (ds' ! i) = loaded (ds ! i) + of_nat (n i))"

lemma loads_refl: "loads (\<lambda>i. 0) ds ds" by (simp add: loads_def)

lemma loads_trans: "loads m ds ds1 \<Longrightarrow> loads n ds1 ds2 \<Longrightarrow> loads (\<lambda>i. m i + n i) ds ds2"
  by (simp add: loads_def add.assoc)

lemma loads_cong: "loads m ds ds' \<Longrightarrow> (\<And>i. i < length ds \<Longrightarrow> m i = n i) \<Longrightarrow> loads n ds ds'"
  by (simp add: loads_def)

lemma loads_inits: "loads n ds ds' \<Longrightarrow> inits_return ds \<Longrightarrow> inits_return ds'"
  by (fastforce simp: loads_def inits_return_def in_set_conv_nth)

lemma offer_loads:
  assumes "drivers p = Some ds" "inits_return ds" "distinct is" "set is \<subseteq> {..<length ds}"
  shows "\<exists>p' ds'. offer pdev bus slot func is p = Inr p' \<and> drivers p' = Some ds' \<and>
    loads (\<lambda>i. if i \<in> set is \<and> supports (ds ! i) pdev then 1 else 0) ds ds' \<and> config p' = config p \<and> num_drivers p' = num_drivers p"
  using assms
proof (induction "is" arbitrary: p ds)
  case Nil
  then show ?case by (simp add: loads_refl)
next
  case (Cons i "is")
  have i: "i < length ds" using Cons.prems by simp
  show ?case
  proof (cases "supports (ds ! i) pdev")
    case False
    obtain p' ds' where "offer pdev bus slot func is p = Inr p'" "drivers p' = Some ds'"
      "loads (\<lambda>i. if i \<in> set is \<and> supports (ds ! i) pdev then 1 else 0) ds ds'" "config p' = config p" "num_drivers p' = num_drivers p"
      using Cons.IH[OF Cons.prems(1,2)] Cons.prems(3,4) by auto
    moreover from this(3) have "loads (\<lambda>j. if j \<in> set (i # is) \<and> supports (ds ! j) pdev then 1 else 0) ds ds'"
      by (rule loads_cong) (use False in auto)
    ultimately show ?thesis using Cons.prems(1) i False by (simp add: driver_array_def arr_get_in)
  next
    case True
    obtain w where w: "init_fn (ds ! i) pdev bus slot func (world p) = Inr w"
      using Cons.prems(2) i by (meson inits_return_def nth_mem)
    let ?ds = "ds[i := (ds ! i)\<lparr>loaded := loaded (ds ! i) + 1, dri_dev := pdev\<rparr>]"
    let ?p = "p\<lparr>drivers := Some ?ds, world := w\<rparr>"
    have l1: "loads (\<lambda>j. if j = i then 1 else 0) ds ?ds" using i by (auto simp: loads_def nth_list_update)
    have "drivers ?p = Some ?ds" "inits_return ?ds" using loads_inits[OF l1 Cons.prems(2)] by simp_all
    then obtain p' ds' where p': "offer pdev bus slot func is ?p = Inr p'" "drivers p' = Some ds'"
      "loads (\<lambda>j. if j \<in> set is \<and> supports (?ds ! j) pdev then 1 else 0) ?ds ds'" "config p' = config ?p" "num_drivers p' = num_drivers ?p"
      using Cons.IH[of ?p ?ds] Cons.prems(3,4) by auto
    have "loads (\<lambda>j. if j \<in> set (i # is) \<and> supports (ds ! j) pdev then 1 else 0) ds ds'"
      by (rule loads_cong[OF loads_trans[OF l1 p'(3)]]) (use True Cons.prems(3) in \<open>auto simp: nth_list_update\<close>)
    then show ?thesis using p' w True i Cons.prems(1) by (simp add: driver_array_def arr_get_in)
  qed
qed

definition count_loads :: "(u8 \<Rightarrow> u8 \<Rightarrow> u8 \<Rightarrow> u8 \<Rightarrow> u32) \<Rightarrow> pci_vendor list \<Rightarrow> (u8 \<times> u8 \<times> u8 \<Rightarrow> pci_device) \<Rightarrow> (pci_device \<Rightarrow> bool) \<Rightarrow>
    (u8 \<times> u8 \<times> u8) list \<Rightarrow> nat" where
  "count_loads regs vs junk supp as = length (filter (\<lambda>a. supp (seen_device regs vs junk a)) as)"

definition vendor_listed_at :: "(u8 \<Rightarrow> u8 \<Rightarrow> u8 \<Rightarrow> u8 \<Rightarrow> u32) \<Rightarrow> pci_vendor list \<Rightarrow> u8 \<times> u8 \<times> u8 \<Rightarrow> bool" where
  "vendor_listed_at regs vs a \<longleftrightarrow> vendor_at regs a = 0xffff \<or> listed vs (vendor_at regs a)"

context config_space
begin

lemma load_from_outcomes:
  assumes "ok (config p)" "vendors_sorted vs" "drivers p = Some ds" "inits_return ds" "unat (num_drivers p) \<le> length ds"
  shows "if \<forall>a\<in>set as. vendor_listed_at regs vs a
    then \<exists>p' ds'. load_from io vs junk as p = Some (Inr p') \<and> drivers p' = Some ds' \<and>
      loads (\<lambda>i. if i < unat (num_drivers p) then count_loads regs vs junk (supports (ds ! i)) as else 0) ds ds'
    else load_from io vs junk as p = None"
  using assms
proof (induction as arbitrary: p ds)
  case Nil
  have "loads (\<lambda>i. if i < unat (num_drivers p) then count_loads regs vs junk (supports (ds ! i)) [] else 0) ds ds"
    by (rule loads_cong[OF loads_refl]) (simp add: count_loads_def)
  then show ?case using Nil.prems(3) by simp
next
  case (Cons a as)
  obtain bus slot func where a: "a = (bus, slot, func)" by (cases a)
  show ?case
  proof (cases "vendor_listed_at regs vs a")
    case False
    then show ?thesis using check_device_unlisted[OF Cons.prems(1,2)] by (simp add: a vendor_listed_at_def)
  next
    case True
    let ?dev = "seen_device regs vs junk a"
    obtain d where d: "pci_check_device io vs (junk (bus, slot, func)) bus slot func (config p) = Some (Inr (?dev, d))" "ok d"
      using check_device_listed[OF Cons.prems(1,2), of bus slot func junk] True[unfolded vendor_listed_at_def] unfolding a by blast
    let ?n = "unat (num_drivers p)"
    have o: "drivers (p\<lparr>config := d\<rparr>) = Some ds" "set [0..<?n] \<subseteq> {..<length ds}" using Cons.prems(3,5) by auto
    obtain p1 ds1 where p1: "offer ?dev bus slot func [0..<?n] (p\<lparr>config := d\<rparr>) = Inr p1" "drivers p1 = Some ds1"
      "loads (\<lambda>i. if i \<in> set [0..<?n] \<and> supports (ds ! i) ?dev then 1 else 0) ds ds1" "config p1 = d" "num_drivers p1 = num_drivers p"
      using offer_loads[OF o(1) Cons.prems(4) distinct_upt o(2), of ?dev bus slot func] by auto
    have s: "length ds1 = length ds" "\<And>i. i < length ds \<Longrightarrow> supports (ds1 ! i) = supports (ds ! i)" using p1(3) by (simp_all add: loads_def)
    have step: "load_from io vs junk (a # as) p = load_from io vs junk as p1" using d(1) p1(1) by (simp add: a)
    have c: "ok (config p1)" "unat (num_drivers p1) \<le> length ds1" using p1(4,5) d(2) s(1) Cons.prems(5) by simp_all
    have IH: "if \<forall>a\<in>set as. vendor_listed_at regs vs a
      then \<exists>p' ds'. load_from io vs junk as p1 = Some (Inr p') \<and> drivers p' = Some ds' \<and>
        loads (\<lambda>i. if i < ?n then count_loads regs vs junk (supports (ds1 ! i)) as else 0) ds1 ds'
      else load_from io vs junk as p1 = None"
      using Cons.IH[OF c(1) Cons.prems(2) p1(2) loads_inits[OF p1(3) Cons.prems(4)] c(2), unfolded p1(5)] .
    show ?thesis
    proof (cases "\<forall>a\<in>set as. vendor_listed_at regs vs a")
      case False
      then show ?thesis using IH step by auto
    next
      case all: True
      then obtain p' ds' where p': "load_from io vs junk as p1 = Some (Inr p')" "drivers p' = Some ds'"
        "loads (\<lambda>i. if i < ?n then count_loads regs vs junk (supports (ds1 ! i)) as else 0) ds1 ds'" using IH by auto
      have "loads (\<lambda>i. if i < ?n then count_loads regs vs junk (supports (ds ! i)) (a # as) else 0) ds ds'"
        by (rule loads_cong[OF loads_trans[OF p1(3) p'(3)]]) (simp add: s(2) count_loads_def)
      then show ?thesis using all True p' step by auto
    qed
  qed
qed

end

text \<open>
  Ports that keep the last address and give the register that it names: the configuration
  mechanism of the bus, on registers \<open>space\<close>.
\<close>

definition latch_ports :: "(u32 \<Rightarrow> u32) \<Rightarrow> u32 config_ports" where
  "latch_ports space = \<lparr>outl = (\<lambda>port v d. if port = PCI_CONFIG_ADDRESS then v else d),
     inl = (\<lambda>port d. (if port = PCI_CONFIG_DATA then space d else 0xffffffff, d))\<rparr>"

definition space_regs :: "(u32 \<Rightarrow> u32) \<Rightarrow> u8 \<Rightarrow> u8 \<Rightarrow> u8 \<Rightarrow> u8 \<Rightarrow> u32" where
  "space_regs space bus slot func off = space (config_address bus slot func off)"

interpretation latch: config_space "\<lambda>d. True" "latch_ports space" "space_regs space" for space
  by unfold_locales (simp add: latch_ports_def pci_config_readd_def space_regs_def)

section \<open>Properties\<close>


definition any_ide :: "nat pci_device_driver" where
  "any_ide = \<lparr>supports = ide_supports, init_fn = (\<lambda>pdev bus slot func w. Inr (Suc w)), generic_name = [0],
     loaded = 0, dri_dev = no_device\<rparr>"

definition one_driver :: "(u32, nat) pci" where
  "one_driver = \<lparr>num_drivers = 1, size_drivers = 4, drivers = Some (replicate 4 any_ide), config = 0, world = 0\<rparr>"

lemma pci_addresses_length: "length pci_addresses = 65280"
  by (simp add: pci_addresses_def length_concat sum_list_triv comp_def del: upt_rec_numeral)

lemma pci_addresses_first: "(0, 0, 0) \<in> set pci_addresses"
  by (auto simp: pci_addresses_def simp del: upt_rec_numeral intro!: bexI[of _ "0 :: nat"] image_eqI[of _ _ "0 :: nat"])


lemma take_Suc_update: "n < length xs \<Longrightarrow> take (Suc n) (xs[n := x]) = take n xs @ [x]"
  by (simp add: take_Suc_conv_app_nth)

text \<open>
  A registered driver is behind the ones before it, which stay, with no loads yet; the array grows by eight
  when it is full. A null pointer from the allocator is followed.
\<close>

theorem pci_register_appends:
  assumes "drivers p = Some ds" "length ds = unat (size_drivers p)" "unat (num_drivers p) \<le> unat (size_drivers p)"
    "unat (size_drivers p) + 8 < 2 ^ 32" "\<And>n. n = unat (size_drivers p) + 8 \<Longrightarrow> fresh n = None \<or> (\<exists>new. fresh n = Some new \<and> length new = n)"
  shows "if num_drivers p = size_drivers p \<and> fresh (unat (size_drivers p) + 8) = None
    then pci_register_device_driver fresh dri p = Inl NullDeref
    else \<exists>p' ds'. pci_register_device_driver fresh dri p = Inr p' \<and> drivers p' = Some ds' \<and> length ds' = unat (size_drivers p') \<and>
      unat (num_drivers p') = Suc (unat (num_drivers p)) \<and>
      take (unat (num_drivers p')) ds' = take (unat (num_drivers p)) ds @ [dri\<lparr>loaded := 0\<rparr>]"
proof -
  let ?n = "unat (num_drivers p)"
  have u: "unat (size_drivers p + 8) = unat (size_drivers p) + 8"
    using assms(4) unat_add_lem[of "size_drivers p" 8] by simp
  have n1: "unat (num_drivers p + 1) = Suc ?n" using assms(3,4) by (intro unat_plus_one) simp
  show ?thesis
  proof (cases "num_drivers p = size_drivers p")
    case False
    then have "?n < length ds" using assms(2,3) by (simp add: word_unat_eq_iff)
    then show ?thesis using False assms(1,2) take_Suc_update[of ?n ds "dri\<lparr>loaded := 0\<rparr>"] n1
      by (simp add: pci_register_device_driver_def Let_def driver_array_def arr_set_uint)
  next
    case True
    show ?thesis
    proof (cases "fresh (unat (size_drivers p) + 8)")
      case None
      then show ?thesis using True assms(1) u
        by (simp add: pci_register_device_driver_def Let_def driver_array_def realloc_drivers_def)
    next
      case (Some new)
      then have l: "length new = unat (size_drivers p) + 8" using assms(5) by auto
      let ?xs = "ds @ drop (length ds) new"
      have len: "length ?xs = unat (size_drivers p) + 8" "?n < length ?xs" using l assms(2) True by simp_all
      have r: "realloc_drivers fresh (drivers p) (unat (size_drivers p + 8)) = Some ?xs"
        using Some assms(1,2) u by (simp add: realloc_drivers_def)
      have "take ?n ?xs = take ?n ds" using True assms(2) by simp
      then show ?thesis using True Some r len take_Suc_update[OF len(2), of "dri\<lparr>loaded := 0\<rparr>"] n1 u
        by (simp add: pci_register_device_driver_def Let_def driver_array_def arr_set_uint)
    qed
  qed
qed

theorem pci_register_appends_witness:
  "\<exists>p' ds'. pci_register_device_driver (\<lambda>n. Some (replicate n any_ide)) any_ide one_driver = Inr p' \<and> drivers p' = Some ds' \<and>
    take 2 ds' = [any_ide, any_ide]"
proof -
  have l: "any_ide\<lparr>loaded := 0\<rparr> = any_ide" by (simp add: any_ide_def)
  obtain p' ds' where "pci_register_device_driver (\<lambda>n. Some (replicate n any_ide)) any_ide one_driver = Inr p'" "drivers p' = Some ds'"
    "unat (num_drivers p') = Suc 1" "take (unat (num_drivers p')) ds' = [any_ide] @ [any_ide]"
    using pci_register_appends[of one_driver "replicate 4 any_ide" "\<lambda>n. Some (replicate n any_ide)" any_ide, unfolded l]
    by (auto simp: one_driver_def)
  then show ?thesis by (simp add: numeral_2_eq_2)
qed

text \<open>
  Starting the IDE driver reports the controller, registers the disk driver's interrupt, makes the disk
  driver's lock and gives back the block that held its arguments; nothing of it depends on the
  controller but the line that is printed. Without memory for the block a null pointer is written to.
\<close>

theorem ide_init_starts_ata:
  assumes "console_ok (console (kbd (ide_machine s)))" "length (interrupt_handlers (ide_machine s)) = 256"
    "init_ata_pio junk (ide_ata s) = Inr a'"
  shows "(ide_free s = [] \<longrightarrow> ide_init junk pdev bus slot func s = Inl NullDeref) \<and>
    (\<forall>a as. ide_free s = a # as \<longrightarrow> ide_blocks s a = None \<longrightarrow>
      (\<exists>v. ide_init junk pdev bus slot func s = Inr (s\<lparr>ide_free := as, ide_ata := a',
         ide_machine := with_console v ((ide_machine s)\<lparr>interrupt_handlers := (interrupt_handlers (ide_machine s))[46 := Some Ata_pio_handle_irq]\<rparr>)\<rparr>) \<and>
         console_ok v))"
proof (intro conjI allI impI)
  fix a as assume f: "ide_free s = a # as" "ide_blocks s a = None"
  let ?m = "ide_machine s" and ?d = "ide_channels (prog_if pdev)"
  obtain v1 where 1: "on_console (\<lambda>v. kprintf v (INFO @ str ''IDE device dma=%b'' @ [10, 0]) [KInt (if supports_dma ?d then 1 else 0)]) ?m
      = Inr (with_console v1 ?m)" "console_ok v1"
    using log_line_ok[OF assms(1) levels_ok(1), of "''IDE device dma=%b''" "[KInt (if supports_dma ?d then 1 else 0)]"]
    by (auto simp: format_eval)
  let ?m1 = "with_console v1 ?m"
  let ?m2 = "?m1\<lparr>interrupt_handlers := (interrupt_handlers ?m)[46 := Some Ata_pio_handle_irq]\<rparr>"
  have 2: "add_interrupt_handler 46 Ata_pio_handle_irq ?m1 = Inr ?m2"
    using assms(2) by (simp add: add_interrupt_handler_def arr_set_def)
  have "console_ok (console (kbd ?m2))" using 1(2) by (simp add: with_console_def)
  then obtain v3 where 3: "on_console (\<lambda>v. kprintf v (OKAY @ str ''Set up ATA PIO'' @ [10, 0]) []) ?m2 = Inr (with_console v3 ?m2)" "console_ok v3"
    using log_line_ok[OF _ levels_ok(2), of ?m2 "''Set up ATA PIO''" "[]"] by (auto simp: format_eval)
  have m: "with_console v3 ?m2 = with_console v3 (?m\<lparr>interrupt_handlers := (interrupt_handlers ?m)[46 := Some Ata_pio_handle_irq]\<rparr>)"
    by (simp add: with_console_def)
  have b: "(ide_blocks s)(a := None) = ide_blocks s" using f(2) by auto
  have "ide_init junk pdev bus slot func s = Inr (s\<lparr>ide_free := as, ide_ata := a', ide_machine := with_console v3 ?m2\<rparr>)"
    using f(1) 1(1) 2 3(1) assms(3) b
    by (simp add: ide_init_def ide_thread_def ide_print_device_def ide_init_ata_def)
  then show "\<exists>v. ide_init junk pdev bus slot func s = Inr (s\<lparr>ide_free := as, ide_ata := a',
         ide_machine := with_console v (?m\<lparr>interrupt_handlers := (interrupt_handlers ?m)[46 := Some Ata_pio_handle_irq]\<rparr>)\<rparr>) \<and> console_ok v"
    using 3(2) unfolding m by blast
qed (simp add: ide_init_def)

definition ide_start :: "controller ide" where
  "ide_start = \<lparr>ide_free = [0xC0300000], ide_blocks = (\<lambda>_. None), ide_machine = boot_machine, ide_ata = blank_disk\<rparr>"

theorem ide_init_starts_ata_witness:
  "\<exists>s'. ide_init [] no_device 0 0 0 ide_start = Inr s' \<and> interrupt_handlers (ide_machine s') ! 46 = Some Ata_pio_handle_irq"
proof -
  have i: "\<exists>a'. init_ata_pio [] blank_disk = Inr a'"
    unfolding init_ata_pio_def blank_disk_def one_semaphore_def sm_new_def
    by (simp, subst sm_place.simps) (simp add: SM_PER_LIST_def get_sm_def arr_get_def Let_def word_le_nat_alt)
  then obtain a' where a: "init_ata_pio [] (ide_ata ide_start) = Inr a'" by (auto simp: ide_start_def)
  have c: "console_ok (console (kbd (ide_machine ide_start)))" "length (interrupt_handlers (ide_machine ide_start)) = 256"
    using kbd_start_inv by (simp_all add: ide_start_def boot_machine_def kbd_inv_def boot_handlers_length)
  have "ide_free ide_start = 0xC0300000 # []" "ide_blocks ide_start 0xC0300000 = None" by (simp_all add: ide_start_def)
  then obtain v where "ide_init [] no_device 0 0 0 ide_start = Inr (ide_start\<lparr>ide_free := [], ide_ata := a',
         ide_machine := with_console v ((ide_machine ide_start)\<lparr>interrupt_handlers := (interrupt_handlers (ide_machine ide_start))[46 := Some Ata_pio_handle_irq]\<rparr>)\<rparr>)"
    using ide_init_starts_ata[OF c a, of no_device 0 0 0] by blast
  then show ?thesis using c(2) by simp
qed

text \<open>
  The two modes of the second channel are 0 and 4, and 4 is neither of the values of \<open>enum ide_mode\<close>.
\<close>

theorem ide_second_channel_mode:
  "channel_mode (ide_channels p) ! 1 = (if bit p 2 then 4 else 0) \<and> channel_mode (ide_channels p) ! 0 = (if bit p 0 then 1 else 0) \<and>
   channel_mode_modifiable (ide_channels p) = [bit p 1, bit p 3] \<and> supports_dma (ide_channels p) = bit p 7"
proof -
  have b: "p AND push_bit n 1 = (if bit p n then push_bit n 1 else 0)" for n
    by (rule bit_word_eqI) (auto simp: bit_simps)
  show ?thesis
    using b[of 0] b[of 1] b[of 2] b[of 3] b[of 7] by (simp add: ide_channels_def)
qed

end
