(* ===== verification/Spec2Isabelle.thy ===== *)
theory Spec2Isabelle
  imports Prelude Kheap Kstring Vga Klog Keyboard Memory Bytes Kalloc Bitmap Paging Tasks Sync Vfs Initrd AtaPio Ext2 Ext2_Disk Ext2_Dir Ext2_Vfs Lisp_Values Lisp_Stream Lisp_Reader Lisp_GC Lisp_Std Interrupts Multiboot Pci
begin

text \<open>
  Bluejay is a small 32-bit kernel (\<^verbatim>\<open>src/kernel\<close>, \<^verbatim>\<open>include/kernel\<close>), a program that makes its
  initial ram disk (\<^verbatim>\<open>src/mkinitrd\<close>) and a Lisp system (\<^verbatim>\<open>src/lisp\<close>). This library models the C
  code of all three and proves what makes it correct, and where it is not, what it does instead.

  \<^bold>\<open>The parts and their theories.\<close>

  \<^item> \<open>Prelude\<close>: the C integers as words, the type of results with its faults, checked array access,
    and the macros of \<^verbatim>\<open>kint.h\<close>.
  \<^item> Memory. \<open>Kheap\<close> is the min-heap of free gaps (\<^verbatim>\<open>kheap.c\<close>); \<open>Memory\<close> is memory by bytes;
    \<open>Kalloc\<close> has \<open>kmalloc\<close>, \<open>malloc\<close>, \<open>free\<close> and \<open>realloc\<close> (\<^verbatim>\<open>alloc.c\<close>), which keep headers and footers in that
    memory and gaps in that heap; \<open>Bitmap\<close> and \<open>Paging\<close> have the frames and the page tables (\<^verbatim>\<open>paging.c\<close>).
  \<^item> Output and input. \<open>Kstring\<close> (\<^verbatim>\<open>io.c\<close>), \<open>Vga\<close> (\<^verbatim>\<open>vga.c\<close>), \<open>Klog\<close> with \<open>kprintf\<close> (\<^verbatim>\<open>log.c\<close>, \<^verbatim>\<open>log.h\<close>), which
    prints on the console, and \<open>Keyboard\<close> with the tables of scan codes (\<^verbatim>\<open>kbd.h\<close>, \<^verbatim>\<open>scan_codes.c\<close>).
  \<^item> Processes. \<open>Tasks\<close> (\<^verbatim>\<open>task.c\<close>) has the list of tasks and the scheduler, \<open>Sync\<close> (\<^verbatim>\<open>sync.c\<close>) the spin locks
    and semaphores that block tasks, and \<open>Interrupts\<close> (\<^verbatim>\<open>descriptor_tables.c\<close>, \<^verbatim>\<open>pic.c\<close>, \<^verbatim>\<open>timer.c\<close>,
    \<^verbatim>\<open>faults.c\<close>, \<^verbatim>\<open>syscall.c\<close>) what the boot code puts into the processor's tables, and how an interrupt
    reaches the scheduler, the keyboard or a fault handler. \<open>Multiboot\<close> (\<^verbatim>\<open>multiboot.c\<close>) is what the kernel
    makes of the information the boot loader leaves.
  \<^item> Files. \<open>Vfs\<close> (\<^verbatim>\<open>vfs.c\<close>) calls the drivers of its nodes; \<open>Initrd\<close> (\<^verbatim>\<open>vfs_initrd.c\<close> and
    \<^verbatim>\<open>mkinitrd/main.c\<close>) is the ram disk and the program that writes it; \<open>AtaPio\<close> (\<^verbatim>\<open>ata_pio.c\<close>) is the disk
    driver over its ports. \<open>Bytes\<close>, \<open>Ext2\<close>, \<open>Ext2_Disk\<close>, \<open>Ext2_Dir\<close> are the ext2 file system
    (\<^verbatim>\<open>ext2.c\<close>): its structures as bytes, inodes and blocks on the disk, directories; \<open>Ext2_Vfs\<close>
    (\<^verbatim>\<open>ext2_vfs.c\<close>) makes nodes of the virtual file system from them.
  \<^item> Buses. \<open>Pci\<close> (\<^verbatim>\<open>pci.c\<close>, \<^verbatim>\<open>ide.c\<close>) scans the bus, looks vendors up and starts the drivers, of which the
    one for IDE controllers starts the disk driver.
  \<^item> Lisp. \<open>Lisp_Values\<close> has values and lists (\<^verbatim>\<open>lisp.c\<close>, \<^verbatim>\<open>lisp.h\<close>), \<open>Lisp_Stream\<close> the input streams
    (\<^verbatim>\<open>istream.c\<close>), \<open>Lisp_Reader\<close> the reader and the printer over them, \<open>Lisp_GC\<close> the collector
    (\<^verbatim>\<open>gc.c\<close>) and \<open>Lisp_Std\<close> the functions that Lisp programs call (\<^verbatim>\<open>lib/std.c\<close>, \<^verbatim>\<open>lib/classes.c\<close>).

  Each theory has first the state, as records with the fields of the code's structures and variables,
  then one definition for each function, named like it; a loop or a block of a long function is a
  definition of its own. Lemmas follow, and the properties come last, each with a witness that
  applies it where its hypotheses hold.

  \<^bold>\<open>How C becomes HOL.\<close> Integers are words of their width. A call gives \<open>Inr\<close> of its value and the new
  state, or \<open>Inl\<close> of a fault: a panic, an access outside an array or to memory that is not mapped, a
  null pointer that is followed, a division by zero. No definition has fuel. A loop that may run for ever
  is a \<open>partial_function\<close>, whose value is then \<open>None\<close>, or a \<open>while_option\<close> that turns into the
  fault \<open>Hang\<close>; every property that says a function returns says so of that value. What the
  code gets from outside is a parameter: the bytes and words of ports, what fresh or uninitialised
  memory holds, the addresses that \<open>malloc\<close> gives to the file system and to Lisp (\<open>free_addrs\<close>, in order),
  the frames on the stack and the registers that the collector walks over, the addresses of the
  linker's symbols, the words an argument list holds.

  \<^bold>\<open>Interfaces.\<close> A locale states what one part relies on in another, and its interpretation proves it of
  the definitions above:
  \<^item> \<open>gap_store\<close>, what the allocator needs of the gaps, on the heap of \<open>Kheap\<close>;
  \<^item> \<open>bit_store\<close>, \<open>bit_picker\<close> and \<open>bit_clearer\<close>, a bitmap allocator, on the frames of \<open>Paging\<close> and, as a
    sublocale, on the bitmaps of ext2;
  \<^item> \<open>block_device\<close>, a disk by sectors, on the disk driver run on a controller; \<open>fs_disk\<close> and \<open>fs_kernel\<close>,
    which extend it with the operations of the file system driver and of the kernel around it, on the same;
  \<^item> \<open>config_space\<close>, registers of the PCI bus that reading does not change, on the configuration mechanism;
  \<^item> \<open>char_stream\<close>, a stream of characters with a position, on the string and on the file streams.

  \<^bold>\<open>What is shown.\<close> The heap keeps its order and its multiset of gaps; \<open>malloc\<close> and \<open>free\<close> change exactly the
  block they are about; a frame is the lowest free one; the console and \<open>kprintf\<close> stay in their
  arrays; the boot code gives each interrupt its gate and its handler, and a tick of the timer goes to the next
  task in the list's cyclic order that can run, with the old context saved. Sectors, inodes, files and names
  that are written are read back, a tree of ext2 directories becomes the same tree of nodes, and the ram
  disk that \<open>mkinitrd\<close> writes is the one the kernel reads. What the Lisp printer prints of an
  expression the reader reads back, a collection leaves exactly the objects that are reached, and the
  functions on lists and numbers do what they should. The properties that state faults are about the
  code as it is: lookups that do not return, a scan of the bus that starts drivers for absent devices, locks that are never acquired, a scheduler that loops when every
  task waits, writes behind a buffer, a collector that stops collecting.

  \<^bold>\<open>Not modelled.\<close>
  \<^item> Assembly (\<^verbatim>\<open>boot.s\<close>, the stubs of \<^verbatim>\<open>idt.s\<close> and \<^verbatim>\<open>irq.s\<close>, \<^verbatim>\<open>switch_table.s\<close>), the translation of addresses by the
    processor and the TLB, and interrupts that come in the middle of a function.
  \<^item> The rest of \<^verbatim>\<open>main.c\<close>: it calls the parts in order and prints what they find.
  \<^item> The Lisp compiler (\<^verbatim>\<open>compiler.dasc\<close>) emits machine code through DynASM, which is not in the
    repository; compiled functions are a parameter of \<open>Lisp_Std\<close>. \<^verbatim>\<open>error.c\<close> and \<^verbatim>\<open>main.c\<close> of Lisp print.
  \<^item> The RISC-V port writes a greeting to a serial port; \<^verbatim>\<open>ahci.c\<close> and \<^verbatim>\<open>bf_sso.c\<close> are empty.
  \<^item> Functions that only print for debugging, and the tests compiled on demand.
\<close>

end
